(* ===== verification/Adapter_Prelude.thy ===== *)
theory Adapter_Prelude
  imports Main "HOL-Library.Word" "HOL-Library.Monad_Syntax"
begin

unbundle bit_operations_syntax

text \<open>
  Shared vocabulary of the development: the machine types of the C and C++ sources, the memory
  reads of a byte buffer, and the generic lemmas on lists, options and words that the component
  theories use.

  Undefined behaviour is a value of the model: an operation that reads or writes outside its
  buffer, or shifts by at least the width of its operand, returns \<open>None\<close> (type \<open>'a option\<close>), and
  the safety properties state that it never does.
\<close>

section \<open>Machine types\<close>

type_synonym u8 = "8 word"
type_synonym u16 = "16 word"
type_synonym u32 = "32 word"
type_synonym u64 = "64 word"
type_synonym bytes = "u8 list"

text \<open>
  \<open>int64_t\<close> and \<open>double\<close> values are kept as their 64 bits; \<open>sint\<close> reads an \<open>int64_t\<close>. \<open>int\<close> is the
  unbounded integer with the conversion to a 32-bit \<open>int\<close> written out where the source casts.
\<close>

type_synonym i64 = "64 word"
type_synonym double = "64 word"
type_synonym float = "32 word"

definition int32_of :: "int \<Rightarrow> int" where
  "int32_of x = sint (word_of_int x :: 32 word)"

lemma int32_of_small: "- (2 ^ 31) \<le> x \<Longrightarrow> x < 2 ^ 31 \<Longrightarrow> int32_of x = x"
  by (simp only: int32_of_def sint_sbintrunc' len_num0) (simp add: signed_take_bit_int_eq_self)

lemma int32_of_range: "- (2 ^ 31) \<le> int32_of x" "int32_of x < 2 ^ 31"
  using sint_range_size [of "word_of_int x :: 32 word"] by (simp_all add: int32_of_def word_size)

named_theorems mem_simps \<open>reads of a byte buffer\<close>

section \<open>Memory reads\<close>

definition rd8 :: "bytes \<Rightarrow> nat \<Rightarrow> u8 option" where
  "rd8 mem i = (if i < length mem then Some (mem ! i) else None)"

definition rdn :: "bytes \<Rightarrow> nat \<Rightarrow> nat \<Rightarrow> bytes option" where
  "rdn mem p n = (if p + n \<le> length mem then Some (take n (drop p mem)) else None)"

text \<open>\<open>row[i] = c\<close> on a vector: a write past its end is undefined.\<close>

definition wr_at :: "'a list \<Rightarrow> nat \<Rightarrow> 'a \<Rightarrow> 'a list option" where
  "wr_at xs i c = (if i < length xs then Some (xs[i := c]) else None)"

lemma rd8_Some [mem_simps]: "i < length mem \<Longrightarrow> rd8 mem i = Some (mem ! i)"
  by (simp add: rd8_def)

lemma rd8_eq_Some: "rd8 mem i = Some b \<longleftrightarrow> i < length mem \<and> b = mem ! i"
  by (auto simp: rd8_def)

lemma rdn_Some [mem_simps]: "p + n \<le> length mem \<Longrightarrow> rdn mem p n = Some (take n (drop p mem))"
  by (simp add: rdn_def)

lemma rdn_eq_Some: "rdn mem p n = Some bs \<longleftrightarrow> p + n \<le> length mem \<and> bs = take n (drop p mem)"
  by (auto simp: rdn_def)

lemma rdn_length: "rdn mem p n = Some bs \<Longrightarrow> length bs = n"
  by (auto simp: rdn_def split: if_splits)

text \<open>
  A read that succeeds is not affected by bytes appended behind the buffer, and a read at
  \<open>k + i\<close> is a read at \<open>i\<close> of the buffer with its first \<open>k\<close> bytes erased.
\<close>

lemma rd8_append [mem_simps]: "i < length mem \<Longrightarrow> rd8 (mem @ ext) i = rd8 mem i"
  by (simp add: rd8_def nth_append)

lemma rd8_mono: "rd8 mem i = Some b \<Longrightarrow> rd8 (mem @ ext) i = Some b"
  by (auto simp: rd8_eq_Some nth_append)

lemma rdn_append [mem_simps]: "p + n \<le> length mem \<Longrightarrow> rdn (mem @ ext) p n = rdn mem p n"
  by (simp add: rdn_def)

lemma rd8_drop: "k \<le> length mem \<Longrightarrow> rd8 (drop k mem) i = rd8 mem (k + i)"
  by (auto simp: rd8_def)

lemma rdn_drop: "k \<le> length mem \<Longrightarrow> rdn (drop k mem) p n = rdn mem (k + p) n"
  by (auto simp: rdn_def ac_simps)

lemma wr_at_Some [mem_simps]: "i < length xs \<Longrightarrow> wr_at xs i c = Some (xs[i := c])"
  by (simp add: wr_at_def)

lemma wr_at_length: "wr_at xs i c = Some ys \<Longrightarrow> length ys = length xs"
  by (auto simp: wr_at_def split: if_splits)

section \<open>Options as possibly undefined computations\<close>

lemma bind_Some_iff: "Option.bind m f = Some y \<longleftrightarrow> (\<exists>x. m = Some x \<and> f x = Some y)"
  by (cases m) auto

lemma bind_Some_mono:
  "Option.bind m g = Some y \<Longrightarrow> (\<And>v. m = Some v \<Longrightarrow> m' = Some v) \<Longrightarrow> Option.bind m' g = Some y"
  by (cases m) auto

lemma bind_Some_mono2:
  "Option.bind m g = Some y \<Longrightarrow> (\<And>v. m = Some v \<Longrightarrow> m' = Some v) \<Longrightarrow>
   (\<And>v. g v = Some y \<Longrightarrow> g' v = Some y) \<Longrightarrow> Option.bind m' g' = Some y"
  by (cases m) auto

lemma bind_not_None: "m = Some x \<Longrightarrow> Option.bind m f = f x"
  by simp

section \<open>Vectors\<close>

text \<open>\<open>std::vector::resize\<close> to a larger size: default elements are appended.\<close>

definition resize_up :: "'a \<Rightarrow> nat \<Rightarrow> 'a list \<Rightarrow> 'a list" where
  "resize_up d n xs = (if length xs < n then xs @ replicate (n - length xs) d else xs)"

lemma length_resize_up [simp]: "length (resize_up d n xs) = max n (length xs)"
  by (auto simp: resize_up_def)

section \<open>Lists of equal parts\<close>

lemma length_concat_const: "\<forall>r \<in> set rs. length r = n \<Longrightarrow> length (concat rs) = length rs * n"
  by (induction rs) auto

lemma drop_concat_const:
  "\<forall>r \<in> set rs. length r = n \<Longrightarrow> i < length rs \<Longrightarrow>
     drop (i * n) (concat rs) = rs ! i @ concat (drop (Suc i) rs)"
  by (induction rs arbitrary: i) (auto simp: nth_Cons drop_append split: nat.splits)

section \<open>Words\<close>

lemma unat_ucast_le: "unat (ucast (w :: 'a::len word) :: 'b::len word) \<le> unat w"
  by (simp add: unsigned_ucast_eq)

lemma unat_ucast_up: "LENGTH('a) \<le> LENGTH('b) \<Longrightarrow> unat (ucast (w :: 'a::len word) :: 'b::len word) = unat w"
  by (simp add: unsigned_ucast_eq take_bit_nat_eq_self_iff)
     (meson less_le_trans one_le_numeral power_increasing unsigned_less)

lemma unat_of_nat_small: "x < 2 ^ LENGTH('a) \<Longrightarrow> unat (word_of_nat x :: 'a::len word) = x"
  by (simp add: unsigned_of_nat take_bit_nat_eq_self)

lemma u8_lt_256 [simp]: "unat (b :: u8) < 256"
  using unsigned_less [of b] by simp

end
