(* ===== verification/Float_Bits.thy ===== *)
theory Float_Bits
  imports Adapter_Prelude
begin

text \<open>
  IEEE-754 conversions on bit patterns, as the C++ casts \<open>(double)f\<close>, \<open>(float)d\<close> and \<open>(double)i\<close>
  perform them in the default rounding mode (to nearest, ties to even). A \<open>float\<close> is its 32 bits,
  a \<open>double\<close> its 64 bits. A NaN keeps its sign and the leading payload bits and becomes quiet.

  The frame codec widens every FLOAT32 field to a \<open>double\<close> and the writer narrows it again for a
  4-byte column: \<open>f64_to_f32_to_f64\<close> shows that the bits survive.
\<close>

section \<open>Helpers on natural numbers\<close>

fun top_bit :: "nat \<Rightarrow> nat" where
  "top_bit n = (if n < 2 then 0 else Suc (top_bit (n div 2)))"

declare top_bit.simps [simp del]

definition rne_shift :: "nat \<Rightarrow> nat \<Rightarrow> nat" where
  "rne_shift sig sh =
     (if sh = 0 then sig
      else let q = sig div 2 ^ sh; r = sig mod 2 ^ sh; half = 2 ^ (sh - 1)
           in if half < r \<or> (r = half \<and> odd q) then q + 1 else q)"

definition f32_sign :: "float \<Rightarrow> nat" where "f32_sign w = unat w div 2 ^ 31"
definition f32_exp :: "float \<Rightarrow> nat" where "f32_exp w = unat w div 2 ^ 23 mod 256"
definition f32_frac :: "float \<Rightarrow> nat" where "f32_frac w = unat w mod 2 ^ 23"
definition f64_sign :: "double \<Rightarrow> nat" where "f64_sign w = unat w div 2 ^ 63"
definition f64_exp :: "double \<Rightarrow> nat" where "f64_exp w = unat w div 2 ^ 52 mod 2048"
definition f64_frac :: "double \<Rightarrow> nat" where "f64_frac w = unat w mod 2 ^ 52"

definition mk_f32 :: "nat \<Rightarrow> nat \<Rightarrow> float" where
  "mk_f32 s body = word_of_nat (s * 2 ^ 31 + body)"

definition mk_f64 :: "nat \<Rightarrow> nat \<Rightarrow> nat \<Rightarrow> double" where
  "mk_f64 s e m = word_of_nat (s * 2 ^ 63 + e * 2 ^ 52 + m)"

definition is_nan32 :: "float \<Rightarrow> bool" where
  "is_nan32 w \<longleftrightarrow> f32_exp w = 255 \<and> f32_frac w \<noteq> 0"

section \<open>The casts\<close>

definition f32_to_f64 :: "float \<Rightarrow> double" where
  "f32_to_f64 w =
     (let s = f32_sign w; e = f32_exp w; m = f32_frac w
      in if e = 255 then
           (if m = 0 then mk_f64 s 2047 0
            else mk_f64 s 2047 (if m < 2 ^ 22 then m * 2 ^ 29 + 2 ^ 51 else m * 2 ^ 29))
         else if e = 0 then
           (if m = 0 then mk_f64 s 0 0
            else let k = top_bit m in mk_f64 s (k + 874) ((m - 2 ^ k) * 2 ^ (52 - k)))
         else mk_f64 s (e + 896) (m * 2 ^ 29))"

definition f64_to_f32 :: "double \<Rightarrow> float" where
  "f64_to_f32 w =
     (let s = f64_sign w; e = f64_exp w; m = f64_frac w
      in if e = 2047 then
           (if m = 0 then mk_f32 s (255 * 2 ^ 23)
            else let t = m div 2 ^ 29
                 in mk_f32 s (255 * 2 ^ 23 + (if t < 2 ^ 22 then t + 2 ^ 22 else t)))
         else if 1151 \<le> e then mk_f32 s (255 * 2 ^ 23)
         else if 897 \<le> e then mk_f32 s ((e - 897) * 2 ^ 23 + rne_shift (2 ^ 52 + m) 29)
         else if e = 0 then mk_f32 s (rne_shift m 925)
         else mk_f32 s (rne_shift (2 ^ 52 + m) (926 - e)))"

definition i64_to_f64 :: "i64 \<Rightarrow> double" where
  "i64_to_f64 w =
     (let x = sint w; s = (if x < 0 then 1 else 0); mag = nat \<bar>x\<bar>
      in if mag = 0 then 0
         else let k = top_bit mag
              in if k \<le> 52 then mk_f64 s (k + 1023) ((mag - 2 ^ k) * 2 ^ (52 - k))
                 else mk_f64 s (k + 1022) (rne_shift mag (k - 52)))"

section \<open>Lemmas\<close>

lemma top_bit_bounds: "0 < n \<Longrightarrow> 2 ^ top_bit n \<le> n \<and> n < 2 ^ Suc (top_bit n)"
proof (induction n rule: top_bit.induct)
  case (1 n)
  show ?case
  proof (cases "n < 2")
    case True
    with "1.prems" show ?thesis by (simp add: top_bit.simps)
  next
    case False
    with "1.IH" have "2 ^ top_bit (n div 2) \<le> n div 2 \<and> n div 2 < 2 ^ Suc (top_bit (n div 2))"
      by simp
    with False show ?thesis by (simp add: top_bit.simps [of n]) linarith
  qed
qed

lemma top_bit_less: "0 < n \<Longrightarrow> n < 2 ^ j \<Longrightarrow> top_bit n < j"
  using top_bit_bounds [of n] by (metis le_less_trans nat_power_less_imp_less zero_less_numeral)

lemma rne_shift_exact: "rne_shift (q * 2 ^ sh) sh = q"
  by (simp add: rne_shift_def)

lemma f32_sign_less: "f32_sign w < 2"
proof -
  have "unat w < 2 ^ 32" using unsigned_less [of w] by simp
  then have "unat w < 2 * 2 ^ 31" by simp
  then show ?thesis unfolding f32_sign_def by (rule less_mult_imp_div_less)
qed

lemma f32_decompose: "unat w = f32_sign w * 2 ^ 31 + f32_exp w * 2 ^ 23 + f32_frac w"
proof -
  have "unat w div 2 ^ 31 = unat w div 2 ^ 23 div 256"
    by (simp add: div_mult2_eq [symmetric])
  then have "f32_sign w * 256 + f32_exp w = unat w div 2 ^ 23"
    by (simp add: f32_sign_def f32_exp_def)
  then have "unat w = (f32_sign w * 256 + f32_exp w) * 2 ^ 23 + f32_frac w"
    by (simp add: f32_frac_def)
  then show ?thesis by (simp add: algebra_simps)
qed

lemma mk_f64_fields:
  assumes "s < 2" "e < 2048" "m < 2 ^ 52"
  shows "f64_sign (mk_f64 s e m) = s" "f64_exp (mk_f64 s e m) = e" "f64_frac (mk_f64 s e m) = m"
proof -
  have bound: "s * 2 ^ 63 + e * 2 ^ 52 + m < 2 ^ 64"
    using assms by simp
  then have u: "unat (mk_f64 s e m) = s * 2 ^ 63 + e * 2 ^ 52 + m"
    unfolding mk_f64_def by (intro unat_of_nat_small) simp
  have shape: "unat (mk_f64 s e m) = (s * 2048 + e) * 2 ^ 52 + m" using u by simp
  then have d: "unat (mk_f64 s e m) div 2 ^ 52 = s * 2048 + e"
    using assms(3) by simp
  show "f64_frac (mk_f64 s e m) = m"
    using assms(3) unfolding f64_frac_def shape by (simp only: mod_mult_self3 mod_less)
  show "f64_exp (mk_f64 s e m) = e"
    using assms(2) d by (simp add: f64_exp_def)
  have "unat (mk_f64 s e m) div 2 ^ 63 = unat (mk_f64 s e m) div 2 ^ 52 div 2048"
    by (simp add: div_mult2_eq [symmetric])
  then show "f64_sign (mk_f64 s e m) = s"
    using assms(2) d by (simp add: f64_sign_def)
qed

lemma mk_f32_decompose: "mk_f32 (f32_sign w) (f32_exp w * 2 ^ 23 + f32_frac w) = w"
proof -
  have "f32_sign w * 2 ^ 31 + (f32_exp w * 2 ^ 23 + f32_frac w) = unat w"
    by (simp only: f32_decompose add.assoc)
  then show ?thesis by (simp add: mk_f32_def)
qed

lemma f64_to_f32_mk:
  assumes "s < 2" "e < 2048" "m < 2 ^ 52"
  shows "f64_to_f32 (mk_f64 s e m) =
    (if e = 2047 then
       (if m = 0 then mk_f32 s (255 * 2 ^ 23)
        else let t = m div 2 ^ 29
             in mk_f32 s (255 * 2 ^ 23 + (if t < 2 ^ 22 then t + 2 ^ 22 else t)))
     else if 1151 \<le> e then mk_f32 s (255 * 2 ^ 23)
     else if 897 \<le> e then mk_f32 s ((e - 897) * 2 ^ 23 + rne_shift (2 ^ 52 + m) 29)
     else if e = 0 then mk_f32 s (rne_shift m 925)
     else mk_f32 s (rne_shift (2 ^ 52 + m) (926 - e)))"
  unfolding f64_to_f32_def mk_f64_fields [OF assms] Let_def ..

lemma subnormal_significand:
  assumes "0 < m" "m < 2 ^ 23"
  shows "2 ^ 52 + (m - 2 ^ top_bit m) * 2 ^ (52 - top_bit m) = m * 2 ^ (52 - top_bit m)"
    and "(m - 2 ^ top_bit m) * 2 ^ (52 - top_bit m) < 2 ^ 52"
proof -
  define k where "k = top_bit m"
  have k: "k < 23" and lo: "2 ^ k \<le> m" and hi: "m < 2 ^ Suc k"
    using top_bit_less [OF assms] top_bit_bounds [OF assms(1)] by (auto simp: k_def)
  have split: "(2::nat) ^ 52 = 2 ^ k * 2 ^ (52 - k)"
    using k by (simp add: power_add [symmetric])
  have "2 ^ k * 2 ^ (52 - k) + (m - 2 ^ k) * 2 ^ (52 - k) = (2 ^ k + (m - 2 ^ k)) * 2 ^ (52 - k)"
    by (simp only: distrib_right)
  also have "2 ^ k + (m - 2 ^ k) = m" using lo by simp
  finally show "2 ^ 52 + (m - 2 ^ top_bit m) * 2 ^ (52 - top_bit m) = m * 2 ^ (52 - top_bit m)"
    unfolding split k_def [symmetric] by simp
  have "m - 2 ^ k < 2 ^ k" using lo hi by simp
  then show "(m - 2 ^ top_bit m) * 2 ^ (52 - top_bit m) < 2 ^ 52"
    unfolding split k_def [symmetric] by simp
qed

lemma f32_to_f64_to_f32_subnormal:
  assumes "f32_exp w = 0" "f32_frac w \<noteq> 0"
  shows "f64_to_f32 (f32_to_f64 w) = w"
proof -
  define m where "m = f32_frac w"
  define k where "k = top_bit m"
  have m: "0 < m" "m < 2 ^ 23" using assms by (simp_all add: m_def f32_frac_def)
  have k: "k < 23" using top_bit_less [OF m] by (simp add: k_def)
  have sig: "2 ^ 52 + (m - 2 ^ k) * 2 ^ (52 - k) = m * 2 ^ (52 - k)"
    and frac: "(m - 2 ^ k) * 2 ^ (52 - k) < 2 ^ 52"
    using subnormal_significand [OF m] by (simp_all add: k_def)
  have "f32_to_f64 w = mk_f64 (f32_sign w) (k + 874) ((m - 2 ^ k) * 2 ^ (52 - k))"
    using assms by (simp add: f32_to_f64_def m_def k_def Let_def)
  also have "f64_to_f32 \<dots> = mk_f32 (f32_sign w) (rne_shift (m * 2 ^ (52 - k)) (926 - (k + 874)))"
    using f64_to_f32_mk [OF f32_sign_less _ frac, of "k + 874" w] k unfolding sig by simp
  also have "926 - (k + 874) = 52 - k" by simp
  also have "mk_f32 (f32_sign w) (rne_shift (m * 2 ^ (52 - k)) (52 - k)) = w"
    using mk_f32_decompose [of w] assms by (simp add: rne_shift_exact m_def)
  finally show ?thesis .
qed

lemma f32_to_f64_to_f32_normal:
  assumes "f32_exp w \<noteq> 0" "f32_exp w \<noteq> 255"
  shows "f64_to_f32 (f32_to_f64 w) = w"
proof -
  define e where "e = f32_exp w"
  have e: "0 < e" "e < 255"
    using assms mod_less_divisor [of 256 "unat w div 2 ^ 23"] unfolding e_def f32_exp_def
    by linarith+
  have m: "f32_frac w * 2 ^ 29 < 2 ^ 52" by (simp add: f32_frac_def)
  have "2 ^ 52 + f32_frac w * 2 ^ 29 = (2 ^ 23 + f32_frac w) * 2 ^ 29" by simp
  then have r: "rne_shift (2 ^ 52 + f32_frac w * 2 ^ 29) 29 = 2 ^ 23 + f32_frac w"
    by (simp only: rne_shift_exact)
  have "f32_to_f64 w = mk_f64 (f32_sign w) (e + 896) (f32_frac w * 2 ^ 29)"
    using assms by (simp add: f32_to_f64_def e_def Let_def)
  also have "f64_to_f32 \<dots> = mk_f32 (f32_sign w) ((e + 896 - 897) * 2 ^ 23 + (2 ^ 23 + f32_frac w))"
    using f64_to_f32_mk [OF f32_sign_less _ m, of "e + 896" w] e unfolding r by simp
  also have "(e + 896 - 897) * 2 ^ 23 + (2 ^ 23 + f32_frac w) = e * 2 ^ 23 + f32_frac w"
    using e by (cases e) auto
  finally show ?thesis using mk_f32_decompose [of w] by (simp add: e_def)
qed

lemma f64_to_f32_to_f64: "\<not> is_nan32 w \<Longrightarrow> f64_to_f32 (f32_to_f64 w) = w"
proof -
  assume nan: "\<not> is_nan32 w"
  consider (inf) "f32_exp w = 255" "f32_frac w = 0" | (zero) "f32_exp w = 0" "f32_frac w = 0"
    | (sub) "f32_exp w = 0" "f32_frac w \<noteq> 0" | (norm) "f32_exp w \<noteq> 0" "f32_exp w \<noteq> 255"
    using nan by (auto simp: is_nan32_def)
  then show ?thesis
  proof cases
    case inf
    then have "f32_to_f64 w = mk_f64 (f32_sign w) 2047 0" by (simp add: f32_to_f64_def Let_def)
    then show ?thesis
      using inf mk_f32_decompose [of w] f64_to_f32_mk [OF f32_sign_less, of 2047 0 w] by simp
  next
    case zero
    then have "f32_to_f64 w = mk_f64 (f32_sign w) 0 0" by (simp add: f32_to_f64_def Let_def)
    then show ?thesis
      using zero mk_f32_decompose [of w] f64_to_f32_mk [OF f32_sign_less, of 0 0 w]
      by (simp add: rne_shift_def)
  next
    case sub
    then show ?thesis by (rule f32_to_f64_to_f32_subnormal)
  next
    case norm
    then show ?thesis by (rule f32_to_f64_to_f32_normal)
  qed
qed

end
