(* ===== verification/Device_Model.thy ===== *)
theory Device_Model
  imports Float_Bits
begin

text \<open>
  The run-time device and protocol model of \<open>src/src/adapter/DeviceModel.h\<close>: field, frame and
  device descriptions, the peer group of one \<open>(ip, device_port)\<close> endpoint, and the lookups on them.

  A pointer to a \<open>DeviceDesc\<close> is the described value; \<open>dd_addr\<close> is its address (its position in
  \<open>ConfigDB::_devices\<close>), so two pointers are equal when their \<open>dd_addr\<close> are. The union inside
  \<open>Cell\<close> is its 64 bits.
\<close>

section \<open>Enumerations\<close>

datatype field_kind = IntSigned | IntUnsigned | Float32 | Float64 | Bool

definition CONN_CUSTOM_DATA :: int where "CONN_CUSTOM_DATA = 1"
definition CONN_MODBUS :: int where "CONN_MODBUS = 2"
definition CONN_HTTP :: int where "CONN_HTTP = 3"
definition CONN_MQTT :: int where "CONN_MQTT = 4"

lemmas conn_defs = CONN_CUSTOM_DATA_def CONN_MODBUS_def CONN_HTTP_def CONN_MQTT_def

section \<open>Cells, fields, frames, devices, groups\<close>

record cell =
  cell_v :: u64
  cell_isNull :: u8

text \<open>
  \<open>Cell()\<close>: value-initialisation zeroes the union before the default member initialiser of
  \<open>isNull\<close> runs (the constructor is not user-provided).
\<close>

definition cell_default :: cell where
  "cell_default = \<lparr>cell_v = 0, cell_isNull = 0\<rparr>"

record field_desc =
  fd_name :: string
  fd_unit :: string
  fd_kind :: field_kind
  fd_size :: u8
  fd_byteOffset :: u32
  fd_bitOffset :: u8
  fd_bitLen :: u8
  fd_precision :: int
  fd_outSize :: u8
  fd_bindType :: int
  fd_colType :: string
  fd_asDouble :: bool

record frame_spec =
  fs_dataProtoId :: int
  fs_frameType :: int
  fs_frameLen :: int
  fs_startFlag :: u8
  fs_endFlag :: u8
  fs_endian :: int
  fs_payloadMin :: u32
  fs_slaveAddr :: int
  fs_funCode :: int
  fs_startAddr :: int
  fs_addrNum :: int
  fs_fields :: "field_desc list"

definition frame_spec_default :: frame_spec where
  "frame_spec_default =
     \<lparr>fs_dataProtoId = 0, fs_frameType = 0, fs_frameLen = 0, fs_startFlag = 0, fs_endFlag = 0,
      fs_endian = 0, fs_payloadMin = 0, fs_slaveAddr = 0, fs_funCode = 0, fs_startAddr = -1,
      fs_addrNum = 0, fs_fields = []\<rparr>"

definition hasModbusRequest :: "frame_spec \<Rightarrow> bool" where
  "hasModbusRequest s \<longleftrightarrow> 0 \<le> fs_startAddr s \<and> 0 < fs_addrNum s"

definition isModbusHeaderLen :: "frame_spec \<Rightarrow> bool" where
  "isModbusHeaderLen s \<longleftrightarrow>
     fs_frameType s = 0 \<or> fs_frameType s = 2 \<or> fs_frameType s = 7 \<or> fs_frameType s = 9"

record device_desc =
  dd_addr :: nat
  dd_deviceId :: string
  dd_deviceName :: string
  dd_ip :: string
  dd_devicePort :: u16
  dd_connProto :: int
  dd_localServerPort :: u16
  dd_dataProtoId :: int
  dd_endian :: int
  dd_spec :: frame_spec
  dd_group :: "nat option"
  dd_isEvent :: bool
  dd_eventType :: int
  dd_immediateFlush :: bool

definition fieldCount :: "device_desc \<Rightarrow> nat" where
  "fieldCount d = length (fs_fields (dd_spec d))"

definition bigEndian :: "device_desc \<Rightarrow> bool" where
  "bigEndian d = (let e = (if dd_endian d \<noteq> 0 then dd_endian d else fs_endian (dd_spec d)) in e \<noteq> 0)"

definition modbusBigEndian :: "device_desc \<Rightarrow> bool" where
  "modbusBigEndian d =
     (let e = (if dd_endian d \<noteq> 0 then dd_endian d else fs_endian (dd_spec d)) in e \<noteq> 1)"

record device_group =
  dg_key :: string
  dg_members :: "device_desc list"

definition primary :: "device_group \<Rightarrow> device_desc option" where
  "primary g = (case dg_members g of [] \<Rightarrow> None | d # _ \<Rightarrow> Some d)"

definition byFrameType :: "device_group \<Rightarrow> int \<Rightarrow> device_desc option" where
  "byFrameType g ft = find (\<lambda>d. fs_frameType (dd_spec d) = ft) (dg_members g)"

lemma byFrameType_member:
  "byFrameType g ft = Some d \<Longrightarrow> d \<in> set (dg_members g) \<and> fs_frameType (dd_spec d) = ft"
  by (auto simp: byFrameType_def find_Some_iff)

section \<open>Well-formed frame specifications\<close>

text \<open>
  What \<open>ConfigDB::loadFields\<close> establishes for every field it stores: the width is the one
  \<open>mapFieldType\<close> gives for the kind, a bit field lies inside its field, and \<open>payloadMin\<close> is an
  upper bound of every \<open>byteOffset + size\<close> computed in 32 bits.
\<close>

definition field_width_ok :: "field_desc \<Rightarrow> bool" where
  "field_width_ok f \<longleftrightarrow>
     (case fd_kind f of
        Float32 \<Rightarrow> fd_size f = 4
      | Float64 \<Rightarrow> fd_size f = 8
      | Bool \<Rightarrow> fd_size f = 1
      | _ \<Rightarrow> fd_size f \<in> {1, 2, 4, 8})"

definition field_bits_ok :: "field_desc \<Rightarrow> bool" where
  "field_bits_ok f \<longleftrightarrow>
     (0 < fd_bitLen f \<longrightarrow> unat (fd_bitOffset f) + unat (fd_bitLen f) \<le> unat (fd_size f) * 8)"

definition field_ok :: "field_desc \<Rightarrow> bool" where
  "field_ok f \<longleftrightarrow> field_width_ok f \<and> field_bits_ok f"

definition spec_ok :: "frame_spec \<Rightarrow> bool" where
  "spec_ok s \<longleftrightarrow>
     (\<forall>f \<in> set (fs_fields s). field_ok f \<and> fd_byteOffset f + ucast (fd_size f) \<le> fs_payloadMin s)"

lemma field_ok_size: "field_ok f \<Longrightarrow> 0 < unat (fd_size f) \<and> unat (fd_size f) \<le> 8"
  by (auto simp: field_ok_def field_width_ok_def split: field_kind.splits)

lemma spec_okD:
  "spec_ok s \<Longrightarrow> f \<in> set (fs_fields s) \<Longrightarrow>
     field_ok f \<and> fd_byteOffset f + ucast (fd_size f) \<le> fs_payloadMin s"
  by (simp add: spec_ok_def)

end
