(* ===== verification/Field_Decode.thy ===== *)
theory Field_Decode
  imports Device_Model
begin

text \<open>
  Field decoding of \<open>src/src/adapter/FrameCodec.cpp\<close> (lines 26 to 126): the byte-order aware loads,
  sign extension, bit fields, and \<open>decodePayload\<close>, which turns the payload bytes of one record into
  one row. Every load goes through \<open>rd8\<close>/\<open>rdn\<close>, a shift by at least 64 bits and a write past the row
  are \<open>None\<close>: the safety lemmas show that none of it happens for a specification that satisfies
  \<open>spec_ok\<close>, and \<open>decodePayload_row\<close> gives the row in closed form.

  The host is little endian, as the \<open>memcpy\<close> of the float loads assumes.
\<close>

section \<open>Loads\<close>

fun loadRaw_be :: "u64 \<Rightarrow> bytes \<Rightarrow> u64" where
  "loadRaw_be v [] = v"
| "loadRaw_be v (b # bs) = loadRaw_be (push_bit 8 v OR ucast b) bs"

fun loadRaw_le :: "nat \<Rightarrow> u64 \<Rightarrow> bytes \<Rightarrow> u64 option" where
  "loadRaw_le i v [] = Some v"
| "loadRaw_le i v (b # bs) =
     (if 64 \<le> 8 * i then None
      else loadRaw_le (Suc i) (v OR push_bit (8 * i) (ucast b)) bs)"

definition loadRaw :: "bytes \<Rightarrow> nat \<Rightarrow> u8 \<Rightarrow> bool \<Rightarrow> u64 option" where
  "loadRaw mem p sz be =
     do {
       bs \<leftarrow> rdn mem p (unat sz);
       if be then Some (loadRaw_be 0 bs) else loadRaw_le 0 0 bs
     }"

definition signExtend :: "u64 \<Rightarrow> nat \<Rightarrow> i64 option" where
  "signExtend v bits =
     (if 64 \<le> bits then Some v
      else if bits = 0 then None
      else let m = push_bit (bits - 1) 1 in Some ((v XOR m) - m))"

definition decodeInt :: "bytes \<Rightarrow> nat \<Rightarrow> field_desc \<Rightarrow> bool \<Rightarrow> i64 option" where
  "decodeInt mem p f be =
     do {
       v \<leftarrow> loadRaw mem p (fd_size f) be;
       if 0 < fd_bitLen f then
         (let mask = (if 64 \<le> unat (fd_bitLen f) then NOT 0
                      else push_bit (unat (fd_bitLen f)) 1 - 1)
          in if 64 \<le> unat (fd_bitOffset f) then None
             else let v' = drop_bit (unat (fd_bitOffset f)) v AND mask
                  in if fd_kind f = IntSigned then signExtend v' (unat (fd_bitLen f)) else Some v')
       else if fd_kind f = IntSigned then signExtend v (unat (fd_size f) * 8)
       else Some v
     }"

text \<open>The 32-bit and 64-bit values that a little-endian \<open>memcpy\<close> reads, and the byte swaps.\<close>

definition le32 :: "bytes \<Rightarrow> u32" where
  "le32 bs = ucast (bs ! 0) OR push_bit 8 (ucast (bs ! 1)) OR push_bit 16 (ucast (bs ! 2)) OR
             push_bit 24 (ucast (bs ! 3))"

definition le64 :: "bytes \<Rightarrow> u64" where
  "le64 bs = ucast (bs ! 0) OR push_bit 8 (ucast (bs ! 1)) OR push_bit 16 (ucast (bs ! 2)) OR
             push_bit 24 (ucast (bs ! 3)) OR push_bit 32 (ucast (bs ! 4)) OR
             push_bit 40 (ucast (bs ! 5)) OR push_bit 48 (ucast (bs ! 6)) OR
             push_bit 56 (ucast (bs ! 7))"

definition swap32 :: "u32 \<Rightarrow> u32" where
  "swap32 bits = push_bit 24 (bits AND 0x000000FF) OR push_bit 8 (bits AND 0x0000FF00) OR
                 drop_bit 8 (bits AND 0x00FF0000) OR drop_bit 24 (bits AND 0xFF000000)"

definition swap64 :: "u64 \<Rightarrow> u64" where
  "swap64 bits =
     push_bit 56 (bits AND 0x00000000000000FF) OR push_bit 40 (bits AND 0x000000000000FF00) OR
     push_bit 24 (bits AND 0x0000000000FF0000) OR push_bit 8 (bits AND 0x00000000FF000000) OR
     drop_bit 8 (bits AND 0x000000FF00000000) OR drop_bit 24 (bits AND 0x0000FF0000000000) OR
     drop_bit 40 (bits AND 0x00FF000000000000) OR drop_bit 56 (bits AND 0xFF00000000000000)"

definition loadFloat32 :: "bytes \<Rightarrow> nat \<Rightarrow> bool \<Rightarrow> double option" where
  "loadFloat32 mem p be =
     do {
       bs \<leftarrow> rdn mem p 4;
       let bits = le32 bs;
       let bits = (if be then swap32 bits else bits);
       Some (f32_to_f64 bits)
     }"

definition loadFloat64 :: "bytes \<Rightarrow> nat \<Rightarrow> bool \<Rightarrow> double option" where
  "loadFloat64 mem p be =
     do {
       bs \<leftarrow> rdn mem p 8;
       let bits = le64 bs;
       Some (if be then swap64 bits else bits)
     }"

section \<open>One record\<close>

text \<open>The body of the \<open>switch\<close> in \<open>decodePayload\<close>: the bits stored into \<open>row[i].v\<close>.\<close>

definition decodeField :: "bytes \<Rightarrow> nat \<Rightarrow> field_desc \<Rightarrow> bool \<Rightarrow> u64 option" where
  "decodeField mem p f be =
     (case fd_kind f of
        Float32 \<Rightarrow> loadFloat32 mem p be
      | Float64 \<Rightarrow> loadFloat64 mem p be
      | Bool \<Rightarrow> do { v \<leftarrow> loadRaw mem p 1 be; Some (if v \<noteq> 0 then 1 else 0) }
      | _ \<Rightarrow> do { raw \<leftarrow> decodeInt mem p f be;
                   Some (if fd_asDouble f then i64_to_f64 raw else raw) })"

text \<open>
  The loop over the fields: \<open>i\<close> is the loop counter, \<open>row\<close> the output vector. The result is the
  returned flag and the row as it was left.
\<close>

fun decodeFields ::
  "bool \<Rightarrow> bytes \<Rightarrow> nat \<Rightarrow> nat \<Rightarrow> nat \<Rightarrow> field_desc list \<Rightarrow> cell list \<Rightarrow> (bool \<times> cell list) option"
where
  "decodeFields be mem payload payloadLen i [] row = Some (True, row)"
| "decodeFields be mem payload payloadLen i (f # fs) row =
     (if payloadLen < unat (fd_byteOffset f) + unat (fd_size f) then Some (False, row)
      else do {
        v \<leftarrow> decodeField mem (payload + unat (fd_byteOffset f)) f be;
        row' \<leftarrow> wr_at row i \<lparr>cell_v = v, cell_isNull = 0\<rparr>;
        decodeFields be mem payload payloadLen (Suc i) fs row'
      })"

definition decodePayload ::
  "frame_spec \<Rightarrow> bool \<Rightarrow> bytes \<Rightarrow> nat \<Rightarrow> nat \<Rightarrow> cell list \<Rightarrow> (bool \<times> cell list) option"
where
  "decodePayload spec be mem payload payloadLen row =
     (if length (fs_fields spec) = 0 then Some (False, row)
      else if payloadLen < unat (fs_payloadMin spec) then Some (False, row)
      else decodeFields be mem payload payloadLen 0 (fs_fields spec) row)"

section \<open>What the loads compute\<close>

text \<open>The unsigned value of bytes on the wire, and two's complement at a width of \<open>n\<close> bits.\<close>

fun wire_be :: "bytes \<Rightarrow> nat" where
  "wire_be [] = 0"
| "wire_be (b # bs) = unat b * 256 ^ length bs + wire_be bs"

definition wire_nat :: "bool \<Rightarrow> bytes \<Rightarrow> nat" where
  "wire_nat be bs = (if be then wire_be bs else wire_be (rev bs))"

definition twos :: "nat \<Rightarrow> nat \<Rightarrow> int" where
  "twos n x = (if x < 2 ^ (n - 1) then int x else int x - 2 ^ n)"

lemma wire_be_snoc: "wire_be (bs @ [b]) = wire_be bs * 256 + unat b"
  by (induction bs) (auto simp: algebra_simps)

lemma wire_be_less: "wire_be bs < 256 ^ length bs"
proof (induction bs)
  case (Cons b bs)
  have "unat b * 256 ^ length bs + wire_be bs < (unat b + 1) * 256 ^ length bs"
    using Cons by simp
  also have "\<dots> \<le> 256 * 256 ^ length bs"
    by (rule mult_le_mono1) (use u8_lt_256 [of b] in linarith)
  finally show ?case by simp
qed simp

lemma wire_nat_less: "wire_nat be bs < 256 ^ length bs"
  using wire_be_less [of bs] wire_be_less [of "rev bs"] by (simp add: wire_nat_def)

lemma ucast_byte: "(ucast (b :: u8) :: u64) = word_of_nat (unat b)"
  by simp

lemma push8_or_byte: "push_bit 8 v OR ucast (b :: u8) = v * 256 + (word_of_nat (unat b) :: u64)"
proof -
  have "push_bit 8 v AND (ucast b :: u64) = 0"
    by (rule bit_eqI) (auto simp: bit_simps dest: bit_imp_le_length)
  then have "push_bit 8 v OR ucast b = push_bit 8 v + (ucast b :: u64)"
    by (simp add: disjunctive_add_eq_or)
  then show ?thesis by (simp add: push_bit_eq_mult)
qed

lemma loadRaw_be_eq:
  "loadRaw_be v bs = v * word_of_nat (256 ^ length bs) + word_of_nat (wire_be bs)"
proof (induction bs arbitrary: v)
  case (Cons b bs)
  show ?case
    by (simp only: loadRaw_be.simps push8_or_byte Cons.IH) (simp add: algebra_simps)
qed simp

lemma or_byte_at:
  assumes "unat (v :: u64) < 256 ^ i" "i < 8"
  shows "v OR push_bit (8 * i) (ucast (b :: u8)) = v + word_of_nat (unat b * 256 ^ i)"
proof -
  have lo: "\<not> bit v n" if "8 * i \<le> n" for n
  proof -
    have "unat v < 2 ^ (8 * i)" using assms(1) by (simp add: power_mult)
    also have "\<dots> \<le> 2 ^ n" using that by simp
    finally have "unat v < 2 ^ n" .
    then have "\<not> bit (unat v) n" by (simp add: bit_iff_odd)
    then show ?thesis by (simp add: bit_unsigned_iff)
  qed
  have "v AND push_bit (8 * i) (ucast b) = 0"
    by (rule bit_eqI) (auto simp: bit_simps lo)
  then have "v OR push_bit (8 * i) (ucast b) = v + push_bit (8 * i) (ucast b)"
    by (simp add: disjunctive_add_eq_or)
  moreover have "push_bit (8 * i) (ucast b :: u64) = word_of_nat (unat b * 256 ^ i)"
    by (simp add: push_bit_eq_mult power_mult [of 2 8 i])
  ultimately show ?thesis by simp
qed

lemma loadRaw_le_eq:
  "i + length bs \<le> 8 \<Longrightarrow> unat v < 256 ^ i \<Longrightarrow>
     loadRaw_le i v bs = Some (v + word_of_nat (wire_be (rev bs) * 256 ^ i))"
proof (induction bs arbitrary: i v)
  case (Cons b bs)
  have i: "i < 8" using Cons.prems(1) by simp
  have pw: "(256::nat) ^ Suc i \<le> 2 ^ 64"
    using power_increasing [of "Suc i" 8 "256::nat"] i by simp
  have sum: "unat v + unat b * 256 ^ i < 256 ^ Suc i"
  proof -
    have "unat v + unat b * 256 ^ i < (unat b + 1) * 256 ^ i" using Cons.prems(2) by simp
    also have "\<dots> \<le> 256 * 256 ^ i" by (rule mult_le_mono1) (use u8_lt_256 [of b] in linarith)
    finally show ?thesis by simp
  qed
  define v' where "v' = v + word_of_nat (unat b * 256 ^ i)"
  have "v' = word_of_nat (unat v + unat b * 256 ^ i)" by (simp add: v'_def)
  moreover have "unat (word_of_nat (unat v + unat b * 256 ^ i) :: u64) = unat v + unat b * 256 ^ i"
    using sum pw by (intro unat_of_nat_small) simp
  ultimately have v': "unat v' < 256 ^ Suc i" using sum by simp
  have "loadRaw_le i v (b # bs) = loadRaw_le (Suc i) v' bs"
    using i or_byte_at [OF Cons.prems(2) i, of b] by (simp add: v'_def)
  also have "\<dots> = Some (v' + word_of_nat (wire_be (rev bs) * 256 ^ Suc i))"
    using Cons.prems(1) v' by (intro Cons.IH) auto
  also have "\<dots> = Some (v + word_of_nat (wire_be (rev (b # bs)) * 256 ^ i))"
    by (simp add: v'_def wire_be_snoc algebra_simps)
  finally show ?case .
qed simp

lemma loadRaw_value:
  assumes "p + unat sz \<le> length mem" "unat sz \<le> 8"
  shows "loadRaw mem p sz be = Some (word_of_nat (wire_nat be (take (unat sz) (drop p mem))))"
  using assms loadRaw_le_eq [of 0 "take (unat sz) (drop p mem)" 0]
  by (auto simp: loadRaw_def rdn_Some loadRaw_be_eq wire_nat_def)

lemma wire_nat_64:
  assumes "length bs \<le> 8"
  shows "unat (word_of_nat (wire_nat be bs) :: u64) = wire_nat be bs"
proof -
  have "wire_nat be bs < 256 ^ 8"
    by (rule less_le_trans [OF wire_nat_less]) (use assms in \<open>intro power_increasing, simp_all\<close>)
  then show ?thesis by (intro unat_of_nat_small) simp
qed

lemma twos_sint: "n \<le> 64 \<Longrightarrow> 0 < n \<Longrightarrow> x < 2 ^ n \<Longrightarrow> sint (word_of_int (twos n x) :: i64) = twos n x"
proof -
  assume n: "n \<le> 64" "0 < n" and x: "x < 2 ^ n"
  have half: "(2::int) ^ n = 2 * 2 ^ (n - 1)" using n(2) by (cases n) auto
  have pw: "(2::int) ^ (n - 1) \<le> 2 ^ 63" using n by (intro power_increasing) auto
  have xi: "int x < 2 ^ n" using x by (metis of_nat_less_iff of_nat_numeral of_nat_power)
  have "- (2 ^ (n - 1)) \<le> twos n x" "twos n x < 2 ^ (n - 1)"
    using xi half by (auto simp: twos_def not_less)
  with pw show ?thesis by (simp add: sint_sbintrunc' signed_take_bit_int_eq_self)
qed

lemma xor_high_bit:
  assumes "0 < bits" "bits \<le> 64" "unat (v :: u64) < 2 ^ bits"
  shows "(v XOR push_bit (bits - 1) 1) - push_bit (bits - 1) 1 =
         word_of_int (twos bits (unat v))"
proof -
  define k where "k = bits - 1"
  define m :: u64 where "m = push_bit k 1"
  have k: "bits = Suc k" "k < 64" using assms by (auto simp: k_def)
  have m_int: "m = word_of_int (2 ^ k)" by (simp add: m_def push_bit_eq_mult)
  have m_bit: "bit m n \<longleftrightarrow> n = k" for n
    using k by (auto simp: m_def bit_simps)
  have small: "\<not> bit w n" if "unat w < 2 ^ k" "k \<le> n" for w :: u64 and n
  proof -
    have "unat w < 2 ^ n" using that by (meson less_le_trans one_le_numeral power_increasing)
    then have "\<not> bit (unat w) n" by (simp add: bit_iff_odd)
    then show ?thesis by (simp add: bit_unsigned_iff)
  qed
  have add: "w XOR m = w + m" if "unat w < 2 ^ k" for w :: u64
  proof -
    have "w AND m = 0"
    proof (rule bit_eqI)
      fix n show "bit (w AND m) n = bit (0 :: u64) n"
        using small [OF that, of n] by (auto simp: bit_and_iff m_bit)
    qed
    then show ?thesis by (simp add: disjunctive_add_eq_xor)
  qed
  have "(v XOR m) - m = word_of_int (twos bits (unat v))"
  proof (cases "unat v < 2 ^ k")
    case True
    then show ?thesis using add [OF True] by (simp add: twos_def k)
  next
    case False
    define r where "r = v - m"
    have "unat m = 2 ^ k"
    proof -
      have "(2::nat) ^ k < 2 ^ 64" using k by (intro power_strict_increasing) auto
      then have "unat (word_of_nat (2 ^ k) :: u64) = 2 ^ k" by (intro unat_of_nat_small) simp
      then show ?thesis by (simp add: m_int)
    qed
    then have ur: "unat r = unat v - 2 ^ k"
      using False by (simp add: r_def unat_sub word_le_nat_alt)
    then have "unat r < 2 ^ k" using assms(3) False k by simp
    then have "r XOR m = v" using add [of r] by (simp add: r_def)
    then have "v XOR m = r" by (metis xor.assoc xor.right_neutral xor_self_eq)
    then have "(v XOR m) - m = v - m - m" by (simp add: r_def)
    also have "\<dots> = word_of_int (int (unat v)) - word_of_int (2 ^ k) - word_of_int (2 ^ k)"
      by (simp add: m_int)
    also have "\<dots> = word_of_int (int (unat v) - 2 ^ Suc k)"
      by (simp only: wi_hom_sub) simp
    finally show ?thesis using False by (simp add: twos_def k)
  qed
  then show ?thesis by (simp add: m_def k_def)
qed

lemma signExtend_value:
  assumes "0 < bits" "bits \<le> 64" "unat v < 2 ^ bits"
  shows "signExtend v bits = Some (word_of_int (twos bits (unat v)))"
proof (cases "bits = 64")
  case True
  have "v = word_of_int (int (unat v))" by simp
  moreover have "(word_of_int (int (unat v) - 2 ^ 64) :: u64) = word_of_int (int (unat v))"
    by (simp add: wi_hom_sub [symmetric])
  ultimately show ?thesis using True by (auto simp: signExtend_def twos_def)
next
  case False
  with assms xor_high_bit [OF assms] show ?thesis by (simp add: signExtend_def Let_def)
qed

section \<open>The integer a field carries\<close>

text \<open>
  \<open>int_field_value f raw\<close> is the integer that an integer field with description \<open>f\<close> denotes when
  its bytes have the unsigned value \<open>raw\<close>: the whole value, or the \<open>bitLen\<close> bits at \<open>bitOffset\<close>;
  read as two's complement for a signed field.
\<close>

definition int_field_value :: "field_desc \<Rightarrow> nat \<Rightarrow> int" where
  "int_field_value f raw =
     (let n = (if 0 < fd_bitLen f then unat (fd_bitLen f) else unat (fd_size f) * 8);
          x = (if 0 < fd_bitLen f then raw div 2 ^ unat (fd_bitOffset f) mod 2 ^ n else raw)
      in if fd_kind f = IntSigned then twos n x else int x)"

lemma mask_and: "n < 64 \<Longrightarrow> (w :: u64) AND (push_bit n 1 - 1) = take_bit n w"
  by (simp add: take_bit_eq_mask mask_eq_exp_minus_1 push_bit_eq_mult)

lemma bit_field_value:
  assumes "raw < 2 ^ 64" "off < 64" "n \<le> 64"
  shows "unat (drop_bit off (word_of_nat raw :: u64) AND
               (if 64 \<le> n then NOT 0 else push_bit n 1 - 1)) = raw div 2 ^ off mod 2 ^ n"
proof -
  have raw: "unat (word_of_nat raw :: u64) = raw"
    using assms(1) by (intro unat_of_nat_small) simp
  have d: "unat (drop_bit off (word_of_nat raw :: u64)) = raw div 2 ^ off"
    unfolding unat_drop_bit_eq raw by (rule drop_bit_eq_div)
  show ?thesis
  proof (cases "n = 64")
    case True
    have "raw div 2 ^ off < 2 ^ 64" using assms(1) by (meson div_le_dividend le_less_trans)
    with True d show ?thesis by simp
  next
    case False
    with assms(3) have n: "n < 64" by simp
    then have "unat (drop_bit off (word_of_nat raw :: u64) AND (push_bit n 1 - 1)) =
        take_bit n (raw div 2 ^ off)"
      by (simp only: mask_and unsigned_take_bit_eq d)
    with n show ?thesis by (simp add: take_bit_eq_mod)
  qed
qed

lemma decodeInt_value:
  assumes ok: "field_ok f" and kind: "fd_kind f \<in> {IntSigned, IntUnsigned}"
    and mem: "p + unat (fd_size f) \<le> length mem"
  shows "decodeInt mem p f be =
    Some (word_of_int (int_field_value f (wire_nat be (take (unat (fd_size f)) (drop p mem)))))"
proof -
  define sz where "sz = unat (fd_size f)"
  define bs where "bs = take sz (drop p mem)"
  define raw where "raw = wire_nat be bs"
  have sz: "0 < sz" "sz \<le> 8" using field_ok_size [OF ok] by (auto simp: sz_def)
  have len: "length bs = sz" using mem by (simp add: bs_def sz_def)
  have "raw < 256 ^ sz" using wire_nat_less [of be bs] by (simp add: raw_def len)
  moreover have "(2::nat) ^ (sz * 8) = 256 ^ sz"
    by (simp only: mult.commute [of sz 8] power_mult) simp
  ultimately have raw_sz: "raw < 2 ^ (sz * 8)" by simp
  also have "(2::nat) ^ (sz * 8) \<le> 2 ^ 64" using sz by (intro power_increasing) auto
  finally have raw64: "raw < 2 ^ 64" .
  have uraw: "unat (word_of_nat raw :: u64) = raw" using raw64 by (intro unat_of_nat_small) simp
  have load: "loadRaw mem p (fd_size f) be = Some (word_of_nat raw)"
    using loadRaw_value [of p "fd_size f" mem be] mem sz by (simp add: raw_def bs_def sz_def)
  show ?thesis
  proof (cases "0 < fd_bitLen f")
    case False
    have "signExtend (word_of_nat raw) (sz * 8) = Some (word_of_int (twos (sz * 8) raw))"
      using signExtend_value [of "sz * 8" "word_of_nat raw"] sz raw_sz uraw by simp
    with False load kind show ?thesis
      by (auto simp: decodeInt_def int_field_value_def raw_def bs_def sz_def)
  next
    case True
    define off where "off = unat (fd_bitOffset f)"
    define n where "n = unat (fd_bitLen f)"
    have n0: "0 < n" using True by (simp add: n_def unat_gt_0 word_gt_0)
    have "off + n \<le> sz * 8" using ok True by (simp add: field_ok_def field_bits_ok_def off_def n_def sz_def)
    then have lims: "off < 64" "n \<le> 64" using sz n0 by auto
    define x where "x = raw div 2 ^ off mod 2 ^ n"
    define v' :: u64 where
      "v' = drop_bit off (word_of_nat raw) AND (if 64 \<le> n then NOT 0 else push_bit n 1 - 1)"
    have v': "unat v' = x" using bit_field_value [OF raw64 lims] by (simp add: v'_def x_def)
    have "x < 2 ^ n" by (simp add: x_def)
    then have se: "signExtend v' n = Some (word_of_int (twos n x))"
      using signExtend_value [of n v'] n0 lims v' by simp
    have "v' = word_of_int (int x)" unfolding v' [symmetric] by simp
    then show ?thesis
      using True load kind lims se
      by (auto simp: decodeInt_def int_field_value_def Let_def raw_def bs_def sz_def off_def n_def v'_def x_def)
  qed
qed

section \<open>The value of a field, and the row of a record\<close>

text \<open>
  \<open>field_bits f be bs\<close> are the 64 bits of the cell for a field with description \<open>f\<close> whose bytes
  on the wire are \<open>bs\<close>.
\<close>

definition field_bits :: "field_desc \<Rightarrow> bool \<Rightarrow> bytes \<Rightarrow> u64" where
  "field_bits f be bs =
     (case fd_kind f of
        Float32 \<Rightarrow> f32_to_f64 (if be then swap32 (le32 bs) else le32 bs)
      | Float64 \<Rightarrow> (if be then swap64 (le64 bs) else le64 bs)
      | Bool \<Rightarrow> (if wire_nat be bs \<noteq> 0 then 1 else 0)
      | _ \<Rightarrow> (let i = word_of_int (int_field_value f (wire_nat be bs))
               in if fd_asDouble f then i64_to_f64 i else i))"

lemma decodeField_value:
  assumes ok: "field_ok f" and mem: "p + unat (fd_size f) \<le> length mem"
  shows "decodeField mem p f be = Some (field_bits f be (take (unat (fd_size f)) (drop p mem)))"
proof (cases "fd_kind f")
  case Bool
  then have sz: "fd_size f = 1" using ok by (simp add: field_ok_def field_width_ok_def)
  let ?bs = "take 1 (drop p mem)"
  have "unat (word_of_nat (wire_nat be ?bs) :: u64) = wire_nat be ?bs"
    by (rule wire_nat_64) simp
  then have "(word_of_nat (wire_nat be ?bs) :: u64) = 0 \<longleftrightarrow> wire_nat be ?bs = 0"
    by (metis unat_eq_zero unsigned_0)
  then show ?thesis
    using Bool sz mem loadRaw_value [of p 1 mem be] by (simp add: decodeField_def field_bits_def)
next
  case Float32
  then show ?thesis using ok mem
    by (simp add: decodeField_def field_bits_def loadFloat32_def rdn_Some field_ok_def field_width_ok_def)
next
  case Float64
  then show ?thesis using ok mem
    by (simp add: decodeField_def field_bits_def loadFloat64_def rdn_Some field_ok_def field_width_ok_def)
qed (use decodeInt_value [OF ok _ mem, of be] in \<open>simp_all add: decodeField_def field_bits_def Let_def\<close>)

definition field_slice :: "bytes \<Rightarrow> nat \<Rightarrow> field_desc \<Rightarrow> bytes" where
  "field_slice mem payload f = take (unat (fd_size f)) (drop (payload + unat (fd_byteOffset f)) mem)"

definition row_of :: "frame_spec \<Rightarrow> bool \<Rightarrow> bytes \<Rightarrow> nat \<Rightarrow> cell list" where
  "row_of spec be mem payload =
     map (\<lambda>f. \<lparr>cell_v = field_bits f be (field_slice mem payload f), cell_isNull = 0\<rparr>)
         (fs_fields spec)"

lemma decodeFields_length:
  "decodeFields be mem payload len i fs row = Some (ok, row') \<Longrightarrow> length row' = length row"
  by (induction fs arbitrary: i row)
     (auto simp: bind_Some_iff dest: wr_at_length split: if_splits)

lemma decodePayload_length:
  "decodePayload spec be mem payload len row = Some (ok, row') \<Longrightarrow> length row' = length row"
  by (auto simp: decodePayload_def dest: decodeFields_length split: if_splits)

lemma decodeFields_row:
  assumes "\<forall>f \<in> set fs. field_ok f \<and> unat (fd_byteOffset f) + unat (fd_size f) \<le> len \<and>
                       payload + unat (fd_byteOffset f) + unat (fd_size f) \<le> length mem"
    and "i + length fs \<le> length row"
  shows "decodeFields be mem payload len i fs row =
    Some (True, take i row @
      map (\<lambda>f. \<lparr>cell_v = field_bits f be (field_slice mem payload f), cell_isNull = 0\<rparr>) fs @
      drop (i + length fs) row)"
  using assms
proof (induction fs arbitrary: i row)
  case (Cons f fs)
  let ?c = "\<lparr>cell_v = field_bits f be (field_slice mem payload f), cell_isNull = 0\<rparr>"
  have val: "decodeField mem (payload + unat (fd_byteOffset f)) f be =
      Some (field_bits f be (field_slice mem payload f))"
    using Cons.prems(1) decodeField_value [of f "payload + unat (fd_byteOffset f)" mem be]
    by (simp add: field_slice_def)
  have upd: "take (Suc i) (row[i := ?c]) = take i row @ [?c]"
    using Cons.prems(2) by (simp add: take_Suc_conv_app_nth)
  show ?case
    using Cons.prems Cons.IH [of "Suc i" "row[i := ?c]"] val upd by (simp add: wr_at_Some)
qed simp

section \<open>Memory safety and locality\<close>

text \<open>
  \<open>payloadMin\<close> is computed in 32 bits and may have wrapped; a field that passes the 64-bit bounds
  check of \<open>decodePayload\<close> did not wrap, so it ends at or before \<open>payloadMin\<close>.
\<close>

lemma field_end_le_payloadMin:
  assumes "spec_ok spec" "f \<in> set (fs_fields spec)"
    and "unat (fd_byteOffset f) + unat (fd_size f) \<le> len" "len < 2 ^ 32"
  shows "unat (fd_byteOffset f) + unat (fd_size f) \<le> unat (fs_payloadMin spec)"
proof -
  have sz: "unat (ucast (fd_size f) :: u32) = unat (fd_size f)" by (rule unat_ucast_up) simp
  have "unat (fd_byteOffset f) + unat (fd_size f) < 2 ^ 32" using assms(3,4) by simp
  then have "unat (fd_byteOffset f + ucast (fd_size f)) = unat (fd_byteOffset f) + unat (fd_size f)"
    by (simp add: unat_word_ariths sz)
  then show ?thesis using spec_okD [OF assms(1,2)] by (simp add: word_le_nat_alt)
qed

lemma decodeFields_defined:
  assumes "\<forall>f \<in> set fs. field_ok f \<and>
      (unat (fd_byteOffset f) + unat (fd_size f) \<le> len \<longrightarrow>
         payload + unat (fd_byteOffset f) + unat (fd_size f) \<le> length mem)"
    and "i + length fs \<le> length row"
  shows "\<exists>r. decodeFields be mem payload len i fs row = Some r"
  using assms
proof (induction fs arbitrary: i row)
  case (Cons f fs)
  show ?case
  proof (cases "len < unat (fd_byteOffset f) + unat (fd_size f)")
    case False
    with Cons.prems(1) have "decodeField mem (payload + unat (fd_byteOffset f)) f be =
        Some (field_bits f be (field_slice mem payload f))"
      using decodeField_value [of f "payload + unat (fd_byteOffset f)" mem be]
      by (simp add: field_slice_def)
    with False Cons.prems Cons.IH show ?thesis by (simp add: wr_at_Some)
  qed auto
qed auto

lemma decodePayload_defined:
  assumes "spec_ok spec" "len < 2 ^ 32" "payload + unat (fs_payloadMin spec) \<le> length mem"
    and "length (fs_fields spec) \<le> length row"
  shows "\<exists>r. decodePayload spec be mem payload len row = Some r"
proof -
  have "\<exists>r. decodeFields be mem payload len 0 (fs_fields spec) row = Some r"
  proof (rule decodeFields_defined)
    show "\<forall>f \<in> set (fs_fields spec). field_ok f \<and>
        (unat (fd_byteOffset f) + unat (fd_size f) \<le> len \<longrightarrow>
           payload + unat (fd_byteOffset f) + unat (fd_size f) \<le> length mem)"
      using field_end_le_payloadMin [OF assms(1) _ _ assms(2)] spec_okD [OF assms(1)] assms(3)
      by fastforce
  qed (use assms(4) in simp)
  then show ?thesis by (auto simp: decodePayload_def)
qed

lemma decodePayload_row:
  assumes "spec_ok spec" "fs_fields spec \<noteq> []" "unat (fs_payloadMin spec) \<le> len"
    and "payload + len \<le> length mem" "length (fs_fields spec) \<le> length row"
    and fits: "\<forall>f \<in> set (fs_fields spec). unat (fd_byteOffset f) + unat (fd_size f) \<le> len"
  shows "\<exists>row'. decodePayload spec be mem payload len row = Some (True, row') \<and>
            take (length (fs_fields spec)) row' = row_of spec be mem payload"
proof -
  have "\<forall>f \<in> set (fs_fields spec). field_ok f \<and> unat (fd_byteOffset f) + unat (fd_size f) \<le> len \<and>
      payload + unat (fd_byteOffset f) + unat (fd_size f) \<le> length mem"
    using fits assms(4) spec_okD [OF assms(1)] by fastforce
  from decodeFields_row [OF this, of 0 row be] assms(2,3,5)
  show ?thesis by (simp add: decodePayload_def row_of_def)
qed

text \<open>Appending bytes behind the buffer does not change a decode; erasing a prefix shifts it.\<close>

lemma loadRaw_append: "loadRaw mem p sz be = Some v \<Longrightarrow> loadRaw (mem @ ext) p sz be = Some v"
  by (auto simp: loadRaw_def bind_Some_iff rdn_eq_Some)

lemma decodeInt_append: "decodeInt mem p f be = Some v \<Longrightarrow> decodeInt (mem @ ext) p f be = Some v"
  unfolding decodeInt_def bind_Some_iff by (blast intro: loadRaw_append)

lemma loadFloat_append:
  "loadFloat32 mem p be = Some v \<Longrightarrow> loadFloat32 (mem @ ext) p be = Some v"
  "loadFloat64 mem p be = Some v \<Longrightarrow> loadFloat64 (mem @ ext) p be = Some v"
  by (auto simp: loadFloat32_def loadFloat64_def bind_Some_iff rdn_eq_Some)

lemma decodeField_append:
  "decodeField mem p f be = Some v \<Longrightarrow> decodeField (mem @ ext) p f be = Some v"
  unfolding decodeField_def
  by (cases "fd_kind f")
     (simp_all only: field_kind.case loadFloat_append,
      (erule bind_Some_mono, rule loadRaw_append decodeInt_append, assumption)+)

lemma decodeFields_append:
  "decodeFields be mem payload len i fs row = Some r \<Longrightarrow>
     decodeFields be (mem @ ext) payload len i fs row = Some r"
  by (induction fs arbitrary: i row)
     (auto simp: bind_Some_iff dest: decodeField_append [where ext = ext] split: if_splits)

lemma decodePayload_append:
  "decodePayload spec be mem payload len row = Some r \<Longrightarrow>
     decodePayload spec be (mem @ ext) payload len row = Some r"
  by (auto simp: decodePayload_def intro: decodeFields_append split: if_splits)

lemma decodeField_drop:
  "k \<le> length mem \<Longrightarrow> decodeField (drop k mem) p f be = decodeField mem (k + p) f be"
  by (simp add: decodeField_def decodeInt_def loadFloat32_def loadFloat64_def loadRaw_def rdn_drop
           split: field_kind.splits)

lemma decodeFields_drop:
  "k \<le> length mem \<Longrightarrow>
     decodeFields be (drop k mem) payload len i fs = decodeFields be mem (k + payload) len i fs"
proof (induction fs arbitrary: i)
  case Nil
  show ?case by (rule ext) simp
next
  case (Cons f fs)
  show ?case by (rule ext) (simp add: Cons.IH Cons.prems decodeField_drop add.assoc)
qed

lemma decodePayload_drop:
  "k \<le> length mem \<Longrightarrow>
     decodePayload spec be (drop k mem) payload len row = decodePayload spec be mem (k + payload) len row"
  by (simp add: decodePayload_def decodeFields_drop)

end
