(* ===== verification/Stream_Slicer.thy ===== *)
theory Stream_Slicer
  imports Adapter_Prelude
begin

text \<open>
  The interface between a framing step and the stream it slices. Both framings of the adapter
  (\<open>FrameCodec::feed\<close> and \<open>FrameCodec::feedModbus\<close>) run a loop over a buffer that either stops, to
  wait for more bytes, or advances. The locale states what such a step promises; from it follows,
  once for both, that cutting the received bytes into chunks does not change what is decoded.
\<close>

section \<open>One turn of a slicing loop\<close>

datatype 's ctl = Stop nat 's | Next nat 's

fun shift_ctl :: "nat \<Rightarrow> 's ctl \<Rightarrow> 's ctl" where
  "shift_ctl k (Stop p s) = Stop (k + p) s"
| "shift_ctl k (Next p s) = Next (k + p) s"

definition shift_pos :: "nat \<Rightarrow> nat \<times> 's \<Rightarrow> nat \<times> 's" where
  "shift_pos k r = (k + fst r, snd r)"

lemma shift_ctl_iff:
  "shift_ctl k c = Stop p s \<longleftrightarrow> (\<exists>p'. c = Stop p' s \<and> p = k + p')"
  "shift_ctl k c = Next p s \<longleftrightarrow> (\<exists>p'. c = Next p' s \<and> p = k + p')"
  by (cases c; auto)+

section \<open>The contract of a framing step\<close>

locale stream_slicer =
  fixes step :: "bytes \<Rightarrow> nat \<Rightarrow> 's \<Rightarrow> 's ctl option"
    and loop :: "bytes \<Rightarrow> nat \<Rightarrow> 's \<Rightarrow> (nat \<times> 's) option"
  assumes loop_unfold:
      "pos \<le> length buf \<Longrightarrow>
       loop buf pos s =
         (case step buf pos s of
            None \<Rightarrow> None
          | Some (Stop p t) \<Rightarrow> Some (p, t)
          | Some (Next p t) \<Rightarrow> loop buf p t)"
    and next_bounds:
      "step buf pos s = Some (Next p t) \<Longrightarrow> pos \<le> length buf \<Longrightarrow> pos < p \<and> p \<le> length buf"
    and stop_bounds:
      "step buf pos s = Some (Stop p t) \<Longrightarrow> pos \<le> length buf \<Longrightarrow> pos \<le> p \<and> p \<le> length buf"
    and next_append:
      "step buf pos s = Some (Next p t) \<Longrightarrow> pos \<le> length buf \<Longrightarrow>
       step (buf @ ext) pos s = Some (Next p t)"
    and stop_resume:
      "step buf pos s = Some (Stop p t) \<Longrightarrow> pos \<le> length buf \<Longrightarrow>
       step (buf @ ext) pos s = step (buf @ ext) p t"
    and step_shift:
      "k + pos \<le> length buf \<Longrightarrow> step buf (k + pos) s = map_option (shift_ctl k) (step (drop k buf) pos s)"
begin

lemma loop_bounds: "loop buf pos s = Some (p, t) \<Longrightarrow> pos \<le> length buf \<Longrightarrow> pos \<le> p \<and> p \<le> length buf"
proof (induction "length buf - pos" arbitrary: pos s rule: less_induct)
  case less
  show ?case
  proof (cases "step buf pos s")
    case None
    with less.prems show ?thesis by (simp add: loop_unfold)
  next
    case (Some c)
    show ?thesis
    proof (cases c)
      case (Stop q u)
      with Some less.prems stop_bounds [of buf pos s q u] show ?thesis by (simp add: loop_unfold)
    next
      case (Next q u)
      with Some less.prems(2) have q: "pos < q" "q \<le> length buf" by (auto dest: next_bounds)
      have "loop buf q u = Some (p, t)" using less.prems Some Next by (simp add: loop_unfold)
      with q less.hyps [of q u] have "q \<le> p \<and> p \<le> length buf" by simp
      with q show ?thesis by simp
    qed
  qed
qed

lemma loop_append:
  "loop buf pos s = Some (p, t) \<Longrightarrow> pos \<le> length buf \<Longrightarrow> loop (buf @ ext) pos s = loop (buf @ ext) p t"
proof (induction "length buf - pos" arbitrary: pos s rule: less_induct)
  case less
  have le: "pos \<le> length (buf @ ext)" using less.prems by simp
  show ?case
  proof (cases "step buf pos s")
    case None
    with less.prems show ?thesis by (simp add: loop_unfold)
  next
    case (Some c)
    show ?thesis
    proof (cases c)
      case (Stop q u)
      with Some less.prems have pt: "p = q" "t = u" by (simp_all add: loop_unfold)
      have "q \<le> length (buf @ ext)" using Some Stop less.prems(2) by (auto dest: stop_bounds)
      then show ?thesis
        using loop_unfold [OF le, of s] loop_unfold [of q "buf @ ext" u]
          stop_resume [of buf pos s q u ext] Some Stop less.prems(2) pt by simp
    next
      case (Next q u)
      with Some less.prems(2) have q: "pos < q" "q \<le> length buf" by (auto dest: next_bounds)
      have run: "loop buf q u = Some (p, t)" using less.prems Some Next by (simp add: loop_unfold)
      have "step (buf @ ext) pos s = Some (Next q u)"
        using Some Next less.prems(2) by (simp add: next_append)
      then have "loop (buf @ ext) pos s = loop (buf @ ext) q u"
        using loop_unfold [OF le, of s] by simp
      also have "\<dots> = loop (buf @ ext) p t" using less.hyps [of q u] q run by simp
      finally show ?thesis .
    qed
  qed
qed

lemma loop_shift:
  "k + pos \<le> length buf \<Longrightarrow> loop buf (k + pos) s = map_option (shift_pos k) (loop (drop k buf) pos s)"
proof (induction "length buf - (k + pos)" arbitrary: pos s rule: less_induct)
  case less
  have le: "pos \<le> length (drop k buf)" using less.prems by simp
  note unfold = loop_unfold [OF less.prems, of s] loop_unfold [OF le, of s] step_shift [OF less.prems, of s]
  show ?case
  proof (cases "step (drop k buf) pos s")
    case None
    then show ?thesis by (simp add: unfold)
  next
    case (Some c)
    show ?thesis
    proof (cases c)
      case (Stop q u)
      with Some show ?thesis by (simp add: unfold shift_pos_def)
    next
      case (Next q u)
      with Some le have "pos < q" "q \<le> length (drop k buf)" by (auto dest: next_bounds)
      then have "loop buf (k + q) u = map_option (shift_pos k) (loop (drop k buf) q u)"
        using less.prems by (intro less.hyps) auto
      with Some Next show ?thesis by (simp add: unfold)
    qed
  qed
qed

text \<open>A map of the state that every turn commutes with commutes with the whole loop.\<close>

lemma loop_map:
  assumes "\<And>buf pos s. step buf pos (f s) = map_option (map_ctl f) (step buf pos s)"
    and "pos \<le> length buf"
  shows "loop buf pos (f s) = map_option (map_prod id f) (loop buf pos s)"
  using assms(2)
proof (induction "length buf - pos" arbitrary: pos s rule: less_induct)
  case less
  note unfold = loop_unfold [OF less.prems] assms(1)
  show ?case
  proof (cases "step buf pos s")
    case None
    then show ?thesis by (simp add: unfold)
  next
    case (Some c)
    show ?thesis
    proof (cases c)
      case (Stop q u)
      with Some show ?thesis by (simp add: unfold)
    next
      case (Next q u)
      with Some less.prems have "pos < q" "q \<le> length buf" by (auto dest: next_bounds)
      then have "loop buf q (f u) = map_option (map_prod id f) (loop buf q u)"
        by (intro less.hyps) auto
      with Some Next show ?thesis by (simp add: unfold)
    qed
  qed
qed

text \<open>
  Slicing a buffer, erasing what was consumed and slicing the rest with new bytes behind it is the
  same as slicing everything at once.
\<close>

lemma loop_resume:
  assumes "loop buf 0 s = Some (p, t)"
  shows "loop (buf @ ext) 0 s = map_option (shift_pos p) (loop (drop p buf @ ext) 0 t)"
proof -
  have p: "p \<le> length buf" using loop_bounds [OF assms] by simp
  have "loop (buf @ ext) 0 s = loop (buf @ ext) (p + 0) t" using loop_append [OF assms, of ext] by simp
  also have "\<dots> = map_option (shift_pos p) (loop (drop p (buf @ ext)) 0 t)"
    using p by (intro loop_shift) simp
  finally show ?thesis using p by simp
qed

end

end
