(* ===== verification/Endpoint_Stream.thy ===== *)
theory Endpoint_Stream
  imports Field_Decode Stream_Slicer
begin

text \<open>
  The per-endpoint state \<open>DeviceStream\<close> of \<open>src/src/adapter/FrameCodec.h\<close> and what the two framings
  of \<open>FrameCodec.cpp\<close> share: the row sink, the compaction of the stream buffer after the loop, and
  the contract under which the division of the received bytes into chunks is invisible.

  The row sink is the list of rows pushed so far: a callback that only appends cannot influence the
  slicing, and \<open>ParserWorker::appendRow\<close> is folded over the list. The loops keep the stream buffer
  in \<open>buf\<close>; the \<open>ds_buf\<close> field is written back when the loop is left, by the compaction step.
  \<open>size_t\<close> values are natural numbers: none of them can reach \<open>2 ^ 64\<close>.
\<close>

section \<open>State\<close>

definition kHeaderSize :: nat where "kHeaderSize = 6"
definition kMaxFrame :: nat where "kMaxFrame = 64 * 1024"
definition kMaxStream :: nat where "kMaxStream = 256 * 1024"

record device_stream =
  ds_buf :: bytes
  ds_rowScratch :: "cell list"
  ds_frames :: u64
  ds_bytesIn :: u64
  ds_resyncs :: u64
  ds_badFrames :: u64
  ds_flagMiss :: u64
  ds_unknownType :: u64
  ds_unknownTypeLogged :: u64

definition device_stream_new :: device_stream where
  "device_stream_new =
     \<lparr>ds_buf = [], ds_rowScratch = [], ds_frames = 0, ds_bytesIn = 0, ds_resyncs = 0,
      ds_badFrames = 0, ds_flagMiss = 0, ds_unknownType = 0, ds_unknownTypeLogged = 0\<rparr>"

text \<open>One \<open>sink.push(dev, recvMs, row)\<close>: the receiver copies \<open>fieldCount\<close> cells.\<close>

type_synonym sink_row = "device_desc \<times> i64 \<times> cell list"
type_synonym slice_state = "device_stream \<times> sink_row list"

definition sink_push :: "device_desc \<Rightarrow> i64 \<Rightarrow> cell list \<Rightarrow> sink_row list \<Rightarrow> sink_row list" where
  "sink_push dev ts row out = out @ [(dev, ts, take (fieldCount dev) row)]"

definition resync1 :: "device_stream \<Rightarrow> device_stream" where
  "resync1 st = st\<lparr>ds_resyncs := ds_resyncs st + 1\<rparr>"

text \<open>Step 5: erase the consumed prefix, and keep the tail of a runaway stream.\<close>

definition compact :: "bytes \<Rightarrow> nat \<Rightarrow> device_stream \<Rightarrow> device_stream" where
  "compact buf pos st =
     (let rest = (if 0 < pos then drop pos buf else buf)
      in if kMaxStream < length rest
         then resync1 (st\<lparr>ds_buf := drop (length rest - kMaxStream) rest\<rparr>)
         else st\<lparr>ds_buf := rest\<rparr>)"

text \<open>The frame of both feeds: append the chunk, run the loop, compact.\<close>

definition slice_feed ::
  "(bytes \<Rightarrow> nat \<Rightarrow> slice_state \<Rightarrow> (nat \<times> slice_state) option) \<Rightarrow> device_stream \<Rightarrow> bytes \<Rightarrow>
   (device_stream \<times> sink_row list) option"
where
  "slice_feed loop st data =
     (let st1 = st\<lparr>ds_bytesIn := ds_bytesIn st + word_of_nat (length data)\<rparr>;
          buf = ds_buf st1 @ data
      in do {
        (pos, st2, out) \<leftarrow> loop buf 0 (st1, []);
        Some (compact buf pos st2, out)
      })"

lemma compact_pending:
  "length buf - p < kMaxFrame \<Longrightarrow> compact buf p st = st\<lparr>ds_buf := drop p buf\<rparr>"
  by (auto simp: compact_def Let_def kMaxFrame_def kMaxStream_def)

section \<open>Frames of the state that a framing step leaves alone\<close>

text \<open>The loop neither reads nor writes the stored buffer and the byte counter of the stream.\<close>

definition rebase :: "bytes \<Rightarrow> u64 \<Rightarrow> slice_state \<Rightarrow> slice_state" where
  "rebase b c s = ((fst s)\<lparr>ds_buf := b, ds_bytesIn := c\<rparr>, snd s)"

text \<open>Rows already emitted stay in front.\<close>

definition prepend :: "sink_row list \<Rightarrow> slice_state \<Rightarrow> slice_state" where
  "prepend o1 s = (fst s, o1 @ snd s)"

text \<open>
  A framing whose steps only look at the buffer they are given, count and push: the stored buffer,
  the byte counter and the rows pushed earlier do not influence it.
\<close>

locale endpoint_slicer = stream_slicer step loop
  for step :: "bytes \<Rightarrow> nat \<Rightarrow> slice_state \<Rightarrow> slice_state ctl option"
    and loop :: "bytes \<Rightarrow> nat \<Rightarrow> slice_state \<Rightarrow> (nat \<times> slice_state) option" +
  assumes step_rebase:
      "step buf pos (rebase b c s) = map_option (map_ctl (rebase b c)) (step buf pos s)"
    and step_prepend:
      "step buf pos (prepend o1 s) = map_option (map_ctl (prepend o1)) (step buf pos s)"
begin

lemma loop_rebase:
  "loop buf 0 (rebase b c s) = map_option (map_prod id (rebase b c)) (loop buf 0 s)"
  by (rule loop_map [OF step_rebase]) simp

lemma loop_prepend:
  "loop buf 0 (prepend o1 s) = map_option (map_prod id (prepend o1)) (loop buf 0 s)"
  by (rule loop_map [OF step_prepend]) simp

lemma loop_keeps:
  assumes "loop buf 0 s = Some (p, t)"
  shows "ds_bytesIn (fst t) = ds_bytesIn (fst s)" and "ds_buf (fst t) = ds_buf (fst s)"
proof -
  let ?re = "rebase (ds_buf (fst s)) (ds_bytesIn (fst s))"
  have "s = ?re s" by (simp add: rebase_def)
  then have "Some (p, t) = map_option (map_prod id ?re) (Some (p, t))"
    using loop_rebase [of buf "ds_buf (fst s)" "ds_bytesIn (fst s)" s] assms by simp
  then have t: "t = ?re t" by simp
  then have "ds_bytesIn (fst t) = ds_bytesIn (fst (?re t))" by (rule arg_cong)
  then show "ds_bytesIn (fst t) = ds_bytesIn (fst s)" by (simp add: rebase_def)
  from t have "ds_buf (fst t) = ds_buf (fst (?re t))" by (rule arg_cong)
  then show "ds_buf (fst t) = ds_buf (fst s)" by (simp add: rebase_def)
qed

lemma slice_feed_run:
  assumes "loop (ds_buf st @ data) 0 (st, []) = Some (p, t, out)"
  shows "slice_feed loop st data =
    Some (compact (ds_buf st @ data) p (t\<lparr>ds_bytesIn := ds_bytesIn st + word_of_nat (length data)\<rparr>), out)"
proof -
  have keep: "ds_buf t = ds_buf st" using loop_keeps(2) [OF assms] by simp
  have "(st\<lparr>ds_bytesIn := ds_bytesIn st + word_of_nat (length data)\<rparr>, [] :: sink_row list) =
      rebase (ds_buf st) (ds_bytesIn st + word_of_nat (length data)) (st, [])"
    by (simp add: rebase_def)
  with assms loop_rebase have "loop (ds_buf st @ data) 0
      (st\<lparr>ds_bytesIn := ds_bytesIn st + word_of_nat (length data)\<rparr>, []) =
      Some (p, rebase (ds_buf st) (ds_bytesIn st + word_of_nat (length data)) (t, out))"
    by simp
  then show ?thesis by (simp add: slice_feed_def Let_def rebase_def keep [symmetric])
qed

lemma slice_feed_eq:
  assumes "loop (ds_buf st @ data) 0 (st, []) = Some (p, t, out)"
    and "length (ds_buf st @ data) - p < kMaxFrame"
  shows "slice_feed loop st data =
    Some (t\<lparr>ds_buf := drop p (ds_buf st @ data),
            ds_bytesIn := ds_bytesIn st + word_of_nat (length data)\<rparr>, out)"
  using slice_feed_run [OF assms(1)] compact_pending [OF assms(2)] by simp

text \<open>Two chunks one after the other are one chunk.\<close>

lemma slice_feed_append:
  assumes pending: "\<And>buf s p t. loop buf 0 s = Some (p, t) \<Longrightarrow> length buf - p < kMaxFrame"
    and run1: "loop (ds_buf st @ a) 0 (st, []) = Some (p, t1, o1)"
    and st1: "slice_feed loop st a = Some (st1, o1)"
    and run2: "loop (ds_buf st1 @ b) 0 (st1, []) = Some (q, t2, o2)"
    and st2: "slice_feed loop st1 b = Some (st2, o2)"
  shows "slice_feed loop st (a @ b) = Some (st2, o1 @ o2)"
proof -
  have st1': "st1 = t1\<lparr>ds_buf := drop p (ds_buf st @ a),
      ds_bytesIn := ds_bytesIn st + word_of_nat (length a)\<rparr>"
    using slice_feed_eq [OF run1 pending [OF run1]] st1 by simp
  have st2': "st2 = t2\<lparr>ds_buf := drop q (ds_buf st1 @ b),
      ds_bytesIn := ds_bytesIn st1 + word_of_nat (length b)\<rparr>"
    using slice_feed_eq [OF run2 pending [OF run2]] st2 by simp
  let ?re = "rebase (ds_buf st) (ds_bytesIn st)"
  have redo: "(t1, o1) = ?re (prepend o1 (st1, []))"
    using loop_keeps [OF run1] by (simp add: st1' rebase_def prepend_def)
  have "loop ((ds_buf st @ a) @ b) 0 (st, []) =
      map_option (shift_pos p) (loop (ds_buf st1 @ b) 0 (t1, o1))"
    using loop_resume [OF run1, of b] by (simp add: st1')
  also have "\<dots> = Some (p + q, ?re (prepend o1 (t2, o2)))"
    using run2 redo by (simp add: loop_rebase loop_prepend shift_pos_def)
  finally have run: "loop (ds_buf st @ a @ b) 0 (st, []) =
      Some (p + q, fst (?re (prepend o1 (t2, o2))), snd (?re (prepend o1 (t2, o2))))" by simp
  have "p \<le> length (ds_buf st @ a)" using loop_bounds [OF run1] by simp
  then have "drop p ((ds_buf st @ a) @ b) = drop p (ds_buf st @ a) @ b"
    by (simp only: drop_append) simp
  then have "drop (p + q) (ds_buf st @ a @ b) = drop q (drop p (ds_buf st @ a) @ b)"
    by (metis add.commute append.assoc drop_drop)
  with slice_feed_eq [OF run pending [OF run]] show ?thesis
    by (simp add: st2' st1' rebase_def prepend_def add.assoc del: drop_append)
qed

end

end
