(* ===== verification/Frame_Codec.thy ===== *)
theory Frame_Codec
  imports Endpoint_Stream
begin

text \<open>
  Stream slicing of custom_data endpoints: \<open>FrameCodec::feed\<close> of \<open>src/src/adapter/FrameCodec.cpp\<close>,
  lines 129 to 228.
\<close>

section \<open>custom_data\<close>

text \<open>The record loop of one frame: \<open>k\<close> counts up, \<open>left\<close> records remain.\<close>

fun feed_records ::
  "device_desc \<Rightarrow> i64 \<Rightarrow> bytes \<Rightarrow> nat \<Rightarrow> nat \<Rightarrow> nat \<Rightarrow> nat \<Rightarrow> cell list \<Rightarrow> sink_row list \<Rightarrow>
   (bool \<times> cell list \<times> sink_row list) option"
where
  "feed_records dev ts buf payload recordBytes k 0 row out = Some (True, row, out)"
| "feed_records dev ts buf payload recordBytes k (Suc left) row out =
     do {
       (ok, row') \<leftarrow> decodePayload (dd_spec dev) (bigEndian dev) buf (payload + k * recordBytes)
                        recordBytes row;
       if \<not> ok then Some (False, row', out)
       else feed_records dev ts buf payload recordBytes (Suc k) left row'
              (sink_push dev ts row' out)
     }"

definition lead_flag :: "device_desc \<Rightarrow> u8" where
  "lead_flag dev = (if dd_isEvent dev then fs_startFlag (dd_spec dev) else 0)"

definition trail_flag :: "device_desc \<Rightarrow> u8" where
  "trail_flag dev = (if dd_isEvent dev then fs_endFlag (dd_spec dev) else 0)"

definition payload_bytes :: "frame_spec \<Rightarrow> nat \<Rightarrow> nat" where
  "payload_bytes spec frameLen =
     (if frameLen = 0 then nat (if 0 < fs_frameLen spec then fs_frameLen spec else 0) else frameLen)"

definition record_bytes :: "frame_spec \<Rightarrow> nat \<Rightarrow> nat" where
  "record_bytes spec payloadBytes =
     (if 0 < fs_frameLen spec then nat (fs_frameLen spec) else payloadBytes)"

definition record_count :: "nat \<Rightarrow> nat \<Rightarrow> nat" where
  "record_count recordBytes payloadBytes =
     (if 0 < recordBytes \<and> recordBytes \<le> payloadBytes \<and> payloadBytes mod recordBytes = 0
      then payloadBytes div recordBytes else 1)"

text \<open>Step 4 and the trailing delimiter: the frame is complete in the buffer.\<close>

definition feed_complete ::
  "device_desc \<Rightarrow> nat \<Rightarrow> nat \<Rightarrow> i64 \<Rightarrow> bytes \<Rightarrow> nat \<Rightarrow> slice_state \<Rightarrow> slice_state ctl option"
where
  "feed_complete dev payloadBytes tail ts buf pos s =
     (let st = fst s; out = snd s; spec = dd_spec dev;
          frameBytes = kHeaderSize + payloadBytes + tail
      in do {
        miss \<leftarrow> (if tail = 0 then Some False
                 else do { t \<leftarrow> rd8 buf (pos + (frameBytes - 1)); Some (t \<noteq> trail_flag dev) });
        let st1 = (if miss then st\<lparr>ds_flagMiss := ds_flagMiss st + 1\<rparr> else st);
        let recordBytes = record_bytes spec payloadBytes;
        let records = record_count recordBytes payloadBytes;
        let scratch = resize_up cell_default (fieldCount dev) (ds_rowScratch st1);
        (ok, scratch', out') \<leftarrow>
          feed_records dev ts buf (pos + kHeaderSize) recordBytes 0 records scratch out;
        let st2 = st1\<lparr>ds_rowScratch := scratch'\<rparr>;
        let st3 = (if ok then st2\<lparr>ds_frames := ds_frames st2 + 1\<rparr>
                   else st2\<lparr>ds_badFrames := ds_badFrames st2 + 1\<rparr>);
        Some (Next (pos + frameBytes) (st3, out'))
      })"

text \<open>Steps 1 to 4 of the loop body for the device that the frame type selects.\<close>

definition feed_frame ::
  "device_desc \<Rightarrow> u8 \<Rightarrow> nat \<Rightarrow> i64 \<Rightarrow> bytes \<Rightarrow> nat \<Rightarrow> slice_state \<Rightarrow> slice_state ctl option"
where
  "feed_frame dev flag frameLen ts buf pos s =
     (let st = fst s; out = snd s; spec = dd_spec dev;
          payloadBytes = payload_bytes spec frameLen;
          tail = (if trail_flag dev \<noteq> 0 then 1 else 0);
          frameBytes = kHeaderSize + payloadBytes + tail
      in if fs_fields spec = [] then Some (Next (pos + 1) (resync1 st, out))
         else if lead_flag dev \<noteq> 0 \<and> flag \<noteq> lead_flag dev then
           Some (Next (pos + 1) (resync1 (st\<lparr>ds_flagMiss := ds_flagMiss st + 1\<rparr>), out))
         else if payloadBytes = 0 \<or> payloadBytes < unat (fs_payloadMin spec) then
           Some (Next (pos + 1) (resync1 st, out))
         else if kMaxFrame < frameBytes then Some (Next (pos + 1) (resync1 st, out))
         else if length buf - pos < frameBytes then Some (Stop pos s)
         else feed_complete dev payloadBytes tail ts buf pos s)"

text \<open>One turn of \<open>while (n - pos >= kHeaderSize)\<close>, its guard included.\<close>

definition feed_step ::
  "device_group \<Rightarrow> i64 \<Rightarrow> bytes \<Rightarrow> nat \<Rightarrow> slice_state \<Rightarrow> slice_state ctl option"
where
  "feed_step grp ts buf pos s =
     (if length buf - pos < kHeaderSize then Some (Stop pos s)
      else do {
        frameType \<leftarrow> rd8 buf pos;
        flag \<leftarrow> rd8 buf (pos + 1);
        lo \<leftarrow> rd8 buf (pos + 2);
        hi \<leftarrow> rd8 buf (pos + 3);
        let frameLen = (unat lo OR push_bit 8 (unat hi));
        (case byFrameType grp (int (unat frameType)) of
           None \<Rightarrow>
             (let st = fst s
              in Some (Next (pos + 1)
                   (resync1 (st\<lparr>ds_unknownType := ds_unknownType st + 1\<rparr>), snd s)))
         | Some dev \<Rightarrow> feed_frame dev flag frameLen ts buf pos s)
      })"

lemma feed_complete_next:
  "feed_complete dev payloadBytes tail ts buf pos s = Some c \<Longrightarrow>
     \<exists>t. c = Next (pos + (kHeaderSize + payloadBytes + tail)) t"
  by (auto simp: feed_complete_def Let_def bind_Some_iff)

lemma feed_frame_bounds:
  "feed_frame dev flag frameLen ts buf pos s = Some (Next p t) \<Longrightarrow> pos < length buf \<Longrightarrow>
     pos < p \<and> p \<le> length buf"
  "feed_frame dev flag frameLen ts buf pos s = Some (Stop p t) \<Longrightarrow> p = pos \<and> t = s"
  by (auto simp: feed_frame_def Let_def kHeaderSize_def split: if_splits dest!: feed_complete_next)

lemma feed_step_next_bounds:
  "feed_step grp ts buf pos s = Some (Next p t) \<Longrightarrow> pos < p \<and> p \<le> length buf"
  by (auto simp: feed_step_def Let_def bind_Some_iff kHeaderSize_def
           split: if_splits option.splits dest!: feed_frame_bounds(1))

lemma feed_step_stop: "feed_step grp ts buf pos s = Some (Stop p t) \<Longrightarrow> p = pos \<and> t = s"
  by (auto simp: feed_step_def Let_def bind_Some_iff
           split: if_splits option.splits dest!: feed_frame_bounds(2))

function feed_loop ::
  "device_group \<Rightarrow> i64 \<Rightarrow> bytes \<Rightarrow> nat \<Rightarrow> slice_state \<Rightarrow> (nat \<times> slice_state) option"
where
  "feed_loop grp ts buf pos s =
     (case feed_step grp ts buf pos s of
        None \<Rightarrow> None
      | Some (Stop p t) \<Rightarrow> Some (p, t)
      | Some (Next p t) \<Rightarrow> feed_loop grp ts buf p t)"
  by pat_completeness auto
termination
  by (relation "measure (\<lambda>(grp, ts, buf, pos, s). length buf - pos)")
     (auto dest!: feed_step_next_bounds)

declare feed_loop.simps [simp del]

definition feed ::
  "device_group \<Rightarrow> device_stream \<Rightarrow> bytes \<Rightarrow> i64 \<Rightarrow> (device_stream \<times> sink_row list) option"
where
  "feed grp st data ts =
     (let st1 = st\<lparr>ds_bytesIn := ds_bytesIn st + word_of_nat (length data)\<rparr>;
          buf = ds_buf st1 @ data
      in do {
        (pos, st2, out) \<leftarrow> feed_loop grp ts buf 0 (st1, []);
        Some (compact buf pos st2, out)
      })"

section \<open>The custom_data step meets the slicing contract\<close>

lemma feed_records_append:
  "feed_records dev ts buf payload rb k left row out = Some r \<Longrightarrow>
     feed_records dev ts (buf @ ext) payload rb k left row out = Some r"
proof (induction left arbitrary: k row out)
  case (Suc left)
  then obtain ok row' where dec: "decodePayload (dd_spec dev) (bigEndian dev) buf (payload + k * rb) rb row = Some (ok, row')"
    by (auto simp: bind_Some_iff)
  from decodePayload_append [OF this, of ext] dec Suc show ?case by (auto split: if_splits)
qed simp

lemma feed_records_drop:
  "k \<le> length buf \<Longrightarrow>
     feed_records dev ts (drop k buf) payload rb i left row out =
     feed_records dev ts buf (k + payload) rb i left row out"
  by (induction left arbitrary: i row out) (simp_all add: decodePayload_drop add.assoc cong: if_cong)

lemma feed_complete_append:
  assumes "feed_complete dev payloadBytes tail ts buf pos s = Some c"
  shows "feed_complete dev payloadBytes tail ts (buf @ ext) pos s = Some c"
  using assms unfolding feed_complete_def Let_def
  by (elim bind_Some_mono2 bind_Some_mono)
     (auto simp: bind_Some_iff split: if_splits intro: feed_records_append rd8_mono)

lemma feed_complete_shift:
  assumes "k \<le> length buf"
  shows "feed_complete dev payloadBytes tail ts buf (k + pos) s =
         map_option (shift_ctl k) (feed_complete dev payloadBytes tail ts (drop k buf) pos s)"
  using assms unfolding feed_complete_def Let_def
  by (auto simp: rd8_drop feed_records_drop add.assoc split: bind_splits)

lemma feed_frame_next_append:
  assumes "feed_frame dev flag frameLen ts buf pos s = Some (Next p t)" "pos \<le> length buf"
  shows "feed_frame dev flag frameLen ts (buf @ ext) pos s = Some (Next p t)"
  using assms unfolding feed_frame_def Let_def
  by (auto split: if_splits intro: feed_complete_append)

lemma feed_frame_shift:
  assumes "k + pos \<le> length buf"
  shows "feed_frame dev flag frameLen ts buf (k + pos) s =
         map_option (shift_ctl k) (feed_frame dev flag frameLen ts (drop k buf) pos s)"
  using assms unfolding feed_frame_def Let_def
  by (simp add: feed_complete_shift)

lemma feed_step_next_append:
  assumes "feed_step grp ts buf pos s = Some (Next p t)" "pos \<le> length buf"
  shows "feed_step grp ts (buf @ ext) pos s = Some (Next p t)"
proof -
  have long: "kHeaderSize \<le> length buf - pos"
    using assms(1) by (auto simp: feed_step_def split: if_splits)
  then have rd: "rd8 (buf @ ext) (pos + i) = rd8 buf (pos + i)" if "i < 4" for i
    using that by (intro rd8_append) (simp add: kHeaderSize_def)
  show ?thesis
    using assms long rd [of 0] rd [of 1] rd [of 2] rd [of 3]
    by (auto simp: feed_step_def Let_def bind_Some_iff feed_frame_next_append split: option.splits)
qed

lemma feed_step_shift:
  assumes "k + pos \<le> length buf"
  shows "feed_step grp ts buf (k + pos) s = map_option (shift_ctl k) (feed_step grp ts (drop k buf) pos s)"
proof -
  have k: "k \<le> length buf" using assms by simp
  have len: "length buf - (k + pos) = length (drop k buf) - pos" by simp
  show ?thesis
  proof (cases "length buf - (k + pos) < kHeaderSize")
    case True
    then show ?thesis by (simp add: feed_step_def)
  next
    case False
    then have rd: "rd8 buf (k + pos + i) = Some (buf ! (k + pos + i))" if "i < 4" for i
      using that by (intro rd8_Some) (simp add: kHeaderSize_def)
    show ?thesis
      using False k rd [of 0] rd [of 1] rd [of 2] rd [of 3] feed_frame_shift [OF assms]
      by (simp add: feed_step_def Let_def rd8_drop add.assoc split: option.split)
  qed
qed

section \<open>Memory safety of custom_data slicing\<close>

text \<open>
  What the configuration loader establishes for a peer group: every member's specification is
  well formed and its record length is a 32-bit \<open>int\<close>.
\<close>

definition group_ok :: "device_group \<Rightarrow> bool" where
  "group_ok grp \<longleftrightarrow>
     (\<forall>d \<in> set (dg_members grp). spec_ok (dd_spec d) \<and> fs_frameLen (dd_spec d) < 2 ^ 31)"

lemma feed_records_defined:
  assumes spec: "spec_ok (dd_spec dev)" and rb: "rb < 2 ^ 32"
    and row: "fieldCount dev \<le> length row"
    and mem: "unat (fs_payloadMin (dd_spec dev)) \<le> rb \<Longrightarrow>
              \<forall>i < k + left. payload + i * rb + unat (fs_payloadMin (dd_spec dev)) \<le> length buf"
  shows "\<exists>r. feed_records dev ts buf payload rb k left row out = Some r"
  using row mem
proof (induction left arbitrary: k row out)
  case (Suc left)
  have "\<exists>r. decodePayload (dd_spec dev) (bigEndian dev) buf (payload + k * rb) rb row = Some r"
  proof (cases "unat (fs_payloadMin (dd_spec dev)) \<le> rb")
    case True
    with Suc.prems(2) have "payload + k * rb + unat (fs_payloadMin (dd_spec dev)) \<le> length buf"
      by simp
    then show ?thesis
      using decodePayload_defined [OF spec rb] Suc.prems(1) by (simp add: fieldCount_def)
  qed (auto simp: decodePayload_def)
  then obtain ok row' where
    dec: "decodePayload (dd_spec dev) (bigEndian dev) buf (payload + k * rb) rb row = Some (ok, row')"
    by auto
  have "\<exists>r. feed_records dev ts buf payload rb (Suc k) left row' (sink_push dev ts row' out) = Some r"
    using Suc.prems decodePayload_length [OF dec] by (intro Suc.IH) auto
  with dec show ?case by auto
qed auto

lemma record_layout:
  assumes "spec_ok spec" "fs_frameLen spec < 2 ^ 31" "0 < pb" "pb < 2 ^ 16"
    and "unat (fs_payloadMin spec) \<le> pb"
  shows "record_bytes spec pb < 2 ^ 32"
    and "unat (fs_payloadMin spec) \<le> record_bytes spec pb \<Longrightarrow> i < record_count (record_bytes spec pb) pb \<Longrightarrow>
         i * record_bytes spec pb + unat (fs_payloadMin spec) \<le> pb"
proof -
  define rb where "rb = record_bytes spec pb"
  show "record_bytes spec pb < 2 ^ 32" using assms by (auto simp: record_bytes_def)
  assume pm: "unat (fs_payloadMin spec) \<le> record_bytes spec pb"
    and i: "i < record_count (record_bytes spec pb) pb"
  show "i * record_bytes spec pb + unat (fs_payloadMin spec) \<le> pb"
  proof (cases "0 < rb \<and> rb \<le> pb \<and> pb mod rb = 0")
    case True
    then have "Suc i \<le> pb div rb" using i by (simp add: record_count_def rb_def)
    then have "Suc i * rb \<le> pb div rb * rb" by (rule mult_le_mono1)
    also have "\<dots> = pb" using True by (metis add.right_neutral div_mult_mod_eq)
    finally show ?thesis using pm by (simp add: rb_def)
  next
    case False
    then have "record_count rb pb = 1" unfolding record_count_def by (rule if_not_P)
    with i assms(5) show ?thesis by (simp add: rb_def)
  qed
qed

lemma feed_frame_defined:
  assumes "spec_ok (dd_spec dev)" "fs_frameLen (dd_spec dev) < 2 ^ 31"
  shows "\<exists>c. feed_frame dev flag frameLen ts buf pos s = Some c"
proof -
  let ?spec = "dd_spec dev" and ?tail = "if trail_flag dev \<noteq> 0 then 1 else 0 :: nat"
  define pb where "pb = payload_bytes ?spec frameLen"
  have "\<exists>c. feed_complete dev pb ?tail ts buf pos s = Some c"
    if pb0: "0 < pb" and pm: "unat (fs_payloadMin ?spec) \<le> pb"
      and fit: "kHeaderSize + pb + ?tail \<le> kMaxFrame" "kHeaderSize + pb + ?tail \<le> length buf - pos"
  proof -
    have pb16: "pb < 2 ^ 16" using fit by (simp add: kMaxFrame_def kHeaderSize_def)
    have "\<exists>r. feed_records dev ts buf (pos + kHeaderSize) (record_bytes ?spec pb) 0
        (record_count (record_bytes ?spec pb) pb)
        (resize_up cell_default (fieldCount dev) row) out = Some r" for row out
    proof (rule feed_records_defined [OF assms(1)])
      show "record_bytes ?spec pb < 2 ^ 32" by (rule record_layout(1) [OF assms pb0 pb16 pm])
      assume le: "unat (fs_payloadMin ?spec) \<le> record_bytes ?spec pb"
      show "\<forall>i < 0 + record_count (record_bytes ?spec pb) pb.
          pos + kHeaderSize + i * record_bytes ?spec pb + unat (fs_payloadMin ?spec) \<le> length buf"
      proof (intro allI impI)
        fix i assume "i < 0 + record_count (record_bytes ?spec pb) pb"
        then have "i * record_bytes ?spec pb + unat (fs_payloadMin ?spec) \<le> pb"
          by (intro record_layout(2) [OF assms pb0 pb16 pm le]) simp
        with fit pb0 show "pos + kHeaderSize + i * record_bytes ?spec pb +
            unat (fs_payloadMin ?spec) \<le> length buf" by linarith
      qed
    qed simp
    then have rec: "\<exists>a b c. feed_records dev ts buf (pos + kHeaderSize) (record_bytes ?spec pb) 0
        (record_count (record_bytes ?spec pb) pb)
        (resize_up cell_default (fieldCount dev) row) out = Some (a, b, c)" for row out
      by (metis prod_cases3)
    have "\<exists>m. (if ?tail = 0 then Some False
        else do { t \<leftarrow> rd8 buf (pos + (kHeaderSize + pb + ?tail - 1)); Some (t \<noteq> trail_flag dev) }) = Some m"
      using fit by (auto simp: rd8_def kHeaderSize_def split: if_splits)
    then obtain m where m: "(if ?tail = 0 then Some False
        else do { t \<leftarrow> rd8 buf (pos + (kHeaderSize + pb + ?tail - 1)); Some (t \<noteq> trail_flag dev) }) = Some m" ..
    let ?st1 = "if m then (fst s)\<lparr>ds_flagMiss := ds_flagMiss (fst s) + 1\<rparr> else fst s"
    obtain x y z where "feed_records dev ts buf (pos + kHeaderSize) (record_bytes ?spec pb) 0
        (record_count (record_bytes ?spec pb) pb)
        (resize_up cell_default (fieldCount dev) (ds_rowScratch ?st1)) (snd s) = Some (x, y, z)"
      using rec by blast
    then show ?thesis unfolding feed_complete_def Let_def m by simp
  qed
  then show ?thesis by (auto simp: feed_frame_def Let_def pb_def)
qed

lemma feed_step_defined:
  assumes "group_ok grp"
  shows "\<exists>c. feed_step grp ts buf pos s = Some c"
proof (cases "length buf - pos < kHeaderSize")
  case False
  then have rd: "rd8 buf (pos + i) = Some (buf ! (pos + i))" if "i < 4" for i
    using that by (intro rd8_Some) (simp add: kHeaderSize_def)
  have "\<exists>c. feed_frame d flag fl ts buf pos s = Some c" if "byFrameType grp ft = Some d" for d flag fl ft
    using that assms byFrameType_member [of grp ft d] by (intro feed_frame_defined) (auto simp: group_ok_def)
  then show ?thesis
    using False rd [of 0] rd [of 1] rd [of 2] rd [of 3]
    by (auto simp: feed_step_def Let_def split: option.split)
qed (simp add: feed_step_def)

lemma feed_loop_defined: "group_ok grp \<Longrightarrow> \<exists>r. feed_loop grp ts buf pos s = Some r"
proof (induction grp ts buf pos s rule: feed_loop.induct)
  case (1 grp ts buf pos s)
  obtain c where c: "feed_step grp ts buf pos s = Some c"
    using feed_step_defined [OF "1.prems"] by blast
  with "1.IH" [OF c] "1.prems" show ?case
    by (cases c) (auto simp: feed_loop.simps [of grp ts buf pos s])
qed

text \<open>When the loop stops, less than one maximal frame is pending.\<close>

lemma feed_frame_stop_pending:
  assumes "feed_frame dev flag fl ts buf pos s = Some (Stop p t)"
  shows "length buf - p < kMaxFrame"
  using assms feed_frame_bounds(2) [OF assms] unfolding feed_frame_def Let_def
  by (auto split: if_splits dest!: feed_complete_next)

lemma feed_step_stop_pending:
  assumes "feed_step grp ts buf pos s = Some (Stop p t)"
  shows "length buf - p < kMaxFrame"
proof (cases "length buf - pos < kHeaderSize")
  case True
  with assms show ?thesis by (auto simp: feed_step_def kHeaderSize_def kMaxFrame_def)
next
  case False
  with assms obtain dev flag fl where "feed_frame dev flag fl ts buf pos s = Some (Stop p t)"
    by (auto simp: feed_step_def Let_def bind_Some_iff split: option.splits)
  then show ?thesis by (rule feed_frame_stop_pending)
qed

lemma feed_loop_pending: "feed_loop grp ts buf pos s = Some (p, t) \<Longrightarrow> length buf - p < kMaxFrame"
proof (induction grp ts buf pos s rule: feed_loop.induct)
  case (1 grp ts buf pos s)
  then show ?case
    by (subst (asm) feed_loop.simps)
       (auto split: option.splits ctl.splits dest: feed_step_stop_pending)
qed

section \<open>Chunk boundaries do not matter\<close>

lemma feed_complete_rebase:
  "feed_complete dev pb tail ts buf pos (rebase b c s) =
   map_option (map_ctl (rebase b c)) (feed_complete dev pb tail ts buf pos s)"
  by (cases s) (auto simp: feed_complete_def Let_def rebase_def split: bind_splits)

lemma feed_frame_rebase:
  "feed_frame dev flag fl ts buf pos (rebase b c s) =
   map_option (map_ctl (rebase b c)) (feed_frame dev flag fl ts buf pos s)"
  unfolding feed_frame_def Let_def
  by (simp add: feed_complete_rebase) (simp add: rebase_def resync1_def)

lemma feed_step_rebase:
  "feed_step grp ts buf pos (rebase b c s) =
   map_option (map_ctl (rebase b c)) (feed_step grp ts buf pos s)"
  by (auto simp: feed_step_def Let_def feed_frame_rebase split: option.split bind_splits)
     (simp_all add: rebase_def resync1_def)

lemma feed_pending:
  assumes "feed grp st data ts = Some (st', out)"
  shows "length (ds_buf st') < kMaxFrame"
proof -
  from assms obtain p st2 where
    run: "feed_loop grp ts (ds_buf st @ data) 0
            (st\<lparr>ds_bytesIn := ds_bytesIn st + word_of_nat (length data)\<rparr>, []) = Some (p, st2, out)"
    and st': "st' = compact (ds_buf st @ data) p st2"
    by (auto simp: feed_def Let_def bind_Some_iff)
  from feed_loop_pending [OF run] show ?thesis by (simp add: st' compact_pending)
qed

lemma feed_records_prepend:
  "feed_records dev ts buf payload rb k left row (o1 @ out) =
   map_option (\<lambda>(ok, row', out'). (ok, row', o1 @ out')) (feed_records dev ts buf payload rb k left row out)"
proof (induction left arbitrary: k row out)
  case (Suc left)
  have "feed_records dev ts buf payload rb (Suc k) left row' (sink_push dev ts row' (o1 @ out)) =
        map_option (\<lambda>(ok, row', out'). (ok, row', o1 @ out'))
          (feed_records dev ts buf payload rb (Suc k) left row' (sink_push dev ts row' out))" for row'
    using Suc [of "Suc k" row' "sink_push dev ts row' out"] by (simp add: sink_push_def)
  then show ?case by (auto split: bind_splits)
qed simp

lemma feed_complete_prepend:
  "feed_complete dev pb tail ts buf pos (prepend o1 s) =
   map_option (map_ctl (prepend o1)) (feed_complete dev pb tail ts buf pos s)"
  by (cases s) (auto simp: feed_complete_def Let_def prepend_def feed_records_prepend split: bind_splits)

lemma feed_frame_prepend:
  "feed_frame dev flag fl ts buf pos (prepend o1 s) =
   map_option (map_ctl (prepend o1)) (feed_frame dev flag fl ts buf pos s)"
  unfolding feed_frame_def Let_def
  by (simp add: feed_complete_prepend) (simp add: prepend_def)

lemma feed_step_prepend:
  "feed_step grp ts buf pos (prepend o1 s) =
   map_option (map_ctl (prepend o1)) (feed_step grp ts buf pos s)"
  by (auto simp: feed_step_def Let_def feed_frame_prepend split: option.split bind_splits)
     (simp_all add: prepend_def)

interpretation custom: endpoint_slicer "feed_step grp ts" "feed_loop grp ts" for grp ts
  by unfold_locales
     (auto dest: feed_step_next_bounds feed_step_stop
           simp: feed_step_next_append feed_step_shift feed_step_rebase feed_step_prepend feed_loop.simps)

lemma feed_slice: "feed grp st data ts = slice_feed (feed_loop grp ts) st data"
  by (simp add: feed_def slice_feed_def)

lemma feed_append:
  assumes ok: "group_ok grp" and "feed grp st a ts = Some (st1, o1)" "feed grp st1 b ts = Some (st2, o2)"
  shows "feed grp st (a @ b) ts = Some (st2, o1 @ o2)"
proof -
  obtain p t1 u1 where run1: "feed_loop grp ts (ds_buf st @ a) 0 (st, []) = Some (p, t1, u1)"
    using feed_loop_defined [OF ok, of ts "ds_buf st @ a" 0 "(st, [])"] by auto
  obtain q t2 u2 where run2: "feed_loop grp ts (ds_buf st1 @ b) 0 (st1, []) = Some (q, t2, u2)"
    using feed_loop_defined [OF ok, of ts "ds_buf st1 @ b" 0 "(st1, [])"] by auto
  from assms run1 run2 have "u1 = o1" "u2 = o2"
    by (auto simp: feed_slice dest!: custom.slice_feed_run)
  with assms run1 run2 show ?thesis
    unfolding feed_slice by (auto intro: custom.slice_feed_append feed_loop_pending)
qed

text \<open>A whole connection: the received chunks, in order.\<close>

fun feed_all :: "device_group \<Rightarrow> device_stream \<Rightarrow> bytes list \<Rightarrow> i64 \<Rightarrow> (device_stream \<times> sink_row list) option"
where
  "feed_all grp st [] ts = Some (st, [])"
| "feed_all grp st (c # cs) ts =
     do {
       (st1, o1) \<leftarrow> feed grp st c ts;
       (st2, o2) \<leftarrow> feed_all grp st1 cs ts;
       Some (st2, o1 @ o2)
     }"

lemma feed_defined: "group_ok grp \<Longrightarrow> \<exists>st' out. feed grp st data ts = Some (st', out)"
  using feed_loop_defined [of grp ts "ds_buf st @ data" 0 "(st, [])"] custom.slice_feed_run
  unfolding feed_slice by fastforce

lemma feed_all_concat:
  "group_ok grp \<Longrightarrow> feed_all grp st (c # cs) ts = feed grp st (concat (c # cs)) ts"
proof (induction cs arbitrary: st c)
  case Nil
  then show ?case by (auto split: bind_splits)
next
  case (Cons d cs)
  obtain st1 o1 where f1: "feed grp st c ts = Some (st1, o1)" using feed_defined [OF Cons.prems] by blast
  obtain st2 o2 where f2: "feed grp st1 (concat (d # cs)) ts = Some (st2, o2)"
    using feed_defined [OF Cons.prems] by blast
  have "feed grp st (c @ concat (d # cs)) ts = Some (st2, o1 @ o2)"
    by (rule feed_append [OF Cons.prems f1 f2])
  moreover have "feed_all grp st1 (d # cs) ts = Some (st2, o2)" using Cons f2 by simp
  moreover have "feed_all grp st (c # d # cs) ts =
      do { (st1, o1) \<leftarrow> feed grp st c ts; (st2, o2) \<leftarrow> feed_all grp st1 (d # cs) ts; Some (st2, o1 @ o2) }"
    by (rule feed_all.simps)
  ultimately show ?case using f1 by (simp only: bind.bind_lunit case_prod_conv concat.simps)
qed

end
