(* ===== verification/Frame_Wire.thy ===== *)
theory Frame_Wire
  imports Frame_Codec
begin

text \<open>
  The custom_data wire format as a sender produces it (the layout comment of
  \<open>src/src/adapter/FrameCodec.h\<close>), and the round trip: slicing a run of well-formed frames yields
  exactly their records, in order, and leaves nothing behind.
\<close>

section \<open>Sending a frame\<close>

record wire_frame =
  wf_dev :: device_desc
  wf_flag :: u8
  wf_seq0 :: u8
  wf_seq1 :: u8
  wf_records :: "bytes list"

definition encode_header :: "wire_frame \<Rightarrow> bytes" where
  "encode_header w =
     (let len = length (concat (wf_records w))
      in [word_of_int (fs_frameType (dd_spec (wf_dev w))), wf_flag w,
          word_of_nat (len mod 256), word_of_nat (len div 256), wf_seq0 w, wf_seq1 w])"

definition encode_frame :: "wire_frame \<Rightarrow> bytes" where
  "encode_frame w =
     encode_header w @ concat (wf_records w) @
     (if trail_flag (wf_dev w) \<noteq> 0 then [trail_flag (wf_dev w)] else [])"

text \<open>
  A frame that the endpoint \<open>grp\<close> is configured for: the frame type selects its device, the event
  delimiter is in place, and the payload is a whole number of configured records into which every
  field of the layout fits.
\<close>

definition wire_frame_ok :: "device_group \<Rightarrow> wire_frame \<Rightarrow> bool" where
  "wire_frame_ok grp w \<longleftrightarrow>
     (let dev = wf_dev w; spec = dd_spec dev; rb = nat (fs_frameLen spec)
      in byFrameType grp (fs_frameType spec) = Some dev \<and> 0 \<le> fs_frameType spec \<and>
         fs_frameType spec < 256 \<and> fs_fields spec \<noteq> [] \<and> spec_ok spec \<and>
         (lead_flag dev \<noteq> 0 \<longrightarrow> wf_flag w = lead_flag dev) \<and>
         0 < rb \<and> wf_records w \<noteq> [] \<and> (\<forall>r \<in> set (wf_records w). length r = rb) \<and>
         unat (fs_payloadMin spec) \<le> rb \<and>
         (\<forall>f \<in> set (fs_fields spec). unat (fd_byteOffset f) + unat (fd_size f) \<le> rb) \<and>
         length (encode_frame w) \<le> kMaxFrame)"

definition frame_rows :: "i64 \<Rightarrow> wire_frame \<Rightarrow> sink_row list" where
  "frame_rows ts w =
     map (\<lambda>r. (wf_dev w, ts, row_of (dd_spec (wf_dev w)) (bigEndian (wf_dev w)) r 0)) (wf_records w)"

section \<open>Decoding the records of a frame\<close>

lemma field_slice_prefix:
  assumes "drop payload mem = r @ rest" "unat (fd_byteOffset f) + unat (fd_size f) \<le> length r"
  shows "field_slice mem payload f = field_slice r 0 f"
proof -
  have "drop (payload + unat (fd_byteOffset f)) mem = drop (unat (fd_byteOffset f)) (r @ rest)"
    using assms(1) by (metis add.commute drop_drop)
  also have "take (unat (fd_size f)) \<dots> = take (unat (fd_size f)) (drop (unat (fd_byteOffset f)) r)"
    using assms(2) by simp
  finally show ?thesis by (simp add: field_slice_def)
qed

lemma row_of_prefix:
  assumes "drop payload mem = r @ rest"
    and "\<forall>f \<in> set (fs_fields spec). unat (fd_byteOffset f) + unat (fd_size f) \<le> length r"
  shows "row_of spec be mem payload = row_of spec be r 0"
  unfolding row_of_def using assms(2) by (auto simp: field_slice_prefix [OF assms(1)])

lemma length_row_of [simp]: "length (row_of spec be mem payload) = length (fs_fields spec)"
  by (simp add: row_of_def)

lemma feed_records_rows:
  assumes ok: "spec_ok (dd_spec dev)" "fs_fields (dd_spec dev) \<noteq> []"
      "unat (fs_payloadMin (dd_spec dev)) \<le> rb"
      "\<forall>f \<in> set (fs_fields (dd_spec dev)). unat (fd_byteOffset f) + unat (fd_size f) \<le> rb"
    and row: "fieldCount dev \<le> length row"
    and mem: "payload + (k + left) * rb \<le> length buf"
  shows "\<exists>row'. feed_records dev ts buf payload rb k left row out =
    Some (True, row', out @ map (\<lambda>i. (dev, ts, row_of (dd_spec dev) (bigEndian dev) buf (payload + i * rb)))
                            [k ..< k + left])"
  using row mem
proof (induction left arbitrary: k row out)
  case (Suc left)
  have "payload + k * rb + rb \<le> payload + (k + Suc left) * rb" by (simp add: algebra_simps)
  then have fit: "payload + k * rb + rb \<le> length buf" using Suc.prems(2) by linarith
  obtain row' where
    dec: "decodePayload (dd_spec dev) (bigEndian dev) buf (payload + k * rb) rb row = Some (True, row')"
    and hd: "take (length (fs_fields (dd_spec dev))) row' =
             row_of (dd_spec dev) (bigEndian dev) buf (payload + k * rb)"
    using decodePayload_row [OF ok(1,2,3) fit _ ok(4)] Suc.prems(1) by (auto simp: fieldCount_def)
  let ?out = "sink_push dev ts row' out"
  have "fieldCount dev \<le> length row'" using decodePayload_length [OF dec] Suc.prems(1) by simp
  then obtain row'' where "feed_records dev ts buf payload rb (Suc k) left row' ?out =
      Some (True, row'', ?out @ map (\<lambda>i. (dev, ts, row_of (dd_spec dev) (bigEndian dev) buf (payload + i * rb)))
                                 [Suc k ..< Suc k + left])"
    using Suc.IH [of row' "Suc k" ?out] Suc.prems(2) by auto
  moreover have "[k ..< k + Suc left] = k # [Suc k ..< Suc k + left]" by (simp add: upt_rec)
  ultimately show ?case using dec hd by (simp add: sink_push_def fieldCount_def)
qed simp

section \<open>One frame\<close>

lemma header_length_field:
  assumes "n < 65536"
  shows "unat (word_of_nat (n mod 256) :: u8) OR push_bit 8 (unat (word_of_nat (n div 256) :: u8)) = n"
proof -
  have lo: "unat (word_of_nat (n mod 256) :: u8) = n mod 256" by (intro unat_of_nat_small) simp
  have hi: "unat (word_of_nat (n div 256) :: u8) = n div 256"
    using assms by (intro unat_of_nat_small) simp
  have "n mod 256 = take_bit 8 n" "n div 256 = drop_bit 8 n"
    by (simp_all add: take_bit_eq_mod drop_bit_eq_div)
  moreover have "take_bit 8 n OR push_bit 8 (drop_bit 8 n) = n"
    by (rule bit_eqI) (simp add: bit_simps, metis le_add_diff_inverse not_less)
  ultimately have "n mod 256 OR push_bit 8 (n div 256) = n" by simp
  then show ?thesis by (simp only: lo hi)
qed

lemma wire_frame_okD:
  assumes "wire_frame_ok grp w"
  defines "dev \<equiv> wf_dev w"
  defines "spec \<equiv> dd_spec dev"
  defines "rb \<equiv> nat (fs_frameLen spec)"
  defines "pb \<equiv> length (concat (wf_records w))"
  shows "pb = length (wf_records w) * rb" "0 < rb" "rb \<le> pb" "pb < 65536"
    and "record_bytes spec pb = rb" "record_count rb pb = length (wf_records w)"
proof -
  have rb: "0 < rb" and ne: "wf_records w \<noteq> []" and len: "\<forall>r \<in> set (wf_records w). length r = rb"
    and max: "length (encode_frame w) \<le> kMaxFrame"
    using assms(1) by (auto simp: wire_frame_ok_def Let_def rb_def spec_def dev_def)
  show pb: "pb = length (wf_records w) * rb"
    unfolding pb_def by (rule length_concat_const [OF len])
  show "0 < rb" by (rule rb)
  show le: "rb \<le> pb" using ne by (cases "wf_records w") (auto simp: pb)
  show "pb < 65536"
    using max by (simp add: encode_frame_def encode_header_def Let_def kMaxFrame_def pb_def)
  show "record_bytes spec pb = rb" using rb by (auto simp: record_bytes_def rb_def)
  show "record_count rb pb = length (wf_records w)" using rb le by (simp add: record_count_def pb)
qed

lemma encode_frame_length:
  "length (encode_frame w) = kHeaderSize + length (concat (wf_records w)) +
     (if trail_flag (wf_dev w) \<noteq> 0 then 1 else 0)"
  by (simp add: encode_frame_def encode_header_def Let_def kHeaderSize_def)

lemma encode_frame_drop:
  assumes "wire_frame_ok grp w" "i < length (wf_records w)"
  shows "\<exists>rest. drop (kHeaderSize + i * nat (fs_frameLen (dd_spec (wf_dev w)))) (encode_frame w) =
           wf_records w ! i @ rest"
proof -
  let ?rb = "nat (fs_frameLen (dd_spec (wf_dev w)))"
  have len: "\<forall>r \<in> set (wf_records w). length r = ?rb"
    using assms(1) by (simp add: wire_frame_ok_def Let_def)
  have "i * ?rb \<le> length (concat (wf_records w))"
    using assms(2) by (simp add: length_concat_const [OF len])
  moreover have "drop kHeaderSize (encode_frame w) = concat (wf_records w) @
      (if trail_flag (wf_dev w) \<noteq> 0 then [trail_flag (wf_dev w)] else [])"
    by (simp add: encode_frame_def encode_header_def Let_def kHeaderSize_def)
  ultimately have "drop (i * ?rb) (drop kHeaderSize (encode_frame w)) =
      wf_records w ! i @ concat (drop (Suc i) (wf_records w)) @
      (if trail_flag (wf_dev w) \<noteq> 0 then [trail_flag (wf_dev w)] else [])"
    using drop_concat_const [OF len assms(2)] by simp
  then show ?thesis by (simp add: add.commute)
qed

lemma feed_complete_wire:
  assumes ok: "wire_frame_ok grp w"
  defines "tail \<equiv> (if trail_flag (wf_dev w) \<noteq> 0 then 1 else 0 :: nat)"
  shows "\<exists>row. feed_complete (wf_dev w) (length (concat (wf_records w))) tail ts (encode_frame w) 0 (st, out) =
    Some (Next (length (encode_frame w))
      (st\<lparr>ds_rowScratch := row, ds_frames := ds_frames st + 1\<rparr>, out @ frame_rows ts w))"
proof -
  define dev where "dev = wf_dev w"
  define rb where "rb = nat (fs_frameLen (dd_spec dev))"
  define pb where "pb = length (concat (wf_records w))"
  note lay = wire_frame_okD [OF ok, folded dev_def, folded rb_def pb_def]
  have spec: "spec_ok (dd_spec dev)" "fs_fields (dd_spec dev) \<noteq> []"
      "unat (fs_payloadMin (dd_spec dev)) \<le> rb"
      "\<forall>f \<in> set (fs_fields (dd_spec dev)). unat (fd_byteOffset f) + unat (fd_size f) \<le> rb"
    and len: "\<forall>r \<in> set (wf_records w). length r = rb"
    using ok by (simp_all add: wire_frame_ok_def Let_def dev_def rb_def)
  have size: "length (encode_frame w) = kHeaderSize + pb + tail"
    by (simp add: encode_frame_length pb_def tail_def)
  have rows: "map (\<lambda>i. (dev, ts, row_of (dd_spec dev) (bigEndian dev) (encode_frame w) (kHeaderSize + i * rb)))
      [0 ..< 0 + length (wf_records w)] = frame_rows ts w"
  proof (rule nth_equalityI)
    fix i assume "i < length (map (\<lambda>i. (dev, ts, row_of (dd_spec dev) (bigEndian dev) (encode_frame w)
        (kHeaderSize + i * rb))) [0 ..< 0 + length (wf_records w)])"
    then have i: "i < length (wf_records w)" by simp
    obtain rest where "drop (kHeaderSize + i * rb) (encode_frame w) = wf_records w ! i @ rest"
      using encode_frame_drop [OF ok i] by (auto simp: rb_def dev_def)
    from row_of_prefix [OF this] spec(4) len i
    show "map (\<lambda>i. (dev, ts, row_of (dd_spec dev) (bigEndian dev) (encode_frame w) (kHeaderSize + i * rb)))
        [0 ..< 0 + length (wf_records w)] ! i = frame_rows ts w ! i"
      by (simp add: frame_rows_def dev_def)
  qed (simp add: frame_rows_def)
  obtain row where rec: "feed_records dev ts (encode_frame w) (0 + kHeaderSize) rb 0 (length (wf_records w))
      (resize_up cell_default (fieldCount dev) (ds_rowScratch st)) out = Some (True, row, out @ frame_rows ts w)"
    using feed_records_rows [OF spec, of "resize_up cell_default (fieldCount dev) (ds_rowScratch st)"
        "0 + kHeaderSize" 0 "length (wf_records w)" "encode_frame w" ts out] rows lay(1) size by auto
  have miss: "(if tail = 0 then Some False
      else do { t \<leftarrow> rd8 (encode_frame w) (0 + (kHeaderSize + pb + tail - 1)); Some (t \<noteq> trail_flag dev) }) =
      Some False"
    by (auto simp: tail_def dev_def pb_def rd8_def encode_frame_def encode_header_def Let_def
        kHeaderSize_def nth_append)
  show ?thesis
    unfolding feed_complete_def Let_def pb_def [symmetric] dev_def [symmetric] fst_conv snd_conv
      miss bind.bind_lunit if_False lay(5,6) rec case_prod_conv
    by (auto simp: size)
qed

lemma feed_step_wire:
  assumes ok: "wire_frame_ok grp w"
  shows "\<exists>row. feed_step grp ts (encode_frame w) 0 (st, out) =
    Some (Next (length (encode_frame w))
      (st\<lparr>ds_rowScratch := row, ds_frames := ds_frames st + 1\<rparr>, out @ frame_rows ts w))"
proof -
  define dev where "dev = wf_dev w"
  define spec where "spec = dd_spec dev"
  define pb where "pb = length (concat (wf_records w))"
  note lay = wire_frame_okD [OF ok, folded dev_def, folded spec_def, folded pb_def]
  have cfg: "byFrameType grp (fs_frameType spec) = Some dev" "0 \<le> fs_frameType spec"
      "fs_frameType spec < 256" "fs_fields spec \<noteq> []"
      "lead_flag dev \<noteq> 0 \<longrightarrow> wf_flag w = lead_flag dev"
      "unat (fs_payloadMin spec) \<le> nat (fs_frameLen spec)" "length (encode_frame w) \<le> kMaxFrame"
    using ok by (simp_all add: wire_frame_ok_def Let_def dev_def spec_def)
  have ft: "int (unat (word_of_int (fs_frameType spec) :: u8)) = fs_frameType spec"
    using cfg(2,3) by (simp add: unsigned_of_int take_bit_int_eq_self)
  have fl: "unat (word_of_nat (pb mod 256) :: u8) OR push_bit 8 (unat (word_of_nat (pb div 256) :: u8)) = pb"
    using lay(4) by (rule header_length_field)
  have pay: "payload_bytes spec pb = pb" using lay(2,3) by (auto simp: payload_bytes_def)
  have hdr: "rd8 (encode_frame w) 0 = Some (word_of_int (fs_frameType spec))"
      "rd8 (encode_frame w) 1 = Some (wf_flag w)"
      "rd8 (encode_frame w) 2 = Some (word_of_nat (pb mod 256))"
      "rd8 (encode_frame w) 3 = Some (word_of_nat (pb div 256))"
    by (simp_all add: rd8_def encode_frame_def encode_header_def Let_def pb_def dev_def spec_def
        nth_Cons_numeral)
  have size: "length (encode_frame w) = kHeaderSize + pb + (if trail_flag dev \<noteq> 0 then 1 else 0)"
    by (simp add: encode_frame_length pb_def dev_def)
  have long: "\<not> length (encode_frame w) - 0 < kHeaderSize" using size by simp
  have "feed_step grp ts (encode_frame w) 0 (st, out) =
      feed_frame dev (wf_flag w) pb ts (encode_frame w) 0 (st, out)"
    unfolding feed_step_def Let_def if_not_P [OF long] add_0 hdr bind.bind_lunit fl ft cfg(1) option.case ..
  moreover have "pb \<noteq> 0" "\<not> pb < unat (fs_payloadMin spec)" using lay(2,3) cfg(6) by auto
  moreover have "\<not> kMaxFrame < kHeaderSize + pb + (if trail_flag dev \<noteq> 0 then 1 else 0)"
    using size cfg(7) by simp
  ultimately have "feed_step grp ts (encode_frame w) 0 (st, out) =
      feed_complete dev pb (if trail_flag dev \<noteq> 0 then 1 else 0) ts (encode_frame w) 0 (st, out)"
    using cfg(4,5) size by (auto simp: feed_frame_def Let_def pay spec_def [symmetric])
  then show ?thesis
    using feed_complete_wire [OF ok, of ts st out] by (simp only: dev_def pb_def)
qed

section \<open>A run of frames\<close>

lemma feed_loop_frames:
  assumes "\<forall>w \<in> set ws. wire_frame_ok grp w"
  shows "\<exists>row. feed_loop grp ts (concat (map encode_frame ws)) 0 (st, out) =
    Some (length (concat (map encode_frame ws)),
      st\<lparr>ds_rowScratch := row, ds_frames := ds_frames st + word_of_nat (length ws)\<rparr>,
      out @ concat (map (frame_rows ts) ws))"
  using assms
proof (induction ws arbitrary: st out)
  case Nil
  have "feed_step grp ts [] 0 (st, out) = Some (Stop 0 (st, out))"
    by (simp add: feed_step_def kHeaderSize_def)
  then show ?case by (intro exI [of _ "ds_rowScratch st"]) (simp add: feed_loop.simps)
next
  case (Cons w ws)
  let ?n = "length (encode_frame w)" and ?rest = "concat (map encode_frame ws)"
  obtain row where step: "feed_step grp ts (encode_frame w) 0 (st, out) =
      Some (Next ?n (st\<lparr>ds_rowScratch := row, ds_frames := ds_frames st + 1\<rparr>, out @ frame_rows ts w))"
    using feed_step_wire Cons.prems by fastforce
  let ?s = "(st\<lparr>ds_rowScratch := row, ds_frames := ds_frames st + 1\<rparr>, out @ frame_rows ts w)"
  have "feed_loop grp ts (encode_frame w @ ?rest) 0 (st, out) = feed_loop grp ts (encode_frame w @ ?rest) (?n + 0) ?s"
    using feed_step_next_append [OF step, of ?rest] by (simp add: feed_loop.simps [of _ _ _ 0])
  also have "\<dots> = map_option (shift_pos ?n) (feed_loop grp ts ?rest 0 ?s)"
    by (subst custom.loop_shift) simp_all
  also obtain row' where "feed_loop grp ts ?rest 0 ?s =
      Some (length ?rest, (fst ?s)\<lparr>ds_rowScratch := row',
        ds_frames := ds_frames (fst ?s) + word_of_nat (length ws)\<rparr>,
        snd ?s @ concat (map (frame_rows ts) ws))"
    using Cons.IH [of "fst ?s" "snd ?s"] Cons.prems by auto
  finally show ?case
    by (intro exI [of _ row']) (simp add: shift_pos_def add.assoc)
qed

lemma feed_frames:
  assumes "\<forall>w \<in> set ws. wire_frame_ok grp w" "ds_buf st = []"
  shows "\<exists>row. feed grp st (concat (map encode_frame ws)) ts =
    Some (st\<lparr>ds_rowScratch := row, ds_frames := ds_frames st + word_of_nat (length ws),
             ds_bytesIn := ds_bytesIn st + word_of_nat (length (concat (map encode_frame ws)))\<rparr>,
          concat (map (frame_rows ts) ws))"
proof -
  let ?bs = "concat (map encode_frame ws)"
  obtain row where run: "feed_loop grp ts ?bs 0 (st, []) =
    Some (length ?bs, st\<lparr>ds_rowScratch := row, ds_frames := ds_frames st + word_of_nat (length ws)\<rparr>,
      concat (map (frame_rows ts) ws))"
    using feed_loop_frames [OF assms(1), of ts st "[]"] by auto
  have "slice_feed (feed_loop grp ts) st ?bs =
      Some ((st\<lparr>ds_rowScratch := row, ds_frames := ds_frames st + word_of_nat (length ws)\<rparr>)
        \<lparr>ds_buf := drop (length ?bs) (ds_buf st @ ?bs),
         ds_bytesIn := ds_bytesIn st + word_of_nat (length ?bs)\<rparr>, concat (map (frame_rows ts) ws))"
    by (rule custom.slice_feed_eq) (use run assms(2) in \<open>simp_all add: kMaxFrame_def\<close>)
  then show ?thesis
    unfolding feed_slice by (intro exI [of _ row]) (cases st, use assms(2) in simp)
qed

end
