(* ===== verification/Modbus_Codec.thy ===== *)
theory Modbus_Codec
  imports Frame_Codec
begin

text \<open>
  \<open>FrameCodec::feedModbus\<close> (\<open>src/src/adapter/FrameCodec.cpp\<close>, lines 246 to 341): slicing of
  register-read responses whose header length is the configured frame type (9 or 7: MBAP framed,
  with re-synchronisation on the protocol identifier; 2 or 0: fixed length).
\<close>

section \<open>Operations\<close>

definition skip :: "nat \<Rightarrow> device_stream \<Rightarrow> device_stream" where
  "skip k st = st\<lparr>ds_resyncs := ds_resyncs st + word_of_nat k\<rparr>"

text \<open>The search for the protocol identifier: two zero bytes at offset 2.\<close>

function modbus_scan :: "bytes \<Rightarrow> nat \<Rightarrow> nat" where
  "modbus_scan buf p =
     (if p + 4 \<le> length buf then
        (if buf ! (p + 2) = 0 \<and> buf ! (p + 3) = 0 then p else modbus_scan buf (Suc p))
      else p)"
  by pat_completeness auto
termination by (relation "measure (\<lambda>(buf, p). length buf - p)") auto

declare modbus_scan.simps [simp del]

text \<open>An attempt to decode a response body; a failed decode drops one byte.\<close>

definition modbus_decode ::
  "device_desc \<Rightarrow> i64 \<Rightarrow> bytes \<Rightarrow> nat \<Rightarrow> nat \<Rightarrow> nat \<Rightarrow> nat \<Rightarrow> slice_state \<Rightarrow> slice_state ctl option"
where
  "modbus_decode dev ts buf p hdr payloadLen tot s =
     (let st = fst s; out = snd s
      in do {
        (ok, row) \<leftarrow> decodePayload (dd_spec dev) (modbusBigEndian dev) buf (p + hdr) payloadLen
                      (ds_rowScratch st);
        let st1 = st\<lparr>ds_rowScratch := row\<rparr>;
        Some (if \<not> ok then Next (p + 1) (resync1 (st1\<lparr>ds_badFrames := ds_badFrames st1 + 1\<rparr>), out)
              else Next (p + tot)
                     (st1\<lparr>ds_frames := ds_frames st1 + 1\<rparr>, sink_push dev ts row out))
      })"

text \<open>The MBAP branch once the stream is synchronised at \<open>p\<close>.\<close>

definition modbus_mbap ::
  "device_desc \<Rightarrow> i64 \<Rightarrow> nat \<Rightarrow> bytes \<Rightarrow> nat \<Rightarrow> slice_state \<Rightarrow> slice_state ctl option"
where
  "modbus_mbap dev ts hdr buf p s =
     (let st = fst s; out = snd s; n = length buf;
          payloadNeed = unat (fs_payloadMin (dd_spec dev))
      in if n - p < 6 then Some (Stop p s)
         else do {
           hi \<leftarrow> rd8 buf (p + 4);
           lo \<leftarrow> rd8 buf (p + 5);
           let mbapLen = (push_bit 8 (unat hi) OR unat lo);
           let tot = 6 + mbapLen;
           if mbapLen < 1 then Some (Next (p + 1) (resync1 st, out))
           else if kMaxFrame < tot \<or> tot < hdr then Some (Next (p + 1) (resync1 st, out))
           else if n - p < tot then Some (Stop p s)
           else if tot - hdr < payloadNeed then Some (Next (p + 1) (resync1 st, out))
           else modbus_decode dev ts buf p hdr (tot - hdr) tot s
         })"

text \<open>
  One turn of the \<open>while (true)\<close> loop. A fixed-length frame of no bytes would be cut forever without
  progress, which is no result; \<open>feedModbus\<close> excludes it by its guard on \<open>payloadNeed\<close>.
\<close>

definition modbus_step ::
  "device_desc \<Rightarrow> i64 \<Rightarrow> bytes \<Rightarrow> nat \<Rightarrow> slice_state \<Rightarrow> slice_state ctl option"
where
  "modbus_step dev ts buf pos s =
     (let st = fst s; out = snd s; n = length buf;
          hdr = nat (fs_frameType (dd_spec dev));
          payloadNeed = unat (fs_payloadMin (dd_spec dev))
      in if hdr = 7 \<or> hdr = 9 then
           (let p = modbus_scan buf pos
            in if n < p + 4 then
                 (let avail = n - pos; keep = (if 3 < avail then 3 else avail); dropped = avail - keep
                  in Some (Stop (pos + dropped) (skip dropped st, out)))
               else modbus_mbap dev ts hdr buf p (if p \<noteq> pos then (skip (p - pos) st, out) else s))
         else
           (let tot = hdr + payloadNeed
            in if tot = 0 then None
               else if n - pos < tot then Some (Stop pos s)
               else modbus_decode dev ts buf pos hdr payloadNeed tot s))"

lemma modbus_scan_ge: "p \<le> modbus_scan buf p"
proof (induction buf p rule: modbus_scan.induct)
  case (1 buf p)
  show ?case
  proof (cases "p + 4 \<le> length buf \<and> \<not> (buf ! (p + 2) = 0 \<and> buf ! (p + 3) = 0)")
    case True
    with 1 have "p \<le> modbus_scan buf (Suc p)" by auto
    with True show ?thesis by (subst modbus_scan.simps) auto
  qed (subst modbus_scan.simps, auto)
qed

lemma modbus_decode_next:
  "modbus_decode dev ts buf p hdr len tot s = Some c \<Longrightarrow> \<exists>q t. c = Next q t \<and> (q = p + 1 \<or> q = p + tot)"
  by (auto simp: modbus_decode_def Let_def bind_Some_iff split: if_splits)

lemma modbus_mbap_bounds:
  "modbus_mbap dev ts hdr buf p s = Some (Next q t) \<Longrightarrow> p < q \<and> q \<le> length buf"
  "modbus_mbap dev ts hdr buf p s = Some (Stop q t) \<Longrightarrow> q = p \<and> t = s"
  unfolding modbus_mbap_def Let_def
  by (auto simp only: bind_Some_iff option.inject ctl.inject ctl.distinct split: if_splits
           dest!: modbus_decode_next)

lemma modbus_step_next_bounds:
  "modbus_step dev ts buf pos s = Some (Next p t) \<Longrightarrow> pos < p \<and> p \<le> length buf"
  using modbus_scan_ge [of pos buf]
  by (auto simp: modbus_step_def Let_def split: if_splits dest!: modbus_mbap_bounds(1) modbus_decode_next)

lemma modbus_step_stop_bounds:
  "modbus_step dev ts buf pos s = Some (Stop p t) \<Longrightarrow> pos \<le> length buf \<Longrightarrow> pos \<le> p \<and> p \<le> length buf"
  using modbus_scan_ge [of pos buf]
  by (auto simp: modbus_step_def Let_def split: if_splits dest!: modbus_mbap_bounds(2) modbus_decode_next)

function modbus_loop ::
  "device_desc \<Rightarrow> i64 \<Rightarrow> bytes \<Rightarrow> nat \<Rightarrow> slice_state \<Rightarrow> (nat \<times> slice_state) option"
where
  "modbus_loop dev ts buf pos s =
     (case modbus_step dev ts buf pos s of
        None \<Rightarrow> None
      | Some (Stop p t) \<Rightarrow> Some (p, t)
      | Some (Next p t) \<Rightarrow> modbus_loop dev ts buf p t)"
  by pat_completeness auto
termination
  by (relation "measure (\<lambda>(dev, ts, buf, pos, s). length buf - pos)")
     (auto dest!: modbus_step_next_bounds)

declare modbus_loop.simps [simp del]

text \<open>
  In the fixed-length branch \<open>tot > kMaxFrame\<close> depends on the configuration only, so the early
  \<open>return rows\<close> happens in the first turn, before anything is consumed and without compaction.
\<close>

definition feedModbus ::
  "device_desc \<Rightarrow> device_stream \<Rightarrow> bytes \<Rightarrow> i64 \<Rightarrow> (device_stream \<times> sink_row list) option"
where
  "feedModbus dev st data ts =
     (let spec = dd_spec dev;
          st1 = st\<lparr>ds_bytesIn := ds_bytesIn st + word_of_nat (length data)\<rparr>;
          hdr = nat (fs_frameType spec);
          payloadNeed = unat (fs_payloadMin spec)
      in if fs_fields spec = [] then Some (st1, [])
         else if \<not> isModbusHeaderLen spec then
           Some (st1\<lparr>ds_badFrames := ds_badFrames st1 + 1\<rparr>, [])
         else if payloadNeed = 0 then
           Some (st1\<lparr>ds_badFrames := ds_badFrames st1 + 1\<rparr>, [])
         else let buf = ds_buf st1 @ data;
                  st2 = st1\<lparr>ds_rowScratch := resize_up cell_default (fieldCount dev) (ds_rowScratch st1)\<rparr>
         in if \<not> (hdr = 7 \<or> hdr = 9) \<and> kMaxFrame < hdr + payloadNeed then
              Some (st2\<lparr>ds_buf := buf\<rparr>, [])
            else do {
              (pos, st3, out) \<leftarrow> modbus_loop dev ts buf 0 (st2, []);
              Some (compact buf pos st3, out)
            })"

section \<open>Locality of the steps\<close>

lemma skip_skip: "skip a (skip b st) = skip (b + a) st"
  by (simp add: skip_def add.assoc)

lemma skip_0 [simp]: "skip 0 st = st"
  by (simp add: skip_def)

lemma modbus_scan_append:
  "modbus_scan buf p + 4 \<le> length buf \<Longrightarrow> modbus_scan (buf @ ext) p = modbus_scan buf p"
proof (induction buf p rule: modbus_scan.induct)
  case (1 buf p)
  have "p + 4 \<le> length buf"
    using modbus_scan_ge [of p buf] "1.prems" by simp
  with 1 show ?case
    by (auto simp: modbus_scan.simps [of buf p] modbus_scan.simps [of "buf @ ext" p] nth_append
             split: if_splits)
qed

lemma modbus_scan_fail_append:
  "length buf < modbus_scan buf p + 4 \<Longrightarrow> p \<le> q \<Longrightarrow> q + 3 \<le> length buf \<Longrightarrow>
     modbus_scan (buf @ ext) p = modbus_scan (buf @ ext) q"
proof (induction buf p rule: modbus_scan.induct)
  case (1 buf p)
  show ?case
  proof (cases "p = q")
    case False
    with "1.prems" have p: "p + 4 \<le> length buf" by simp
    with "1.prems"(1) have nz: "\<not> (buf ! (p + 2) = 0 \<and> buf ! (p + 3) = 0)"
      by (auto simp: modbus_scan.simps [of buf p])
    then have "modbus_scan (buf @ ext) p = modbus_scan (buf @ ext) (Suc p)"
      using p by (subst modbus_scan.simps) (auto simp: nth_append)
    also have "\<dots> = modbus_scan (buf @ ext) q"
      using "1.IH" [OF p nz] "1.prems" False p nz by (auto simp: modbus_scan.simps [of buf p])
    finally show ?thesis .
  qed simp
qed

lemma modbus_scan_shift:
  "k + p \<le> length buf \<Longrightarrow> modbus_scan buf (k + p) = k + modbus_scan (drop k buf) p"
proof (induction "length buf - p" arbitrary: p rule: less_induct)
  case less
  show ?case
  proof (cases "k + p + 4 \<le> length buf")
    case True
    then have "modbus_scan buf (k + Suc p) = k + modbus_scan (drop k buf) (Suc p)"
      by (intro less.hyps) auto
    with True show ?thesis
      by (auto simp: modbus_scan.simps [of buf "k + p"] modbus_scan.simps [of "drop k buf" p] add.assoc)
  next
    case False
    with less.prems show ?thesis
      by (auto simp: modbus_scan.simps [of buf "k + p"] modbus_scan.simps [of "drop k buf" p])
  qed
qed

lemma modbus_decode_append:
  "modbus_decode dev ts buf p hdr len tot s = Some c \<Longrightarrow>
     modbus_decode dev ts (buf @ ext) p hdr len tot s = Some c"
  unfolding modbus_decode_def Let_def
  by (erule bind_Some_mono) (rule decodePayload_append)

lemma modbus_decode_shift:
  "k \<le> length buf \<Longrightarrow>
     modbus_decode dev ts buf (k + p) hdr len tot s =
     map_option (shift_ctl k) (modbus_decode dev ts (drop k buf) p hdr len tot s)"
  by (auto simp: modbus_decode_def Let_def decodePayload_drop add.assoc split: bind_splits)

text \<open>The MBAP branch as one decision on the length field.\<close>

definition mbap_total :: "bytes \<Rightarrow> nat \<Rightarrow> nat" where
  "mbap_total buf p = 6 + (push_bit 8 (unat (buf ! (p + 4))) OR unat (buf ! (p + 5)))"

lemma modbus_mbap_eq:
  "modbus_mbap dev ts hdr buf p s =
     (let tot = mbap_total buf p; drop1 = Some (Next (p + 1) (resync1 (fst s), snd s))
      in if length buf - p < 6 then Some (Stop p s)
         else if tot < 7 \<or> kMaxFrame < tot \<or> tot < hdr then drop1
         else if length buf - p < tot then Some (Stop p s)
         else if tot - hdr < unat (fs_payloadMin (dd_spec dev)) then drop1
         else modbus_decode dev ts buf p hdr (tot - hdr) tot s)"
proof (cases "length buf - p < 6")
  case False
  then have "rd8 buf (p + 4) = Some (buf ! (p + 4))" "rd8 buf (p + 5) = Some (buf ! (p + 5))"
    by (intro rd8_Some; simp)+
  with False show ?thesis by (simp add: modbus_mbap_def mbap_total_def Let_def)
qed (simp add: modbus_mbap_def Let_def)

lemma mbap_total_append: "p + 6 \<le> length buf \<Longrightarrow> mbap_total (buf @ ext) p = mbap_total buf p"
  by (simp add: mbap_total_def nth_append)

lemma mbap_total_shift: "k \<le> length buf \<Longrightarrow> mbap_total buf (k + p) = mbap_total (drop k buf) p"
  by (simp add: mbap_total_def add.assoc)

lemma modbus_mbap_append:
  assumes "modbus_mbap dev ts hdr buf p s = Some (Next q t)" "p \<le> length buf"
  shows "modbus_mbap dev ts hdr (buf @ ext) p s = Some (Next q t)"
  using assms mbap_total_append [of p buf ext]
  by (auto simp: modbus_mbap_eq Let_def split: if_splits intro: modbus_decode_append)

lemma modbus_mbap_shift:
  assumes "k + p \<le> length buf"
  shows "modbus_mbap dev ts hdr buf (k + p) s =
         map_option (shift_ctl k) (modbus_mbap dev ts hdr (drop k buf) p s)"
  using assms mbap_total_shift [of k buf p]
  by (simp add: modbus_mbap_eq Let_def modbus_decode_shift)

text \<open>Skipping \<open>k\<close> bytes before the search is the search itself.\<close>

definition is_mbap :: "device_desc \<Rightarrow> bool" where
  "is_mbap dev \<longleftrightarrow> nat (fs_frameType (dd_spec dev)) = 7 \<or> nat (fs_frameType (dd_spec dev)) = 9"

lemma modbus_step_mbap:
  assumes "is_mbap dev"
  shows "modbus_step dev ts buf pos s =
     (let p = modbus_scan buf pos; hdr = nat (fs_frameType (dd_spec dev))
      in if length buf < p + 4
         then (let k = length buf - pos - 3 in Some (Stop (pos + k) (skip k (fst s), snd s)))
         else modbus_mbap dev ts hdr buf p (skip (p - pos) (fst s), snd s))"
proof -
  have "n - (if 3 < n then 3 else n) = n - 3" for n :: nat by simp
  with assms show ?thesis by (cases s) (simp add: modbus_step_def is_mbap_def Let_def)
qed

lemma modbus_step_fixed:
  assumes "\<not> is_mbap dev"
  shows "modbus_step dev ts buf pos s =
     (let hdr = nat (fs_frameType (dd_spec dev)); need = unat (fs_payloadMin (dd_spec dev))
      in if hdr + need = 0 then None
         else if length buf - pos < hdr + need then Some (Stop pos s)
         else modbus_decode dev ts buf pos hdr need (hdr + need) s)"
  using assms by (simp add: modbus_step_def is_mbap_def Let_def)

lemma modbus_step_next_append:
  assumes "modbus_step dev ts buf pos s = Some (Next p t)" "pos \<le> length buf"
  shows "modbus_step dev ts (buf @ ext) pos s = Some (Next p t)"
proof (cases "is_mbap dev")
  case True
  with assms(1) have sync: "modbus_scan buf pos + 4 \<le> length buf"
    by (auto simp: modbus_step_mbap Let_def split: if_splits)
  with assms(1) True show ?thesis
    by (simp add: modbus_step_mbap Let_def modbus_scan_append modbus_mbap_append)
next
  case False
  with assms show ?thesis
    by (auto simp: modbus_step_fixed Let_def split: if_splits intro: modbus_decode_append)
qed

lemma modbus_step_shift:
  assumes "k + pos \<le> length buf"
  shows "modbus_step dev ts buf (k + pos) s = map_option (shift_ctl k) (modbus_step dev ts (drop k buf) pos s)"
proof (cases "is_mbap dev")
  case True
  have sc: "modbus_scan buf (k + pos) = k + modbus_scan (drop k buf) pos"
    by (rule modbus_scan_shift [OF assms])
  show ?thesis
  proof (cases "length buf < k + modbus_scan (drop k buf) pos + 4")
    case short: True
    then have "length (drop k buf) < modbus_scan (drop k buf) pos + 4" using assms by simp
    with short True show ?thesis
      by (simp add: modbus_step_mbap Let_def sc diff_diff_left ac_simps)
  next
    case False
    then have "\<not> length (drop k buf) < modbus_scan (drop k buf) pos + 4" using assms by simp
    with False True assms show ?thesis
      by (simp add: modbus_step_mbap Let_def sc modbus_mbap_shift)
  qed
next
  case False
  with assms show ?thesis by (simp add: modbus_step_fixed Let_def modbus_decode_shift)
qed

text \<open>
  Where an MBAP step stopped, the bytes it dropped hold no protocol identifier, also with more bytes
  behind them.
\<close>

lemma modbus_step_advance:
  assumes "is_mbap dev" "pos \<le> q" "q + 3 \<le> length buf" "modbus_scan buf q = modbus_scan buf pos"
  shows "modbus_step dev ts buf q (skip (q - pos) (fst s), snd s) = modbus_step dev ts buf pos s"
  using modbus_scan_ge [of q buf] assms
  by (simp add: modbus_step_mbap Let_def skip_skip diff_diff_left ac_simps)

lemma modbus_scan_fixed: "modbus_scan buf (modbus_scan buf p) = modbus_scan buf p"
proof (induction buf p rule: modbus_scan.induct)
  case (1 buf p)
  show ?case
  proof (cases "p + 4 \<le> length buf \<and> \<not> (buf ! (p + 2) = 0 \<and> buf ! (p + 3) = 0)")
    case True
    then have "modbus_scan buf p = modbus_scan buf (Suc p)" by (subst modbus_scan.simps) auto
    with 1 True show ?thesis by auto
  next
    case False
    then have "modbus_scan buf p = p" by (subst modbus_scan.simps) auto
    then show ?thesis by simp
  qed
qed

lemma modbus_step_stop_resume:
  assumes "modbus_step dev ts buf pos s = Some (Stop p t)" "pos \<le> length buf"
  shows "modbus_step dev ts (buf @ ext) pos s = modbus_step dev ts (buf @ ext) p t"
proof (cases "is_mbap dev")
  case mbap: True
  let ?q = "modbus_scan buf pos"
  show ?thesis
  proof (cases "length buf < ?q + 4")
    case True
    with assms(1) mbap have pt: "p = pos + (length buf - pos - 3)" "t = (skip (p - pos) (fst s), snd s)"
      by (auto simp: modbus_step_mbap Let_def)
    show ?thesis
    proof (cases "length buf - pos \<le> 3")
      case False
      then have "p + 3 = length buf" "pos \<le> p" by (simp_all add: pt(1))
      with modbus_scan_fail_append [OF True, of p ext] mbap pt(2)
        modbus_step_advance [of dev pos p "buf @ ext" ts s] show ?thesis by simp
    qed (simp add: pt)
  next
    case False
    then have sync: "?q + 4 \<le> length buf" by simp
    from False assms(1) mbap have "p = ?q" "t = (skip (?q - pos) (fst s), snd s)"
      by (auto simp: modbus_step_mbap Let_def dest: modbus_mbap_bounds(2))
    moreover have "modbus_scan (buf @ ext) ?q = ?q" "modbus_scan (buf @ ext) pos = ?q"
      using sync modbus_scan_append [of buf ?q ext] modbus_scan_append [of buf pos ext]
      by (simp_all add: modbus_scan_fixed)
    ultimately show ?thesis
      using modbus_step_advance [of dev pos ?q "buf @ ext" ts s] mbap sync modbus_scan_ge [of pos buf]
      by simp
  qed
next
  case False
  with assms(1) have "p = pos" "t = s"
    by (auto simp: modbus_step_fixed Let_def split: if_splits dest!: modbus_decode_next)
  then show ?thesis by simp
qed

lemma modbus_decode_rebase:
  "modbus_decode dev ts buf pos hdr len tot (rebase b c s) =
   map_option (map_ctl (rebase b c)) (modbus_decode dev ts buf pos hdr len tot s)"
  by (cases s) (auto simp: modbus_decode_def Let_def rebase_def resync1_def split: bind_splits)

lemma modbus_decode_prepend:
  "modbus_decode dev ts buf pos hdr len tot (prepend o1 s) =
   map_option (map_ctl (prepend o1)) (modbus_decode dev ts buf pos hdr len tot s)"
  by (cases s) (auto simp: modbus_decode_def Let_def prepend_def sink_push_def split: bind_splits)

lemma modbus_mbap_rebase:
  "modbus_mbap dev ts hdr buf p (rebase b c s) =
   map_option (map_ctl (rebase b c)) (modbus_mbap dev ts hdr buf p s)"
  by (simp add: modbus_mbap_eq Let_def modbus_decode_rebase) (simp add: rebase_def resync1_def)

lemma modbus_mbap_prepend:
  "modbus_mbap dev ts hdr buf p (prepend o1 s) =
   map_option (map_ctl (prepend o1)) (modbus_mbap dev ts hdr buf p s)"
  by (simp add: modbus_mbap_eq Let_def modbus_decode_prepend) (simp add: prepend_def)

lemma modbus_step_rebase:
  "modbus_step dev ts buf pos (rebase b c s) =
   map_option (map_ctl (rebase b c)) (modbus_step dev ts buf pos s)"
proof (cases "is_mbap dev")
  case True
  have "(skip k (fst (rebase b c s)), snd (rebase b c s)) = rebase b c (skip k (fst s), snd s)" for k
    by (simp add: rebase_def skip_def)
  with True show ?thesis by (simp add: modbus_step_mbap Let_def modbus_mbap_rebase)
qed (simp add: modbus_step_fixed Let_def modbus_decode_rebase)

lemma modbus_step_prepend:
  "modbus_step dev ts buf pos (prepend o1 s) =
   map_option (map_ctl (prepend o1)) (modbus_step dev ts buf pos s)"
proof (cases "is_mbap dev")
  case True
  have "(skip k (fst (prepend o1 s)), snd (prepend o1 s)) = prepend o1 (skip k (fst s), snd s)" for k
    by (simp add: prepend_def)
  with True show ?thesis by (simp add: modbus_step_mbap Let_def modbus_mbap_prepend)
qed (simp add: modbus_step_fixed Let_def modbus_decode_prepend)

interpretation modbus: endpoint_slicer "modbus_step dev ts" "modbus_loop dev ts" for dev ts
  by unfold_locales
     (auto dest: modbus_step_next_bounds modbus_step_stop_bounds modbus_step_stop_resume
           simp: modbus_step_next_append modbus_step_shift modbus_step_rebase modbus_step_prepend
             modbus_loop.simps)

section \<open>Memory safety\<close>

definition scratch_ok :: "device_desc \<Rightarrow> device_stream \<Rightarrow> bool" where
  "scratch_ok dev st \<longleftrightarrow> fieldCount dev \<le> length (ds_rowScratch st)"

lemma scratch_ok_simps [simp]:
  "scratch_ok dev (resync1 st) = scratch_ok dev st"
  "scratch_ok dev (skip k st) = scratch_ok dev st"
  by (simp_all add: scratch_ok_def resync1_def skip_def)

lemma modbus_decode_defined:
  assumes "spec_ok (dd_spec dev)" "scratch_ok dev (fst s)" "len < 2 ^ 32"
    and "p + hdr + unat (fs_payloadMin (dd_spec dev)) \<le> length buf"
  shows "\<exists>q t. modbus_decode dev ts buf p hdr len tot s = Some (Next q t) \<and> scratch_ok dev (fst t)"
proof -
  have "\<exists>r. decodePayload (dd_spec dev) (modbusBigEndian dev) buf (p + hdr) len
          (ds_rowScratch (fst s)) = Some r"
    using assms by (intro decodePayload_defined) (auto simp: scratch_ok_def fieldCount_def)
  then obtain ok row where dec: "decodePayload (dd_spec dev) (modbusBigEndian dev) buf (p + hdr) len
          (ds_rowScratch (fst s)) = Some (ok, row)" by auto
  then show ?thesis
    using decodePayload_length [OF dec] assms(2)
    by (auto simp: modbus_decode_def Let_def scratch_ok_def resync1_def)
qed

lemma modbus_mbap_defined:
  assumes "spec_ok (dd_spec dev)" "scratch_ok dev (fst s)"
  shows "\<exists>c. modbus_mbap dev ts hdr buf p s = Some c \<and> (\<forall>q t. c = Next q t \<longrightarrow> scratch_ok dev (fst t))"
proof -
  let ?tot = "mbap_total buf p" and ?need = "unat (fs_payloadMin (dd_spec dev))"
  have "\<exists>q t. modbus_decode dev ts buf p hdr (?tot - hdr) ?tot s = Some (Next q t) \<and> scratch_ok dev (fst t)"
    if "?tot \<le> kMaxFrame" "hdr \<le> ?tot" "?tot \<le> length buf - p" "7 \<le> ?tot" "?need \<le> ?tot - hdr"
    using that by (intro modbus_decode_defined [OF assms]) (auto simp: kMaxFrame_def)
  with assms(2) show ?thesis
    by (fastforce simp: modbus_mbap_eq Let_def not_less)
qed

lemma modbus_step_defined:
  assumes "spec_ok (dd_spec dev)" "scratch_ok dev (fst s)" "0 < unat (fs_payloadMin (dd_spec dev))"
  shows "\<exists>c. modbus_step dev ts buf pos s = Some c \<and> (\<forall>q t. c = Next q t \<longrightarrow> scratch_ok dev (fst t))"
proof (cases "is_mbap dev")
  case True
  with assms(1,2) show ?thesis
    using modbus_mbap_defined [of dev "(skip (modbus_scan buf pos - pos) (fst s), snd s)"]
    by (simp add: modbus_step_mbap Let_def)
next
  case False
  let ?hdr = "nat (fs_frameType (dd_spec dev))" and ?need = "unat (fs_payloadMin (dd_spec dev))"
  have "\<exists>q t. modbus_decode dev ts buf pos ?hdr ?need (?hdr + ?need) s = Some (Next q t) \<and> scratch_ok dev (fst t)"
    if "?hdr + ?need \<le> length buf - pos"
    using that assms(3) unsigned_less [of "fs_payloadMin (dd_spec dev)"]
    by (intro modbus_decode_defined [OF assms(1,2)]) auto
  with False assms(3) show ?thesis by (fastforce simp: modbus_step_fixed Let_def not_less)
qed

lemma modbus_loop_defined:
  "spec_ok (dd_spec dev) \<Longrightarrow> scratch_ok dev (fst s) \<Longrightarrow> 0 < unat (fs_payloadMin (dd_spec dev)) \<Longrightarrow>
   \<exists>r. modbus_loop dev ts buf pos s = Some r"
proof (induction dev ts buf pos s rule: modbus_loop.induct)
  case (1 dev ts buf pos s)
  from modbus_step_defined [OF "1.prems"] obtain c where
    c: "modbus_step dev ts buf pos s = Some c" and sc: "\<forall>q t. c = Next q t \<longrightarrow> scratch_ok dev (fst t)" by blast
  with "1.IH" [OF c] "1.prems" show ?case
    by (cases c) (auto simp: modbus_loop.simps [of dev ts buf pos s])
qed

section \<open>Pending bytes and chunk boundaries\<close>

definition modbus_len_ok :: "device_desc \<Rightarrow> bool" where
  "modbus_len_ok dev \<longleftrightarrow> is_mbap dev \<or>
     nat (fs_frameType (dd_spec dev)) + unat (fs_payloadMin (dd_spec dev)) \<le> kMaxFrame"

lemma modbus_mbap_pending:
  "modbus_mbap dev ts hdr buf p s = Some (Stop q t) \<Longrightarrow> length buf - q < kMaxFrame"
  by (auto simp: modbus_mbap_eq Let_def kMaxFrame_def split: if_splits dest!: modbus_decode_next)

lemma modbus_step_pending:
  assumes "modbus_step dev ts buf pos s = Some (Stop p t)" "modbus_len_ok dev"
  shows "length buf - p < kMaxFrame"
proof (cases "is_mbap dev")
  case True
  with assms(1) show ?thesis
    by (auto simp: modbus_step_mbap Let_def kMaxFrame_def split: if_splits
             dest!: modbus_mbap_pending [unfolded kMaxFrame_def])
next
  case False
  with assms show ?thesis
    by (auto simp: modbus_step_fixed modbus_len_ok_def Let_def split: if_splits dest!: modbus_decode_next)
qed

lemma modbus_loop_pending:
  "modbus_loop dev ts buf pos s = Some (p, t) \<Longrightarrow> modbus_len_ok dev \<Longrightarrow> length buf - p < kMaxFrame"
proof (induction dev ts buf pos s rule: modbus_loop.induct)
  case (1 dev ts buf pos s)
  then show ?case
    by (subst (asm) modbus_loop.simps)
       (auto split: option.splits ctl.splits dest: modbus_step_pending)
qed

text \<open>A register-read device whose responses \<open>feedModbus\<close> slices.\<close>

definition modbus_ok :: "device_desc \<Rightarrow> bool" where
  "modbus_ok dev \<longleftrightarrow> spec_ok (dd_spec dev) \<and> isModbusHeaderLen (dd_spec dev) \<and>
     fs_fields (dd_spec dev) \<noteq> [] \<and> 0 < unat (fs_payloadMin (dd_spec dev)) \<and> modbus_len_ok dev"

definition sized :: "device_desc \<Rightarrow> device_stream \<Rightarrow> device_stream" where
  "sized dev st = st\<lparr>ds_rowScratch := resize_up cell_default (fieldCount dev) (ds_rowScratch st)\<rparr>"

lemma feedModbus_slice:
  assumes "modbus_ok dev"
  shows "feedModbus dev st data ts = slice_feed (modbus_loop dev ts) (sized dev st) data"
proof -
  have swap: "st\<lparr>ds_rowScratch := r, ds_bytesIn := n\<rparr> = st\<lparr>ds_bytesIn := n, ds_rowScratch := r\<rparr>" for r n
    by simp
  have "\<not> (\<not> (nat (fs_frameType (dd_spec dev)) = 7 \<or> nat (fs_frameType (dd_spec dev)) = 9) \<and>
      kMaxFrame < nat (fs_frameType (dd_spec dev)) + unat (fs_payloadMin (dd_spec dev)))"
    using assms by (auto simp: modbus_ok_def modbus_len_ok_def is_mbap_def)
  then show ?thesis
    using assms
    unfolding feedModbus_def slice_feed_def sized_def modbus_ok_def Let_def
    by (simp only: if_False if_not_P simp_thms not_gr0 swap) simp
qed

lemma sized_simps [simp]:
  "ds_buf (sized dev st) = ds_buf st" "scratch_ok dev (sized dev st)"
  by (simp_all add: sized_def scratch_ok_def)

lemma sized_idem: "scratch_ok dev st \<Longrightarrow> sized dev st = st"
  by (simp add: sized_def scratch_ok_def resize_up_def)

lemma modbus_decode_scratch:
  "modbus_decode dev ts buf p hdr len tot s = Some (Next q t) \<Longrightarrow>
     length (ds_rowScratch (fst t)) = length (ds_rowScratch (fst s))"
  by (auto simp: modbus_decode_def Let_def bind_Some_iff resync1_def split: if_splits
           dest: decodePayload_length)

lemma modbus_mbap_scratch:
  assumes "modbus_mbap dev ts hdr buf p s = Some c" "c = Stop q t \<or> c = Next q t"
  shows "length (ds_rowScratch (fst t)) = length (ds_rowScratch (fst s))"
  using assms
  by (auto simp: modbus_mbap_eq Let_def resync1_def split: if_splits
           dest: modbus_decode_scratch modbus_decode_next)

lemma modbus_step_scratch:
  assumes "modbus_step dev ts buf pos s = Some c" "c = Stop q t \<or> c = Next q t"
  shows "length (ds_rowScratch (fst t)) = length (ds_rowScratch (fst s))"
proof (cases "is_mbap dev")
  case True
  with assms show ?thesis
    by (auto simp: modbus_step_mbap Let_def skip_def split: if_splits dest!: modbus_mbap_scratch)
next
  case False
  with assms show ?thesis
    by (auto simp: modbus_step_fixed Let_def split: if_splits
             dest: modbus_decode_scratch modbus_decode_next)
qed

lemma modbus_loop_scratch:
  "modbus_loop dev ts buf pos s = Some (p, t) \<Longrightarrow>
     length (ds_rowScratch (fst t)) = length (ds_rowScratch (fst s))"
proof (induction dev ts buf pos s rule: modbus_loop.induct)
  case (1 dev ts buf pos s)
  then show ?case
    by (subst (asm) modbus_loop.simps)
       (auto split: option.splits ctl.splits dest: modbus_step_scratch)
qed

lemma modbus_run:
  assumes "modbus_ok dev"
  shows "\<exists>p t out. modbus_loop dev ts (ds_buf st @ data) 0 (sized dev st, []) = Some (p, t, out)"
  using modbus_loop_defined [of dev "(sized dev st, [])" ts "ds_buf st @ data" 0] assms
  by (auto simp: modbus_ok_def)

lemma feedModbus_defined:
  assumes "spec_ok (dd_spec dev)"
  shows "\<exists>st' out. feedModbus dev st data ts = Some (st', out)"
proof (cases "modbus_ok dev")
  case True
  then obtain p t out where "modbus_loop dev ts (ds_buf st @ data) 0 (sized dev st, []) = Some (p, t, out)"
    using modbus_run by blast
  with modbus.slice_feed_run [of dev ts "sized dev st" data] show ?thesis
    by (simp add: feedModbus_slice [OF True])
next
  case False
  with assms show ?thesis
    by (auto simp: modbus_ok_def modbus_len_ok_def is_mbap_def feedModbus_def Let_def)
qed

lemma feedModbus_append:
  assumes ok: "modbus_ok dev"
    and f1: "feedModbus dev st a ts = Some (st1, o1)" and f2: "feedModbus dev st1 b ts = Some (st2, o2)"
  shows "feedModbus dev st (a @ b) ts = Some (st2, o1 @ o2)"
proof -
  have pending: "modbus_loop dev ts buf 0 s = Some (p, t) \<Longrightarrow> length buf - p < kMaxFrame" for buf s p t
    using ok by (auto simp: modbus_ok_def dest: modbus_loop_pending)
  obtain p t1 u1 where run1: "modbus_loop dev ts (ds_buf st @ a) 0 (sized dev st, []) = Some (p, t1, u1)"
    using modbus_run [OF ok] by blast
  from f1 run1 have u1: "u1 = o1" and st1: "slice_feed (modbus_loop dev ts) (sized dev st) a = Some (st1, o1)"
    by (auto simp: feedModbus_slice [OF ok] dest: modbus.slice_feed_run [of dev ts "sized dev st" a, simplified])
  have "scratch_ok dev st1"
    using modbus.slice_feed_eq [of dev ts "sized dev st" a p t1 u1] run1 pending [OF run1] st1
      modbus_loop_scratch [OF run1] sized_simps(2) [of dev st] by (auto simp: scratch_ok_def)
  then have st1': "sized dev st1 = st1" by (rule sized_idem)
  obtain q t2 u2 where run2: "modbus_loop dev ts (ds_buf st1 @ b) 0 (st1, []) = Some (q, t2, u2)"
    using modbus_run [OF ok, of ts st1 b] by (auto simp: st1')
  from f2 run2 have u2: "u2 = o2" and st2: "slice_feed (modbus_loop dev ts) st1 b = Some (st2, o2)"
    by (auto simp: feedModbus_slice [OF ok] st1' dest: modbus.slice_feed_run)
  show ?thesis
    unfolding feedModbus_slice [OF ok]
    by (rule modbus.slice_feed_append [OF pending _ st1 _ st2])
       (use run1 run2 u1 u2 in auto)
qed

fun feedModbus_all :: "device_desc \<Rightarrow> device_stream \<Rightarrow> bytes list \<Rightarrow> i64 \<Rightarrow> (device_stream \<times> sink_row list) option"
where
  "feedModbus_all dev st [] ts = Some (st, [])"
| "feedModbus_all dev st (c # cs) ts =
     do {
       (st1, o1) \<leftarrow> feedModbus dev st c ts;
       (st2, o2) \<leftarrow> feedModbus_all dev st1 cs ts;
       Some (st2, o1 @ o2)
     }"

lemma feedModbus_all_concat:
  "modbus_ok dev \<Longrightarrow> feedModbus_all dev st (c # cs) ts = feedModbus dev st (concat (c # cs)) ts"
proof (induction cs arbitrary: st c)
  case Nil
  then show ?case by (auto split: bind_splits)
next
  case (Cons d cs)
  have sp: "spec_ok (dd_spec dev)" using Cons.prems by (simp add: modbus_ok_def)
  obtain st1 o1 where f1: "feedModbus dev st c ts = Some (st1, o1)" using feedModbus_defined [OF sp] by blast
  obtain st2 o2 where f2: "feedModbus dev st1 (concat (d # cs)) ts = Some (st2, o2)"
    using feedModbus_defined [OF sp] by blast
  have "feedModbus dev st (c @ concat (d # cs)) ts = Some (st2, o1 @ o2)"
    by (rule feedModbus_append [OF Cons.prems f1 f2])
  moreover have "feedModbus_all dev st1 (d # cs) ts = Some (st2, o2)" using Cons f2 by simp
  ultimately show ?case
    using f1 by (simp only: feedModbus_all.simps(2) [of dev st c] bind.bind_lunit case_prod_conv concat.simps)
qed

lemma feedModbus_pending:
  assumes "modbus_ok dev" "feedModbus dev st data ts = Some (st', out)"
  shows "length (ds_buf st') < kMaxFrame"
proof -
  obtain p t u where run: "modbus_loop dev ts (ds_buf st @ data) 0 (sized dev st, []) = Some (p, t, u)"
    using modbus_run [OF assms(1)] by blast
  have pend: "length (ds_buf st @ data) - p < kMaxFrame"
    using run assms(1) by (auto simp: modbus_ok_def dest: modbus_loop_pending)
  with modbus.slice_feed_eq [of dev ts "sized dev st" data p t u] run assms(2) show ?thesis
    by (auto simp: feedModbus_slice [OF assms(1)])
qed

text \<open>
  A fixed-length layout of more than \<open>kMaxFrame\<close> bytes: every chunk is appended and nothing is
  ever erased.
\<close>

lemma feedModbus_oversized:
  assumes "fs_fields (dd_spec dev) \<noteq> []" "isModbusHeaderLen (dd_spec dev)" "\<not> modbus_len_ok dev"
  shows "feedModbus dev st data ts =
    Some ((sized dev st)\<lparr>ds_bytesIn := ds_bytesIn st + word_of_nat (length data),
                          ds_buf := ds_buf st @ data\<rparr>, [])"
  using assms
  by (auto simp: feedModbus_def Let_def modbus_len_ok_def is_mbap_def sized_def isModbusHeaderLen_def kMaxFrame_def)

end
