(* ===== verification/Modbus_Wire.thy ===== *)
theory Modbus_Wire
  imports Modbus_Codec
begin

text \<open>
  Register-read responses as a device sends them, and the round trip through
  \<open>FrameCodec::feedModbus\<close>: a run of well-formed responses yields one row each, in order.
\<close>

section \<open>Responses\<close>

text \<open>
  A response to the configured read: with an MBAP header (header length 7 or 9) the protocol
  identifier is zero and the length field counts the bytes behind it; without one (0 or 2) the length
  is the configured one. Every field of the layout lies inside the register data.
\<close>

definition modbus_msg_ok :: "device_desc \<Rightarrow> bytes \<Rightarrow> bool" where
  "modbus_msg_ok dev m \<longleftrightarrow>
     (let spec = dd_spec dev; hdr = nat (fs_frameType spec); need = unat (fs_payloadMin spec)
      in hdr + need \<le> length m \<and> length m \<le> kMaxFrame \<and>
         (if is_mbap dev
          then 7 \<le> length m \<and> m ! 2 = 0 \<and> m ! 3 = 0 \<and> mbap_total m 0 = length m
          else length m = hdr + need) \<and>
         (\<forall>f \<in> set (fs_fields spec). hdr + unat (fd_byteOffset f) + unat (fd_size f) \<le> length m))"

definition modbus_msg_row :: "device_desc \<Rightarrow> i64 \<Rightarrow> bytes \<Rightarrow> sink_row" where
  "modbus_msg_row dev ts m =
     (dev, ts, row_of (dd_spec dev) (modbusBigEndian dev) m (nat (fs_frameType (dd_spec dev))))"

text \<open>The MBAP response with transaction \<open>tid\<close> and the bytes \<open>body\<close> behind the length field.\<close>

definition encode_mbap :: "u8 \<Rightarrow> u8 \<Rightarrow> bytes \<Rightarrow> bytes" where
  "encode_mbap tid_hi tid_lo body =
     [tid_hi, tid_lo, 0, 0, word_of_nat (length body div 256), word_of_nat (length body mod 256)] @ body"

section \<open>The round trip\<close>

lemma modbus_decode_msg:
  assumes "modbus_ok dev" "modbus_msg_ok dev m" "scratch_ok dev st"
  defines "hdr \<equiv> nat (fs_frameType (dd_spec dev))"
  shows "\<exists>row. modbus_decode dev ts m 0 hdr (length m - hdr) (length m) (st, out) =
    Some (Next (length m) (st\<lparr>ds_rowScratch := row, ds_frames := ds_frames st + 1\<rparr>,
                           out @ [modbus_msg_row dev ts m])) \<and>
    length row = length (ds_rowScratch st)"
proof -
  let ?spec = "dd_spec dev" and ?be = "modbusBigEndian dev"
  have le: "hdr \<le> length m" and need: "unat (fs_payloadMin ?spec) \<le> length m - hdr"
    and fits: "\<forall>f \<in> set (fs_fields ?spec). unat (fd_byteOffset f) + unat (fd_size f) \<le> length m - hdr"
    using assms(2) by (fastforce simp: modbus_msg_ok_def Let_def hdr_def)+
  obtain row where dec: "decodePayload ?spec ?be m hdr (length m - hdr) (ds_rowScratch st) = Some (True, row)"
    and row: "take (length (fs_fields ?spec)) row = row_of ?spec ?be m hdr"
    using decodePayload_row [OF _ _ need _ _ fits, of hdr m "ds_rowScratch st" ?be] assms(1,3) le
    by (auto simp: modbus_ok_def scratch_ok_def fieldCount_def)
  show ?thesis
    using dec row decodePayload_length [OF dec]
    by (auto simp: modbus_decode_def sink_push_def modbus_msg_row_def fieldCount_def hdr_def)
qed

lemma modbus_step_msg:
  assumes "modbus_ok dev" "modbus_msg_ok dev m" "scratch_ok dev st"
  shows "\<exists>row. modbus_step dev ts m 0 (st, out) =
    Some (Next (length m) (st\<lparr>ds_rowScratch := row, ds_frames := ds_frames st + 1\<rparr>,
                           out @ [modbus_msg_row dev ts m])) \<and>
    length row = length (ds_rowScratch st)"
proof -
  let ?hdr = "nat (fs_frameType (dd_spec dev))" and ?need = "unat (fs_payloadMin (dd_spec dev))"
  have "modbus_step dev ts m 0 (st, out) = modbus_decode dev ts m 0 ?hdr (length m - ?hdr) (length m) (st, out)"
  proof (cases "is_mbap dev")
    case True
    with assms(2) have m: "7 \<le> length m" "m ! 2 = 0" "m ! 3 = 0" "mbap_total m 0 = length m"
      "length m \<le> kMaxFrame" "?hdr + ?need \<le> length m" by (simp_all add: modbus_msg_ok_def Let_def)
    have "modbus_scan m 0 = 0" by (subst modbus_scan.simps) (use m in \<open>simp add: numeral_2_eq_2\<close>)
    moreover have "\<not> length m - ?hdr < ?need" using m(6) by simp
    ultimately show ?thesis using True m by (simp add: modbus_step_mbap modbus_mbap_eq Let_def)
  next
    case False
    with assms(1,2) show ?thesis
      by (auto simp: modbus_step_fixed modbus_msg_ok_def modbus_ok_def Let_def)
  qed
  with modbus_decode_msg [OF assms] show ?thesis by simp
qed

lemma modbus_step_empty: "modbus_ok dev \<Longrightarrow> modbus_step dev ts [] 0 s = Some (Stop 0 s)"
proof -
  assume ok: "modbus_ok dev"
  have "modbus_scan [] 0 = 0" by (subst modbus_scan.simps) simp
  with ok show ?thesis
    by (cases "is_mbap dev"; cases s)
       (simp_all add: modbus_step_mbap modbus_step_fixed modbus_ok_def Let_def)
qed

lemma modbus_loop_msgs:
  assumes ok: "modbus_ok dev" and "\<forall>m \<in> set ms. modbus_msg_ok dev m" "scratch_ok dev st"
  shows "\<exists>row. modbus_loop dev ts (concat ms) 0 (st, out) =
    Some (length (concat ms),
      st\<lparr>ds_rowScratch := row, ds_frames := ds_frames st + word_of_nat (length ms)\<rparr>,
      out @ map (modbus_msg_row dev ts) ms)"
  using assms(2,3)
proof (induction ms arbitrary: st out)
  case Nil
  then show ?case
    by (intro exI [of _ "ds_rowScratch st"])
       (simp add: modbus_loop.simps [of _ _ "[]"] modbus_step_empty [OF ok])
next
  case (Cons m ms)
  let ?n = "length m" and ?rest = "concat ms"
  obtain row where step: "modbus_step dev ts m 0 (st, out) =
      Some (Next ?n (st\<lparr>ds_rowScratch := row, ds_frames := ds_frames st + 1\<rparr>, out @ [modbus_msg_row dev ts m]))"
    and len: "length row = length (ds_rowScratch st)"
    using modbus_step_msg [OF ok, of m st ts out] Cons.prems by auto
  let ?s = "(st\<lparr>ds_rowScratch := row, ds_frames := ds_frames st + 1\<rparr>, out @ [modbus_msg_row dev ts m])"
  have "modbus_loop dev ts (m @ ?rest) 0 (st, out) = modbus_loop dev ts (m @ ?rest) (?n + 0) ?s"
    using modbus_step_next_append [OF step, of ?rest] by (simp add: modbus_loop.simps [of _ _ _ 0])
  also have "\<dots> = map_option (shift_pos ?n) (modbus_loop dev ts ?rest 0 ?s)"
    by (subst modbus.loop_shift) simp_all
  also obtain row' where "modbus_loop dev ts ?rest 0 ?s =
      Some (length ?rest, (fst ?s)\<lparr>ds_rowScratch := row',
        ds_frames := ds_frames (fst ?s) + word_of_nat (length ms)\<rparr>,
        snd ?s @ map (modbus_msg_row dev ts) ms)"
    using Cons.IH [of "fst ?s" "snd ?s"] Cons.prems len by (auto simp: scratch_ok_def)
  finally show ?case
    by (intro exI [of _ row']) (simp add: shift_pos_def add.assoc)
qed

lemma feedModbus_msgs:
  assumes "modbus_ok dev" "\<forall>m \<in> set ms. modbus_msg_ok dev m" "ds_buf st = []"
  shows "\<exists>row. feedModbus dev st (concat ms) ts =
    Some (st\<lparr>ds_rowScratch := row, ds_frames := ds_frames st + word_of_nat (length ms),
             ds_bytesIn := ds_bytesIn st + word_of_nat (length (concat ms))\<rparr>,
          map (modbus_msg_row dev ts) ms)"
proof -
  obtain row where run: "modbus_loop dev ts (concat ms) 0 (sized dev st, []) =
    Some (length (concat ms), (sized dev st)\<lparr>ds_rowScratch := row,
      ds_frames := ds_frames st + word_of_nat (length ms)\<rparr>, map (modbus_msg_row dev ts) ms)"
    using modbus_loop_msgs [OF assms(1,2) sized_simps(2), of ts st "[]"] by (auto simp: sized_def)
  have "slice_feed (modbus_loop dev ts) (sized dev st) (concat ms) =
      Some (((sized dev st)\<lparr>ds_rowScratch := row, ds_frames := ds_frames st + word_of_nat (length ms)\<rparr>)
        \<lparr>ds_buf := drop (length (concat ms)) (ds_buf (sized dev st) @ concat ms),
         ds_bytesIn := ds_bytesIn (sized dev st) + word_of_nat (length (concat ms))\<rparr>,
        map (modbus_msg_row dev ts) ms)"
    by (rule modbus.slice_feed_eq) (use run assms(3) in \<open>simp_all add: kMaxFrame_def\<close>)
  then show ?thesis
    unfolding feedModbus_slice [OF assms(1)]
    by (intro exI [of _ row]) (cases st, use assms(3) in \<open>simp add: sized_def\<close>)
qed

end
