(* ===== verification/Pipeline.thy ===== *)
theory Pipeline
  imports Endpoint_Stream
begin

text \<open>
  The values that travel between the threads (\<open>src/src/adapter/Pipeline.h\<close>) and the publish path
  (\<open>src/src/adapter/PublishQueue.cpp\<close>). A queue is the list of its elements, oldest first: the
  lock-free queue of \<open>concurrentqueue.h\<close> keeps the order of one producer, and every queue of the
  adapter that is modelled here has one producer thread.
\<close>

section \<open>Statistics\<close>

record adapter_stats =
  as_connsOpened :: u64
  as_chunks :: u64
  as_bytesIn :: u64
  as_unmatched :: u64
  as_frames :: u64
  as_rowsParsed :: u64
  as_rowsWritten :: u64
  as_eventRows :: u64
  as_batchesWritten :: u64
  as_writeErrors :: u64
  as_publishStub :: u64
  as_modbusRequests :: u64
  as_httpRequests :: u64
  as_httpRows :: u64
  as_httpErrors :: u64

definition adapter_stats_zero :: adapter_stats where
  "adapter_stats_zero =
     \<lparr>as_connsOpened = 0, as_chunks = 0, as_bytesIn = 0, as_unmatched = 0, as_frames = 0,
      as_rowsParsed = 0, as_rowsWritten = 0, as_eventRows = 0, as_batchesWritten = 0,
      as_writeErrors = 0, as_publishStub = 0, as_modbusRequests = 0, as_httpRequests = 0,
      as_httpRows = 0, as_httpErrors = 0\<rparr>"

section \<open>Raw chunks and row batches\<close>

text \<open>The group pointer of a chunk: its address, and the group it points to.\<close>

record raw_chunk =
  rc_group :: "(nat \<times> device_group) option"
  rc_recvMs :: i64
  rc_data :: bytes

record row_batch =
  rb_dev :: "device_desc option"
  rb_ts :: "i64 list"
  rb_cells :: "cell list"

definition row_batch_new :: row_batch where
  "row_batch_new = \<lparr>rb_dev = None, rb_ts = [], rb_cells = []\<rparr>"

definition rowCount :: "row_batch \<Rightarrow> nat" where
  "rowCount b = length (rb_ts b)"

definition batch_empty :: "row_batch \<Rightarrow> bool" where
  "batch_empty b \<longleftrightarrow> rb_ts b = []"

definition batch_clear :: "row_batch \<Rightarrow> row_batch" where
  "batch_clear b = b\<lparr>rb_ts := [], rb_cells := []\<rparr>"

text \<open>\<open>pushRow\<close> dereferences the device and copies its \<open>fieldCount\<close> cells.\<close>

definition pushRow :: "i64 \<Rightarrow> cell list \<Rightarrow> row_batch \<Rightarrow> row_batch option" where
  "pushRow t row b =
     (case rb_dev b of
        None \<Rightarrow> None
      | Some d \<Rightarrow>
          if fieldCount d \<le> length row
          then Some (b\<lparr>rb_ts := rb_ts b @ [t], rb_cells := rb_cells b @ take (fieldCount d) row\<rparr>)
          else None)"

section \<open>The publish path\<close>

record publish_queue =
  pq_enabled :: bool
  pq_running :: bool
  pq_q :: "row_batch list"
  pq_rowsDrained :: u64

definition publish_start :: "publish_queue \<Rightarrow> publish_queue" where
  "publish_start pq = (if pq_enabled pq then pq\<lparr>pq_running := True\<rparr> else pq)"

definition publish_stop :: "publish_queue \<Rightarrow> publish_queue" where
  "publish_stop pq = pq\<lparr>pq_running := False\<rparr>"

definition offer :: "publish_queue \<Rightarrow> row_batch \<Rightarrow> publish_queue" where
  "offer pq b = (if \<not> pq_enabled pq \<or> \<not> pq_running pq then pq else pq\<lparr>pq_q := pq_q pq @ [b]\<rparr>)"

text \<open>One turn of \<open>PublishQueue::run\<close>: a batch is drained and dropped.\<close>

definition publish_run1 :: "publish_queue \<Rightarrow> adapter_stats \<Rightarrow> publish_queue \<times> adapter_stats" where
  "publish_run1 pq stats =
     (if \<not> pq_running pq then (pq, stats)
      else case pq_q pq of
        [] \<Rightarrow> (pq, stats)
      | b # q \<Rightarrow>
          (pq\<lparr>pq_q := q, pq_rowsDrained := pq_rowsDrained pq + word_of_nat (rowCount b)\<rparr>,
           stats\<lparr>as_publishStub := as_publishStub stats + word_of_nat (rowCount b)\<rparr>))"

section \<open>The rows of a batch\<close>

text \<open>A batch holds \<open>rowCount\<close> rows of \<open>fieldCount\<close> cells, row-major.\<close>

definition batch_ok :: "row_batch \<Rightarrow> bool" where
  "batch_ok b \<longleftrightarrow>
     (case rb_dev b of
        None \<Rightarrow> rb_ts b = [] \<and> rb_cells b = []
      | Some d \<Rightarrow> length (rb_cells b) = rowCount b * fieldCount d)"

definition batch_row :: "row_batch \<Rightarrow> nat \<Rightarrow> i64 \<times> cell list" where
  "batch_row b k =
     (case rb_dev b of
        None \<Rightarrow> (0, [])
      | Some d \<Rightarrow> (rb_ts b ! k, take (fieldCount d) (drop (k * fieldCount d) (rb_cells b))))"

definition batch_rows :: "row_batch \<Rightarrow> (i64 \<times> cell list) list" where
  "batch_rows b = map (batch_row b) [0 ..< rowCount b]"

lemma length_batch_rows [simp]: "length (batch_rows b) = rowCount b"
  by (simp add: batch_rows_def)

lemma batch_rows_empty: "batch_rows b = [] \<longleftrightarrow> batch_empty b"
  by (simp add: batch_rows_def batch_empty_def rowCount_def)

lemma pushRow_rows:
  assumes "pushRow t row b = Some b'" "batch_ok b" "rb_dev b = Some d"
  shows "batch_ok b' \<and> rb_dev b' = Some d \<and> batch_rows b' = batch_rows b @ [(t, take (fieldCount d) row)]"
proof -
  let ?n = "fieldCount d"
  have b': "b' = b\<lparr>rb_ts := rb_ts b @ [t], rb_cells := rb_cells b @ take ?n row\<rparr>" and n: "?n \<le> length row"
    using assms(1,3) by (auto simp: pushRow_def split: if_splits)
  have len: "length (rb_cells b) = rowCount b * ?n" using assms(2,3) by (simp add: batch_ok_def)
  have old: "batch_row b' k = batch_row b k" if "k < rowCount b" for k
  proof -
    have "Suc k * ?n \<le> rowCount b * ?n" using that by (intro mult_le_mono1) simp
    then have "k * ?n + ?n \<le> length (rb_cells b)" by (simp add: len)
    with that show ?thesis by (simp add: batch_row_def b' assms(3) nth_append rowCount_def)
  qed
  have new: "batch_row b' (rowCount b) = (t, take ?n row)"
    using n by (simp add: batch_row_def b' assms(3) rowCount_def [symmetric] len nth_append)
  have "rowCount b' = Suc (rowCount b)" by (simp add: b' rowCount_def)
  then show ?thesis
    using old new n len assms(3)
    by (simp add: batch_rows_def batch_ok_def b' [symmetric])
       (simp add: b')
qed

lemma batch_clear_rows [simp]: "batch_rows (batch_clear b) = []" "batch_ok (batch_clear b)"
  by (simp_all add: batch_rows_def batch_clear_def rowCount_def batch_ok_def split: option.split)

end
