(* ===== verification/Parser_Worker.thy ===== *)
theory Parser_Worker
  imports Frame_Codec Modbus_Codec Pipeline
begin

text \<open>
  The parser thread (\<open>src/src/adapter/ParserWorker.cpp\<close>): the single consumer of the ingest queue. It
  keeps a stream per endpoint and a batch per device, both keyed by address, feeds each chunk to the
  codec, and moves batches to the write queue.

  \<open>std::unordered_map\<close> leaves its iteration order open: \<open>flushAll\<close> takes it as an argument, and the
  properties hold for every order that lists each key. A moved-from batch is empty.
\<close>

section \<open>State\<close>

record parser_worker =
  pw_batchRows :: nat
  pw_streams :: "nat \<Rightarrow> device_stream option"
  pw_batches :: "nat \<Rightarrow> row_batch option"
  pw_touched :: "device_desc list"
  pw_write :: "row_batch list"
  pw_publish :: "publish_queue option"
  pw_stats :: adapter_stats

definition parser_new :: "int \<Rightarrow> publish_queue option \<Rightarrow> adapter_stats \<Rightarrow> parser_worker" where
  "parser_new batchRows publish stats =
     \<lparr>pw_batchRows = (if 0 < batchRows then nat batchRows else 1), pw_streams = (\<lambda>_. None),
      pw_batches = (\<lambda>_. None), pw_touched = [], pw_write = [], pw_publish = publish, pw_stats = stats\<rparr>"

section \<open>Operations\<close>

definition appendRow :: "parser_worker \<Rightarrow> sink_row \<Rightarrow> parser_worker option" where
  "appendRow w r =
     (let (dev, ts, row) = r; a = dd_addr dev;
          batch = (case pw_batches w a of Some b \<Rightarrow> b | None \<Rightarrow> row_batch_new);
          batch1 = (case rb_dev batch of None \<Rightarrow> batch\<lparr>rb_dev := Some dev\<rparr> | Some _ \<Rightarrow> batch)
      in do {
        batch2 \<leftarrow> pushRow ts row batch1;
        let stats = (if dd_isEvent dev
                     then (pw_stats w)\<lparr>as_eventRows := as_eventRows (pw_stats w) + 1\<rparr> else pw_stats w);
        let touched = (if pw_touched w = [] \<or> dd_addr (last (pw_touched w)) \<noteq> a
                       then pw_touched w @ [dev] else pw_touched w);
        Some (w\<lparr>pw_batches := (pw_batches w)(a \<mapsto> batch2), pw_stats := stats, pw_touched := touched\<rparr>)
      })"

fun append_rows :: "parser_worker \<Rightarrow> sink_row list \<Rightarrow> parser_worker option" where
  "append_rows w [] = Some w"
| "append_rows w (r # rs) = do { w' \<leftarrow> appendRow w r; append_rows w' rs }"

definition flushDevice :: "nat \<Rightarrow> parser_worker \<Rightarrow> parser_worker" where
  "flushDevice a w =
     (case pw_batches w a of
        None \<Rightarrow> w
      | Some b \<Rightarrow>
          if batch_empty b then w
          else w\<lparr>pw_publish := map_option (\<lambda>pq. offer pq b) (pw_publish w),
                 pw_write := pw_write w @ [b],
                 pw_batches := (pw_batches w)(a \<mapsto> batch_clear b)\<rparr>)"

definition flushAll :: "nat list \<Rightarrow> parser_worker \<Rightarrow> parser_worker" where
  "flushAll order w = foldl (\<lambda>w a. flushDevice a w) w order"

text \<open>The loop over \<open>_touched\<close> behind a chunk.\<close>

definition flush_touched1 :: "parser_worker \<Rightarrow> device_desc \<Rightarrow> parser_worker" where
  "flush_touched1 w d =
     (case pw_batches w (dd_addr d) of
        None \<Rightarrow> w
      | Some b \<Rightarrow>
          if batch_empty b then w
          else if dd_immediateFlush d \<or> pw_batchRows w \<le> rowCount b then flushDevice (dd_addr d) w
          else w)"

definition flush_touched :: "parser_worker \<Rightarrow> parser_worker" where
  "flush_touched w = foldl flush_touched1 w (pw_touched w)"

text \<open>Which framing a group uses.\<close>

definition group_feed ::
  "device_group \<Rightarrow> device_stream \<Rightarrow> bytes \<Rightarrow> i64 \<Rightarrow> (device_stream \<times> sink_row list) option"
where
  "group_feed g st data ts =
     (case primary g of
        Some d \<Rightarrow> if dd_connProto d = CONN_MODBUS then feedModbus d st data ts else feed g st data ts
      | None \<Rightarrow> feed g st data ts)"

definition count_rows :: "nat \<Rightarrow> adapter_stats \<Rightarrow> adapter_stats" where
  "count_rows rows stats =
     (if 0 < rows
      then stats\<lparr>as_frames := as_frames stats + word_of_nat rows,
                 as_rowsParsed := as_rowsParsed stats + word_of_nat rows\<rparr>
      else stats)"

definition parse_chunk :: "parser_worker \<Rightarrow> raw_chunk \<Rightarrow> parser_worker option" where
  "parse_chunk w c =
     (case rc_group c of
        None \<Rightarrow> Some w
      | Some (ga, g) \<Rightarrow>
          if rc_data c = [] then Some w
          else do {
            let st = (case pw_streams w ga of Some s \<Rightarrow> s | None \<Rightarrow> device_stream_new);
            (st1, rows) \<leftarrow> group_feed g st (rc_data c) (rc_recvMs c);
            w1 \<leftarrow> append_rows (w\<lparr>pw_touched := []\<rparr>) rows;
            let st2 = (if ds_unknownType st1 \<noteq> ds_unknownTypeLogged st1
                       then st1\<lparr>ds_unknownTypeLogged := ds_unknownType st1\<rparr> else st1);
            Some (flush_touched (w1\<lparr>pw_streams := (pw_streams w1)(ga \<mapsto> st2),
                                    pw_stats := count_rows (length rows) (pw_stats w1)\<rparr>))
          })"

text \<open>
  One turn of \<open>run\<close>: a chunk was dequeued, or the wait timed out (with the iteration order of the
  batch map at that moment). After the loop the batches are flushed once more.
\<close>

datatype parser_event = Dequeued raw_chunk | TimedOut "nat list"

fun run_event :: "parser_worker \<Rightarrow> parser_event \<Rightarrow> parser_worker option" where
  "run_event w (Dequeued c) = parse_chunk w c"
| "run_event w (TimedOut order) = Some (flushAll order w)"

fun run_events :: "parser_worker \<Rightarrow> parser_event list \<Rightarrow> parser_worker option" where
  "run_events w [] = Some w"
| "run_events w (e # es) = do { w' \<leftarrow> run_event w e; run_events w' es }"

definition parser_run :: "parser_worker \<Rightarrow> parser_event list \<Rightarrow> nat list \<Rightarrow> parser_worker option" where
  "parser_run w es order = map_option (flushAll order) (run_events w es)"

section \<open>What the codec hands over\<close>

definition rows_from :: "device_desc set \<Rightarrow> i64 \<Rightarrow> sink_row list \<Rightarrow> bool" where
  "rows_from D ts rows \<longleftrightarrow>
     (\<forall>r \<in> set rows. fst r \<in> D \<and> fst (snd r) = ts \<and> length (snd (snd r)) = fieldCount (fst r))"

lemma rows_from_push:
  "rows_from D ts out \<Longrightarrow> d \<in> D \<Longrightarrow> fieldCount d \<le> length row \<Longrightarrow> rows_from D ts (sink_push d ts row out)"
  by (auto simp: rows_from_def sink_push_def)

lemma feed_records_from:
  "feed_records dev ts buf payload rb k left row out = Some (ok, row', out') \<Longrightarrow> rows_from D ts out \<Longrightarrow>
   dev \<in> D \<Longrightarrow> fieldCount dev \<le> length row \<Longrightarrow> rows_from D ts out'"
proof (induction left arbitrary: k row out)
  case (Suc left)
  then obtain b r where dec: "decodePayload (dd_spec dev) (bigEndian dev) buf (payload + k * rb) rb row = Some (b, r)"
    by (auto simp: bind_Some_iff)
  show ?case
  proof (cases b)
    case True
    have "fieldCount dev \<le> length r" using decodePayload_length [OF dec] Suc.prems(4) by simp
    with Suc True dec show ?thesis by (auto intro: rows_from_push)
  next
    case False
    with Suc.prems dec show ?thesis by simp
  qed
qed simp

lemma feed_complete_from:
  assumes "feed_complete dev pb tail ts buf pos s = Some (Next p t)" "rows_from D ts (snd s)" "dev \<in> D"
  shows "rows_from D ts (snd t)"
proof -
  obtain sc rb n ok row where "feed_records dev ts buf (pos + kHeaderSize) rb 0 n
      (resize_up cell_default (fieldCount dev) sc) (snd s) = Some (ok, row, snd t)"
    using assms(1) by (auto simp: feed_complete_def Let_def bind_Some_iff)
  then show ?thesis by (rule feed_records_from) (use assms in auto)
qed

lemma feed_step_from:
  assumes "feed_step g ts buf pos s = Some c" "c = Next p t \<or> c = Stop p t" "rows_from (set (dg_members g)) ts (snd s)"
  shows "rows_from (set (dg_members g)) ts (snd t)"
proof -
  have fr: "rows_from (set (dg_members g)) ts (snd t)"
    if "feed_frame d fl len ts buf pos s = Some (Next p t)" "byFrameType g ft = Some d" for d fl len ft
    using that assms(3) byFrameType_member [OF that(2)]
    by (auto simp: feed_frame_def Let_def split: if_splits dest: feed_complete_from)
  show ?thesis
    using assms fr
    by (auto simp: feed_step_def Let_def bind_Some_iff split: if_splits option.splits
             dest!: feed_frame_bounds(2))
qed

lemma feed_loop_from:
  "feed_loop g ts buf pos s = Some (p, t) \<Longrightarrow> rows_from (set (dg_members g)) ts (snd s) \<Longrightarrow>
   rows_from (set (dg_members g)) ts (snd t)"
proof (induction g ts buf pos s rule: feed_loop.induct)
  case (1 g ts buf pos s)
  obtain c where c: "feed_step g ts buf pos s = Some c"
    using "1.prems"(1) by (subst (asm) feed_loop.simps) (auto split: option.splits)
  show ?case
  proof (cases c)
    case (Stop q u)
    with c "1.prems" feed_step_from [OF c, of q u] show ?thesis by (simp add: feed_loop.simps [of g])
  next
    case (Next q u)
    with c "1.prems" feed_step_from [OF c, of q u] "1.IH" [OF c Next] show ?thesis
      by (simp add: feed_loop.simps [of g ts buf pos])
  qed
qed

lemma feed_from: "feed g st data ts = Some (st', rows) \<Longrightarrow> rows_from (set (dg_members g)) ts rows"
  by (auto simp: feed_def Let_def bind_Some_iff rows_from_def [of _ _ "[]"] dest!: feed_loop_from)

lemma modbus_decode_from:
  "modbus_decode dev ts buf p hdr len tot s = Some (Next q t) \<Longrightarrow> rows_from D ts (snd s) \<Longrightarrow> dev \<in> D \<Longrightarrow>
   scratch_ok dev (fst s) \<Longrightarrow> rows_from D ts (snd t)"
  by (auto simp: modbus_decode_def Let_def bind_Some_iff scratch_ok_def split: if_splits
           intro!: rows_from_push dest!: decodePayload_length)

lemma modbus_step_from:
  assumes "modbus_step dev ts buf pos s = Some c" "c = Next p t \<or> c = Stop p t"
    and "rows_from {dev} ts (snd s)" "scratch_ok dev (fst s)"
  shows "rows_from {dev} ts (snd t)"
proof -
  have mb: "rows_from {dev} ts (snd t)"
    if "modbus_mbap dev ts hdr buf q (st, snd s) = Some c" "scratch_ok dev st" for hdr q st
    using that assms(2,3) modbus_decode_from [of dev ts buf _ _ _ _ "(st, snd s)" p t "{dev}"]
    by (auto simp: modbus_mbap_eq Let_def split: if_splits dest: modbus_decode_next)
  have dec: "rows_from {dev} ts (snd t)"
    if "modbus_decode dev ts buf pos hdr len tot s = Some c" for hdr len tot
    using that assms(2,3,4) by (auto dest: modbus_decode_from modbus_decode_next)
  show ?thesis
  proof (cases "is_mbap dev")
    case True
    with assms mb show ?thesis
      by (auto simp: modbus_step_mbap Let_def split: if_splits)
  next
    case False
    with assms dec show ?thesis by (auto simp: modbus_step_fixed Let_def split: if_splits)
  qed
qed

lemma modbus_loop_from:
  "modbus_loop dev ts buf pos s = Some (p, t) \<Longrightarrow> rows_from {dev} ts (snd s) \<Longrightarrow> scratch_ok dev (fst s) \<Longrightarrow>
   rows_from {dev} ts (snd t)"
proof (induction dev ts buf pos s rule: modbus_loop.induct)
  case (1 dev ts buf pos s)
  obtain c where c: "modbus_step dev ts buf pos s = Some c"
    using "1.prems"(1) by (subst (asm) modbus_loop.simps) (auto split: option.splits)
  show ?case
  proof (cases c)
    case (Stop q u)
    with c "1.prems" modbus_step_from [OF c, of q u] show ?thesis
      by (simp add: modbus_loop.simps [of dev ts buf pos])
  next
    case (Next q u)
    have "scratch_ok dev (fst u)"
      using modbus_step_scratch [OF c, of q u] Next "1.prems"(3) by (simp add: scratch_ok_def)
    with Next c "1.prems" modbus_step_from [OF c, of q u] "1.IH" [OF c Next] show ?thesis
      by (simp add: modbus_loop.simps [of dev ts buf pos])
  qed
qed

lemma feedModbus_from:
  assumes "feedModbus dev st data ts = Some (st', rows)"
  shows "rows_from {dev} ts rows"
proof -
  have "scratch_ok dev (st\<lparr>ds_bytesIn := n, ds_rowScratch := resize_up cell_default (fieldCount dev) r\<rparr>)" for n r
    by (simp add: scratch_ok_def)
  with assms show ?thesis
    by (auto simp: feedModbus_def Let_def bind_Some_iff rows_from_def [of _ _ "[]"] split: if_splits
             dest!: modbus_loop_from)
qed

lemma primary_member: "primary g = Some d \<Longrightarrow> d \<in> set (dg_members g)"
  by (auto simp: primary_def split: list.splits)

lemma group_feed_from: "group_feed g st data ts = Some (st', rows) \<Longrightarrow> rows_from (set (dg_members g)) ts rows"
  by (auto simp: group_feed_def rows_from_def split: option.splits if_splits
           dest!: feed_from [unfolded rows_from_def] feedModbus_from [unfolded rows_from_def]
           intro: primary_member)

lemma group_feed_defined: "group_ok g \<Longrightarrow> \<exists>st' rows. group_feed g st data ts = Some (st', rows)"
  using feed_defined [of g st data ts] feedModbus_defined primary_member
  by (auto simp: group_feed_def group_ok_def split: option.splits)

section \<open>Rows in flight\<close>

text \<open>
  \<open>devs\<close> is the device list that all pointers point into. Every batch belongs to the device of its
  key, and every batch in the write queue is non-empty and belongs to one device.
\<close>

definition worker_ok :: "(nat \<Rightarrow> device_desc) \<Rightarrow> parser_worker \<Rightarrow> bool" where
  "worker_ok devs w \<longleftrightarrow>
     (\<forall>a b. pw_batches w a = Some b \<longrightarrow> batch_ok b \<and> rb_dev b = Some (devs a)) \<and>
     (\<forall>b \<in> set (pw_write w). batch_ok b \<and> \<not> batch_empty b \<and> (\<exists>a. rb_dev b = Some (devs a)))"

definition pending :: "nat \<Rightarrow> parser_worker \<Rightarrow> (i64 \<times> cell list) list" where
  "pending a w = (case pw_batches w a of None \<Rightarrow> [] | Some b \<Rightarrow> batch_rows b)"

definition for_device :: "nat \<Rightarrow> row_batch \<Rightarrow> bool" where
  "for_device a b \<longleftrightarrow> (case rb_dev b of None \<Rightarrow> False | Some d \<Rightarrow> dd_addr d = a)"

definition queued :: "nat \<Rightarrow> row_batch list \<Rightarrow> (i64 \<times> cell list) list" where
  "queued a q = concat (map batch_rows (filter (for_device a) q))"

definition delivered :: "nat \<Rightarrow> parser_worker \<Rightarrow> (i64 \<times> cell list) list" where
  "delivered a w = queued a (pw_write w) @ pending a w"

definition rows_for :: "nat \<Rightarrow> sink_row list \<Rightarrow> (i64 \<times> cell list) list" where
  "rows_for a rows = map snd (filter (\<lambda>r. dd_addr (fst r) = a) rows)"

definition addressed :: "(nat \<Rightarrow> device_desc) \<Rightarrow> bool" where
  "addressed devs \<longleftrightarrow> (\<forall>a. dd_addr (devs a) = a)"

definition rows_ok :: "(nat \<Rightarrow> device_desc) \<Rightarrow> sink_row list \<Rightarrow> bool" where
  "rows_ok devs rows \<longleftrightarrow>
     (\<forall>r \<in> set rows. fst r = devs (dd_addr (fst r)) \<and> length (snd (snd r)) = fieldCount (fst r))"

lemma appendRow_ok:
  assumes w: "worker_ok devs w" and d: "dev = devs (dd_addr dev)" "length row = fieldCount dev"
  shows "\<exists>w'. appendRow w (dev, ts, row) = Some w' \<and> worker_ok devs w' \<and> pw_write w' = pw_write w \<and>
    pw_batchRows w' = pw_batchRows w \<and> pw_streams w' = pw_streams w \<and>
    (\<forall>a. pending a w' = pending a w @ (if a = dd_addr dev then [(ts, row)] else [])) \<and>
    dd_addr ` set (pw_touched w') = insert (dd_addr dev) (dd_addr ` set (pw_touched w)) \<and>
    set (pw_touched w') \<subseteq> insert dev (set (pw_touched w))"
proof -
  let ?a = "dd_addr dev"
  define b0 where "b0 = (case pw_batches w ?a of Some b \<Rightarrow> b | None \<Rightarrow> row_batch_new)"
  define b1 where "b1 = (case rb_dev b0 of None \<Rightarrow> b0\<lparr>rb_dev := Some dev\<rparr> | Some _ \<Rightarrow> b0)"
  have b1: "batch_ok b1 \<and> rb_dev b1 = Some dev \<and> batch_rows b1 = pending ?a w"
  proof (cases "pw_batches w ?a")
    case None
    then show ?thesis
      by (simp add: b1_def b0_def row_batch_new_def batch_ok_def rowCount_def batch_rows_def pending_def)
  next
    case (Some b)
    then have "batch_ok b \<and> rb_dev b = Some dev" using w d(1) by (simp add: worker_ok_def)
    with Some show ?thesis by (simp add: b1_def b0_def pending_def)
  qed
  then obtain b2 where b2: "pushRow ts row b1 = Some b2" using d(2) by (simp add: pushRow_def)
  have rows: "batch_ok b2 \<and> rb_dev b2 = Some dev \<and> batch_rows b2 = pending ?a w @ [(ts, row)]"
    using pushRow_rows [OF b2, of dev] b1 d(2) by simp
  have b2': "pushRow ts row (case rb_dev (case pw_batches w ?a of None \<Rightarrow> row_batch_new | Some b \<Rightarrow> b) of
      None \<Rightarrow> (case pw_batches w ?a of None \<Rightarrow> row_batch_new | Some b \<Rightarrow> b)\<lparr>rb_dev := Some dev\<rparr>
    | Some _ \<Rightarrow> (case pw_batches w ?a of None \<Rightarrow> row_batch_new | Some b \<Rightarrow> b)) = Some b2"
    using b2 unfolding b1_def b0_def .
  let ?t = "if pw_touched w = [] \<or> dd_addr (last (pw_touched w)) \<noteq> ?a then pw_touched w @ [dev] else pw_touched w"
  have t: "dd_addr ` set ?t = insert ?a (dd_addr ` set (pw_touched w))" "set ?t \<subseteq> insert dev (set (pw_touched w))"
    by (auto simp: image_iff) (metis last_in_set)
  have "appendRow w (dev, ts, row) = Some (w\<lparr>pw_batches := (pw_batches w)(?a \<mapsto> b2),
      pw_stats := (if dd_isEvent dev then (pw_stats w)\<lparr>as_eventRows := as_eventRows (pw_stats w) + 1\<rparr>
                   else pw_stats w),
      pw_touched := ?t\<rparr>)"
    unfolding appendRow_def Let_def prod.case b2' by simp
  with w d rows t show ?thesis by (auto simp: worker_ok_def pending_def)
qed

lemma append_rows_ok:
  "worker_ok devs w \<Longrightarrow> rows_ok devs rows \<Longrightarrow>
   \<exists>w'. append_rows w rows = Some w' \<and> worker_ok devs w' \<and> pw_write w' = pw_write w \<and>
     pw_batchRows w' = pw_batchRows w \<and> pw_streams w' = pw_streams w \<and>
     (\<forall>a. pending a w' = pending a w @ rows_for a rows) \<and>
     dd_addr ` set (pw_touched w') = dd_addr ` set (map fst rows) \<union> dd_addr ` set (pw_touched w) \<and>
     set (pw_touched w') \<subseteq> set (map fst rows) \<union> set (pw_touched w)"
proof (induction rows arbitrary: w)
  case Nil
  then show ?case by (simp add: rows_for_def)
next
  case (Cons r rows)
  obtain dev ts row where r: "r = (dev, ts, row)" by (cases r)
  obtain w1 where w1: "appendRow w r = Some w1" "worker_ok devs w1" "pw_write w1 = pw_write w"
    "pw_batchRows w1 = pw_batchRows w" "pw_streams w1 = pw_streams w"
    "\<forall>a. pending a w1 = pending a w @ (if a = dd_addr dev then [(ts, row)] else [])"
    "dd_addr ` set (pw_touched w1) = insert (dd_addr dev) (dd_addr ` set (pw_touched w))"
    "set (pw_touched w1) \<subseteq> insert dev (set (pw_touched w))"
    using appendRow_ok [OF Cons.prems(1), of dev row ts] Cons.prems(2) by (auto simp: r rows_ok_def)
  have "rows_ok devs rows" using Cons.prems(2) by (simp add: rows_ok_def)
  from Cons.IH [OF w1(2) this] obtain w' where w': "append_rows w1 rows = Some w'" "worker_ok devs w'"
    "pw_write w' = pw_write w1" "pw_batchRows w' = pw_batchRows w1" "pw_streams w' = pw_streams w1"
    "\<forall>a. pending a w' = pending a w1 @ rows_for a rows"
    "dd_addr ` set (pw_touched w') = dd_addr ` set (map fst rows) \<union> dd_addr ` set (pw_touched w1)"
    "set (pw_touched w') \<subseteq> set (map fst rows) \<union> set (pw_touched w1)" by blast
  have "\<forall>a. pending a w' = pending a w @ rows_for a (r # rows)"
    using w'(6) w1(6) by (simp add: r rows_for_def)
  then show ?case using w1 w' by (auto simp: r)
qed

section \<open>Flushing\<close>

lemma flushDevice_ok:
  assumes "worker_ok devs w" "addressed devs"
  shows "worker_ok devs (flushDevice a w) \<and> (\<forall>c. delivered c (flushDevice a w) = delivered c w) \<and>
    pending a (flushDevice a w) = [] \<and> (\<forall>c. c \<noteq> a \<longrightarrow> pending c (flushDevice a w) = pending c w)"
proof (cases "\<exists>b. pw_batches w a = Some b \<and> \<not> batch_empty b")
  case True
  then obtain b where b: "pw_batches w a = Some b" "\<not> batch_empty b" by blast
  then have "batch_ok b \<and> rb_dev b = Some (devs a)" using assms(1) by (simp add: worker_ok_def)
  moreover have "dd_addr (devs a) = a" using assms(2) by (simp add: addressed_def)
  moreover have "rb_dev (batch_clear b) = rb_dev b" by (simp add: batch_clear_def)
  ultimately show ?thesis
    using assms(1) b
    by (auto simp: flushDevice_def worker_ok_def delivered_def queued_def pending_def for_device_def)
next
  case False
  then have "flushDevice a w = w" by (auto simp: flushDevice_def split: option.split)
  with assms False show ?thesis by (auto simp: pending_def batch_rows_empty split: option.split)
qed

lemma flushDevice_keeps:
  "pw_streams (flushDevice a w) = pw_streams w" "pw_batchRows (flushDevice a w) = pw_batchRows w"
  "pw_touched (flushDevice a w) = pw_touched w" "pw_stats (flushDevice a w) = pw_stats w"
  "dom (pw_batches (flushDevice a w)) = dom (pw_batches w)"
  by (auto simp: flushDevice_def split: option.split)

lemma flushAll_ok:
  assumes "addressed devs"
  shows "worker_ok devs w \<Longrightarrow>
    worker_ok devs (flushAll order w) \<and> (\<forall>c. delivered c (flushAll order w) = delivered c w) \<and>
    (\<forall>c. pending c (flushAll order w) = (if c \<in> set order then [] else pending c w)) \<and>
    pw_streams (flushAll order w) = pw_streams w \<and> pw_batchRows (flushAll order w) = pw_batchRows w"
proof (induction order arbitrary: w)
  case (Cons a order)
  note step = flushDevice_ok [OF Cons.prems assms, of a]
  show ?case
    using Cons.IH [of "flushDevice a w"] step by (auto simp: flushAll_def flushDevice_keeps)
qed (simp add: flushAll_def)

text \<open>What may stay behind in the batch of a device.\<close>

definition pending_small :: "nat \<Rightarrow> device_desc \<Rightarrow> parser_worker \<Rightarrow> bool" where
  "pending_small n d w \<longleftrightarrow>
     (dd_immediateFlush d \<longrightarrow> pending (dd_addr d) w = []) \<and>
     (pending (dd_addr d) w \<noteq> [] \<longrightarrow> length (pending (dd_addr d) w) < n)"

lemma flush_touched1_ok:
  assumes "worker_ok devs w" "addressed devs"
  shows "worker_ok devs (flush_touched1 w d) \<and> (\<forall>c. delivered c (flush_touched1 w d) = delivered c w) \<and>
    pending_small (pw_batchRows w) d (flush_touched1 w d) \<and>
    (\<forall>c. pending c (flush_touched1 w d) \<noteq> [] \<longrightarrow> pending c (flush_touched1 w d) = pending c w) \<and>
    pw_batchRows (flush_touched1 w d) = pw_batchRows w \<and> pw_streams (flush_touched1 w d) = pw_streams w"
proof -
  note fl = flushDevice_ok [OF assms, of "dd_addr d"]
  have "flush_touched1 w d = flushDevice (dd_addr d) w \<or>
      flush_touched1 w d = w \<and> pending_small (pw_batchRows w) d w"
    by (auto simp: flush_touched1_def pending_small_def pending_def batch_rows_empty not_le split: option.split)
  then show ?thesis
    using assms fl flushDevice_keeps [of "dd_addr d" w]
    by (auto simp: pending_small_def) (metis fl)+
qed

lemma flush_list_ok:
  assumes "addressed devs"
  shows "worker_ok devs w \<Longrightarrow>
    (let w' = foldl flush_touched1 w ds in worker_ok devs w' \<and> (\<forall>c. delivered c w' = delivered c w) \<and>
      (\<forall>d \<in> set ds. pending_small (pw_batchRows w) d w') \<and>
      (\<forall>c. pending c w' \<noteq> [] \<longrightarrow> pending c w' = pending c w) \<and>
      pw_batchRows w' = pw_batchRows w \<and> pw_streams w' = pw_streams w)"
proof (induction ds arbitrary: w)
  case (Cons d ds)
  note one = flush_touched1_ok [OF Cons.prems assms, of d]
  let ?w1 = "flush_touched1 w d" and ?w' = "foldl flush_touched1 (flush_touched1 w d) ds"
  have ih: "worker_ok devs ?w'" "\<forall>c. delivered c ?w' = delivered c ?w1"
      "\<forall>d \<in> set ds. pending_small (pw_batchRows ?w1) d ?w'"
      "\<forall>c. pending c ?w' \<noteq> [] \<longrightarrow> pending c ?w' = pending c ?w1"
      "pw_batchRows ?w' = pw_batchRows ?w1" "pw_streams ?w' = pw_streams ?w1"
    using Cons.IH [of ?w1] one by (simp_all add: Let_def)
  have "pending_small (pw_batchRows w) d ?w'"
    using one ih(4) unfolding pending_small_def by metis
  then show ?case using one ih by (simp add: Let_def)
qed simp

section \<open>A chunk, and a whole run\<close>

text \<open>The pointers of a chunk point into \<open>devs\<close>, and its group is well formed.\<close>

definition chunk_ok :: "(nat \<Rightarrow> device_desc) \<Rightarrow> raw_chunk \<Rightarrow> bool" where
  "chunk_ok devs c \<longleftrightarrow>
     (case rc_group c of
        None \<Rightarrow> True
      | Some (ga, g) \<Rightarrow> group_ok g \<and> (\<forall>d \<in> set (dg_members g). d = devs (dd_addr d)))"

text \<open>The reference: decode every chunk of every endpoint, without batching.\<close>

definition log_unknown :: "device_stream \<Rightarrow> device_stream" where
  "log_unknown st = st\<lparr>ds_unknownTypeLogged := ds_unknownType st\<rparr>"

definition decode_chunk ::
  "(nat \<Rightarrow> device_stream option) \<Rightarrow> raw_chunk \<Rightarrow> ((nat \<Rightarrow> device_stream option) \<times> sink_row list) option"
where
  "decode_chunk streams c =
     (case rc_group c of
        None \<Rightarrow> Some (streams, [])
      | Some (ga, g) \<Rightarrow>
          if rc_data c = [] then Some (streams, [])
          else do {
            (st, rows) \<leftarrow> group_feed g (case streams ga of Some s \<Rightarrow> s | None \<Rightarrow> device_stream_new)
                            (rc_data c) (rc_recvMs c);
            Some (streams(ga \<mapsto> log_unknown st), rows)
          })"

fun decode_events ::
  "(nat \<Rightarrow> device_stream option) \<Rightarrow> parser_event list \<Rightarrow> ((nat \<Rightarrow> device_stream option) \<times> sink_row list) option"
where
  "decode_events streams [] = Some (streams, [])"
| "decode_events streams (Dequeued c # es) =
     do {
       (s1, r1) \<leftarrow> decode_chunk streams c;
       (s2, r2) \<leftarrow> decode_events s1 es;
       Some (s2, r1 @ r2)
     }"
| "decode_events streams (TimedOut order # es) = decode_events streams es"

lemma rows_from_ok:
  "rows_from (set (dg_members g)) ts rows \<Longrightarrow> \<forall>d \<in> set (dg_members g). d = devs (dd_addr d) \<Longrightarrow> rows_ok devs rows"
  by (auto simp: rows_from_def rows_ok_def)

definition settled :: "(nat \<Rightarrow> device_desc) \<Rightarrow> parser_worker \<Rightarrow> bool" where
  "settled devs w \<longleftrightarrow> (\<forall>a. pending_small (pw_batchRows w) (devs a) w)"

lemma parse_chunk_ok:
  assumes devs: "addressed devs" and w: "worker_ok devs w" "settled devs w" and c: "chunk_ok devs c"
  shows "\<exists>w' streams rows. parse_chunk w c = Some w' \<and> decode_chunk (pw_streams w) c = Some (streams, rows) \<and>
    pw_streams w' = streams \<and> worker_ok devs w' \<and> settled devs w' \<and> pw_batchRows w' = pw_batchRows w \<and>
    (\<forall>a. delivered a w' = delivered a w @ rows_for a rows)"
proof (cases "\<exists>ga g. rc_group c = Some (ga, g) \<and> rc_data c \<noteq> []")
  case False
  then show ?thesis
    using w by (cases "rc_group c") (auto simp: parse_chunk_def decode_chunk_def rows_for_def)
next
  case True
  then obtain ga g where g: "rc_group c = Some (ga, g)" "rc_data c \<noteq> []" by blast
  have gok: "group_ok g" "\<forall>d \<in> set (dg_members g). d = devs (dd_addr d)"
    using c g(1) by (auto simp: chunk_ok_def)
  let ?st = "case pw_streams w ga of Some s \<Rightarrow> s | None \<Rightarrow> device_stream_new"
  obtain st rows where f: "group_feed g ?st (rc_data c) (rc_recvMs c) = Some (st, rows)"
    using group_feed_defined [OF gok(1)] by blast
  have rows: "rows_ok devs rows" by (rule rows_from_ok [OF group_feed_from [OF f] gok(2)])
  have w0: "worker_ok devs (w\<lparr>pw_touched := []\<rparr>)" using w(1) by (simp add: worker_ok_def)
  obtain w1 where w1: "append_rows (w\<lparr>pw_touched := []\<rparr>) rows = Some w1" "worker_ok devs w1"
    "pw_write w1 = pw_write w" "pw_batchRows w1 = pw_batchRows w" "pw_streams w1 = pw_streams w"
    "\<forall>a. pending a w1 = pending a w @ rows_for a rows"
    "dd_addr ` set (pw_touched w1) = dd_addr ` set (map fst rows)" "set (pw_touched w1) \<subseteq> set (map fst rows)"
    using append_rows_ok [OF w0 rows] by (auto simp: pending_def)
  define w2 where "w2 = w1\<lparr>pw_streams := (pw_streams w1)(ga \<mapsto> log_unknown st),
      pw_stats := count_rows (length rows) (pw_stats w1)\<rparr>"
  have log: "(if ds_unknownType st \<noteq> ds_unknownTypeLogged st
      then st\<lparr>ds_unknownTypeLogged := ds_unknownType st\<rparr> else st) = log_unknown st"
    by (simp add: log_unknown_def)
  have pc: "parse_chunk w c = Some (flush_touched w2)"
    unfolding parse_chunk_def g option.case prod.case if_not_P [OF g(2)] Let_def f bind.bind_lunit w1(1) log w2_def
    by simp
  have w2: "worker_ok devs w2" "pw_write w2 = pw_write w" "pw_batchRows w2 = pw_batchRows w"
    "pw_touched w2 = pw_touched w1" "pending a w2 = pending a w1" for a
    using w1 by (simp_all add: w2_def worker_ok_def pending_def)
  let ?w' = "flush_touched w2"
  have fl: "worker_ok devs ?w'" "\<forall>c. delivered c ?w' = delivered c w2"
    "\<forall>d \<in> set (pw_touched w1). pending_small (pw_batchRows w) d ?w'"
    "\<forall>c. pending c ?w' \<noteq> [] \<longrightarrow> pending c ?w' = pending c w2" "pw_batchRows ?w' = pw_batchRows w"
    "pw_streams ?w' = pw_streams w2"
    using flush_list_ok [OF devs w2(1), of "pw_touched w2"] w2 by (auto simp: flush_touched_def Let_def)
  have "pending_small (pw_batchRows w) (devs a) ?w'" for a
  proof (cases "a \<in> dd_addr ` set (pw_touched w1)")
    case True
    then obtain d where "d \<in> set (pw_touched w1)" "dd_addr d = a" by blast
    moreover have "d = devs (dd_addr d)" if "d \<in> set (pw_touched w1)" for d
      using that w1(8) rows by (auto simp: rows_ok_def)
    ultimately show ?thesis using fl(3) by metis
  next
    case False
    then have "rows_for a rows = []" using w1(7) by (auto simp: rows_for_def filter_empty_conv image_iff)
    then have same: "pending a w2 = pending a w" using w1(6) w2(5) by simp
    have "dd_addr (devs a) = a" using devs by (simp add: addressed_def)
    with same fl(4) w(2) show ?thesis unfolding settled_def pending_small_def by metis
  qed
  then have "settled devs ?w'" by (simp add: settled_def fl(5))
  moreover have "\<forall>a. delivered a ?w' = delivered a w @ rows_for a rows"
    using fl(2) w1(6) w2 by (simp add: delivered_def)
  moreover have "decode_chunk (pw_streams w) c = Some ((pw_streams w)(ga \<mapsto> log_unknown st), rows)"
    using g f by (simp add: decode_chunk_def)
  ultimately show ?thesis using pc fl w1(5) by (auto simp: w2_def)
qed

fun event_ok :: "(nat \<Rightarrow> device_desc) \<Rightarrow> parser_event \<Rightarrow> bool" where
  "event_ok devs (Dequeued c) \<longleftrightarrow> chunk_ok devs c"
| "event_ok devs (TimedOut order) \<longleftrightarrow> True"

lemma flushAll_settled:
  assumes "addressed devs" "worker_ok devs w" "settled devs w"
  shows "settled devs (flushAll order w)"
  using flushAll_ok [OF assms(1,2), of order] assms(3)
  by (auto simp: settled_def pending_small_def)

lemma run_events_ok:
  assumes devs: "addressed devs"
  shows "worker_ok devs w \<Longrightarrow> settled devs w \<Longrightarrow> \<forall>e \<in> set es. event_ok devs e \<Longrightarrow>
    \<exists>w' streams rows. run_events w es = Some w' \<and> decode_events (pw_streams w) es = Some (streams, rows) \<and>
      worker_ok devs w' \<and> settled devs w' \<and> pw_batchRows w' = pw_batchRows w \<and>
      (\<forall>a. delivered a w' = delivered a w @ rows_for a rows)"
proof (induction es arbitrary: w)
  case Nil
  then show ?case by (simp add: rows_for_def)
next
  case (Cons e es)
  have rest: "\<forall>e \<in> set es. event_ok devs e" using Cons.prems(3) by simp
  show ?case
  proof (cases e)
    case (Dequeued c)
    have "chunk_ok devs c" using Cons.prems(3) Dequeued by simp
    from parse_chunk_ok [OF devs Cons.prems(1,2) this] obtain w1 r1 where
      w1: "parse_chunk w c = Some w1" "decode_chunk (pw_streams w) c = Some (pw_streams w1, r1)"
        "worker_ok devs w1" "settled devs w1" "pw_batchRows w1 = pw_batchRows w"
        "\<forall>a. delivered a w1 = delivered a w @ rows_for a r1" by blast
    from Cons.IH [OF w1(3,4) rest] obtain w' s2 r2 where
      "run_events w1 es = Some w'" "decode_events (pw_streams w1) es = Some (s2, r2)"
        "worker_ok devs w'" "settled devs w'" "pw_batchRows w' = pw_batchRows w1"
        "\<forall>a. delivered a w' = delivered a w1 @ rows_for a r2" by blast
    with w1 Dequeued show ?thesis by (simp add: rows_for_def)
  next
    case (TimedOut order)
    let ?w1 = "flushAll order w"
    note fl = flushAll_ok [OF devs Cons.prems(1), of order]
    obtain w' s2 r2 where
      "run_events ?w1 es = Some w'" "decode_events (pw_streams ?w1) es = Some (s2, r2)"
        "worker_ok devs w'" "settled devs w'" "pw_batchRows w' = pw_batchRows ?w1"
        "\<forall>a. delivered a w' = delivered a ?w1 @ rows_for a r2"
      using Cons.IH [of ?w1] fl rest flushAll_settled [OF devs Cons.prems(1,2), of order] by blast
    with fl TimedOut show ?thesis by simp
  qed
qed

lemma parser_new_ok:
  "worker_ok devs (parser_new n pq stats)" "settled devs (parser_new n pq stats)"
  "delivered a (parser_new n pq stats) = []" "pw_streams (parser_new n pq stats) = (\<lambda>_. None)"
  by (simp_all add: parser_new_def worker_ok_def settled_def pending_small_def pending_def delivered_def
      queued_def)

lemma parser_run_delivers:
  assumes "addressed devs" "\<forall>e \<in> set es. event_ok devs e"
  shows "\<exists>w1 streams rows. run_events (parser_new n pq stats) es = Some w1 \<and>
    decode_events (\<lambda>_. None) es = Some (streams, rows) \<and> worker_ok devs w1 \<and> settled devs w1 \<and>
    pw_batchRows w1 = pw_batchRows (parser_new n pq stats) \<and>
    (\<forall>order. dom (pw_batches w1) \<subseteq> set order \<longrightarrow>
       (\<exists>w. parser_run (parser_new n pq stats) es order = Some w \<and> worker_ok devs w \<and>
          (\<forall>a. queued a (pw_write w) = rows_for a rows)))"
proof -
  obtain w1 streams rows where run: "run_events (parser_new n pq stats) es = Some w1"
    "decode_events (\<lambda>_. None) es = Some (streams, rows)" "worker_ok devs w1" "settled devs w1"
    "pw_batchRows w1 = pw_batchRows (parser_new n pq stats)" "\<forall>a. delivered a w1 = rows_for a rows"
    using run_events_ok [OF assms(1) parser_new_ok(1,2) assms(2), of n pq stats] by (auto simp: parser_new_ok)
  have "worker_ok devs (flushAll order w1) \<and> (\<forall>a. queued a (pw_write (flushAll order w1)) = rows_for a rows)"
    if "dom (pw_batches w1) \<subseteq> set order" for order
  proof -
    note fl = flushAll_ok [OF assms(1) run(3), of order]
    have "pending a (flushAll order w1) = []" for a
      using fl that by (auto simp: pending_def [of _ w1] split: option.split)
    then have "queued a (pw_write (flushAll order w1)) = rows_for a rows" for a
      using fl run(6) unfolding delivered_def by (metis append_Nil2)
    with fl show ?thesis by simp
  qed
  with run(1-5) show ?thesis by (simp add: parser_run_def)
qed

text \<open>Only devices of the groups that sent something have a batch.\<close>

definition chunk_devices :: "raw_chunk \<Rightarrow> device_desc set" where
  "chunk_devices c = (case rc_group c of None \<Rightarrow> {} | Some (ga, g) \<Rightarrow> set (dg_members g))"

fun chunks_of :: "parser_event list \<Rightarrow> raw_chunk list" where
  "chunks_of [] = []"
| "chunks_of (Dequeued c # es) = c # chunks_of es"
| "chunks_of (TimedOut order # es) = chunks_of es"

lemma append_rows_dom:
  "append_rows w rows = Some w' \<Longrightarrow> dom (pw_batches w') = dom (pw_batches w) \<union> dd_addr ` fst ` set rows"
proof (induction rows arbitrary: w)
  case (Cons r rows)
  obtain w1 where w1: "appendRow w r = Some w1" "append_rows w1 rows = Some w'"
    using Cons.prems by (auto simp: bind_Some_iff)
  have "dom (pw_batches w1) = insert (dd_addr (fst r)) (dom (pw_batches w))"
    using w1(1) by (auto simp: appendRow_def Let_def bind_Some_iff split: prod.splits)
  with Cons.IH [OF w1(2)] show ?case by auto
qed simp

lemma flush_touched_dom: "dom (pw_batches (flush_touched w)) = dom (pw_batches w)"
proof -
  have "dom (pw_batches (flush_touched1 w d)) = dom (pw_batches w)" for w d
    by (simp add: flush_touched1_def flushDevice_keeps split: option.split)
  then have "dom (pw_batches (foldl flush_touched1 w ds)) = dom (pw_batches w)" for ds
    by (induction ds arbitrary: w) simp_all
  then show ?thesis by (simp add: flush_touched_def)
qed

lemma parse_chunk_dom:
  assumes "parse_chunk w c = Some w'"
  shows "dom (pw_batches w') \<subseteq> dom (pw_batches w) \<union> dd_addr ` chunk_devices c"
proof (cases "\<exists>ga g. rc_group c = Some (ga, g) \<and> rc_data c \<noteq> []")
  case True
  then obtain ga g where g: "rc_group c = Some (ga, g)" "rc_data c \<noteq> []" by blast
  obtain st rows w1 where f: "group_feed g (case pw_streams w ga of Some s \<Rightarrow> s | None \<Rightarrow> device_stream_new)
        (rc_data c) (rc_recvMs c) = Some (st, rows)"
    and a: "append_rows (w\<lparr>pw_touched := []\<rparr>) rows = Some w1" and d: "dom (pw_batches w') = dom (pw_batches w1)"
    using assms g by (auto simp: parse_chunk_def Let_def bind_Some_iff flush_touched_dom)
  have "fst ` set rows \<subseteq> set (dg_members g)" using group_feed_from [OF f] by (auto simp: rows_from_def)
  with append_rows_dom [OF a] d g(1) show ?thesis by (auto simp: chunk_devices_def)
next
  case False
  with assms show ?thesis by (auto simp: parse_chunk_def split: option.splits)
qed

lemma flushAll_dom: "dom (pw_batches (flushAll order w)) = dom (pw_batches w)"
  by (induction order arbitrary: w) (simp_all add: flushAll_def flushDevice_keeps)

lemma run_events_dom:
  "run_events w es = Some w' \<Longrightarrow>
   dom (pw_batches w') \<subseteq> dom (pw_batches w) \<union> dd_addr ` (\<Union>c \<in> set (chunks_of es). chunk_devices c)"
proof (induction es arbitrary: w rule: chunks_of.induct)
  case (2 c es)
  then obtain w1 where w1: "parse_chunk w c = Some w1" "run_events w1 es = Some w'" by (auto simp: bind_Some_iff)
  have "dom (pw_batches w') \<subseteq> dom (pw_batches w1) \<union> dd_addr ` (\<Union>c \<in> set (chunks_of es). chunk_devices c)"
    by (rule "2.IH" [OF w1(2)])
  also have "\<dots> \<subseteq> dom (pw_batches w) \<union> dd_addr ` chunk_devices c \<union>
      dd_addr ` (\<Union>c \<in> set (chunks_of es). chunk_devices c)"
    by (intro Un_mono parse_chunk_dom [OF w1(1)] order.refl)
  finally show ?case by (simp add: image_Un Un_assoc)
next
  case (3 order es)
  then have "run_events (flushAll order w) es = Some w'" by simp
  from "3.IH" [OF this] show ?case by (simp only: flushAll_dom chunks_of.simps)
qed simp

lemma event_ok_chunks: "(\<forall>e \<in> set es. event_ok devs e) \<longleftrightarrow> (\<forall>c \<in> set (chunks_of es). chunk_ok devs c)"
  by (induction es rule: chunks_of.induct) auto

end
