(* ===== verification/C_Strings.thy ===== *)
theory C_Strings
  imports Adapter_Prelude
begin

text \<open>
  The text functions of the C and C++ standard libraries that the sources call: \<open>std::to_string\<close>,
  \<open>strtoll\<close> and \<open>strtoul\<close> with base 0, \<open>atoi\<close>, \<open>std::string::find\<close>. A string is a list of characters
  without the terminating NUL; \<open>long\<close> has 64 bits.
\<close>

section \<open>Characters\<close>

definition code :: "char \<Rightarrow> nat" where
  "code c = of_char c"

definition isspace :: "char \<Rightarrow> bool" where
  "isspace c \<longleftrightarrow> code c = 32 \<or> (9 \<le> code c \<and> code c \<le> 13)"

definition isdigit :: "char \<Rightarrow> bool" where
  "isdigit c \<longleftrightarrow> 48 \<le> code c \<and> code c \<le> 57"

definition islower :: "char \<Rightarrow> bool" where
  "islower c \<longleftrightarrow> 97 \<le> code c \<and> code c \<le> 122"

definition isupper :: "char \<Rightarrow> bool" where
  "isupper c \<longleftrightarrow> 65 \<le> code c \<and> code c \<le> 90"

definition digit_value :: "char \<Rightarrow> nat" where
  "digit_value c =
     (if isdigit c then code c - 48
      else if islower c then code c - 87
      else if isupper c then code c - 55
      else 36)"

section \<open>Numbers to text\<close>

definition digit_char :: "nat \<Rightarrow> char" where
  "digit_char d = char_of (48 + d)"

fun to_string :: "nat \<Rightarrow> string" where
  "to_string n = (if n < 10 then [digit_char n] else to_string (n div 10) @ [digit_char (n mod 10)])"

declare to_string.simps [simp del]

definition to_string_int :: "int \<Rightarrow> string" where
  "to_string_int i = (if i < 0 then CHR ''-'' # to_string (nat (- i)) else to_string (nat i))"

section \<open>Text to numbers\<close>

definition digits_value :: "nat \<Rightarrow> string \<Rightarrow> nat" where
  "digits_value base ds = foldl (\<lambda>acc c. acc * base + digit_value c) 0 ds"

definition strip_sign :: "string \<Rightarrow> bool \<times> string" where
  "strip_sign s =
     (case s of
        c # r \<Rightarrow> if c = CHR ''-'' then (True, r) else if c = CHR ''+'' then (False, r) else (False, s)
      | [] \<Rightarrow> (False, s))"

text \<open>The base that a prefix selects when the base argument is 0.\<close>

definition auto_base :: "string \<Rightarrow> nat \<times> string" where
  "auto_base s =
     (case s of
        c # x # d # r \<Rightarrow>
          if c = CHR ''0'' then
            (if (x = CHR ''x'' \<or> x = CHR ''X'') \<and> digit_value d < 16 then (16, d # r) else (8, s))
          else (10, s)
      | c # r \<Rightarrow> if c = CHR ''0'' then (8, s) else (10, s)
      | [] \<Rightarrow> (10, s))"

text \<open>Sign and magnitude of the leading number; \<open>None\<close> when no digit is there (\<open>end == t\<close>).\<close>

definition scan_number :: "nat \<times> string \<Rightarrow> nat option" where
  "scan_number bs =
     (let ds = takeWhile (\<lambda>c. digit_value c < fst bs) (snd bs)
      in if ds = [] then None else Some (digits_value (fst bs) ds))"

definition strtoll0 :: "string \<Rightarrow> int option" where
  "strtoll0 t =
     (let (neg, s) = strip_sign (dropWhile isspace t)
      in map_option (\<lambda>v. if neg then max (- (2 ^ 63)) (- int v) else min (2 ^ 63 - 1) (int v))
           (scan_number (auto_base s)))"

definition strtoul0 :: "string \<Rightarrow> nat option" where
  "strtoul0 t =
     (let (neg, s) = strip_sign (dropWhile isspace t)
      in map_option (\<lambda>v. if 2 ^ 64 \<le> v then 2 ^ 64 - 1 else if neg \<and> v \<noteq> 0 then 2 ^ 64 - v else v)
           (scan_number (auto_base s)))"

text \<open>\<open>atoi\<close> is \<open>(int)strtol(s, 0, 10)\<close>.\<close>

definition atoi :: "string \<Rightarrow> int" where
  "atoi t =
     (let (neg, s) = strip_sign (dropWhile isspace t)
      in case scan_number (10, s) of
           None \<Rightarrow> 0
         | Some v \<Rightarrow> int32_of (if neg then max (- (2 ^ 63)) (- int v) else min (2 ^ 63 - 1) (int v)))"

text \<open>\<open>s.find(c, from)\<close>; \<open>None\<close> is \<open>npos\<close>.\<close>

definition find_char :: "char \<Rightarrow> nat \<Rightarrow> string \<Rightarrow> nat option" where
  "find_char c from s = find (\<lambda>i. s ! i = c) [from ..< length s]"

section \<open>Facts\<close>

lemma code_digit_char: "d < 10 \<Longrightarrow> code (digit_char d) = 48 + d"
  by (simp add: code_def digit_char_def)

lemma isdigit_digit_char [simp]: "d < 10 \<Longrightarrow> isdigit (digit_char d)"
  by (simp add: isdigit_def code_digit_char)

lemma digit_value_digit_char [simp]: "d < 10 \<Longrightarrow> digit_value (digit_char d) = d"
  by (simp add: digit_value_def isdigit_def code_digit_char)

lemma to_string_digits: "c \<in> set (to_string n) \<Longrightarrow> isdigit c"
proof (induction n rule: to_string.induct)
  case (1 n)
  then show ?case by (subst (asm) to_string.simps) (auto split: if_splits)
qed

lemma to_string_nonempty [simp]: "to_string n \<noteq> []"
  by (subst to_string.simps) simp

lemma digits_value_snoc: "digits_value b (ds @ [c]) = digits_value b ds * b + digit_value c"
  by (simp add: digits_value_def)

lemma digits_value_to_string [simp]: "digits_value 10 (to_string n) = n"
proof (induction n rule: to_string.induct)
  case (1 n)
  show ?case
  proof (cases "n < 10")
    case True
    then show ?thesis by (subst to_string.simps) (simp add: digits_value_def)
  next
    case False
    with 1 show ?thesis by (subst to_string.simps) (simp add: digits_value_snoc)
  qed
qed

lemma to_string_inject [simp]: "to_string m = to_string n \<longleftrightarrow> m = n"
  using digits_value_to_string by metis

lemma digit_value_digit: "isdigit c \<Longrightarrow> digit_value c < 10"
  by (auto simp: digit_value_def isdigit_def)

lemma isdigit_not_space: "isdigit c \<Longrightarrow> \<not> isspace c"
  by (auto simp: isdigit_def isspace_def)

lemma isdigit_not_sign: "isdigit c \<Longrightarrow> c \<noteq> CHR ''-'' \<and> c \<noteq> CHR ''+'' \<and> c \<noteq> CHR '':''"
  by (auto simp: isdigit_def code_def)

lemma takeWhile_digits: "\<forall>c \<in> set ds. isdigit c \<Longrightarrow> takeWhile (\<lambda>c. digit_value c < 10) ds = ds"
  by (auto simp: takeWhile_eq_all_conv dest: digit_value_digit)

text \<open>Printing and reading back.\<close>

lemma atoi_to_string: "n < 2 ^ 31 \<Longrightarrow> atoi (to_string n) = int n"
proof -
  assume n: "n < 2 ^ 31"
  obtain c r where cr: "to_string n = c # r" by (cases "to_string n") auto
  then have c: "isdigit c" by (metis list.set_intros(1) to_string_digits)
  have "strip_sign (dropWhile isspace (to_string n)) = (False, to_string n)"
    using c isdigit_not_sign [OF c] by (simp add: cr strip_sign_def isdigit_not_space)
  moreover have "scan_number (10, to_string n) = Some n"
    using to_string_digits [of _ n] by (simp add: scan_number_def takeWhile_digits)
  moreover have "int32_of (int n) = int n"
    using n by (intro int32_of_small) simp_all
  ultimately show ?thesis using n by (simp add: atoi_def)
qed

lemma find_char_Some:
  "find_char c from s = Some i \<longleftrightarrow>
     from \<le> i \<and> i < length s \<and> s ! i = c \<and> (\<forall>j. from \<le> j \<and> j < i \<longrightarrow> s ! j \<noteq> c)"
proof
  assume "find_char c from s = Some i"
  then obtain k where k: "k < length [from ..< length s]" "s ! ([from ..< length s] ! k) = c"
    "i = [from ..< length s] ! k" "\<forall>j < k. s ! ([from ..< length s] ! j) \<noteq> c"
    by (auto simp: find_char_def find_Some_iff)
  then have i: "i = from + k" "i < length s" by auto
  have "s ! j \<noteq> c" if "from \<le> j" "j < i" for j
    using k(4) [rule_format, of "j - from"] that i by auto
  with k i show "from \<le> i \<and> i < length s \<and> s ! i = c \<and> (\<forall>j. from \<le> j \<and> j < i \<longrightarrow> s ! j \<noteq> c)" by auto
next
  assume r: "from \<le> i \<and> i < length s \<and> s ! i = c \<and> (\<forall>j. from \<le> j \<and> j < i \<longrightarrow> s ! j \<noteq> c)"
  then show "find_char c from s = Some i"
    unfolding find_char_def find_Some_iff by (intro exI [of _ "i - from"]) auto
qed

lemma find_char_None: "find_char c from s = None \<longleftrightarrow> (\<forall>j. from \<le> j \<and> j < length s \<longrightarrow> s ! j \<noteq> c)"
  by (auto simp: find_char_def find_None_iff)

end
