(* ===== verification/Config_Load.thy ===== *)
theory Config_Load
  imports Device_Model C_Strings
begin

text \<open>
  The configuration loader of \<open>src/src/adapter/ConfigDB.cpp\<close>: the column readers, the field types and
  their columns, identifiers, and the three table loaders that build the protocol and device lists.

  SQLite is outside the sources. What the loader sees of a value is the result of the four accessors
  it calls; what it sees of a table is whether the statement can be prepared and the sequence of rows.
  These are the arguments of the loaders. Messages of the log are left out.
\<close>

section \<open>Column values\<close>

datatype sql_type = SQLITE_INTEGER | SQLITE_FLOAT | SQLITE_TEXT | SQLITE_BLOB | SQLITE_NULL

record sql_value =
  sv_type :: sql_type
  sv_int64 :: i64
  sv_double :: double
  sv_text :: "string option"

type_synonym sql_row = "nat \<Rightarrow> sql_value"

text \<open>The integer part of a \<open>double\<close>; none for infinities and NaN.\<close>

definition f64_trunc :: "double \<Rightarrow> int option" where
  "f64_trunc d =
     (let e = f64_exp d; sig = f64_frac d + 2 ^ 52;
          mag = (if e = 0 then 0 else if 1075 \<le> e then sig * 2 ^ (e - 1075) else sig div 2 ^ (1075 - e))
      in if e = 2047 then None else Some (if f64_sign d = 0 then int mag else - int mag))"

text \<open>A conversion out of the range of the target type is undefined.\<close>

definition f64_to_i64 :: "double \<Rightarrow> i64 option" where
  "f64_to_i64 d = do { v \<leftarrow> f64_trunc d; if - (2 ^ 63) \<le> v \<and> v < 2 ^ 63 then Some (word_of_int v) else None }"

definition f64_to_u32 :: "double \<Rightarrow> u32 option" where
  "f64_to_u32 d = do { v \<leftarrow> f64_trunc d; if 0 \<le> v \<and> v < 2 ^ 32 then Some (word_of_int v) else None }"

definition readInt64 :: "sql_row \<Rightarrow> nat \<Rightarrow> i64 \<Rightarrow> i64 option" where
  "readInt64 st col dflt =
     (case sv_type (st col) of
        SQLITE_INTEGER \<Rightarrow> Some (sv_int64 (st col))
      | SQLITE_FLOAT \<Rightarrow> f64_to_i64 (sv_double (st col))
      | SQLITE_TEXT \<Rightarrow>
          (case sv_text (st col) of
             None \<Rightarrow> Some dflt
           | Some t \<Rightarrow> (case strtoll0 t of Some v \<Rightarrow> Some (word_of_int v) | None \<Rightarrow> Some dflt))
      | _ \<Rightarrow> Some dflt)"

definition readUInt32 :: "sql_row \<Rightarrow> nat \<Rightarrow> u32 \<Rightarrow> u32 option" where
  "readUInt32 st col dflt =
     (case sv_type (st col) of
        SQLITE_INTEGER \<Rightarrow> Some (ucast (sv_int64 (st col)))
      | SQLITE_FLOAT \<Rightarrow> f64_to_u32 (sv_double (st col))
      | SQLITE_TEXT \<Rightarrow>
          (case sv_text (st col) of
             None \<Rightarrow> Some dflt
           | Some t \<Rightarrow> (case strtoul0 t of Some v \<Rightarrow> Some (word_of_nat v) | None \<Rightarrow> Some dflt))
      | _ \<Rightarrow> Some dflt)"

definition readText :: "sql_row \<Rightarrow> nat \<Rightarrow> string" where
  "readText st col = (case sv_text (st col) of Some t \<Rightarrow> t | None \<Rightarrow> [])"

text \<open>\<open>(int)readInt64(...)\<close>\<close>

definition readInt :: "sql_row \<Rightarrow> nat \<Rightarrow> int \<Rightarrow> int option" where
  "readInt st col dflt = map_option (\<lambda>v. int32_of (sint v)) (readInt64 st col (word_of_int dflt))"

section \<open>Protocols, field types, identifiers\<close>

definition parseConnProto :: "string \<Rightarrow> int" where
  "parseConnProto txt =
     (let inner = (case find_char CHR ''('' 0 txt of
                     None \<Rightarrow> 0
                   | Some l \<Rightarrow>
                       (case find_char CHR '')'' l txt of
                          None \<Rightarrow> 0
                        | Some r \<Rightarrow> if l + 1 < r then atoi (take (r - l - 1) (drop (l + 1) txt)) else 0))
      in if 0 < inner then inner
         else if txt \<noteq> [] \<and> isdigit (hd txt) then atoi txt
         else 0)"

definition mapFieldType :: "int \<Rightarrow> (field_kind \<times> u8) option" where
  "mapFieldType c =
     (if c = 0 then Some (Bool, 1)
      else if c = 1 then Some (IntSigned, 2)
      else if c = 2 then Some (IntSigned, 4)
      else if c = 3 then Some (Float32, 4)
      else if c = 4 then Some (Float64, 8)
      else if c = 5 then Some (IntSigned, 1)
      else if c = 6 then Some (IntUnsigned, 1)
      else if c = 7 then Some (IntUnsigned, 2)
      else if c = 8 then Some (IntUnsigned, 4)
      else if c = 9 then Some (IntSigned, 8)
      else if c = 10 then Some (IntUnsigned, 8)
      else None)"

definition ident_char :: "char \<Rightarrow> bool" where
  "ident_char c \<longleftrightarrow> islower c \<or> isupper c \<or> isdigit c \<or> c = CHR ''_''"

definition makeIdentifier :: "string \<Rightarrow> string \<Rightarrow> string" where
  "makeIdentifier raw fallback =
     (if raw = [] then fallback
      else let out = map (\<lambda>c. if ident_char c then c else CHR ''_'') raw
      in if out = [] then fallback
         else if isdigit (hd out) then CHR ''_'' # out
         else out)"

definition kBindTimestamp :: int where "kBindTimestamp = 0"
definition kBindBool :: int where "kBindBool = 1"
definition kBindTinyInt :: int where "kBindTinyInt = 2"
definition kBindSmallInt :: int where "kBindSmallInt = 3"
definition kBindInt :: int where "kBindInt = 4"
definition kBindBigInt :: int where "kBindBigInt = 5"
definition kBindFloat :: int where "kBindFloat = 6"
definition kBindDouble :: int where "kBindDouble = 7"

lemmas bind_defs = kBindTimestamp_def kBindBool_def kBindTinyInt_def kBindSmallInt_def kBindInt_def
  kBindBigInt_def kBindFloat_def kBindDouble_def

text \<open>The column that stores a field: as double, bytes per value, bind type, column type.\<close>

definition materialize_kind :: "field_kind \<Rightarrow> u8 \<Rightarrow> bool \<times> u8 \<times> int \<times> string" where
  "materialize_kind k sz =
     (case k of
        Bool \<Rightarrow> (False, 1, kBindBool, ''BOOL'')
      | Float32 \<Rightarrow> (True, 4, kBindFloat, ''FLOAT'')
      | Float64 \<Rightarrow> (True, 8, kBindDouble, ''DOUBLE'')
      | IntSigned \<Rightarrow>
          (if sz = 1 then (False, sz, kBindTinyInt, ''TINYINT'')
           else if sz = 2 then (False, sz, kBindSmallInt, ''SMALLINT'')
           else if sz = 4 then (False, sz, kBindInt, ''INT'')
           else (False, sz, kBindBigInt, ''BIGINT''))
      | IntUnsigned \<Rightarrow>
          (if sz = 1 then (False, 2, kBindSmallInt, ''SMALLINT'')
           else if sz = 2 then (False, 4, kBindInt, ''INT'')
           else (False, 8, kBindBigInt, ''BIGINT'')))"

definition materializeField :: "field_desc \<Rightarrow> nat \<Rightarrow> field_desc" where
  "materializeField f index =
     (let (dbl, sz, bt, ct) = materialize_kind (fd_kind f) (fd_size f)
      in f\<lparr>fd_name := makeIdentifier (fd_name f) (''f'' @ to_string index),
           fd_asDouble := dbl, fd_outSize := sz, fd_bindType := bt, fd_colType := ct\<rparr>)"

section \<open>Tables\<close>

text \<open>Which of the three statements for \<open>data_header_table\<close> can be prepared.\<close>

datatype header_schema = SchemaNew | SchemaLegacy | SchemaMinimal | SchemaError string

datatype 'a loaded = LoadError string | Loaded 'a

type_synonym specs = "int \<Rightarrow> frame_spec option"

definition header_row :: "bool \<Rightarrow> specs \<Rightarrow> sql_row \<Rightarrow> specs option" where
  "header_row withModbus specs st =
     do {
       pid \<leftarrow> readInt st 0 (-1);
       if pid \<le> 0 then Some specs
       else do {
         ft \<leftarrow> readInt st 1 0;
         fl \<leftarrow> readInt st 2 0;
         sf \<leftarrow> readUInt32 st 3 0;
         ef \<leftarrow> readUInt32 st 4 0;
         en \<leftarrow> readInt st 5 0;
         let s = frame_spec_default\<lparr>fs_dataProtoId := pid, fs_frameType := ft, fs_frameLen := fl,
                   fs_startFlag := ucast sf, fs_endFlag := ucast ef, fs_endian := en\<rparr>;
         s' \<leftarrow> (if withModbus then
                  do {
                    sa \<leftarrow> readInt st 6 0;
                    fc \<leftarrow> readInt st 7 0;
                    sta \<leftarrow> readInt st 8 (-1);
                    an \<leftarrow> readInt st 9 0;
                    Some (s\<lparr>fs_slaveAddr := sa, fs_funCode := fc, fs_startAddr := sta, fs_addrNum := an\<rparr>)
                  }
                else Some s);
         Some (specs(pid \<mapsto> s'))
       }
     }"

fun load_rows :: "('s \<Rightarrow> sql_row \<Rightarrow> 's option) \<Rightarrow> 's \<Rightarrow> sql_row list \<Rightarrow> 's option" where
  "load_rows f s [] = Some s"
| "load_rows f s (r # rs) = do { s' \<leftarrow> f s r; load_rows f s' rs }"

definition loadHeaders :: "header_schema \<Rightarrow> sql_row list \<Rightarrow> specs \<Rightarrow> specs loaded option" where
  "loadHeaders schema rows specs =
     (case schema of
        SchemaError msg \<Rightarrow> Some (LoadError (''data_header_table: '' @ msg))
      | SchemaNew \<Rightarrow> map_option Loaded (load_rows (header_row True) specs rows)
      | SchemaLegacy \<Rightarrow> map_option Loaded (load_rows (header_row True) specs rows)
      | SchemaMinimal \<Rightarrow> map_option Loaded (load_rows (header_row False) specs rows))"

text \<open>A bit range that does not fit the field disables the extraction.\<close>

definition check_bits :: "field_desc \<Rightarrow> field_desc" where
  "check_bits f =
     (if 0 < fd_bitLen f \<and> unat (fd_size f) * 8 < unat (fd_bitOffset f) + unat (fd_bitLen f)
      then f\<lparr>fd_bitOffset := 0, fd_bitLen := 0\<rparr> else f)"

text \<open>\<open>FrameSpec& spec = _specs[pid]\<close> and the four statements behind it.\<close>

definition add_field :: "int \<Rightarrow> field_desc \<Rightarrow> specs \<Rightarrow> specs" where
  "add_field pid f specs =
     (let spec = (case specs pid of Some s \<Rightarrow> s | None \<Rightarrow> frame_spec_default);
          spec1 = spec\<lparr>fs_dataProtoId := pid\<rparr>;
          f' = materializeField f (length (fs_fields spec1));
          fend = fd_byteOffset f' + ucast (fd_size f');
          spec2 = (if fs_payloadMin spec1 < fend then spec1\<lparr>fs_payloadMin := fend\<rparr> else spec1)
      in specs(pid \<mapsto> spec2\<lparr>fs_fields := fs_fields spec2 @ [f']\<rparr>))"

definition field_row :: "specs \<Rightarrow> sql_row \<Rightarrow> specs option" where
  "field_row specs st =
     do {
       pid \<leftarrow> readInt st 0 (-1);
       if pid \<le> 0 then Some specs
       else do {
         c \<leftarrow> readInt st 3 (-1);
         (case mapFieldType c of
            None \<Rightarrow> Some specs
          | Some (kind, sz) \<Rightarrow>
              do {
                bo \<leftarrow> readUInt32 st 4 0;
                bi \<leftarrow> readUInt32 st 5 0;
                bl \<leftarrow> readUInt32 st 6 0;
                pr \<leftarrow> readInt st 7 0;
                Some (add_field pid
                  (check_bits \<lparr>fd_name = readText st 1, fd_unit = readText st 2, fd_kind = kind,
                     fd_size = sz, fd_byteOffset = bo, fd_bitOffset = ucast bi, fd_bitLen = ucast bl,
                     fd_precision = pr, fd_outSize = 0, fd_bindType = 0, fd_colType = [],
                     fd_asDouble = False\<rparr>) specs)
              })
       }
     }"

definition loadFields :: "string option \<Rightarrow> sql_row list \<Rightarrow> specs \<Rightarrow> specs loaded option" where
  "loadFields perr rows specs =
     (case perr of
        Some msg \<Rightarrow> Some (LoadError (''data_proto_table: '' @ msg))
      | None \<Rightarrow> map_option Loaded (load_rows field_row specs rows))"

text \<open>
  The loop over \<open>device_table\<close>; the number of devices pushed so far is both the counter \<open>n\<close> and the
  address of the next device.
\<close>

definition device_row :: "specs \<Rightarrow> device_desc list \<Rightarrow> sql_row \<Rightarrow> device_desc list option" where
  "device_row specs devs st =
     (let rowIndex = length devs; deviceId = readText st 0; ip = readText st 2
      in if deviceId = [] then Some devs
         else if ip = [] then Some devs
         else do {
           dp \<leftarrow> readUInt32 st 3 0;
           lp \<leftarrow> readUInt32 st 5 0;
           pid \<leftarrow> readInt st 6 0;
           en \<leftarrow> readInt st 7 0;
           let cp = parseConnProto (readText st 4);
           Some (devs @
             [\<lparr>dd_addr = rowIndex,
               dd_deviceId = makeIdentifier deviceId (''device_'' @ to_string (rowIndex + 1)),
               dd_deviceName = readText st 1, dd_ip = ip, dd_devicePort = ucast dp,
               dd_connProto = (if cp = 0 then CONN_CUSTOM_DATA else cp),
               dd_localServerPort = ucast lp, dd_dataProtoId = pid, dd_endian = en,
               dd_spec = (case specs pid of Some s \<Rightarrow> s | None \<Rightarrow> frame_spec_default),
               dd_group = None, dd_isEvent = False, dd_eventType = 0, dd_immediateFlush = False\<rparr>])
         })"

definition loadDevices :: "string option \<Rightarrow> sql_row list \<Rightarrow> specs \<Rightarrow> device_desc list loaded option" where
  "loadDevices perr rows specs =
     (case perr of
        Some msg \<Rightarrow> Some (LoadError (''device_table: '' @ msg))
      | None \<Rightarrow> map_option Loaded (load_rows (device_row specs) [] rows))"

section \<open>Identifiers and protocol names\<close>

definition valid_identifier :: "string \<Rightarrow> bool" where
  "valid_identifier s \<longleftrightarrow> s \<noteq> [] \<and> list_all ident_char s \<and> \<not> isdigit (hd s)"

lemma ident_char_underscore [simp]: "ident_char CHR ''_''" "\<not> isdigit CHR ''_''"
  by (simp_all add: ident_char_def isdigit_def code_def)

lemma makeIdentifier_valid:
  assumes "valid_identifier fallback"
  shows "valid_identifier (makeIdentifier raw fallback)"
  using assms
  by (cases raw) (auto simp: makeIdentifier_def valid_identifier_def list_all_iff Let_def)

lemma makeIdentifier_id: "valid_identifier raw \<Longrightarrow> makeIdentifier raw fallback = raw"
  by (cases raw) (auto simp: makeIdentifier_def valid_identifier_def list_all_iff Let_def intro: map_idI)

lemma makeIdentifier_idem:
  assumes "valid_identifier fallback"
  shows "makeIdentifier (makeIdentifier raw fallback) fb = makeIdentifier raw fallback"
  by (rule makeIdentifier_id) (rule makeIdentifier_valid [OF assms])

lemma isdigit_ident: "isdigit c \<Longrightarrow> ident_char c"
  by (simp add: ident_char_def)

lemma list_all_to_string: "list_all ident_char (to_string n)"
  using to_string_digits by (auto simp: list_all_iff intro: isdigit_ident)

lemma parseConnProto_named:
  assumes "CHR ''('' \<notin> set name" "0 < n" "n < 2 ^ 31"
  shows "parseConnProto (name @ ''('' @ to_string n @ '')'') = int n"
proof -
  let ?t = "name @ ''('' @ to_string n @ '')''" and ?l = "length name"
  let ?r = "?l + 1 + length (to_string n)"
  have l: "find_char CHR ''('' 0 ?t = Some ?l"
    using assms(1) by (auto simp: find_char_Some nth_append) (metis nth_mem)
  have nc: "to_string n ! j \<noteq> CHR '')''" if "j < length (to_string n)" for j
    using to_string_digits [of "to_string n ! j" n] that by (auto simp: isdigit_def code_def)
  have r: "find_char CHR '')'' ?l ?t = Some ?r"
    unfolding find_char_Some
  proof (intro conjI allI impI)
    fix j assume j: "?l \<le> j \<and> j < ?r"
    show "?t ! j \<noteq> CHR '')''"
    proof (cases "j = ?l")
      case False
      with j obtain k where k: "j = ?l + Suc k" "k < length (to_string n)"
        by (metis Suc_eq_plus1 add_Suc_right add_less_cancel_left le_neq_implies_less
            less_imp_Suc_add not_less_eq add.assoc plus_1_eq_Suc)
      with nc [of k] show ?thesis by (simp add: nth_append)
    qed simp
  qed (simp_all add: nth_append)
  have sub: "take (?r - ?l - 1) (drop (?l + 1) ?t) = to_string n" by simp
  have lr: "?l + 1 < ?r" using length_greater_0_conv [of "to_string n"] by simp
  show ?thesis
    unfolding parseConnProto_def Let_def l r option.case sub if_P [OF lr]
    using assms(2,3) by (simp add: atoi_to_string)
qed

section \<open>Every loaded specification is well formed\<close>

definition specs_ok :: "specs \<Rightarrow> bool" where
  "specs_ok specs \<longleftrightarrow>
     (\<forall>pid s. specs pid = Some s \<longrightarrow>
        spec_ok s \<and> fs_frameLen s < 2 ^ 31 \<and> - (2 ^ 31) \<le> fs_frameType s \<and> fs_frameType s < 2 ^ 31)"

lemma spec_ok_default: "fs_fields s = [] \<Longrightarrow> spec_ok s"
  by (simp add: spec_ok_def)

lemma mapFieldType_width:
  "mapFieldType c = Some (k, sz) \<Longrightarrow> fd_kind f = k \<Longrightarrow> fd_size f = sz \<Longrightarrow> field_width_ok f"
  by (auto simp: mapFieldType_def field_width_ok_def split: if_splits)

lemma check_bits_ok: "field_width_ok f \<Longrightarrow> field_ok (check_bits f)"
  by (auto simp: field_ok_def check_bits_def field_width_ok_def field_bits_ok_def split: field_kind.splits)

lemma materializeField_keeps:
  "fd_kind (materializeField f i) = fd_kind f" "fd_size (materializeField f i) = fd_size f"
  "fd_byteOffset (materializeField f i) = fd_byteOffset f"
  "fd_bitOffset (materializeField f i) = fd_bitOffset f" "fd_bitLen (materializeField f i) = fd_bitLen f"
  by (simp_all add: materializeField_def split: prod.split)

lemma materializeField_ok: "field_ok f \<Longrightarrow> field_ok (materializeField f i)"
  by (simp add: field_ok_def field_width_ok_def field_bits_ok_def materializeField_keeps cong: field_kind.case_cong)

lemma add_field_ok:
  assumes "specs_ok specs" "field_ok f"
  shows "specs_ok (add_field pid f specs)"
proof -
  define spec where "spec = (case specs pid of Some s \<Rightarrow> s | None \<Rightarrow> frame_spec_default)"
  define f' where "f' = materializeField f (length (fs_fields spec))"
  define e where "e = fd_byteOffset f' + ucast (fd_size f')"
  define s' where "s' = (if fs_payloadMin spec < e then spec\<lparr>fs_dataProtoId := pid, fs_payloadMin := e\<rparr>
      else spec\<lparr>fs_dataProtoId := pid\<rparr>)\<lparr>fs_fields := fs_fields spec @ [f']\<rparr>"
  have spec: "spec_ok spec" "fs_frameLen spec < 2 ^ 31" "- (2 ^ 31) \<le> fs_frameType spec" "fs_frameType spec < 2 ^ 31"
    using assms(1) by (auto simp: specs_ok_def spec_def spec_ok_default frame_spec_default_def split: option.split)
  have "field_ok f'" unfolding f'_def by (rule materializeField_ok [OF assms(2)])
  then have "spec_ok s'"
    using spec(1) by (auto simp: spec_ok_def s'_def e_def)
  moreover have "fs_frameLen s' = fs_frameLen spec" "fs_frameType s' = fs_frameType spec"
    by (simp_all add: s'_def)
  moreover have "add_field pid f specs = specs(pid \<mapsto> s')"
    by (simp add: add_field_def Let_def s'_def e_def f'_def spec_def)
  ultimately show ?thesis using assms(1) spec by (auto simp: specs_ok_def)
qed

lemma field_row_ok:
  assumes "specs_ok specs" "field_row specs st = Some specs'"
  shows "specs_ok specs'"
proof -
  have "specs_ok (add_field pid (check_bits \<lparr>fd_name = readText st 1, fd_unit = readText st 2, fd_kind = k,
      fd_size = sz, fd_byteOffset = bo, fd_bitOffset = ucast bi, fd_bitLen = ucast bl, fd_precision = pr,
      fd_outSize = 0, fd_bindType = 0, fd_colType = [], fd_asDouble = False\<rparr>) specs)"
    if "mapFieldType c = Some (k, sz)" for c k sz bo pr pid and bi bl :: u32
    by (intro add_field_ok [OF assms(1)] check_bits_ok mapFieldType_width [OF that]) simp_all
  with assms show ?thesis
    by (auto simp: field_row_def bind_Some_iff split: if_splits option.splits)
qed

lemma readInt_range: "readInt st i d = Some v \<Longrightarrow> - (2 ^ 31) \<le> v \<and> v < 2 ^ 31"
  using int32_of_range by (auto simp: readInt_def)

lemma header_row_ok:
  assumes "specs_ok specs" "header_row b specs st = Some specs'"
  shows "specs_ok specs'"
proof -
  have upd: "specs_ok (specs(pid \<mapsto> s'))"
    if "fs_fields s' = []" "fs_frameLen s' < 2 ^ 31" "- (2 ^ 31) \<le> fs_frameType s'" "fs_frameType s' < 2 ^ 31"
    for pid s'
    using assms(1) that by (auto simp: specs_ok_def spec_ok_default)
  show ?thesis
    using assms
    by (auto simp: header_row_def Let_def bind_Some_iff frame_spec_default_def split: if_splits
             dest!: readInt_range intro!: upd)
qed

lemma load_rows_invariant:
  assumes "\<And>s r s'. P s \<Longrightarrow> f s r = Some s' \<Longrightarrow> P s'"
  shows "P s \<Longrightarrow> load_rows f s rows = Some s' \<Longrightarrow> P s'"
  by (induction rows arbitrary: s) (auto simp: bind_Some_iff intro: assms)

lemma loadHeaders_ok:
  "specs_ok specs \<Longrightarrow> loadHeaders schema rows specs = Some (Loaded specs') \<Longrightarrow> specs_ok specs'"
  by (auto simp: loadHeaders_def split: header_schema.splits
           intro: load_rows_invariant [where P = specs_ok, OF header_row_ok])

lemma loadFields_ok:
  "specs_ok specs \<Longrightarrow> loadFields perr rows specs = Some (Loaded specs') \<Longrightarrow> specs_ok specs'"
  by (auto simp: loadFields_def split: option.splits
           intro: load_rows_invariant [where P = specs_ok, OF field_row_ok])

text \<open>A device as it leaves \<open>loadDevices\<close>: its address is its position and it is routed nowhere yet.\<close>

definition device_loaded :: "device_desc list \<Rightarrow> nat \<Rightarrow> bool" where
  "device_loaded devs i \<longleftrightarrow>
     (let d = devs ! i
      in dd_addr d = i \<and> dd_ip d \<noteq> [] \<and> dd_connProto d \<noteq> 0 \<and> valid_identifier (dd_deviceId d) \<and>
         spec_ok (dd_spec d) \<and> fs_frameLen (dd_spec d) < 2 ^ 31 \<and> \<not> dd_isEvent d)"

definition devices_loaded :: "device_desc list \<Rightarrow> bool" where
  "devices_loaded devs \<longleftrightarrow> (\<forall>i < length devs. device_loaded devs i)"

lemma fallback_valid: "valid_identifier (''device_'' @ to_string n)"
  using list_all_to_string [of n]
  by (simp add: valid_identifier_def ident_char_def islower_def isdigit_def code_def)

lemma device_row_loaded:
  assumes ok: "specs_ok specs" and devs: "devices_loaded devs" and row: "device_row specs devs st = Some devs'"
  shows "devices_loaded devs'"
proof -
  have "devs' = devs \<or> (\<exists>d. devs' = devs @ [d] \<and> dd_addr d = length devs \<and> dd_ip d \<noteq> [] \<and>
      dd_connProto d \<noteq> 0 \<and> valid_identifier (dd_deviceId d) \<and> spec_ok (dd_spec d) \<and>
      fs_frameLen (dd_spec d) < 2 ^ 31 \<and> \<not> dd_isEvent d)"
    using row ok makeIdentifier_valid [OF fallback_valid]
    by (auto simp: device_row_def Let_def bind_Some_iff specs_ok_def CONN_CUSTOM_DATA_def
        frame_spec_default_def spec_ok_default split: if_splits option.split)
  then show ?thesis
    using devs by (auto simp: devices_loaded_def device_loaded_def Let_def nth_append less_Suc_eq)
qed

lemma loadDevices_loaded:
  assumes "specs_ok specs" "loadDevices perr rows specs = Some (Loaded devs)"
  shows "devices_loaded devs"
proof -
  have run: "load_rows (device_row specs) [] rows = Some devs"
    using assms(2) by (auto simp: loadDevices_def split: option.splits)
  show ?thesis
    by (rule load_rows_invariant [where P = devices_loaded, OF _ _ run])
       (erule (1) device_row_loaded [OF assms(1)], simp add: devices_loaded_def)
qed

end
