(* ===== verification/C_Double.thy ===== *)
theory C_Double
  imports C_Strings Float_Bits
begin

text \<open>
  The floating-point text functions of the C library that the sources call: \<open>strtod\<close> in the C locale, with
  decimal and hexadecimal numbers, infinities and NaN, rounded to nearest with ties to even, and \<open>llround\<close>.
  A NaN is the default quiet one; the characters in parentheses behind it do not select a payload.
\<close>

section \<open>Rounding a fraction to a double\<close>

definition rne_div :: "nat \<Rightarrow> nat \<Rightarrow> nat" where
  "rne_div n d =
     (let q = n div d; r = n mod d in if d < 2 * r \<or> (2 * r = d \<and> odd q) then q + 1 else q)"

text \<open>The double nearest to \<open>num / den\<close>, with sign bit \<open>s\<close>.\<close>

definition rat_to_f64 :: "nat \<Rightarrow> nat \<Rightarrow> nat \<Rightarrow> double" where
  "rat_to_f64 s num den =
     (if num = 0 then mk_f64 s 0 0
      else
        let e0 = int (top_bit num) - int (top_bit den);
            e1 = (if den * 2 ^ nat e0 \<le> num * 2 ^ nat (- e0) then e0 else e0 - 1);
            e = max e1 (- 1022);
            q = rne_div (num * 2 ^ nat (52 - e)) (den * 2 ^ nat (e - 52));
            body = nat (e + 1022) * 2 ^ 52 + q
        in if 2047 * 2 ^ 52 \<le> body then mk_f64 s 2047 0 else mk_f64 s 0 body)"

section \<open>strtod\<close>

definition lower_char :: "char \<Rightarrow> char" where
  "lower_char c = (if isupper c then char_of (code c + 32) else c)"

definition has_prefix :: "string \<Rightarrow> string \<Rightarrow> bool" where
  "has_prefix p s \<longleftrightarrow> map lower_char (take (length p) s) = p"

text \<open>The digits of a number in a base: before and behind the point, and how many characters they take.\<close>

definition scan_mantissa :: "nat \<Rightarrow> string \<Rightarrow> (string \<times> string \<times> nat) option" where
  "scan_mantissa base s =
     (let dig = (\<lambda>c. digit_value c < base);
          ip = takeWhile dig s; r = dropWhile dig s;
          point = (r \<noteq> [] \<and> hd r = CHR ''.'');
          fp = (if point then takeWhile dig (tl r) else [])
      in if ip = [] \<and> fp = [] then None
         else Some (ip, fp, length ip + (if point then Suc (length fp) else 0)))"

text \<open>An exponent behind the mantissa: its value and its length, nothing when it has no digit.\<close>

definition scan_exponent :: "char \<Rightarrow> string \<Rightarrow> int \<times> nat" where
  "scan_exponent mark s =
     (if s = [] \<or> lower_char (hd s) \<noteq> mark then (0, 0)
      else
        let (neg, r) = strip_sign (tl s); ds = takeWhile isdigit r
        in if ds = [] then (0, 0)
           else (if neg then - int (digits_value 10 ds) else int (digits_value 10 ds),
                 length s - length r + length ds))"

definition strtod_number :: "nat \<Rightarrow> nat \<Rightarrow> nat \<Rightarrow> char \<Rightarrow> nat \<Rightarrow> string \<Rightarrow> (double \<times> nat) option" where
  "strtod_number sg base radix mark per s =
     do {
       (ip, fp, n) \<leftarrow> scan_mantissa base s;
       let (x, m) = scan_exponent mark (drop n s);
       let scale = x - int (per * length fp);
       Some (rat_to_f64 sg (digits_value base (ip @ fp) * radix ^ nat scale) (radix ^ nat (- scale)), n + m)
     }"

definition strtod_body :: "nat \<Rightarrow> string \<Rightarrow> (double \<times> nat) option" where
  "strtod_body sg r =
     (if has_prefix ''infinity'' r then Some (mk_f64 sg 2047 0, 8)
      else if has_prefix ''inf'' r then Some (mk_f64 sg 2047 0, 3)
      else if has_prefix ''nan('' r \<and>
              (let t = dropWhile (\<lambda>c. digit_value c < 36 \<or> c = CHR ''_'') (drop 4 r) in t \<noteq> [] \<and> hd t = CHR '')'')
        then Some (mk_f64 sg 2047 (2 ^ 51), 5 + length (takeWhile (\<lambda>c. digit_value c < 36 \<or> c = CHR ''_'') (drop 4 r)))
      else if has_prefix ''nan'' r then Some (mk_f64 sg 2047 (2 ^ 51), 3)
      else if has_prefix ''0x'' r \<and> scan_mantissa 16 (drop 2 r) \<noteq> None
        then map_option (\<lambda>(v, n). (v, n + 2)) (strtod_number sg 16 2 CHR ''p'' 4 (drop 2 r))
      else strtod_number sg 10 10 CHR ''e'' 1 r)"

text \<open>The value and the number of characters up to \<open>end\<close>; \<open>None\<close> when nothing is converted.\<close>

definition strtod :: "string \<Rightarrow> (double \<times> nat) option" where
  "strtod t =
     (let (neg, r) = strip_sign (dropWhile isspace t)
      in map_option (\<lambda>(v, n). (v, length t - length r + n)) (strtod_body (if neg then 1 else 0) r))"

section \<open>llround\<close>

text \<open>Half away from zero; the result is unspecified outside of \<open>long long\<close>, which is \<open>None\<close>.\<close>

definition llround :: "double \<Rightarrow> int option" where
  "llround d =
     (let e = f64_exp d; sig = f64_frac d + (if e = 0 then 0 else 2 ^ 52); x = max e 1;
          mag = (if 1075 \<le> x then sig * 2 ^ (x - 1075) else (sig + 2 ^ (1074 - x)) div 2 ^ (1075 - x));
          v = (if f64_sign d = 0 then int mag else - int mag)
      in if e = 2047 \<or> v < - (2 ^ 63) \<or> 2 ^ 63 \<le> v then None else Some v)"

definition f64_is_zero :: "double \<Rightarrow> bool" where
  "f64_is_zero d \<longleftrightarrow> f64_exp d = 0 \<and> f64_frac d = 0"

section \<open>Integers survive\<close>

text \<open>The double of a number below \<open>2^53\<close>.\<close>

definition small_f64 :: "nat \<Rightarrow> nat \<Rightarrow> double" where
  "small_f64 s n =
     (if n = 0 then mk_f64 s 0 0 else mk_f64 s (top_bit n + 1023) ((n - 2 ^ top_bit n) * 2 ^ (52 - top_bit n)))"

lemma top_bit_1 [simp]: "top_bit (Suc 0) = 0"
  by (simp add: top_bit.simps)

lemma small_f64_parts:
  assumes "0 < n" "n < 2 ^ 53"
  shows "2 ^ 52 + (n - 2 ^ top_bit n) * 2 ^ (52 - top_bit n) = n * 2 ^ (52 - top_bit n)"
    "(n - 2 ^ top_bit n) * 2 ^ (52 - top_bit n) < 2 ^ 52" "top_bit n \<le> 52"
proof -
  define k where "k = top_bit n"
  have k: "k \<le> 52" and lo: "2 ^ k \<le> n" and hi: "n < 2 ^ Suc k"
    using top_bit_less [OF assms] top_bit_bounds [OF assms(1)] by (auto simp: k_def)
  have split: "(2::nat) ^ 52 = 2 ^ k * 2 ^ (52 - k)" using k by (simp add: power_add [symmetric])
  have "2 ^ k * 2 ^ (52 - k) + (n - 2 ^ k) * 2 ^ (52 - k) = (2 ^ k + (n - 2 ^ k)) * 2 ^ (52 - k)"
    by (simp only: distrib_right)
  also have "2 ^ k + (n - 2 ^ k) = n" using lo by simp
  finally show "2 ^ 52 + (n - 2 ^ top_bit n) * 2 ^ (52 - top_bit n) = n * 2 ^ (52 - top_bit n)"
    unfolding split k_def [symmetric] by simp
  have "n - 2 ^ k < 2 ^ k" using lo hi by simp
  then show "(n - 2 ^ top_bit n) * 2 ^ (52 - top_bit n) < 2 ^ 52" unfolding split k_def [symmetric] by simp
  show "top_bit n \<le> 52" using k by (simp add: k_def)
qed

lemma rat_to_f64_small:
  assumes "n < 2 ^ 53"
  shows "rat_to_f64 s n 1 = small_f64 s n"
proof (cases "n = 0")
  case False
  define k where "k = top_bit n"
  have n: "0 < n" using False by simp
  note parts = small_f64_parts [OF n assms, folded k_def]
  have lo: "2 ^ k \<le> n" using top_bit_bounds [OF n] by (simp add: k_def)
  have e: "nat (52 - int k) = 52 - k" "nat (int k - 52) = 0" "nat (int k + 1022) = k + 1022" "max (int k) (- 1022) = int k"
    using parts(3) by auto
  have body: "(k + 1022) * 2 ^ 52 + n * 2 ^ (52 - k) = (k + 1023) * 2 ^ 52 + (n - 2 ^ k) * 2 ^ (52 - k)"
    using parts(1) by (simp add: algebra_simps)
  have "(k + 1023) * 2 ^ 52 + (n - 2 ^ k) * 2 ^ (52 - k) < (k + 1024) * 2 ^ 52" using parts(2) by simp
  also have "\<dots> \<le> 2047 * (2::nat) ^ 52" using parts(3) by (intro mult_le_mono1) simp
  finally have small: "\<not> 2047 * 2 ^ 52 \<le> (k + 1022) * 2 ^ 52 + n * 2 ^ (52 - k)" unfolding body by simp
  have "rat_to_f64 s n 1 = mk_f64 s 0 ((k + 1022) * 2 ^ 52 + n * 2 ^ (52 - k))"
    using False lo small by (simp add: rat_to_f64_def Let_def rne_div_def e k_def [symmetric] del: power_numeral)
  also have "\<dots> = small_f64 s n" unfolding body using False by (simp add: small_f64_def mk_f64_def k_def)
  finally show ?thesis .
qed (simp add: rat_to_f64_def small_f64_def)

lemma llround_small:
  assumes "s < 2" "n < 2 ^ 53"
  shows "llround (small_f64 s n) = Some (if s = 0 then int n else - int n)" "f64_is_zero (small_f64 s n) \<longleftrightarrow> n = 0"
proof -
  show "f64_is_zero (small_f64 s n) \<longleftrightarrow> n = 0"
    using small_f64_parts [of n] assms mk_f64_fields [OF assms(1)]
    by (cases "n = 0") (simp_all add: small_f64_def f64_is_zero_def)
  show "llround (small_f64 s n) = Some (if s = 0 then int n else - int n)"
  proof (cases "n = 0")
    case True
    then show ?thesis using mk_f64_fields [OF assms(1), of 0 0] by (simp add: small_f64_def llround_def)
  next
    case False
    define k where "k = top_bit n"
    note parts = small_f64_parts [of n, folded k_def]
    have k: "k \<le> 52" "(n - 2 ^ k) * 2 ^ (52 - k) < 2 ^ 52"
      "(n - 2 ^ k) * 2 ^ (52 - k) + 2 ^ 52 = n * 2 ^ (52 - k)"
      using parts False assms(2) by (auto simp: add.commute)
    have d: "small_f64 s n = mk_f64 s (k + 1023) ((n - 2 ^ k) * 2 ^ (52 - k))"
      using False by (simp add: small_f64_def k_def)
    have e: "k + 1023 < 2048" using k(1) by simp
    note f = mk_f64_fields [OF assms(1) e k(2), folded d]
    have mag: "(if 1075 \<le> k + 1023 then n * 2 ^ (52 - k) * 2 ^ (k + 1023 - 1075)
        else (n * 2 ^ (52 - k) + 2 ^ (1074 - (k + 1023))) div 2 ^ (1075 - (k + 1023))) = n"
    proof (cases "k = 52")
      case False
      then have "k < 52" using k(1) by simp
      then have "1074 - (k + 1023) = 51 - k" "1075 - (k + 1023) = 52 - k" "(2::nat) ^ (52 - k) = 2 * 2 ^ (51 - k)"
        by (simp_all add: Suc_diff_le numeral_eq_Suc flip: power_Suc)
      then show ?thesis using \<open>k < 52\<close> by simp
    qed simp
    have "n < 2 ^ 63" using assms(2) by (rule order.strict_trans2) simp
    then have small: "int n < 2 ^ 63" by (metis of_nat_less_numeral_power_cancel_iff)
    have ne: "(k + 1023 = 0) = False" "(k + 1023 = 2047) = False" "max (k + 1023) 1 = k + 1023" using k(1) by simp_all
    have "llround (small_f64 s n) =
        (let v = (if s = 0 then int n else - int n) in if v < - (2 ^ 63) \<or> 2 ^ 63 \<le> v then None else Some v)"
      by (simp only: llround_def Let_def f ne if_False k(3) mag simp_thms)
    with small show ?thesis by (simp add: Let_def)
  qed
qed

section \<open>Reading printed integers\<close>

definition ends_number :: "string \<Rightarrow> bool" where
  "ends_number r \<longleftrightarrow> (case r of [] \<Rightarrow> True | c # r' \<Rightarrow> c = CHR '','' \<or> c = CHR ''}'')"

lemma takeWhile_number:
  assumes "\<forall>c \<in> set ds. isdigit c" "ends_number r"
  shows "takeWhile (\<lambda>c. digit_value c < 10) (ds @ r) = ds" "dropWhile (\<lambda>c. digit_value c < 10) (ds @ r) = r"
proof -
  have "takeWhile (\<lambda>c. digit_value c < 10) r = []"
    using assms(2) by (auto simp: ends_number_def digit_value_def isdigit_def islower_def isupper_def code_def
        split: list.splits)
  then show t: "takeWhile (\<lambda>c. digit_value c < 10) (ds @ r) = ds"
    using assms(1) digit_value_digit by (simp add: takeWhile_append)
  show "dropWhile (\<lambda>c. digit_value c < 10) (ds @ r) = r"
    using takeWhile_dropWhile_id [of "\<lambda>c. digit_value c < 10" "ds @ r"] unfolding t by simp
qed

lemma lower_digit: "isdigit c \<Longrightarrow> lower_char c = c"
  by (auto simp: lower_char_def isdigit_def isupper_def)

lemma strtod_body_number:
  assumes "n < 2 ^ 53" "ends_number r"
  shows "strtod_body sg (to_string n @ r) = Some (small_f64 sg n, length (to_string n))"
proof -
  let ?t = "to_string n @ r"
  obtain c ds where t: "to_string n = c # ds" by (cases "to_string n") auto
  have dig: "\<forall>x \<in> set (to_string n). isdigit x" using to_string_digits by blast
  then have c: "isdigit c" by (simp add: t)
  then have low: "lower_char c \<noteq> CHR ''i''" "lower_char c \<noteq> CHR ''n''"
    unfolding lower_digit [OF c] by (auto simp: isdigit_def code_def)
  have no_x: "lower_char (hd (tl ?t)) \<noteq> CHR ''x''" if "tl ?t \<noteq> []"
  proof (cases ds)
    case Nil
    with that assms(2) show ?thesis
      by (auto simp: t ends_number_def lower_char_def isupper_def code_def split: list.splits)
  next
    case (Cons d ds')
    then have "isdigit d" using dig by (simp add: t)
    then show ?thesis using Cons lower_digit [of d] by (auto simp: t isdigit_def code_def)
  qed
  have hex: "\<not> has_prefix ''0x'' ?t"
  proof (cases "ds @ r")
    case (Cons a list)
    then have "lower_char a \<noteq> CHR ''x''" using no_x by (simp add: t)
    then show ?thesis using Cons by (simp add: has_prefix_def t)
  qed (simp add: has_prefix_def t)
  have "scan_mantissa 10 ?t = Some (to_string n, [], length (to_string n))"
    using takeWhile_number [OF dig assms(2)] assms(2)
    by (auto simp: scan_mantissa_def ends_number_def Let_def split: list.splits)
  moreover have "scan_exponent CHR ''e'' r = (0, 0)"
    using assms(2) by (auto simp: scan_exponent_def ends_number_def lower_char_def isupper_def code_def split: list.splits)
  ultimately have "strtod_number sg 10 10 CHR ''e'' 1 ?t = Some (small_f64 sg n, length (to_string n))"
    using rat_to_f64_small [OF assms(1)] by (simp add: strtod_number_def)
  moreover have "\<not> has_prefix ''infinity'' ?t" "\<not> has_prefix ''inf'' ?t" "\<not> has_prefix ''nan('' ?t"
    "\<not> has_prefix ''nan'' ?t"
    using low by (simp_all add: has_prefix_def t)
  ultimately show ?thesis using hex by (simp only: strtod_body_def if_False simp_thms)
qed

definition int_f64 :: "int \<Rightarrow> double" where
  "int_f64 v = (if v < 0 then small_f64 1 (nat (- v)) else small_f64 0 (nat v))"

lemma strtod_to_string:
  assumes "\<bar>v\<bar> < 2 ^ 53" "ends_number r"
  shows "strtod (to_string_int v @ r) = Some (int_f64 v, length (to_string_int v))"
proof -
  have n: "nat \<bar>v\<bar> < 2 ^ 53" using assms(1) by (simp add: nat_less_iff)
  have sp: "\<not> isspace CHR ''-''" by (simp add: isspace_def code_def)
  show ?thesis
  proof (cases "v < 0")
    case True
    have "strip_sign (dropWhile isspace (to_string_int v @ r)) = (True, to_string (nat (- v)) @ r)"
      using True sp by (simp add: to_string_int_def strip_sign_def)
    with True n strtod_body_number [OF _ assms(2), of "nat (- v)" 1] show ?thesis
      by (simp add: strtod_def to_string_int_def int_f64_def)
  next
    case False
    obtain c ds where t: "to_string (nat v) = c # ds" by (cases "to_string (nat v)") auto
    then have "isdigit c" using to_string_digits [of c "nat v"] by simp
    then have "strip_sign (dropWhile isspace (to_string_int v @ r)) = (False, to_string (nat v) @ r)"
      using False isdigit_not_sign [of c] isdigit_not_space [of c]
      by (simp add: to_string_int_def strip_sign_def t)
    with False n strtod_body_number [OF _ assms(2), of "nat v" 0] show ?thesis
      by (simp add: strtod_def to_string_int_def int_f64_def)
  qed
qed

lemma llround_int: "\<bar>v\<bar> < 2 ^ 53 \<Longrightarrow> llround (int_f64 v) = Some v" "\<bar>v\<bar> < 2 ^ 53 \<Longrightarrow> f64_is_zero (int_f64 v) \<longleftrightarrow> v = 0"
  using llround_small [of 1 "nat (- v)"] llround_small [of 0 "nat v"] by (auto simp: int_f64_def nat_less_iff)

end
