(* ===== verification/Adapter_Config.thy ===== *)
theory Adapter_Config
  imports C_Double
begin

text \<open>
  The configuration file: the INI parser \<open>src/src/base/ConfigParser.h\<close> and the settings of
  \<open>src/src/adapter/AdapterConfig.cpp\<close>. A file is its text, \<open>None\<close> when it cannot be opened; the link
  \<open>/proc/self/exe\<close> is an argument. Log lines are left out.
\<close>

section \<open>INI files\<close>

text \<open>\<open>std::getline\<close> until it fails: the pieces between delimiters, without an empty last one.\<close>

function getlines :: "char \<Rightarrow> string \<Rightarrow> string list" where
  "getlines d [] = []"
| "getlines d (c # s) = takeWhile (\<lambda>x. x \<noteq> d) (c # s) # getlines d (tl (dropWhile (\<lambda>x. x \<noteq> d) (c # s)))"
  by pat_completeness auto
termination
proof (relation "measure (\<lambda>(d, s). length s)")
  show "((d, tl (dropWhile (\<lambda>x. x \<noteq> d) (c # s))), (d, c # s)) \<in> measure (\<lambda>(d, s). length s)" for d c s
    using length_dropWhile_le [of "\<lambda>x. x \<noteq> d" "c # s"] by (cases "dropWhile (\<lambda>x. x \<noteq> d) (c # s)") auto
qed simp

definition ini_trim :: "string \<Rightarrow> string" where
  "ini_trim s = rev (dropWhile isspace (rev (dropWhile isspace s)))"

type_synonym ini = "string \<Rightarrow> (string \<Rightarrow> string option) option"

definition unquote :: "string \<Rightarrow> string" where
  "unquote val =
     (if 2 \<le> length val \<and> (hd val = CHR 0x22 \<and> last val = CHR 0x22 \<or> hd val = CHR 0x27 \<and> last val = CHR 0x27)
      then take (length val - 2) (drop 1 val) else val)"

definition ini_set :: "string \<Rightarrow> string \<Rightarrow> string \<Rightarrow> ini \<Rightarrow> ini" where
  "ini_set sec key val m = m(sec \<mapsto> (case m sec of Some kv \<Rightarrow> kv | None \<Rightarrow> Map.empty)(key \<mapsto> val))"

text \<open>One line: the current section and the values read so far.\<close>

definition ini_line :: "string \<times> ini \<Rightarrow> string \<Rightarrow> string \<times> ini" where
  "ini_line st raw =
     (let (sec, m) = st; line = ini_trim raw
      in if line = [] \<or> hd line = CHR ''#'' \<or> hd line = CHR '';'' then (sec, m)
         else if hd line = CHR ''['' \<and> last line = CHR '']'' then (take (length line - 2) (drop 1 line), m)
         else case find_char CHR ''='' 0 line of
           None \<Rightarrow> (sec, m)
         | Some eqPos \<Rightarrow>
             (sec, ini_set sec (ini_trim (take eqPos line)) (unquote (ini_trim (drop (eqPos + 1) line))) m))"

definition ini_load :: "string \<Rightarrow> ini" where
  "ini_load txt = snd (foldl ini_line (''default'', Map.empty) (getlines CHR 0x0A txt))"

definition ini_get :: "ini \<Rightarrow> string \<Rightarrow> string \<Rightarrow> string \<Rightarrow> string" where
  "ini_get m sec key d =
     (case m sec of None \<Rightarrow> d | Some kv \<Rightarrow> (case kv key of None \<Rightarrow> d | Some v \<Rightarrow> v))"

definition getInt :: "ini \<Rightarrow> string \<Rightarrow> string \<Rightarrow> int \<Rightarrow> int" where
  "getInt m sec key d = (let v = ini_get m sec key [] in if v = [] then d else atoi v)"

definition getBool :: "ini \<Rightarrow> string \<Rightarrow> string \<Rightarrow> bool \<Rightarrow> bool" where
  "getBool m sec key d =
     (let v = ini_get m sec key []; l = map lower_char v
      in if v = [] then d else l = ''true'' \<or> l = ''1'' \<or> l = ''yes'' \<or> l = ''on'')"

definition getFloat :: "ini \<Rightarrow> string \<Rightarrow> string \<Rightarrow> float \<Rightarrow> float" where
  "getFloat m sec key d =
     (let v = ini_get m sec key []
      in if v = [] then d
         else f64_to_f32 (case strtod (takeWhile (\<lambda>c. c \<noteq> CHR 0x00) v) of Some (x, n) \<Rightarrow> x | None \<Rightarrow> 0))"

definition hasSection :: "ini \<Rightarrow> string \<Rightarrow> bool" where
  "hasSection m sec \<longleftrightarrow> m sec \<noteq> None"

definition hasKey :: "ini \<Rightarrow> string \<Rightarrow> string \<Rightarrow> bool" where
  "hasKey m sec key \<longleftrightarrow> (case m sec of None \<Rightarrow> False | Some kv \<Rightarrow> kv key \<noteq> None)"

section \<open>Settings\<close>

record server_config =
  sc_extraListenPorts :: "u16 list"
  sc_maxConnections :: int

record etherdb_config =
  ec_host :: string
  ec_port :: u16
  ec_user :: string
  ec_password :: string
  ec_db :: string
  ec_createDatabase :: bool
  ec_createTables :: bool
  ec_batchRows :: int
  ec_flushIntervalMs :: int

record modbus_config =
  mc_pollIntervalMs :: int
  mc_connectTimeoutMs :: int

record log_config =
  lc_dir :: string
  lc_level :: string

record zmq_config =
  zc_enabled :: bool
  zc_pubEndpoint :: string

text \<open>\<open>SqliteConfig\<close> and \<open>HttpConfig\<close> have one member each.\<close>

record adapter_config =
  ac_server :: server_config
  ac_sqlite_path :: string
  ac_etherdb :: etherdb_config
  ac_http_port :: u16
  ac_modbus :: modbus_config
  ac_log :: log_config
  ac_zmq :: zmq_config
  ac_exeDir :: string
  ac_configFile :: string

definition server_config_default :: server_config where
  "server_config_default = \<lparr>sc_extraListenPorts = [], sc_maxConnections = 1024\<rparr>"

definition etherdb_config_default :: etherdb_config where
  "etherdb_config_default =
     \<lparr>ec_host = ''127.0.0.1'', ec_port = 7040, ec_user = ''root'', ec_password = ''etherdbdata'', ec_db = ''adapter'',
      ec_createDatabase = True, ec_createTables = True, ec_batchRows = 4000, ec_flushIntervalMs = 20\<rparr>"

definition modbus_config_default :: modbus_config where
  "modbus_config_default = \<lparr>mc_pollIntervalMs = 3000, mc_connectTimeoutMs = 1500\<rparr>"

definition adapter_config_default :: adapter_config where
  "adapter_config_default =
     \<lparr>ac_server = server_config_default, ac_sqlite_path = ''config/etherAdapter.db'', ac_etherdb = etherdb_config_default,
      ac_http_port = 0, ac_modbus = modbus_config_default, ac_log = \<lparr>lc_dir = ''log'', lc_level = ''info''\<rparr>,
      ac_zmq = \<lparr>zc_enabled = False, zc_pubEndpoint = ''tcp://*:5555''\<rparr>, ac_exeDir = [], ac_configFile = []\<rparr>"

section \<open>Loading\<close>

text \<open>The argument is what \<open>readlink\<close> yields.\<close>

definition getExeDir :: "string option \<Rightarrow> string" where
  "getExeDir link =
     (case link of
        None \<Rightarrow> []
      | Some p \<Rightarrow>
          if list_all (\<lambda>c. c \<noteq> CHR 0x5C \<and> c \<noteq> CHR ''/'') p then []
          else let d = rev (tl (dropWhile (\<lambda>c. c \<noteq> CHR 0x5C \<and> c \<noteq> CHR ''/'') (rev p)))
               in if d = [] then ''.'' else d)"

definition isAbsolutePath :: "string \<Rightarrow> bool" where
  "isAbsolutePath p \<longleftrightarrow> p \<noteq> [] \<and> hd p = CHR ''/''"

definition resolvePath :: "adapter_config \<Rightarrow> string \<Rightarrow> string" where
  "resolvePath cfg p =
     (if p = [] \<or> isAbsolutePath p then p else if ac_exeDir cfg = [] then p else ac_exeDir cfg @ ''/'' @ p)"

text \<open>\<open>find_first_not_of\<close> and \<open>find_last_not_of\<close> with blanks and tabs; a blank item is skipped.\<close>

definition trim_blanks :: "string \<Rightarrow> string" where
  "trim_blanks item =
     (let blank = (\<lambda>c. c = CHR '' '' \<or> c = CHR 0x09) in rev (dropWhile blank (rev (dropWhile blank item))))"

definition parse_port :: "string \<Rightarrow> u16 list" where
  "parse_port item =
     (let t = trim_blanks item; v = atoi t
      in if t = [] then [] else if 0 < v \<and> v \<le> 65535 then [word_of_int v] else [])"

definition parsePortList :: "string \<Rightarrow> u16 list" where
  "parsePortList txt = concat (map parse_port (getlines CHR '','' txt))"

definition load_server :: "ini \<Rightarrow> server_config \<Rightarrow> server_config" where
  "load_server ini c =
     \<lparr>sc_extraListenPorts = parsePortList (ini_get ini ''server'' ''extraListenPorts'' []),
      sc_maxConnections = getInt ini ''server'' ''maxConnections'' (sc_maxConnections c)\<rparr>"

definition load_etherdb :: "ini \<Rightarrow> etherdb_config \<Rightarrow> etherdb_config" where
  "load_etherdb ini c =
     (let rows = getInt ini ''etherdb'' ''batchRows'' (ec_batchRows c);
          ms = getInt ini ''etherdb'' ''flushIntervalMs'' (ec_flushIntervalMs c)
      in \<lparr>ec_host = ini_get ini ''etherdb'' ''host'' (ec_host c),
          ec_port = word_of_int (getInt ini ''etherdb'' ''port'' (uint (ec_port c))),
          ec_user = ini_get ini ''etherdb'' ''user'' (ec_user c),
          ec_password = ini_get ini ''etherdb'' ''password'' (ec_password c),
          ec_db = ini_get ini ''etherdb'' ''db'' (ec_db c),
          ec_createDatabase = getBool ini ''etherdb'' ''createDatabase'' (ec_createDatabase c),
          ec_createTables = getBool ini ''etherdb'' ''createTables'' (ec_createTables c),
          ec_batchRows = (if rows < 1 then 1 else rows), ec_flushIntervalMs = (if ms < 1 then 1 else ms)\<rparr>)"

definition load_modbus :: "ini \<Rightarrow> modbus_config \<Rightarrow> modbus_config" where
  "load_modbus ini c =
     (let poll = getInt ini ''modbus'' ''pollIntervalMs'' (mc_pollIntervalMs c);
          conn = getInt ini ''modbus'' ''connectTimeoutMs'' (mc_connectTimeoutMs c)
      in \<lparr>mc_pollIntervalMs = (if poll < 50 then 50 else poll), mc_connectTimeoutMs = (if conn < 100 then 100 else conn)\<rparr>)"

definition AdapterConfig_load :: "string option \<Rightarrow> string \<Rightarrow> string option \<Rightarrow> adapter_config" where
  "AdapterConfig_load link cfgFile file =
     (let cfg = adapter_config_default\<lparr>ac_exeDir := getExeDir link, ac_configFile := cfgFile\<rparr>
      in case file of
        None \<Rightarrow> cfg
      | Some txt \<Rightarrow>
          let ini = ini_load txt
          in cfg\<lparr>ac_server := load_server ini (ac_server cfg),
                 ac_sqlite_path := ini_get ini ''sqlite'' ''path'' (ac_sqlite_path cfg),
                 ac_etherdb := load_etherdb ini (ac_etherdb cfg),
                 ac_http_port := word_of_int (getInt ini ''http'' ''port'' (uint (ac_http_port cfg))),
                 ac_modbus := load_modbus ini (ac_modbus cfg),
                 ac_log := \<lparr>lc_dir = ini_get ini ''log'' ''dir'' (lc_dir (ac_log cfg)),
                            lc_level = ini_get ini ''log'' ''level'' (lc_level (ac_log cfg))\<rparr>,
                 ac_zmq := \<lparr>zc_enabled = getBool ini ''zmq'' ''enabled'' (zc_enabled (ac_zmq cfg)),
                            zc_pubEndpoint = ini_get ini ''zmq'' ''pubEndpoint'' (zc_pubEndpoint (ac_zmq cfg))\<rparr>\<rparr>)"

section \<open>Printed files\<close>

definition ini_entry :: "string \<times> string \<Rightarrow> string" where
  "ini_entry kv = fst kv @ '' = '' @ CHR 0x22 # snd kv @ [CHR 0x22]"

definition ini_lines :: "string \<times> (string \<times> string) list \<Rightarrow> string list" where
  "ini_lines sec = (CHR ''['' # fst sec @ '']'') # map ini_entry (snd sec)"

definition ini_text :: "(string \<times> (string \<times> string) list) list \<Rightarrow> string" where
  "ini_text secs = concat (map (\<lambda>l. l @ [CHR 0x0A]) (concat (map ini_lines secs)))"

definition ini_entries :: "(string \<times> (string \<times> string) list) list \<Rightarrow> ((string \<times> string) \<times> string) list" where
  "ini_entries secs = concat (map (\<lambda>sec. map (\<lambda>kv. ((fst sec, fst kv), snd kv)) (snd sec)) secs)"

definition clean_key :: "string \<Rightarrow> bool" where
  "clean_key k \<longleftrightarrow> k \<noteq> [] \<and> \<not> isspace (hd k) \<and> \<not> isspace (last k) \<and> hd k \<noteq> CHR ''#'' \<and> hd k \<noteq> CHR '';'' \<and>
     CHR ''='' \<notin> set k \<and> CHR 0x0A \<notin> set k"

definition clean_section :: "string \<times> (string \<times> string) list \<Rightarrow> bool" where
  "clean_section sec \<longleftrightarrow> CHR 0x0A \<notin> set (fst sec) \<and>
     list_all (\<lambda>kv. clean_key (fst kv) \<and> CHR 0x0A \<notin> set (snd kv)) (snd sec)"

definition ini_lookup :: "ini \<Rightarrow> string \<times> string \<Rightarrow> string option" where
  "ini_lookup m sk = (case m (fst sk) of None \<Rightarrow> None | Some kv \<Rightarrow> kv (snd sk))"

lemma getlines_nonempty:
  "s \<noteq> [] \<Longrightarrow> getlines d s = takeWhile (\<lambda>x. x \<noteq> d) s # getlines d (tl (dropWhile (\<lambda>x. x \<noteq> d) s))"
  by (cases s) (simp_all only: getlines.simps simp_thms)

lemma getlines_line: "d \<notin> set l \<Longrightarrow> getlines d (l @ d # s) = l # getlines d s"
proof -
  assume "d \<notin> set l"
  then have "takeWhile (\<lambda>x. x \<noteq> d) (l @ d # s) = l" "dropWhile (\<lambda>x. x \<noteq> d) (l @ d # s) = d # s"
    by (induction l) auto
  then show ?thesis by (subst getlines_nonempty) simp_all
qed

lemma getlines_lines:
  "list_all (\<lambda>l. CHR 0x0A \<notin> set l) ls \<Longrightarrow> getlines CHR 0x0A (concat (map (\<lambda>l. l @ [CHR 0x0A]) ls)) = ls"
  by (induction ls) (simp_all add: getlines_line)

lemma ini_trim_id: "s = [] \<or> \<not> isspace (hd s) \<and> \<not> isspace (last s) \<Longrightarrow> ini_trim s = s"
proof -
  have "dropWhile isspace t = t" if "t = [] \<or> \<not> isspace (hd t)" for t using that by (cases t) auto
  moreover assume "s = [] \<or> \<not> isspace (hd s) \<and> \<not> isspace (last s)"
  ultimately show ?thesis by (auto simp: ini_trim_def hd_rev)
qed

lemma isspace_chars: "isspace CHR '' ''" "\<not> isspace CHR 0x22" "\<not> isspace CHR ''[''" "\<not> isspace CHR '']''"
  by (simp_all add: isspace_def code_def)

lemma ini_trim_blank: "ini_trim (CHR '' '' # s) = ini_trim s"
  by (simp add: ini_trim_def isspace_chars)

lemma ini_trim_blank_end: "s \<noteq> [] \<Longrightarrow> \<not> isspace (hd s) \<Longrightarrow> ini_trim (s @ '' '') = ini_trim s"
  by (cases s) (simp_all add: ini_trim_def isspace_chars)

lemma unquote_quoted: "unquote (CHR 0x22 # v @ [CHR 0x22]) = v"
  by (simp add: unquote_def)

lemma ini_line_section: "ini_line (sec, m) (CHR ''['' # s @ '']'') = (s, m)"
proof -
  have "ini_trim (CHR ''['' # s @ '']'') = CHR ''['' # s @ '']''" by (rule ini_trim_id) (simp add: isspace_chars)
  then show ?thesis by (simp add: ini_line_def Let_def)
qed

lemma ini_line_entry:
  assumes "clean_key (fst kv)"
  shows "ini_line (sec, m) (ini_entry kv) = (sec, ini_set sec (fst kv) (snd kv) m)"
proof -
  obtain k v where kv: "kv = (k, v)" by (cases kv)
  let ?line = "k @ '' = '' @ CHR 0x22 # v @ [CHR 0x22]"
  have k: "k \<noteq> []" "\<not> isspace (hd k)" "\<not> isspace (last k)" "hd k \<noteq> CHR ''#''" "hd k \<noteq> CHR '';''" "CHR ''='' \<notin> set k"
    using assms by (simp_all add: kv clean_key_def)
  have t: "ini_trim ?line = ?line" using k by (intro ini_trim_id) (simp add: isspace_chars)
  have "find_char CHR ''='' 0 ?line = Some (length k + 1)"
    using k(6) by (auto simp: find_char_Some nth_append nth_Cons split: nat.split dest: nth_mem)
  moreover have "ini_trim (take (length k + 1) ?line) = k"
    using ini_trim_blank_end [of k] ini_trim_id [of k] k by simp
  moreover have "unquote (ini_trim (drop (length k + 1 + 1) ?line)) = v"
    using ini_trim_id [of "CHR 0x22 # v @ [CHR 0x22]"] by (simp add: ini_trim_blank unquote_quoted isspace_chars)
  moreover have "hd ?line = hd k" "last ?line = CHR 0x22" "?line \<noteq> []" using k(1) by simp_all
  ultimately show ?thesis using k t unfolding ini_line_def ini_entry_def kv by (simp add: Let_def)
qed

lemma ini_lookup_set: "ini_lookup (ini_set sec key val m) = ini_lookup m ++ [(sec, key) \<mapsto> val]"
  by (auto simp: ini_lookup_def ini_set_def fun_eq_iff map_add_def split: option.split)

lemma ini_section_read:
  assumes "clean_section s"
  shows "\<exists>m'. foldl ini_line (sec, m) (ini_lines s) = (fst s, m') \<and> ini_lookup m' = ini_lookup m ++ map_of (rev (ini_entries [s]))"
proof -
  have "\<exists>m'. foldl ini_line (fst s, m) (map ini_entry kvs) = (fst s, m') \<and>
      ini_lookup m' = ini_lookup m ++ map_of (rev (map (\<lambda>kv. ((fst s, fst kv), snd kv)) kvs))"
    if "list_all (\<lambda>kv. clean_key (fst kv)) kvs" for kvs
    using that
  proof (induction kvs arbitrary: m)
    case (Cons kv kvs)
    let ?m = "ini_set (fst s) (fst kv) (snd kv) m" and ?e = "\<lambda>kv. ((fst s, fst kv), snd kv)"
    obtain m' where m': "foldl ini_line (fst s, ?m) (map ini_entry kvs) = (fst s, m')"
      "ini_lookup m' = ini_lookup ?m ++ map_of (rev (map ?e kvs))"
      using Cons.IH [of ?m] Cons.prems by auto
    have "ini_lookup m' = ini_lookup m ++ map_of (rev (map ?e (kv # kvs)))"
      by (simp only: m'(2) ini_lookup_set list.map rev.simps map_of_append map_of.simps fst_conv snd_conv map_add_assoc)
    with m'(1) Cons.prems show ?case by (auto simp: ini_line_entry)
  qed simp
  moreover have "list_all (\<lambda>kv. clean_key (fst kv)) (snd s)" using assms by (auto simp: clean_section_def list_all_iff)
  ultimately show ?thesis by (simp add: ini_lines_def ini_line_section ini_entries_def)
qed

lemma ini_sections_read:
  "list_all clean_section secs \<Longrightarrow>
   ini_lookup (snd (foldl ini_line (sec, m) (concat (map ini_lines secs)))) = ini_lookup m ++ map_of (rev (ini_entries secs))"
proof (induction secs arbitrary: sec m)
  case (Cons s secs)
  obtain m' where "foldl ini_line (sec, m) (ini_lines s) = (fst s, m')"
    "ini_lookup m' = ini_lookup m ++ map_of (rev (ini_entries [s]))"
    using ini_section_read [of s sec m] Cons.prems by auto
  with Cons show ?case by (simp add: ini_entries_def)
qed (simp add: ini_entries_def)

lemma ini_text_read:
  assumes "list_all clean_section secs"
  shows "ini_lookup (ini_load (ini_text secs)) = map_of (rev (ini_entries secs))"
proof -
  have "list_all (\<lambda>l. CHR 0x0A \<notin> set l) (concat (map ini_lines secs))"
    using assms by (fastforce simp: list_all_iff clean_section_def clean_key_def ini_lines_def ini_entry_def)
  moreover have "ini_lookup Map.empty = Map.empty" by (simp add: ini_lookup_def fun_eq_iff)
  ultimately show ?thesis
    using ini_sections_read [OF assms, of "''default''" Map.empty] by (simp add: ini_load_def ini_text_def getlines_lines)
qed

lemma ini_get_lookup: "ini_get m sec key d = (case ini_lookup m (sec, key) of None \<Rightarrow> d | Some v \<Rightarrow> v)"
  by (simp add: ini_get_def ini_lookup_def split: option.split)

lemma parsePortList_nonzero: "0 \<notin> set (parsePortList txt)"
proof -
  have "word_of_int v \<noteq> (0 :: u16)" if "0 < v" "v \<le> 65535" for v :: int
  proof -
    have "uint (word_of_int v :: u16) = v" using that by (simp add: uint_word_of_int)
    with that show ?thesis by fastforce
  qed
  then show ?thesis by (auto simp: parsePortList_def parse_port_def Let_def split: if_splits)
qed

end
