(* ===== verification/Double_Print.thy ===== *)
theory Double_Print
  imports C_Double
begin

text \<open>
  \<open>formatDouble\<close> of \<open>src/src/adapter/EtherDBWriter.cpp\<close>: an output stream with precision 10 prints as \<open>%.10g\<close> does.
  The digits are those of the exact value, rounded to nearest with ties to even.
\<close>

section \<open>Printing\<close>

text \<open>A finite double as a fraction, without its sign.\<close>

definition f64_ratio :: "double \<Rightarrow> nat \<times> nat" where
  "f64_ratio w =
     (let e = f64_exp w; m = f64_frac w
      in if e = 0 then (m, 2 ^ 1074) else ((2 ^ 52 + m) * 2 ^ (e - 1075), 2 ^ (1075 - e)))"

text \<open>The exponent of the leading decimal digit of \<open>n / d\<close>, for fractions above \<open>10 ^ -400\<close>.\<close>

definition dec_exponent :: "nat \<Rightarrow> nat \<Rightarrow> int" where
  "dec_exponent n d = int (length (to_string (n * 10 ^ 400 div d))) - 401"

definition dec_digits :: "nat \<Rightarrow> nat \<Rightarrow> nat \<times> int" where
  "dec_digits n d =
     (let x = dec_exponent n d; q = rne_div (n * 10 ^ nat (9 - x)) (d * 10 ^ nat (x - 9))
      in if q = 10 ^ 10 then (10 ^ 9, x + 1) else (q, x))"

definition strip_zeros :: "string \<Rightarrow> string" where
  "strip_zeros s = rev (dropWhile (\<lambda>c. c = CHR ''0'') (rev s))"

definition with_point :: "string \<Rightarrow> string \<Rightarrow> string" where
  "with_point i f = (let f' = strip_zeros f in if f' = [] then i else i @ ''.'' @ f')"

definition format_g :: "nat \<times> int \<Rightarrow> string" where
  "format_g qx =
     (let ds = to_string (fst qx); x = snd qx
      in if - 4 \<le> x \<and> x < 10 then
           (if 0 \<le> x then with_point (take (nat x + 1) ds) (drop (nat x + 1) ds)
            else with_point ''0'' (replicate (nat (- x - 1)) CHR ''0'' @ ds))
         else with_point (take 1 ds) (drop 1 ds) @ ''e'' @ (if x < 0 then ''-'' else ''+'') @
              (if \<bar>x\<bar> < 10 then ''0'' else []) @ to_string (nat \<bar>x\<bar>))"

definition formatDouble :: "double \<Rightarrow> string" where
  "formatDouble w =
     (if f64_sign w = 0 then [] else ''-'') @
     (if f64_exp w = 2047 then (if f64_frac w = 0 then ''inf'' else ''nan'')
      else let (n, d) = f64_ratio w in if n = 0 then ''0'' else format_g (dec_digits n d))"

section \<open>Characters\<close>

definition number_char :: "char \<Rightarrow> bool" where
  "number_char c \<longleftrightarrow> isdigit c \<or> c \<in> set ''+-.einfa''"

lemma list_all_digits: "list_all number_char (to_string n)"
  using to_string_digits by (auto simp: list_all_iff number_char_def)

lemma number_chars [simp]:
  "number_char CHR ''0''" "number_char CHR ''.''" "number_char CHR ''e''" "number_char CHR ''+''" "number_char CHR ''-''"
  "number_char CHR ''i''" "number_char CHR ''n''" "number_char CHR ''f''" "number_char CHR ''a''" "list_all number_char (replicate n CHR ''0'')"
  by (simp_all add: number_char_def isdigit_def code_def list_all_iff)

lemma strip_zeros_set: "set (strip_zeros s) \<subseteq> set s"
  by (auto simp: strip_zeros_def dest: set_dropWhileD)

lemma with_point_chars: "list_all number_char i \<Longrightarrow> list_all number_char f \<Longrightarrow> list_all number_char (with_point i f)"
  using strip_zeros_set [of f] by (auto simp: with_point_def Let_def list_all_iff)

lemma format_g_chars: "list_all number_char (format_g qx)"
proof -
  have "list_all number_char (take k (to_string n))" "list_all number_char (drop k (to_string n))" for k n
    using list_all_digits [of n] by (auto simp: list_all_iff dest: in_set_takeD in_set_dropD)
  then show ?thesis by (simp add: format_g_def Let_def list_all_digits with_point_chars)
qed

lemma formatDouble_chars: "list_all number_char (formatDouble w)"
  using format_g_chars by (simp add: formatDouble_def split: prod.split)

section \<open>Integers\<close>

lemma digit_char_0 [simp]: "digit_char 0 = CHR ''0''"
  by code_simp

lemma to_string_shift: "0 < n \<Longrightarrow> to_string (n * 10 ^ k) = to_string n @ replicate k CHR ''0''"
proof (induction k)
  case (Suc k)
  have "\<not> n * 10 ^ Suc k < 10" using Suc.prems by (simp add: not_less)
  moreover have "n * 10 ^ Suc k div 10 = n * 10 ^ k" "n * 10 ^ Suc k mod 10 = 0" by simp_all
  ultimately show ?case using Suc by (subst to_string.simps) (simp add: replicate_append_same)
qed simp

lemma length_to_string: "0 < n \<Longrightarrow> n < 10 ^ k \<Longrightarrow> length (to_string n) \<le> k"
proof (induction k arbitrary: n)
  case (Suc k)
  show ?case
  proof (cases "n < 10")
    case True
    then show ?thesis by (subst to_string.simps) simp
  next
    case False
    have "n div 10 < 10 ^ k" using Suc.prems(2) by (simp add: less_mult_imp_div_less mult.commute)
    moreover have "0 < n div 10" using False by (simp add: div_greater_zero_iff)
    ultimately have "length (to_string (n div 10)) \<le> k" by (rule Suc.IH [rotated])
    then show ?thesis using False by (subst to_string.simps) simp
  qed
qed simp

lemma rne_div_exact: "0 < d \<Longrightarrow> rne_div (n * d) d = n"
  by (simp add: rne_div_def)

lemma f64_ratio_small:
  assumes "0 < n" "n < 2 ^ 53" "s < 2"
  shows "\<exists>d. 0 < d \<and> f64_ratio (small_f64 s n) = (n * d, d)" "f64_exp (small_f64 s n) \<noteq> 2047" "f64_sign (small_f64 s n) = s"
proof -
  define k where "k = top_bit n"
  note parts = small_f64_parts [OF assms(1,2), folded k_def]
  have d: "small_f64 s n = mk_f64 s (k + 1023) ((n - 2 ^ k) * 2 ^ (52 - k))" using assms(1) by (simp add: small_f64_def k_def)
  have f: "f64_sign (small_f64 s n) = s" "f64_exp (small_f64 s n) = k + 1023"
    "f64_frac (small_f64 s n) = (n - 2 ^ k) * 2 ^ (52 - k)"
    unfolding d using mk_f64_fields [OF assms(3) _ parts(2), of "k + 1023"] parts(3) by simp_all
  have "f64_ratio (small_f64 s n) = (n * 2 ^ (52 - k), 2 ^ (52 - k))"
    using parts(1,3) f by (simp add: f64_ratio_def Let_def)
  then show "\<exists>d. 0 < d \<and> f64_ratio (small_f64 s n) = (n * d, d)" by (intro exI [of _ "2 ^ (52 - k)"]) simp
  show "f64_exp (small_f64 s n) \<noteq> 2047" "f64_sign (small_f64 s n) = s" using f parts(3) by simp_all
qed

lemma format_g_int:
  assumes "0 < n" "n < 10 ^ 10" "0 < d"
  shows "format_g (dec_digits (n * d) d) = to_string n"
proof -
  define l where "l = length (to_string n)"
  have l: "1 \<le> l" "l \<le> 10" using length_to_string [OF assms(1,2)] to_string_nonempty [of n] by (auto simp: l_def Suc_le_eq)
  have "n * d * 10 ^ 400 div d = n * 10 ^ 400" using assms(3) by (simp add: ac_simps)
  then have x: "dec_exponent (n * d) d = int l - 1"
    using to_string_shift [OF assms(1), of 400] by (simp add: dec_exponent_def l_def)
  have z: "nat (9 - (int l - 1)) = 10 - l" "nat (int l - 1 - 9) = 0" "nat (int l - 1) = l - 1" using l by auto
  have q: "rne_div (n * d * 10 ^ (10 - l)) d = n * 10 ^ (10 - l)"
    using rne_div_exact [OF assms(3), of "n * 10 ^ (10 - l)"] by (simp add: ac_simps)
  have ds: "to_string (n * 10 ^ (10 - l)) = to_string n @ replicate (10 - l) CHR ''0''" by (rule to_string_shift [OF assms(1)])
  have "n * 10 ^ (10 - l) \<noteq> 10 ^ 10"
  proof
    assume "n * 10 ^ (10 - l) = 10 ^ 10"
    then have "length (to_string (10 ^ 10)) = 10" using ds l by (simp add: l_def)
    then show False using to_string_shift [of 1 10] by (simp add: to_string.simps [of 1])
  qed
  then have dg: "dec_digits (n * d) d = (n * 10 ^ (10 - l), int l - 1)"
    unfolding dec_digits_def x Let_def z q by (simp add: q)
  have "take (l - 1 + 1) (to_string n @ replicate (10 - l) CHR ''0'') = to_string n"
    "drop (l - 1 + 1) (to_string n @ replicate (10 - l) CHR ''0'') = replicate (10 - l) CHR ''0''"
    using l by (simp_all add: l_def)
  moreover have "strip_zeros (replicate m CHR ''0'') = []" for m by (simp add: strip_zeros_def)
  ultimately show ?thesis
    using l by (simp add: dg format_g_def Let_def ds z(3) with_point_def)
qed

lemma formatDouble_int:
  assumes "\<bar>v\<bar> < 10 ^ 10"
  shows "formatDouble (int_f64 v) = to_string_int v"
proof (cases "v = 0")
  case True
  have "f64_exp (mk_f64 0 0 0) = 0" "f64_frac (mk_f64 0 0 0) = 0" "f64_sign (mk_f64 0 0 0) = 0"
    using mk_f64_fields [of 0 0 0] by simp_all
  with True show ?thesis
    by (simp add: formatDouble_def int_f64_def small_f64_def f64_ratio_def to_string_int_def to_string.simps [of 0])
next
  case False
  define n where "n = nat \<bar>v\<bar>"
  define s :: nat where "s = (if v < 0 then 1 else 0)"
  have n: "0 < n" "n < 10 ^ 10" using assms False by (auto simp: n_def nat_less_iff)
  have f: "int_f64 v = small_f64 s n" "to_string_int v = (if s = 0 then [] else ''-'') @ to_string n"
    by (auto simp: int_f64_def to_string_int_def s_def n_def)
  have "n < 2 ^ 53" "s < 2" using n(2) by (simp_all add: s_def)
  note r = f64_ratio_small [OF n(1) this]
  obtain d where d: "0 < d" "f64_ratio (small_f64 s n) = (n * d, d)" using r(1) by blast
  have "formatDouble (small_f64 s n) = (if s = 0 then [] else ''-'') @ format_g (dec_digits (n * d) d)"
    using r(2,3) d n(1) by (simp add: formatDouble_def s_def)
  then show ?thesis using format_g_int [OF n d(1)] f by simp
qed

end
