(* ===== verification/EtherDB_Writer.thy ===== *)
theory EtherDB_Writer
  imports Parser_Worker Config_Load Adapter_Config Double_Print
begin

text \<open>
  The writer thread (\<open>src/src/adapter/EtherDBWriter.cpp\<close>): the column layout of a prepared sink, the
  staging of a row batch into column-major bytes, the loop that submits a batch in pieces, and the
  plain SQL path of http devices.

  The EtherDB client is outside the sources. What a submission returns is a parameter \<open>db\<close> of the
  writer; what is submitted is kept in a log. Column buffers are the bytes of the host, little endian.
\<close>

section \<open>Sinks\<close>

record write_sink =
  sk_data :: bytes
  sk_colBase :: "nat list"
  sk_capacity :: nat
  sk_colCount :: nat
  sk_rowBytes :: nat

text \<open>The \<open>layout\<close> lambda run over the column sizes: the base of each column, and the final offset.\<close>

fun layout_cols :: "nat \<Rightarrow> nat \<Rightarrow> nat list \<Rightarrow> nat list \<times> nat" where
  "layout_cols cap off [] = ([], off)"
| "layout_cols cap off (sz # szs) =
     (let (bs, fin) = layout_cols cap (off + sz * cap) szs in (off # bs, fin))"

definition col_sizes :: "device_desc \<Rightarrow> nat list" where
  "col_sizes dev = 8 # map (\<lambda>f. unat (fd_outSize f)) (fs_fields (dd_spec dev))"

definition prepareSink :: "int \<Rightarrow> device_desc \<Rightarrow> write_sink" where
  "prepareSink batchRows dev =
     (let cap = (if 0 < batchRows then nat batchRows else 1);
          (bases, off) = layout_cols cap 0 (col_sizes dev)
      in \<lparr>sk_data = replicate off 0, sk_colBase = bases, sk_capacity = cap,
          sk_colCount = fieldCount dev + 1, sk_rowBytes = off div cap\<rparr>)"

section \<open>SQL text\<close>

definition createTableSql :: "device_desc \<Rightarrow> string" where
  "createTableSql dev =
     ''CREATE TABLE IF NOT EXISTS '' @ dd_deviceId dev @ '' (ts TIMESTAMP'' @
     concat (map (\<lambda>f. '', '' @ fd_name f @ '' '' @ fd_colType f) (fs_fields (dd_spec dev))) @ '')''"

definition insert_sql :: "write_sink \<Rightarrow> device_desc \<Rightarrow> string" where
  "insert_sql sink dev =
     ''INSERT INTO '' @ dd_deviceId dev @ '' VALUES('' @
     concat (map (\<lambda>k. (if k \<noteq> 0 then '', '' else []) @ ''?'') [0 ..< sk_colCount sink]) @ '')''"

section \<open>Staging\<close>

fun le_bytes :: "nat \<Rightarrow> nat \<Rightarrow> bytes" where
  "le_bytes 0 v = []"
| "le_bytes (Suc n) v = word_of_nat (v mod 256) # le_bytes n (v div 256)"

text \<open>\<open>memcpy\<close> into the staging vector.\<close>

definition wr_bytes :: "bytes \<Rightarrow> nat \<Rightarrow> bytes \<Rightarrow> bytes option" where
  "wr_bytes data off bs =
     (if off + length bs \<le> length data
      then Some (take off data @ bs @ drop (off + length bs) data) else None)"

fun wr_all :: "bytes \<Rightarrow> (nat \<times> bytes) list \<Rightarrow> bytes option" where
  "wr_all data [] = Some data"
| "wr_all data ((off, bs) # ws) = do { d \<leftarrow> wr_bytes data off bs; wr_all d ws }"

text \<open>The bytes of one cell in the column of a field, and the distance of two rows there.\<close>

definition cell_width :: "field_desc \<Rightarrow> nat" where
  "cell_width f =
     (if fd_asDouble f then (if fd_outSize f = 8 then 8 else 4)
      else if fd_outSize f = 1 then 1
      else if fd_outSize f = 2 then 2
      else if fd_outSize f = 4 then 4
      else 8)"

definition cell_bytes :: "field_desc \<Rightarrow> cell \<Rightarrow> bytes" where
  "cell_bytes f c =
     (if fd_asDouble f
      then (if fd_outSize f = 8 then le_bytes 8 (unat (cell_v c))
            else le_bytes 4 (unat (f64_to_f32 (cell_v c))))
      else if fd_outSize f = 1 then le_bytes 1 (unat (ucast (cell_v c) :: u8))
      else if fd_outSize f = 2 then le_bytes 2 (unat (ucast (cell_v c) :: u16))
      else if fd_outSize f = 4 then le_bytes 4 (unat (ucast (cell_v c) :: u32))
      else le_bytes 8 (unat (cell_v c)))"

text \<open>The writes of one piece of a batch, in program order: \<open>n\<close> rows from row \<open>from\<close> on.\<close>

definition ts_writes :: "write_sink \<Rightarrow> row_batch \<Rightarrow> nat \<Rightarrow> nat \<Rightarrow> (nat \<times> bytes) list" where
  "ts_writes sink batch from n =
     [(sk_colBase sink ! 0, concat (map (\<lambda>t. le_bytes 8 (unat t)) (take n (drop from (rb_ts batch)))))]"

definition col_writes ::
  "write_sink \<Rightarrow> device_desc \<Rightarrow> row_batch \<Rightarrow> nat \<Rightarrow> nat \<Rightarrow> nat \<Rightarrow> (nat \<times> bytes) list"
where
  "col_writes sink dev batch from n k =
     (let f = fs_fields (dd_spec dev) ! k; fields = fieldCount dev
      in map (\<lambda>r. (sk_colBase sink ! (k + 1) + r * cell_width f,
                   cell_bytes f (rb_cells batch ! (from * fields + r * fields + k)))) [0 ..< n])"

definition stage_writes :: "write_sink \<Rightarrow> device_desc \<Rightarrow> row_batch \<Rightarrow> nat \<Rightarrow> nat \<Rightarrow> (nat \<times> bytes) list" where
  "stage_writes sink dev batch from n =
     ts_writes sink batch from n @ concat (map (col_writes sink dev batch from n) [0 ..< fieldCount dev])"

text \<open>\<open>batch.cells\<close> and \<open>batch.ts\<close> are only read inside their bounds.\<close>

definition stage_reads_ok :: "device_desc \<Rightarrow> row_batch \<Rightarrow> nat \<Rightarrow> nat \<Rightarrow> bool" where
  "stage_reads_ok dev batch from n \<longleftrightarrow>
     from + n \<le> length (rb_ts batch) \<and> (from + n) * fieldCount dev \<le> length (rb_cells batch)"

definition stage :: "write_sink \<Rightarrow> device_desc \<Rightarrow> row_batch \<Rightarrow> nat \<Rightarrow> nat \<Rightarrow> write_sink option" where
  "stage sink dev batch from n =
     (if stage_reads_ok dev batch from n
      then do { d \<leftarrow> wr_all (sk_data sink) (stage_writes sink dev batch from n); Some (sink\<lparr>sk_data := d\<rparr>) }
      else None)"

section \<open>Submitting\<close>

text \<open>One bound column: bind type, address in the staging data, stride, number of rows.\<close>

record multi_bind =
  mb_type :: int
  mb_buffer :: nat
  mb_stride :: nat
  mb_numRows :: nat

definition binds :: "write_sink \<Rightarrow> device_desc \<Rightarrow> nat \<Rightarrow> multi_bind list" where
  "binds sink dev n =
     \<lparr>mb_type = kBindTimestamp, mb_buffer = sk_colBase sink ! 0, mb_stride = 8, mb_numRows = n\<rparr> #
     map (\<lambda>k. let f = fs_fields (dd_spec dev) ! k
              in \<lparr>mb_type = fd_bindType f, mb_buffer = sk_colBase sink ! (k + 1),
                  mb_stride = unat (fd_outSize f), mb_numRows = n\<rparr>) [0 ..< fieldCount dev]"

datatype submission = Columns device_desc "multi_bind list" bytes | Statement string

text \<open>What the client answers: binding failed, or \<open>affected\<close> rows (negative: failed) and rejected rows.\<close>

datatype outcome = BindFailed | Executed int int | QueryError | QueryOk

record etherdb_writer =
  ew_sinks :: "nat \<Rightarrow> write_sink option"
  ew_log :: "submission list"
  ew_stats :: adapter_stats

definition count_outcome :: "outcome \<Rightarrow> adapter_stats \<Rightarrow> adapter_stats" where
  "count_outcome r s =
     (case r of
        Executed affected errs \<Rightarrow>
          if affected < 0 then s\<lparr>as_writeErrors := as_writeErrors s + 1\<rparr>
          else let s1 = s\<lparr>as_rowsWritten := as_rowsWritten s + word_of_int affected,
                          as_batchesWritten := as_batchesWritten s + 1\<rparr>
               in if 0 < errs then s1\<lparr>as_writeErrors := as_writeErrors s1 + word_of_int errs\<rparr> else s1
      | _ \<Rightarrow> s\<lparr>as_writeErrors := as_writeErrors s + 1\<rparr>)"

text \<open>The loop of \<open>writeBatch\<close>: \<open>done\<close> rows are submitted.\<close>

function write_pieces ::
  "(submission \<Rightarrow> outcome) \<Rightarrow> device_desc \<Rightarrow> row_batch \<Rightarrow> nat \<Rightarrow> write_sink \<Rightarrow> etherdb_writer \<Rightarrow>
   (write_sink \<times> etherdb_writer) option"
where
  "write_pieces db dev batch don sink w =
     (if rowCount batch \<le> don then Some (sink, w)
      else let n = min (rowCount batch - don) (sk_capacity sink)
      in if n = 0 then None
         else case stage sink dev batch don n of
           None \<Rightarrow> None
         | Some sink1 \<Rightarrow>
             let sub = Columns dev (binds sink1 dev n) (sk_data sink1)
             in write_pieces db dev batch (don + n) sink1
                  (w\<lparr>ew_log := ew_log w @ [sub], ew_stats := count_outcome (db sub) (ew_stats w)\<rparr>))"
  by pat_completeness auto
termination by (relation "measure (\<lambda>(db, dev, batch, don, sink, w). rowCount batch - don)") auto

declare write_pieces.simps [simp del]

section \<open>The SQL path of http devices\<close>

definition kMaxRowsPerStmt :: nat where "kMaxRowsPerStmt = 200"

definition sql_cell :: "field_desc \<Rightarrow> cell \<Rightarrow> string" where
  "sql_cell f c =
     (if cell_isNull c \<noteq> 0 then ''NULL''
      else if fd_asDouble f then formatDouble (cell_v c)
      else if fd_kind f = Bool then (if cell_v c \<noteq> 0 then ''1'' else ''0'')
      else to_string_int (sint (cell_v c)))"

definition sql_row_text :: "device_desc \<Rightarrow> row_batch \<Rightarrow> nat \<Rightarrow> string" where
  "sql_row_text dev batch i =
     ''('' @ to_string_int (sint (rb_ts batch ! i)) @
     concat (map (\<lambda>k. '','' @ sql_cell (fs_fields (dd_spec dev) ! k)
                               (rb_cells batch ! (i * fieldCount dev + k))) [0 ..< fieldCount dev]) @ '')''"

definition sql_statement :: "device_desc \<Rightarrow> row_batch \<Rightarrow> nat \<Rightarrow> nat \<Rightarrow> string" where
  "sql_statement dev batch don n =
     ''INSERT INTO '' @ dd_deviceId dev @ '' VALUES '' @
     concat (map (\<lambda>r. (if r \<noteq> 0 then '','' else []) @ sql_row_text dev batch (don + r)) [0 ..< n])"

definition count_query :: "outcome \<Rightarrow> nat \<Rightarrow> adapter_stats \<Rightarrow> adapter_stats" where
  "count_query r n s =
     (if r = QueryOk
      then s\<lparr>as_rowsWritten := as_rowsWritten s + word_of_nat n, as_batchesWritten := as_batchesWritten s + 1\<rparr>
      else s\<lparr>as_writeErrors := as_writeErrors s + 1\<rparr>)"

function sql_pieces ::
  "(submission \<Rightarrow> outcome) \<Rightarrow> device_desc \<Rightarrow> row_batch \<Rightarrow> nat \<Rightarrow> etherdb_writer \<Rightarrow>
   etherdb_writer option"
where
  "sql_pieces db dev batch don w =
     (if rowCount batch \<le> don then Some w
      else let n = min (rowCount batch - don) kMaxRowsPerStmt
      in if \<not> stage_reads_ok dev batch don n then None
         else let sub = Statement (sql_statement dev batch don n)
              in sql_pieces db dev batch (don + n)
                   (w\<lparr>ew_log := ew_log w @ [sub], ew_stats := count_query (db sub) n (ew_stats w)\<rparr>))"
  by pat_completeness auto
termination
  by (relation "measure (\<lambda>(db, dev, batch, don, w). rowCount batch - don)") (auto simp: kMaxRowsPerStmt_def)

declare sql_pieces.simps [simp del]

definition writeBatchSql ::
  "(submission \<Rightarrow> outcome) \<Rightarrow> device_desc \<Rightarrow> row_batch \<Rightarrow> etherdb_writer \<Rightarrow>
   etherdb_writer option"
where
  "writeBatchSql db dev batch w =
     (if fieldCount dev = 0 \<or> rowCount batch = 0 then Some w else sql_pieces db dev batch 0 w)"

definition writeBatch ::
  "(submission \<Rightarrow> outcome) \<Rightarrow> row_batch \<Rightarrow> etherdb_writer \<Rightarrow> etherdb_writer option"
where
  "writeBatch db batch w =
     (case rb_dev batch of
        None \<Rightarrow> Some w
      | Some dev \<Rightarrow>
          if dd_connProto dev = CONN_HTTP then writeBatchSql db dev batch w
          else (case ew_sinks w (dd_addr dev) of
                  None \<Rightarrow> Some w
                | Some sink \<Rightarrow>
                    do {
                      (sink', w') \<leftarrow> write_pieces db dev batch 0 sink w;
                      Some (w'\<lparr>ew_sinks := (ew_sinks w')(dd_addr dev \<mapsto> sink')\<rparr>)
                    }))"

text \<open>One dequeued batch of \<open>run\<close>, and the drain after the stop request.\<close>

definition writer_step ::
  "(submission \<Rightarrow> outcome) \<Rightarrow> row_batch \<Rightarrow> etherdb_writer \<Rightarrow> etherdb_writer option"
where
  "writer_step db batch w =
     (if rb_dev batch \<noteq> None \<and> \<not> batch_empty batch then writeBatch db batch w else Some w)"

fun writer_run ::
  "(submission \<Rightarrow> outcome) \<Rightarrow> row_batch list \<Rightarrow> etherdb_writer \<Rightarrow> etherdb_writer option"
where
  "writer_run db [] w = Some w"
| "writer_run db (b # bs) w = do { w' \<leftarrow> writer_step db b w; writer_run db bs w' }"

section \<open>Startup\<close>

text \<open>
  \<open>start\<close> connects, selects the database and prepares a sink per served device. The client SDK is a
  parameter: whether \<open>connect\<close> succeeds, the error text of a \<open>query\<close> (empty when it succeeds) and
  whether \<open>createStmt\<close> and \<open>prepare\<close> succeed. Every SQL text sent is recorded in \<open>ew_log\<close>.
\<close>

record sdk =
  sdk_connect :: "string \<Rightarrow> u16 \<Rightarrow> string \<Rightarrow> string \<Rightarrow> bool"
  sdk_query :: "string \<Rightarrow> string"
  sdk_prepare :: "string \<Rightarrow> bool"

definition logged :: "string \<Rightarrow> etherdb_writer \<Rightarrow> etherdb_writer" where
  "logged sql w = w\<lparr>ew_log := ew_log w @ [Statement sql]\<rparr>"

definition connectClient :: "etherdb_config \<Rightarrow> sdk \<Rightarrow> string option" where
  "connectClient cfg sdk =
     (if sdk_connect sdk (ec_host cfg) (ec_port cfg) (ec_user cfg) (ec_password cfg) then None
      else Some (''cannot connect to EtherDB at '' @ ec_host cfg @ '':'' @ to_string (unat (ec_port cfg)) @
                 '' (is the server running?)''))"

definition create_database_sql :: "string \<Rightarrow> string" where
  "create_database_sql dbName =
     ''CREATE DATABASE IF NOT EXISTS '' @ dbName @ '' KEEP 3650 REPLICA 1 PRECISION us''"

definition ensureDatabase :: "etherdb_config \<Rightarrow> sdk \<Rightarrow> etherdb_writer \<Rightarrow> etherdb_writer loaded" where
  "ensureDatabase cfg sdk w =
     (let dbName = makeIdentifier (ec_db cfg) ''adapter'';
          create = create_database_sql dbName; use = ''USE '' @ dbName
      in if ec_createDatabase cfg \<and> sdk_query sdk create \<noteq> [] then
           LoadError (''CREATE DATABASE '' @ dbName @ '' failed: '' @ sdk_query sdk create)
         else
           let w1 = (if ec_createDatabase cfg then logged create w else w)
           in if sdk_query sdk use \<noteq> [] then
                LoadError (''USE '' @ dbName @ '' failed: '' @ sdk_query sdk use @
                  '' (create the database first or set [etherdb].createDatabase = true)'')
              else Loaded (logged use w1))"

definition ensureTable :: "sdk \<Rightarrow> device_desc \<Rightarrow> etherdb_writer \<Rightarrow> etherdb_writer loaded" where
  "ensureTable sdk dev w =
     (let sql = createTableSql dev
      in if sdk_query sdk sql \<noteq> [] then
           LoadError (''CREATE TABLE '' @ dd_deviceId dev @ '' failed: '' @ sdk_query sdk sql)
         else Loaded (logged sql w))"

definition install_sink :: "etherdb_config \<Rightarrow> sdk \<Rightarrow> device_desc \<Rightarrow> etherdb_writer \<Rightarrow> etherdb_writer loaded" where
  "install_sink cfg sdk dev w =
     (let sink = prepareSink (ec_batchRows cfg) dev
      in if \<not> sdk_prepare sdk (insert_sql sink dev) then
           LoadError (''prepare INSERT for '' @ dd_deviceId dev @
             '' failed (table schema <-> field layout mismatch?)'')
         else Loaded (w\<lparr>ew_sinks := (ew_sinks w)(dd_addr dev \<mapsto> sink)\<rparr>))"

definition served :: "device_desc \<Rightarrow> bool" where
  "served dev \<longleftrightarrow>
     fs_fields (dd_spec dev) \<noteq> [] \<and>
     dd_connProto dev \<in> {CONN_CUSTOM_DATA, CONN_MODBUS, CONN_HTTP}"

definition start_device :: "etherdb_config \<Rightarrow> sdk \<Rightarrow> device_desc \<Rightarrow> etherdb_writer \<Rightarrow> etherdb_writer loaded" where
  "start_device cfg sdk dev w =
     (if \<not> served dev then Loaded w
      else case (if ec_createTables cfg then ensureTable sdk dev w else Loaded w) of
        LoadError e \<Rightarrow> LoadError e
      | Loaded w1 \<Rightarrow> if dd_connProto dev = CONN_HTTP then Loaded w1 else install_sink cfg sdk dev w1)"

fun start_devices ::
  "etherdb_config \<Rightarrow> sdk \<Rightarrow> device_desc list \<Rightarrow> etherdb_writer \<Rightarrow> etherdb_writer loaded" where
  "start_devices cfg sdk [] w = Loaded w"
| "start_devices cfg sdk (dev # devs) w =
     (case start_device cfg sdk dev w of
        LoadError e \<Rightarrow> LoadError e
      | Loaded w1 \<Rightarrow> start_devices cfg sdk devs w1)"

definition writer_start ::
  "etherdb_config \<Rightarrow> sdk \<Rightarrow> device_desc list \<Rightarrow> adapter_stats \<Rightarrow> etherdb_writer loaded" where
  "writer_start cfg sdk devs stats =
     (case connectClient cfg sdk of
        Some e \<Rightarrow> LoadError e
      | None \<Rightarrow>
          (case ensureDatabase cfg sdk \<lparr>ew_sinks = (\<lambda>_. None), ew_log = [], ew_stats = stats\<rparr> of
             LoadError e \<Rightarrow> LoadError e
           | Loaded w \<Rightarrow> start_devices cfg sdk devs w))"

text \<open>\<open>stop\<close> joins the thread, which drains the queue first, closes every statement and forgets the sinks.\<close>

definition writer_stop :: "(submission \<Rightarrow> outcome) \<Rightarrow> row_batch list \<Rightarrow> etherdb_writer \<Rightarrow> etherdb_writer option" where
  "writer_stop db left w = map_option (\<lambda>w'. w'\<lparr>ew_sinks := (\<lambda>_. None)\<rparr>) (writer_run db left w)"

section \<open>Layout\<close>

lemma layout_cols_eq:
  "layout_cols cap off szs =
     (map (\<lambda>k. off + cap * sum_list (take k szs)) [0 ..< length szs], off + cap * sum_list szs)"
proof (induction szs arbitrary: off)
  case (Cons sz szs)
  have "map (\<lambda>k. off + cap * sum_list (take k (sz # szs))) [0 ..< length (sz # szs)] =
      off # map (\<lambda>k. off + sz * cap + cap * sum_list (take k szs)) [0 ..< length szs]"
    by (rule nth_equalityI) (auto simp: nth_Cons algebra_simps simp del: upt_Suc split: nat.split)
  then show ?case by (simp add: Cons algebra_simps)
qed simp

definition col_base :: "nat \<Rightarrow> device_desc \<Rightarrow> nat \<Rightarrow> nat" where
  "col_base cap dev k = cap * sum_list (take k (col_sizes dev))"

definition sink_of :: "device_desc \<Rightarrow> write_sink \<Rightarrow> bool" where
  "sink_of dev sink \<longleftrightarrow>
     0 < sk_capacity sink \<and>
     sk_colBase sink = map (col_base (sk_capacity sink) dev) [0 ..< fieldCount dev + 1] \<and>
     length (sk_data sink) = sk_capacity sink * sum_list (col_sizes dev)"

lemma length_col_sizes [simp]: "length (col_sizes dev) = fieldCount dev + 1"
  by (simp add: col_sizes_def fieldCount_def)

lemma prepareSink_sink_of: "sink_of dev (prepareSink n dev)"
proof -
  have "length (col_sizes dev) = Suc (fieldCount dev)" by simp
  then show ?thesis
    by (simp add: prepareSink_def Let_def layout_cols_eq sink_of_def col_base_def del: length_col_sizes upt_Suc)
qed

lemma start_device_sinks:
  assumes "start_device cfg sdk dev w = Loaded w'"
  shows "ew_sinks w' = (if served dev \<and> dd_connProto dev \<noteq> CONN_HTTP
      then (ew_sinks w)(dd_addr dev \<mapsto> prepareSink (ec_batchRows cfg) dev) else ew_sinks w)"
    and "served dev \<Longrightarrow> ec_createTables cfg \<Longrightarrow> Statement (createTableSql dev) \<in> set (ew_log w')"
    and "set (ew_log w) \<subseteq> set (ew_log w')"
  using assms
  by (auto simp: start_device_def ensureTable_def install_sink_def logged_def Let_def
      split: if_splits loaded.splits)

text \<open>
  A successful start leaves, for a device list with its own address per device, a sink laid out for
  every served device that is not written through SQL, and no other sink.
\<close>

lemma start_devices_sinks:
  assumes "start_devices cfg sdk devs w = Loaded w'" "distinct (map dd_addr devs)"
    and "\<And>dev. dev \<in> set devs \<Longrightarrow> ew_sinks w (dd_addr dev) = None"
  shows "(\<forall>dev \<in> set devs. ew_sinks w' (dd_addr dev) =
        (if served dev \<and> dd_connProto dev \<noteq> CONN_HTTP then Some (prepareSink (ec_batchRows cfg) dev)
         else None))
      \<and> (\<forall>a. a \<notin> dd_addr ` set devs \<longrightarrow> ew_sinks w' a = ew_sinks w a)
      \<and> (ec_createTables cfg \<longrightarrow>
           (\<forall>dev \<in> set devs. served dev \<longrightarrow> Statement (createTableSql dev) \<in> set (ew_log w')))
      \<and> set (ew_log w) \<subseteq> set (ew_log w')"
  using assms
proof (induction devs arbitrary: w)
  case Nil
  then show ?case by simp
next
  case (Cons dev devs)
  obtain w1 where w1: "start_device cfg sdk dev w = Loaded w1" "start_devices cfg sdk devs w1 = Loaded w'"
    using Cons.prems(1) by (auto split: loaded.splits)
  note d = start_device_sinks [OF w1(1)]
  have notin: "dd_addr dev \<notin> dd_addr ` set devs" using Cons.prems(2) by simp
  have "ew_sinks w1 (dd_addr e) = None" if "e \<in> set devs" for e
    using that Cons.prems(3) [of e] notin d(1) by (auto simp: image_iff)
  note ih = Cons.IH [OF w1(2) _ this]
  have dist: "distinct (map dd_addr devs)" using Cons.prems(2) by simp
  show ?case
    using ih [OF dist] d notin Cons.prems(3) [of dev] by (auto simp: image_iff)
qed

section \<open>Ascending writes\<close>

fun asc :: "nat \<Rightarrow> (nat \<times> bytes) list \<Rightarrow> nat \<Rightarrow> bool" where
  "asc lo [] hi \<longleftrightarrow> lo \<le> hi"
| "asc lo ((off, bs) # ws) hi \<longleftrightarrow> lo \<le> off \<and> asc (off + length bs) ws hi"

lemma asc_le: "asc lo ws hi \<Longrightarrow> lo \<le> hi"
  by (induction lo ws hi rule: asc.induct) auto

lemma asc_widen: "asc lo ws hi \<Longrightarrow> lo' \<le> lo \<Longrightarrow> hi \<le> hi' \<Longrightarrow> asc lo' ws hi'"
  by (induction lo ws hi arbitrary: lo' rule: asc.induct) auto

lemma asc_append: "asc lo ws mid \<Longrightarrow> asc mid ws' hi \<Longrightarrow> asc lo (ws @ ws') hi"
  by (induction lo ws mid rule: asc.induct) (auto intro: asc_widen)

lemma asc_bounds: "asc lo ws hi \<Longrightarrow> (off, bs) \<in> set ws \<Longrightarrow> lo \<le> off \<and> off + length bs \<le> hi"
  by (induction lo ws hi rule: asc.induct) (force dest: asc_le)+

lemma wr_bytes_length: "wr_bytes data off bs = Some d \<Longrightarrow> length d = length data"
  by (auto simp: wr_bytes_def split: if_splits)

lemma wr_bytes_below:
  "wr_bytes data off bs = Some d \<Longrightarrow> p + n \<le> off \<Longrightarrow> take n (drop p d) = take n (drop p data)"
  by (auto simp: wr_bytes_def drop_take min_def split: if_splits)

lemma wr_bytes_read: "wr_bytes data off bs = Some d \<Longrightarrow> take (length bs) (drop off d) = bs"
  by (auto simp: wr_bytes_def split: if_splits)

lemma wr_all_asc:
  assumes "asc lo ws hi" "hi \<le> length data"
  shows "\<exists>d. wr_all data ws = Some d \<and> length d = length data \<and>
    (\<forall>p n. p + n \<le> lo \<longrightarrow> take n (drop p d) = take n (drop p data)) \<and>
    (\<forall>(off, bs) \<in> set ws. take (length bs) (drop off d) = bs)"
  using assms
proof (induction lo ws hi arbitrary: data rule: asc.induct)
  case (2 lo off bs ws hi)
  have le: "lo \<le> off" "off + length bs \<le> hi" using "2.prems"(1) asc_le by auto
  obtain d1 where d1: "wr_bytes data off bs = Some d1"
    using le "2.prems"(2) by (simp add: wr_bytes_def)
  have "hi \<le> length d1" using wr_bytes_length [OF d1] "2.prems"(2) by simp
  then obtain d where d: "wr_all d1 ws = Some d" "length d = length d1"
    "\<forall>p n. p + n \<le> off + length bs \<longrightarrow> take n (drop p d) = take n (drop p d1)"
    "\<forall>(off, bs) \<in> set ws. take (length bs) (drop off d) = bs"
    using "2.IH" [of d1] "2.prems"(1) by auto
  have "take (length bs) (drop off d) = bs" using d(3) wr_bytes_read [OF d1] by simp
  moreover have "take n (drop p d) = take n (drop p data)" if "p + n \<le> lo" for p n
    using d(3) wr_bytes_below [OF d1, of p n] that le(1) by simp
  ultimately show ?case using d1 d wr_bytes_length [OF d1] by auto
qed auto

section \<open>A staged piece\<close>

text \<open>What \<open>materializeField\<close> guarantees of a column.\<close>

definition column_ok :: "field_desc \<Rightarrow> bool" where
  "column_ok f \<longleftrightarrow> (if fd_asDouble f then fd_outSize f \<in> {4, 8} else fd_outSize f \<in> {1, 2, 4, 8})"

lemma materializeField_column_ok: "field_width_ok f \<Longrightarrow> column_ok (materializeField f i)"
  by (auto simp: materializeField_def materialize_kind_def field_width_ok_def column_ok_def Let_def
      split: field_kind.splits prod.splits if_splits)

lemma length_le_bytes [simp]: "length (le_bytes n v) = n"
  by (induction n v rule: le_bytes.induct) auto

lemma cell_width_out: "column_ok f \<Longrightarrow> cell_width f = unat (fd_outSize f)"
  by (auto simp: column_ok_def cell_width_def split: if_splits)

lemma length_cell_bytes [simp]: "length (cell_bytes f c) = cell_width f"
  by (simp add: cell_bytes_def cell_width_def)

lemma col_base_Suc:
  assumes "k < fieldCount dev"
  shows "col_base cap dev (k + 2) = col_base cap dev (k + 1) + cap * unat (fd_outSize (fs_fields (dd_spec dev) ! k))"
proof -
  have "k + 1 < length (col_sizes dev)" using assms by simp
  moreover have "col_sizes dev ! (k + 1) = unat (fd_outSize (fs_fields (dd_spec dev) ! k))"
    using assms by (simp add: col_sizes_def fieldCount_def)
  ultimately have "sum_list (take (Suc (k + 1)) (col_sizes dev)) =
      sum_list (take (k + 1) (col_sizes dev)) + unat (fd_outSize (fs_fields (dd_spec dev) ! k))"
    by (simp add: take_Suc_conv_app_nth)
  then show ?thesis by (simp add: col_base_def algebra_simps)
qed

lemma asc_rows: "(\<And>r. length (g r) = w) \<Longrightarrow> asc lo (map (\<lambda>r. (lo + r * w, g r)) [0 ..< n]) (lo + n * w)"
proof (induction n)
  case (Suc n)
  then have "asc lo (map (\<lambda>r. (lo + r * w, g r)) [0 ..< n] @ [(lo + n * w, g n)]) (lo + n * w + w)"
    by (intro asc_append [of _ _ "lo + n * w"]) auto
  then show ?case by (simp add: algebra_simps)
qed simp

lemma col_writes_asc:
  assumes "sink_of dev sink" "k < fieldCount dev" "n \<le> sk_capacity sink"
    and "column_ok (fs_fields (dd_spec dev) ! k)"
  shows "asc (col_base (sk_capacity sink) dev (k + 1)) (col_writes sink dev batch from n k)
             (col_base (sk_capacity sink) dev (k + 2))"
proof -
  let ?f = "fs_fields (dd_spec dev) ! k" and ?lo = "col_base (sk_capacity sink) dev (k + 1)"
  have base: "sk_colBase sink ! (k + 1) = ?lo"
    using assms(1,2) by (auto simp: sink_of_def simp del: upt_Suc)
  have "n * cell_width ?f \<le> sk_capacity sink * unat (fd_outSize ?f)"
    using assms(3) by (simp add: cell_width_out [OF assms(4)])
  then have hi: "?lo + n * cell_width ?f \<le> col_base (sk_capacity sink) dev (k + 2)"
    by (simp only: col_base_Suc [OF assms(2)])
  have "asc ?lo (col_writes sink dev batch from n k) (?lo + n * cell_width ?f)"
    unfolding col_writes_def Let_def base by (rule asc_rows) simp
  then show ?thesis by (rule asc_widen) (use hi in auto)
qed

lemma stage_writes_asc:
  assumes sink: "sink_of dev sink" and n: "n \<le> sk_capacity sink"
    and cols: "\<forall>f \<in> set (fs_fields (dd_spec dev)). column_ok f"
    and ts: "from + n \<le> length (rb_ts batch)"
  shows "asc 0 (stage_writes sink dev batch from n) (length (sk_data sink))"
proof -
  let ?cap = "sk_capacity sink"
  have base0: "sk_colBase sink ! 0 = 0"
    using sink by (simp add: sink_of_def col_base_def nth_append del: upt_Suc)
  have base1: "col_base ?cap dev (Suc 0) = ?cap * 8" by (simp add: col_base_def col_sizes_def)
  have "length (concat (map (\<lambda>t. le_bytes 8 (unat t)) ts)) = length ts * 8" for ts :: "i64 list"
    by (induction ts) auto
  then have "asc 0 (ts_writes sink batch from n) (col_base ?cap dev 1)"
    using n ts by (simp add: ts_writes_def base0 base1)
  moreover have "m \<le> fieldCount dev \<Longrightarrow>
      asc (col_base ?cap dev 1) (concat (map (col_writes sink dev batch from n) [0 ..< m])) (col_base ?cap dev (m + 1))" for m
  proof (induction m)
    case (Suc m)
    then have "column_ok (fs_fields (dd_spec dev) ! m)" using cols by (simp add: fieldCount_def)
    from col_writes_asc [OF sink _ n this] Suc show ?case by (auto intro: asc_append)
  qed simp
  ultimately have "asc 0 (stage_writes sink dev batch from n) (col_base ?cap dev (fieldCount dev + 1))"
    unfolding stage_writes_def by (intro asc_append [of _ _ "col_base ?cap dev 1"]) simp_all
  then show ?thesis using sink by (simp add: sink_of_def col_base_def)
qed

section \<open>What is submitted\<close>

text \<open>The values the client reads through the bindings, row by row.\<close>

definition bound_row :: "multi_bind list \<Rightarrow> bytes \<Rightarrow> nat \<Rightarrow> bytes list" where
  "bound_row bs data r = map (\<lambda>b. take (mb_stride b) (drop (mb_buffer b + r * mb_stride b) data)) bs"

fun submitted_rows :: "submission \<Rightarrow> bytes list list" where
  "submitted_rows (Columns dev bs data) = map (bound_row bs data) [0 ..< mb_numRows (hd bs)]"
| "submitted_rows (Statement sql) = []"

fun sub_device :: "submission \<Rightarrow> device_desc option" where
  "sub_device (Columns dev bs data) = Some dev"
| "sub_device (Statement sql) = None"

definition row_image :: "device_desc \<Rightarrow> i64 \<times> cell list \<Rightarrow> bytes list" where
  "row_image dev r = le_bytes 8 (unat (fst r)) # map2 cell_bytes (fs_fields (dd_spec dev)) (snd r)"

lemma stage_column:
  assumes sink: "sink_of dev sink" "n \<le> sk_capacity sink" "\<forall>f \<in> set (fs_fields (dd_spec dev)). column_ok f"
    and st: "stage sink dev batch from n = Some sink1"
  shows "sink_of dev sink1" "sk_capacity sink1 = sk_capacity sink"
    and "\<And>r. r < n \<Longrightarrow> take 8 (drop (sk_colBase sink1 ! 0 + r * 8) (sk_data sink1)) =
           le_bytes 8 (unat (rb_ts batch ! (from + r)))"
    and "\<And>r k. r < n \<Longrightarrow> k < fieldCount dev \<Longrightarrow>
           take (unat (fd_outSize (fs_fields (dd_spec dev) ! k)))
             (drop (sk_colBase sink1 ! (k + 1) + r * unat (fd_outSize (fs_fields (dd_spec dev) ! k))) (sk_data sink1)) =
           cell_bytes (fs_fields (dd_spec dev) ! k) (rb_cells batch ! ((from + r) * fieldCount dev + k))"
proof -
  have reads: "stage_reads_ok dev batch from n" using st by (simp add: stage_def split: if_splits)
  then have ts: "from + n \<le> length (rb_ts batch)" by (simp add: stage_reads_ok_def)
  note asc = stage_writes_asc [OF sink ts]
  obtain d where d: "wr_all (sk_data sink) (stage_writes sink dev batch from n) = Some d"
    "length d = length (sk_data sink)"
    "\<forall>(off, bs) \<in> set (stage_writes sink dev batch from n). take (length bs) (drop off d) = bs"
    using wr_all_asc [OF asc] by auto
  have s1: "sink1 = sink\<lparr>sk_data := d\<rparr>" using st d(1) reads by (simp add: stage_def)
  show "sink_of dev sink1" "sk_capacity sink1 = sk_capacity sink"
    using sink(1) d(2) by (simp_all add: s1 sink_of_def)
  { fix r assume r: "r < n"
    let ?tss = "take n (drop from (rb_ts batch))"
    let ?parts = "map (\<lambda>t. le_bytes 8 (unat t)) ?tss"
    have len: "\<forall>b \<in> set ?parts. length b = 8" by auto
    have n: "length ?parts = n" using ts by simp
    have tot: "length (concat ?parts) = n * 8" using length_concat_const [OF len] n by simp
    have "(sk_colBase sink ! 0, concat ?parts) \<in> set (stage_writes sink dev batch from n)"
      by (simp add: stage_writes_def ts_writes_def)
    with d(3) have "take (length (concat ?parts)) (drop (sk_colBase sink ! 0) d) = concat ?parts" by blast
    then have whole: "take (n * 8) (drop (sk_colBase sink ! 0) d) = concat ?parts" by (simp only: tot)
    have "r * 8 + 8 \<le> n * 8" using r by simp
    then have "take 8 (drop (r * 8) (take (n * 8) (drop (sk_colBase sink ! 0) d))) =
        take 8 (drop (r * 8) (drop (sk_colBase sink ! 0) d))"
      by (simp add: drop_take min_def)
    then have "take 8 (drop (sk_colBase sink ! 0 + r * 8) d) = take 8 (drop (r * 8) (concat ?parts))"
      by (simp only: whole drop_drop add.commute)
    also have "\<dots> = ?parts ! r"
      using drop_concat_const [OF len, of r] r n by simp
    finally show "take 8 (drop (sk_colBase sink1 ! 0 + r * 8) (sk_data sink1)) =
        le_bytes 8 (unat (rb_ts batch ! (from + r)))"
      using r ts by (simp add: s1) }
  { fix r k assume r: "r < n" and k: "k < fieldCount dev"
    let ?f = "fs_fields (dd_spec dev) ! k"
    let ?w = "(sk_colBase sink ! (k + 1) + r * cell_width ?f,
      cell_bytes ?f (rb_cells batch ! (from * fieldCount dev + r * fieldCount dev + k)))"
    have "?w \<in> set (col_writes sink dev batch from n k)" using r by (auto simp: col_writes_def Let_def)
    then have "?w \<in> set (stage_writes sink dev batch from n)" using k by (auto simp: stage_writes_def)
    with d(3) have "take (cell_width ?f) (drop (sk_colBase sink ! (k + 1) + r * cell_width ?f) d) =
        cell_bytes ?f (rb_cells batch ! (from * fieldCount dev + r * fieldCount dev + k))"
      by fastforce
    moreover have "cell_width ?f = unat (fd_outSize ?f)"
      using sink(3) k by (intro cell_width_out) (simp add: fieldCount_def)
    ultimately show "take (unat (fd_outSize ?f)) (drop (sk_colBase sink1 ! (k + 1) + r * unat (fd_outSize ?f)) (sk_data sink1)) =
        cell_bytes ?f (rb_cells batch ! ((from + r) * fieldCount dev + k))"
      by (simp add: s1 distrib_right) }
qed

lemma stage_submitted:
  assumes sink: "sink_of dev sink" "n \<le> sk_capacity sink" "\<forall>f \<in> set (fs_fields (dd_spec dev)). column_ok f"
    and b: "rb_dev batch = Some dev" "batch_ok batch"
    and st: "stage sink dev batch from n = Some sink1"
  shows "submitted_rows (Columns dev (binds sink1 dev n) (sk_data sink1)) =
    map (row_image dev) (take n (drop from (batch_rows batch)))"
proof -
  have reads: "from + n \<le> rowCount batch"
    using st by (simp add: stage_def stage_reads_ok_def rowCount_def split: if_splits)
  note col = stage_column [OF sink st]
  show ?thesis
  proof (rule nth_equalityI)
    show "length (submitted_rows (Columns dev (binds sink1 dev n) (sk_data sink1))) =
        length (map (row_image dev) (take n (drop from (batch_rows batch))))"
      using reads by (simp add: binds_def)
    fix r assume "r < length (submitted_rows (Columns dev (binds sink1 dev n) (sk_data sink1)))"
    then have r: "r < n" by (simp add: binds_def)
    let ?fc = "fieldCount dev"
    have cells: "length (rb_cells batch) = rowCount batch * ?fc" using b by (simp add: batch_ok_def)
    have "Suc (from + r) * ?fc \<le> rowCount batch * ?fc" using r reads by (intro mult_le_mono1) simp
    then have fit: "(from + r) * ?fc + ?fc \<le> length (rb_cells batch)" by (simp add: cells)
    have "take n (drop from (batch_rows batch)) ! r = batch_row batch (from + r)"
      using r reads by (simp add: batch_rows_def)
    then have img: "map (row_image dev) (take n (drop from (batch_rows batch))) ! r =
        le_bytes 8 (unat (rb_ts batch ! (from + r))) #
        map2 cell_bytes (fs_fields (dd_spec dev)) (take ?fc (drop ((from + r) * ?fc) (rb_cells batch)))"
      using r reads by (simp add: batch_row_def b(1) row_image_def)
    have "map (\<lambda>k. cell_bytes (fs_fields (dd_spec dev) ! k) (rb_cells batch ! ((from + r) * ?fc + k))) [0 ..< ?fc] =
        map2 cell_bytes (fs_fields (dd_spec dev)) (take ?fc (drop ((from + r) * ?fc) (rb_cells batch)))"
      by (rule nth_equalityI) (use fit in \<open>auto simp: fieldCount_def\<close>)
    moreover have "map (\<lambda>k. take (unat (fd_outSize (fs_fields (dd_spec dev) ! k)))
          (drop (sk_colBase sink1 ! Suc k + r * unat (fd_outSize (fs_fields (dd_spec dev) ! k))) (sk_data sink1)))
          [0 ..< ?fc] =
        map (\<lambda>k. cell_bytes (fs_fields (dd_spec dev) ! k) (rb_cells batch ! ((from + r) * ?fc + k))) [0 ..< ?fc]"
      using col(4) [OF r] by (intro map_cong) simp_all
    ultimately show "submitted_rows (Columns dev (binds sink1 dev n) (sk_data sink1)) ! r =
        map (row_image dev) (take n (drop from (batch_rows batch))) ! r"
      unfolding img using col(3) [OF r] r by (simp add: binds_def bound_row_def Let_def comp_def)
  qed
qed

lemma stage_defined:
  assumes "sink_of dev sink" "n \<le> sk_capacity sink" "\<forall>f \<in> set (fs_fields (dd_spec dev)). column_ok f"
    and b: "rb_dev batch = Some dev" "batch_ok batch" and n: "from + n \<le> rowCount batch"
  shows "\<exists>sink1. stage sink dev batch from n = Some sink1"
proof -
  have "(from + n) * fieldCount dev \<le> rowCount batch * fieldCount dev" using n by (rule mult_le_mono1)
  then have reads: "stage_reads_ok dev batch from n"
    using b n by (simp add: stage_reads_ok_def batch_ok_def rowCount_def)
  then have "from + n \<le> length (rb_ts batch)" by (simp add: stage_reads_ok_def)
  from wr_all_asc [OF stage_writes_asc [OF assms(1-3) this] order.refl] reads show ?thesis
    by (auto simp: stage_def)
qed

lemma write_pieces_submits:
  assumes b: "rb_dev batch = Some dev" "batch_ok batch"
    and cols: "\<forall>f \<in> set (fs_fields (dd_spec dev)). column_ok f"
  shows "sink_of dev sink \<Longrightarrow> don \<le> rowCount batch \<Longrightarrow>
    \<exists>sink' w' subs. write_pieces db dev batch don sink w = Some (sink', w') \<and> ew_log w' = ew_log w @ subs \<and>
      sink_of dev sink' \<and> sk_capacity sink' = sk_capacity sink \<and> ew_sinks w' = ew_sinks w \<and>
      concat (map submitted_rows subs) = map (row_image dev) (drop don (batch_rows batch)) \<and>
      (\<forall>s \<in> set subs. sub_device s = Some dev \<and> 0 < length (submitted_rows s) \<and> length (submitted_rows s) \<le> sk_capacity sink)"
proof (induction "rowCount batch - don" arbitrary: don sink w rule: less_induct)
  case less
  show ?case
  proof (cases "rowCount batch \<le> don")
    case True
    with less.prems show ?thesis
      by (intro exI [of _ sink] exI [of _ w] exI [of _ "[]"]) (simp add: write_pieces.simps [of db dev batch])
  next
    case False
    define n where "n = min (rowCount batch - don) (sk_capacity sink)"
    have n: "0 < n" "n \<le> sk_capacity sink" "don + n \<le> rowCount batch"
      using False less.prems by (auto simp: n_def sink_of_def)
    obtain s1 where s1: "stage sink dev batch don n = Some s1"
      using stage_defined [OF less.prems(1) n(2) cols b n(3)] by blast
    note col = stage_column [OF less.prems(1) n(2) cols s1]
    define sub where "sub = Columns dev (binds s1 dev n) (sk_data s1)"
    let ?w1 = "w\<lparr>ew_log := ew_log w @ [sub], ew_stats := count_outcome (db sub) (ew_stats w)\<rparr>"
    have step: "write_pieces db dev batch don sink w = write_pieces db dev batch (don + n) s1 ?w1"
      using False n s1 by (subst write_pieces.simps) (simp add: n_def [symmetric] sub_def Let_def)
    have lt: "rowCount batch - (don + n) < rowCount batch - don" using n by simp
    obtain sink' w' subs where rest: "write_pieces db dev batch (don + n) s1 ?w1 = Some (sink', w')"
      "ew_log w' = ew_log ?w1 @ subs" "sink_of dev sink'" "sk_capacity sink' = sk_capacity s1"
      "ew_sinks w' = ew_sinks ?w1"
      "concat (map submitted_rows subs) = map (row_image dev) (drop (don + n) (batch_rows batch))"
      "\<forall>s \<in> set subs. sub_device s = Some dev \<and> 0 < length (submitted_rows s) \<and>
        length (submitted_rows s) \<le> sk_capacity s1"
      using less.hyps [OF lt col(1) n(3), of ?w1] by blast
    have sr: "submitted_rows sub = map (row_image dev) (take n (drop don (batch_rows batch)))"
      unfolding sub_def by (rule stage_submitted [OF less.prems(1) n(2) cols b s1])
    have len: "length (submitted_rows sub) = n" using n(3) by (simp add: sr)
    have "take n (drop don (batch_rows batch)) @ drop (don + n) (batch_rows batch) = drop don (batch_rows batch)"
      by (metis append_take_drop_id add.commute drop_drop)
    then have rows: "submitted_rows sub @ map (row_image dev) (drop (don + n) (batch_rows batch)) =
        map (row_image dev) (drop don (batch_rows batch))"
      unfolding sr map_append [symmetric] by simp
    show ?thesis
    proof (intro exI conjI)
      show "write_pieces db dev batch don sink w = Some (sink', w')" unfolding step by (rule rest(1))
      show "ew_log w' = ew_log w @ (sub # subs)" using rest(2) by simp
      show "sink_of dev sink'" by (rule rest(3))
      show "sk_capacity sink' = sk_capacity sink" using rest(4) col(2) by simp
      show "ew_sinks w' = ew_sinks w" using rest(5) by simp
      show "concat (map submitted_rows (sub # subs)) = map (row_image dev) (drop don (batch_rows batch))"
        using rest(6) rows by simp
      show "\<forall>s \<in> set (sub # subs). sub_device s = Some dev \<and> 0 < length (submitted_rows s) \<and>
          length (submitted_rows s) \<le> sk_capacity sink"
        using rest(7) col(2) len n(1,2) by (auto simp: sub_def)
    qed
  qed
qed

section \<open>The stored value of a field\<close>

text \<open>
  A column value as the database reads it: little-endian two's complement of the column width. For
  every integer field except a whole unsigned 64-bit one it is the value of the field on the wire.
\<close>

fun le_value :: "bytes \<Rightarrow> nat" where
  "le_value [] = 0"
| "le_value (b # bs) = unat b + 256 * le_value bs"

lemma le_value_le_bytes: "le_value (le_bytes n v) = v mod 256 ^ n"
proof (induction n v rule: le_bytes.induct)
  case (2 n v)
  have "unat (word_of_nat (v mod 256) :: u8) = v mod 256" by (intro unat_of_nat_small) simp
  moreover have "v mod 256 + 256 * (v div 256 mod 256 ^ n) = v mod (256 * 256 ^ n)"
    by (simp add: mod_mult2_eq)
  ultimately show ?case using 2 by simp
qed simp

definition column_value :: "bytes \<Rightarrow> int" where
  "column_value bs = twos (8 * length bs) (le_value bs)"

lemma twos_mod:
  assumes "0 < n" "- (2 ^ (n - 1)) \<le> x" "x < 2 ^ (n - 1)"
  shows "twos n (nat (x mod 2 ^ n)) = x"
proof -
  have two: "(2::int) ^ n = 2 * 2 ^ (n - 1)" using assms(1) by (cases n) simp_all
  show ?thesis
  proof (cases "0 \<le> x")
    case True
    then have "x mod 2 ^ n = x" using assms(3) two by simp
    moreover have "nat x < 2 ^ (n - 1)" using True assms(3) by (simp add: nat_less_iff)
    ultimately show ?thesis using True by (simp add: twos_def)
  next
    case False
    have "x mod 2 ^ n = (x + 2 ^ n) mod 2 ^ n" by simp
    also have "\<dots> = x + 2 ^ n" using False assms(2) two by (intro mod_pos_pos_trivial) auto
    finally have m: "x mod 2 ^ n = x + 2 ^ n" .
    have "2 ^ (n - 1) \<le> x + 2 ^ n" using assms(2) two by simp
    then have "\<not> nat (x + 2 ^ n) < 2 ^ (n - 1)" by (simp add: nat_less_iff)
    moreover have "0 \<le> x + 2 ^ n" using \<open>2 ^ (n - 1) \<le> x + 2 ^ n\<close> zero_le_power [of "2::int" "n - 1"] by linarith
    ultimately show ?thesis by (simp add: m twos_def)
  qed
qed

lemma column_value_le:
  assumes "0 < w" "- (2 ^ (8 * w - 1)) \<le> x" "x < 2 ^ (8 * w - 1)"
  shows "column_value (le_bytes w (nat (x mod 2 ^ (8 * w)))) = x"
proof -
  have "(256::nat) ^ w = 2 ^ (8 * w)" by (simp add: power_mult)
  moreover have "nat (x mod 2 ^ (8 * w)) < 2 ^ (8 * w)" by (simp add: nat_less_iff)
  ultimately have "le_value (le_bytes w (nat (x mod 2 ^ (8 * w)))) = nat (x mod 2 ^ (8 * w))"
    by (simp add: le_value_le_bytes)
  with twos_mod [of "8 * w" x] assms show ?thesis by (simp add: column_value_def)
qed

lemma unat_ucast_of_int:
  "LENGTH('a::len) \<le> 64 \<Longrightarrow> unat (ucast (word_of_int x :: i64) :: 'a word) = nat (x mod 2 ^ LENGTH('a))"
  by (simp add: unsigned_ucast_eq unsigned_of_int take_bit_eq_mod [symmetric] nat_take_bit_eq min_def
      take_bit_nat_eq)

text \<open>The one integer type whose column is not wider than its values.\<close>

definition whole_uint64 :: "field_desc \<Rightarrow> bool" where
  "whole_uint64 f \<longleftrightarrow> fd_kind f = IntUnsigned \<and> fd_size f = 8 \<and> (fd_bitLen f = 0 \<or> fd_bitLen f = 64)"

definition materialized :: "field_desc \<Rightarrow> bool" where
  "materialized f \<longleftrightarrow> (\<exists>f0 i. f = materializeField f0 i)"

lemma materializeField_int:
  assumes "fd_kind f \<in> {IntSigned, IntUnsigned}"
  shows "\<not> fd_asDouble (materializeField f i)"
    and "fd_outSize (materializeField f i) = (if fd_kind f = IntSigned then fd_size f
           else if fd_size f = 1 then 2 else if fd_size f = 2 then 4 else 8)"
  using assms by (auto simp: materializeField_def materialize_kind_def split: prod.splits if_splits)

lemma materialized_out:
  assumes "materialized f" "fd_kind f \<in> {IntSigned, IntUnsigned}"
  shows "\<not> fd_asDouble f"
    and "fd_outSize f = (if fd_kind f = IntSigned then fd_size f
           else if fd_size f = 1 then 2 else if fd_size f = 2 then 4 else 8)"
  using assms materializeField_int by (auto simp: materialized_def materializeField_keeps)

lemma twos_range: "0 < n \<Longrightarrow> x < 2 ^ n \<Longrightarrow> - (2 ^ (n - 1)) \<le> twos n x \<and> twos n x < 2 ^ (n - 1)"
proof -
  assume n: "0 < n" and x: "x < 2 ^ n"
  have two: "(2::int) ^ n = 2 * 2 ^ (n - 1)" using n by (cases n) simp_all
  have x': "int x < 2 ^ n" using x by simp
  show ?thesis
  proof (cases "x < 2 ^ (n - 1)")
    case True
    then have "int x < 2 ^ (n - 1)" by simp
    moreover have "- (2 ^ (n - 1)) \<le> int x" by (rule order_trans [of _ 0]) simp_all
    ultimately show ?thesis using True by (simp add: twos_def)
  next
    case False
    then have "2 ^ (n - 1) \<le> int x" by simp
    moreover have "twos n x = int x - 2 ^ n" using False by (simp add: twos_def)
    moreover have "(0::int) < 2 ^ (n - 1)" by simp
    ultimately show ?thesis using x' two by linarith
  qed
qed

lemma int_field_value_range:
  assumes ok: "field_ok f" "fd_kind f \<in> {IntSigned, IntUnsigned}" and raw: "raw < 2 ^ (8 * unat (fd_size f))"
    and big: "\<not> whole_uint64 f" and out: "w = unat (if fd_kind f = IntSigned then fd_size f
           else if fd_size f = 1 then 2 else if fd_size f = 2 then 4 else (8 :: u8))"
  shows "0 < w" "- (2 ^ (8 * w - 1)) \<le> int_field_value f raw" "int_field_value f raw < 2 ^ (8 * w - 1)"
proof -
  define n where "n = (if 0 < fd_bitLen f then unat (fd_bitLen f) else unat (fd_size f) * 8)"
  define x where "x = (if 0 < fd_bitLen f then raw div 2 ^ unat (fd_bitOffset f) mod 2 ^ n else raw)"
  have size: "fd_size f \<in> {1, 2, 4, 8}" using ok by (auto simp: field_ok_def field_width_ok_def)
  have n0: "0 < n" using size by (auto simp: n_def unat_gt_0 word_gt_0)
  have n: "n \<le> 8 * unat (fd_size f)" using ok(1) by (auto simp: n_def field_ok_def field_bits_ok_def)
  have x: "x < 2 ^ n" using raw by (auto simp: x_def n_def mult.commute)
  have val: "int_field_value f raw = (if fd_kind f = IntSigned then twos n x else int x)"
    by (simp add: int_field_value_def n_def x_def Let_def)
  show w0: "0 < w" using size by (auto simp: out)
  show "- (2 ^ (8 * w - 1)) \<le> int_field_value f raw" "int_field_value f raw < 2 ^ (8 * w - 1)"
  proof -
    have "- (2 ^ (8 * w - 1)) \<le> int_field_value f raw \<and> int_field_value f raw < 2 ^ (8 * w - 1)"
    proof (cases "fd_kind f = IntSigned")
      case True
      then have w: "w = unat (fd_size f)" by (simp add: out)
      have "(2::int) ^ (n - 1) \<le> 2 ^ (8 * w - 1)" using n by (intro power_increasing) (simp_all add: w)
      moreover have "- (2 ^ (n - 1)) \<le> twos n x" "twos n x < 2 ^ (n - 1)" using twos_range [OF n0 x] by auto
      moreover have "int_field_value f raw = twos n x" using True val by simp
      ultimately show ?thesis by linarith
    next
      case False
      then have uns: "fd_kind f = IntUnsigned" using ok(2) by simp
      have "n \<le> 8 * w - 1"
      proof (cases "fd_size f = 8")
        case True
        then have "n \<noteq> 64" using big uns by (auto simp: whole_uint64_def n_def word_gt_0 word_unat_eq_iff)
        with n True uns show ?thesis by (simp add: out)
      next
        case False
        with size n uns show ?thesis by (auto simp: out)
      qed
      then have "(2::nat) ^ n \<le> 2 ^ (8 * w - 1)" by (intro power_increasing) simp_all
      with x have "x < 2 ^ (8 * w - 1)" by linarith
      then have "int x < 2 ^ (8 * w - 1)" by simp
      moreover have "- (2 ^ (8 * w - 1)) \<le> int x" by (rule order_trans [of _ 0]) simp_all
      moreover have "int_field_value f raw = int x" using uns val by simp
      ultimately show ?thesis by simp
    qed
    then show "- (2 ^ (8 * w - 1)) \<le> int_field_value f raw" "int_field_value f raw < 2 ^ (8 * w - 1)" by auto
  qed
qed

lemma stored_int_value:
  assumes "materialized f" "field_ok f" "fd_kind f \<in> {IntSigned, IntUnsigned}" "\<not> whole_uint64 f"
    and "length bs = unat (fd_size f)"
  shows "column_value (cell_bytes f \<lparr>cell_v = field_bits f be bs, cell_isNull = nu\<rparr>) =
    int_field_value f (wire_nat be bs)"
proof -
  note out = materialized_out [OF assms(1,3)]
  define w where "w = unat (fd_outSize f)"
  define x where "x = int_field_value f (wire_nat be bs)"
  have "wire_nat be bs < 256 ^ length bs" by (rule wire_nat_less)
  then have raw: "wire_nat be bs < 2 ^ (8 * unat (fd_size f))" by (simp add: assms(5) power_mult)
  note rng = int_field_value_range [OF assms(2,3) raw assms(4), of w, folded x_def]
  have w: "w = unat (if fd_kind f = IntSigned then fd_size f
           else if fd_size f = 1 then 2 else if fd_size f = 2 then 4 else (8 :: u8))"
    by (simp add: w_def out(2))
  have bits: "field_bits f be bs = word_of_int x"
    using assms(3) out(1) by (auto simp: field_bits_def x_def Let_def)
  have "fd_outSize f \<in> {1, 2, 4, 8}"
    using assms(2,3) by (auto simp: out(2) field_ok_def field_width_ok_def)
  moreover have "unat (ucast (word_of_int x :: i64) :: u8) = nat (x mod 2 ^ 8)"
    "unat (ucast (word_of_int x :: i64) :: u16) = nat (x mod 2 ^ 16)"
    "unat (ucast (word_of_int x :: i64) :: u32) = nat (x mod 2 ^ 32)"
    using unat_ucast_of_int [where 'a = 8, of x] unat_ucast_of_int [where 'a = 16, of x]
      unat_ucast_of_int [where 'a = 32, of x] by simp_all
  moreover have "unat (word_of_int x :: i64) = nat (x mod 2 ^ 64)"
    by (simp add: unsigned_of_int take_bit_eq_mod)
  ultimately have "cell_bytes f \<lparr>cell_v = field_bits f be bs, cell_isNull = nu\<rparr> = le_bytes w (nat (x mod 2 ^ (8 * w)))"
    using out(1) unfolding cell_bytes_def bits w_def by (elim insertE emptyE; simp only: if_True if_False) simp_all
  with column_value_le [OF rng(1) rng(2) rng(3)] w show ?thesis by (simp add: x_def)
qed

text \<open>A 32-bit float field is stored with the bits it had on the wire.\<close>

lemma stored_float32:
  assumes "materialized f" "fd_kind f = Float32"
    and "\<not> is_nan32 (if be then swap32 (le32 bs) else le32 bs)"
  shows "cell_bytes f \<lparr>cell_v = field_bits f be bs, cell_isNull = nu\<rparr> =
    le_bytes 4 (unat (if be then swap32 (le32 bs) else le32 bs))"
proof -
  obtain f0 i where f: "f = materializeField f0 i" using assms(1) by (auto simp: materialized_def)
  then have "fd_kind f0 = Float32" using assms(2) by (simp add: materializeField_keeps)
  then have "fd_asDouble f" "fd_outSize f = 4"
    by (simp_all add: f materializeField_def materialize_kind_def)
  then show ?thesis
    using f64_to_f32_to_f64 [OF assms(3)] by (simp add: cell_bytes_def field_bits_def assms(2))
qed

end
