(* ===== verification/Config_Index.thy ===== *)
theory Config_Index
  imports Config_Load "HOL-Library.Char_ord" "HOL-Library.List_Lexorder" "HOL-Library.Product_Lexorder"
begin

text \<open>
  \<open>ConfigDB::loadAll\<close>, \<open>rebuildIndexes\<close> and the lookups of the ingest path
  (\<open>src/src/adapter/ConfigDB.cpp\<close> and \<open>ConfigDB.h\<close>). The members of a group are pointers into
  \<open>_devices\<close>: they are kept as positions, so that the updates of ranking through the pointers are
  updates of the device list; \<open>group_view\<close> is the \<open>DeviceGroup\<close> a caller sees.
\<close>

section \<open>State\<close>

record raw_group =
  rg_key :: string
  rg_members :: "nat list"

record config_db =
  cdb_devices :: "device_desc list"
  cdb_specs :: specs
  cdb_listenPorts :: "u16 list"
  cdb_httpListenPorts :: "u16 list"
  cdb_groups :: "raw_group list"
  cdb_groupByIpPort :: "string \<Rightarrow> nat option"
  cdb_groupByIpUnique :: "string \<Rightarrow> nat option"
  cdb_httpByPort :: "u16 \<Rightarrow> nat option"

definition config_db_empty :: config_db where
  "config_db_empty =
     \<lparr>cdb_devices = [], cdb_specs = (\<lambda>_. None), cdb_listenPorts = [], cdb_httpListenPorts = [],
      cdb_groups = [], cdb_groupByIpPort = (\<lambda>_. None), cdb_groupByIpUnique = (\<lambda>_. None),
      cdb_httpByPort = (\<lambda>_. None)\<rparr>"

section \<open>Building the indexes\<close>

text \<open>Step 1: listen ports, in device order.\<close>

definition listen_port :: "config_db \<Rightarrow> nat \<times> device_desc \<Rightarrow> config_db" where
  "listen_port db p =
     (let (i, d) = p
      in if dd_localServerPort d = 0 then db
         else if dd_connProto d = CONN_HTTP then
           db\<lparr>cdb_httpListenPorts := cdb_httpListenPorts db @ [dd_localServerPort d],
              cdb_httpByPort := (case cdb_httpByPort db (dd_localServerPort d) of
                                   None \<Rightarrow> (cdb_httpByPort db)(dd_localServerPort d \<mapsto> i)
                                 | Some _ \<Rightarrow> cdb_httpByPort db)\<rparr>
         else if dd_connProto d = CONN_CUSTOM_DATA \<or> dd_connProto d = CONN_MODBUS then
           db\<lparr>cdb_listenPorts := cdb_listenPorts db @ [dd_localServerPort d]\<rparr>
         else db)"

definition sort_unique :: "u16 list \<Rightarrow> u16 list" where
  "sort_unique xs = remdups_adj (sort xs)"

definition index_ports :: "config_db \<Rightarrow> config_db" where
  "index_ports db =
     (let db1 = foldl listen_port db (enumerate 0 (cdb_devices db))
      in db1\<lparr>cdb_listenPorts := sort_unique (cdb_listenPorts db1),
             cdb_httpListenPorts := sort_unique (cdb_httpListenPorts db1)\<rparr>)"

text \<open>Step 2: one group per endpoint, a group of its own for a device without a source port.\<close>

definition endpoint_key :: "string \<Rightarrow> u16 \<Rightarrow> string" where
  "endpoint_key ip port = ip @ '':'' @ to_string (unat port)"

definition add_member :: "nat \<Rightarrow> nat \<Rightarrow> raw_group list \<Rightarrow> raw_group list" where
  "add_member gi i gs = gs[gi := (gs ! gi)\<lparr>rg_members := rg_members (gs ! gi) @ [i]\<rparr>]"

definition group_device :: "config_db \<Rightarrow> nat \<times> device_desc \<Rightarrow> config_db" where
  "group_device db p =
     (let (i, d) = p; gs = cdb_groups db
      in if dd_devicePort d \<noteq> 0 then
           (let key = endpoint_key (dd_ip d) (dd_devicePort d)
            in case cdb_groupByIpPort db key of
                 Some gi \<Rightarrow> db\<lparr>cdb_groups := add_member gi i gs\<rparr>
               | None \<Rightarrow>
                   db\<lparr>cdb_groups := gs @ [\<lparr>rg_key = key, rg_members = [i]\<rparr>],
                      cdb_groupByIpPort := (cdb_groupByIpPort db)(key \<mapsto> length gs)\<rparr>)
         else db\<lparr>cdb_groups := gs @ [\<lparr>rg_key = dd_ip d @ '':0#'' @ to_string i, rg_members = [i]\<rparr>]\<rparr>)"

definition index_groups :: "config_db \<Rightarrow> config_db" where
  "index_groups db = foldl group_device db (enumerate 0 (cdb_devices db))"

text \<open>
  Step 3: rank the members by \<open>(dataProtoId, deviceId)\<close>, status first, and write the routing into the
  devices. \<open>std::sort\<close> leaves the order of equal members open; the model keeps the table order.
\<close>

definition rank_key :: "device_desc list \<Rightarrow> nat \<Rightarrow> int \<times> string" where
  "rank_key devs i = (dd_dataProtoId (devs ! i), dd_deviceId (devs ! i))"

definition route_member :: "nat \<Rightarrow> int \<Rightarrow> device_desc list \<Rightarrow> nat \<times> nat \<Rightarrow> device_desc list" where
  "route_member gi baseProto devs p =
     (let (k, i) = p; d = devs ! i; ev = (0 < k)
      in devs[i := d\<lparr>dd_group := Some gi, dd_isEvent := ev,
                     dd_eventType := (if ev then dd_dataProtoId d - baseProto else 0),
                     dd_immediateFlush := (\<not> ev \<and> dd_connProto d = CONN_CUSTOM_DATA)\<rparr>])"

definition rank_group :: "config_db \<Rightarrow> nat \<Rightarrow> config_db" where
  "rank_group db gi =
     (let g = cdb_groups db ! gi; devs = cdb_devices db;
          members = sort_key (rank_key devs) (rg_members g);
          baseProto = dd_dataProtoId (devs ! hd members)
      in db\<lparr>cdb_groups := (cdb_groups db)[gi := g\<lparr>rg_members := members\<rparr>],
            cdb_devices := foldl (route_member gi baseProto) devs (enumerate 0 members)\<rparr>)"

definition index_ranks :: "config_db \<Rightarrow> config_db" where
  "index_ranks db = foldl rank_group db [0 ..< length (cdb_groups db)]"

text \<open>Step 4: the ip-only fallback, the text of the key up to its first colon.\<close>

definition key_ip :: "string \<Rightarrow> string" where
  "key_ip key = takeWhile (\<lambda>c. c \<noteq> CHR '':'') key"

definition ip_groups :: "raw_group list \<Rightarrow> string \<Rightarrow> nat" where
  "ip_groups gs ip = length (filter (\<lambda>g. key_ip (rg_key g) = ip) gs)"

definition unique_ip :: "config_db \<Rightarrow> nat \<Rightarrow> config_db" where
  "unique_ip db gi =
     (let ip = key_ip (rg_key (cdb_groups db ! gi))
      in if ip_groups (cdb_groups db) ip = 1
         then db\<lparr>cdb_groupByIpUnique := (cdb_groupByIpUnique db)(ip \<mapsto> gi)\<rparr> else db)"

definition index_ips :: "config_db \<Rightarrow> config_db" where
  "index_ips db = foldl unique_ip db [0 ..< length (cdb_groups db)]"

definition rebuildIndexes :: "config_db \<Rightarrow> config_db" where
  "rebuildIndexes db =
     index_ips (index_ranks (index_groups (index_ports
       (config_db_empty\<lparr>cdb_devices := cdb_devices db, cdb_specs := cdb_specs db\<rparr>))))"

section \<open>Loading\<close>

text \<open>
  What \<open>loadAll\<close> reads: whether the database is open, and for each table whether its statement can be
  prepared and which rows it yields.
\<close>

record db_content =
  dbc_open :: bool
  dbc_headers :: "header_schema \<times> sql_row list"
  dbc_fields :: "string option \<times> sql_row list"
  dbc_devices :: "string option \<times> sql_row list"

text \<open>A failing load leaves what was loaded before the failure behind; the caller exits then.\<close>

definition and_then :: "'a loaded option \<Rightarrow> ('a \<Rightarrow> 'b loaded option) \<Rightarrow> 'b loaded option" where
  "and_then m k = do { r \<leftarrow> m; (case r of LoadError e \<Rightarrow> Some (LoadError e) | Loaded x \<Rightarrow> k x) }"

definition loadAll :: "db_content \<Rightarrow> config_db loaded option" where
  "loadAll c =
     (if \<not> dbc_open c then Some (LoadError ''config db not open'')
      else and_then (loadHeaders (fst (dbc_headers c)) (snd (dbc_headers c)) (\<lambda>_. None)) (\<lambda>specs1.
           and_then (loadFields (fst (dbc_fields c)) (snd (dbc_fields c)) specs1) (\<lambda>specs2.
           and_then (loadDevices (fst (dbc_devices c)) (snd (dbc_devices c)) specs2) (\<lambda>devs.
           Some (Loaded (rebuildIndexes (config_db_empty\<lparr>cdb_devices := devs, cdb_specs := specs2\<rparr>)))))))"

lemma and_then_Loaded: "and_then m k = Some (Loaded y) \<longleftrightarrow> (\<exists>x. m = Some (Loaded x) \<and> k x = Some (Loaded y))"
  by (cases m) (auto simp: and_then_def split: loaded.splits)

section \<open>Lookups\<close>

definition group_view :: "config_db \<Rightarrow> nat \<Rightarrow> device_group" where
  "group_view db gi =
     \<lparr>dg_key = rg_key (cdb_groups db ! gi),
      dg_members = map (\<lambda>i. cdb_devices db ! i) (rg_members (cdb_groups db ! gi))\<rparr>"

definition matchGroupIndex :: "config_db \<Rightarrow> string \<Rightarrow> u16 \<Rightarrow> nat option" where
  "matchGroupIndex db ip peerPort =
     (case cdb_groupByIpPort db (endpoint_key ip peerPort) of
        Some gi \<Rightarrow> Some gi
      | None \<Rightarrow> cdb_groupByIpUnique db ip)"

definition matchGroup :: "config_db \<Rightarrow> string \<Rightarrow> u16 \<Rightarrow> device_group option" where
  "matchGroup db ip peerPort = map_option (group_view db) (matchGroupIndex db ip peerPort)"

definition matchDevice :: "config_db \<Rightarrow> string \<Rightarrow> u16 \<Rightarrow> device_desc option" where
  "matchDevice db ip peerPort = do { g \<leftarrow> matchGroup db ip peerPort; primary g }"

definition matchHttpDevice :: "config_db \<Rightarrow> string \<Rightarrow> u16 \<Rightarrow> u16 \<Rightarrow> device_desc option" where
  "matchHttpDevice db ip peerPort httpPort =
     (case matchDevice db ip peerPort of
        Some d \<Rightarrow>
          if dd_connProto d = CONN_HTTP then Some d
          else map_option (\<lambda>i. cdb_devices db ! i) (cdb_httpByPort db httpPort)
      | None \<Rightarrow> map_option (\<lambda>i. cdb_devices db ! i) (cdb_httpByPort db httpPort))"

section \<open>Endpoint keys\<close>

lemma enumerate_map: "enumerate 0 xs = map (\<lambda>i. (i, xs ! i)) [0 ..< length xs]"
  by (rule nth_equalityI) (simp_all add: nth_enumerate_eq)

lemma key_split:
  assumes "a @ CHR '':'' # s = b @ CHR '':'' # t" "CHR '':'' \<notin> set s" "CHR '':'' \<notin> set t"
  shows "a = b \<and> s = t"
proof -
  have suffix: "rev (takeWhile (\<lambda>c. c \<noteq> CHR '':'') (rev (x @ CHR '':'' # y))) = y"
    if "CHR '':'' \<notin> set y" for x y :: string
  proof -
    have "takeWhile (\<lambda>c. c \<noteq> CHR '':'') (rev y @ CHR '':'' # rev x) = rev y"
      using that by (subst takeWhile_append2) auto
    then show ?thesis by simp
  qed
  have "s = t" using suffix [OF assms(2), of a] suffix [OF assms(3), of b] assms(1) by simp
  with assms(1) show ?thesis by simp
qed

lemma no_colon_to_string: "CHR '':'' \<notin> set (to_string n)"
  using to_string_digits isdigit_not_sign by blast

lemma endpoint_key_inject: "endpoint_key ip p = endpoint_key ip' p' \<longleftrightarrow> ip = ip' \<and> p = p'"
proof
  assume "endpoint_key ip p = endpoint_key ip' p'"
  then have "ip = ip' \<and> to_string (unat p) = to_string (unat p')"
    unfolding endpoint_key_def by (intro key_split) (simp_all add: no_colon_to_string)
  then show "ip = ip' \<and> p = p'" by (simp add: word_unat_eq_iff)
qed simp

section \<open>Grouping\<close>

definition endpoint :: "device_desc \<Rightarrow> string option" where
  "endpoint d = (if dd_devicePort d = 0 then None else Some (endpoint_key (dd_ip d) (dd_devicePort d)))"

definition group_key :: "nat \<Rightarrow> device_desc \<Rightarrow> string" where
  "group_key i d = (case endpoint d of Some key \<Rightarrow> key | None \<Rightarrow> dd_ip d @ '':0#'' @ to_string i)"

text \<open>
  After the first \<open>n\<close> devices, \<open>slot i\<close> being the group of device \<open>i\<close>: two devices share a group
  exactly when they have the same endpoint.
\<close>

definition grouped :: "device_desc list \<Rightarrow> nat \<Rightarrow> (nat \<Rightarrow> nat) \<Rightarrow> config_db \<Rightarrow> bool" where
  "grouped devs n slot db \<longleftrightarrow>
     (\<forall>gi < length (cdb_groups db). rg_members (cdb_groups db ! gi) = filter (\<lambda>i. slot i = gi) [0 ..< n]) \<and>
     (\<forall>i < n. slot i < length (cdb_groups db)) \<and>
     (\<forall>i < n. \<forall>j < n. slot i = slot j \<longleftrightarrow>
        i = j \<or> (endpoint (devs ! i) \<noteq> None \<and> endpoint (devs ! i) = endpoint (devs ! j))) \<and>
     (\<forall>key. cdb_groupByIpPort db key =
        map_option slot (find (\<lambda>i. endpoint (devs ! i) = Some key) [0 ..< n])) \<and>
     (\<forall>gi < length (cdb_groups db). \<exists>i < n. slot i = gi) \<and>
     (\<forall>i < n. rg_key (cdb_groups db ! slot i) = group_key i (devs ! i))"

lemma group_device_join:
  assumes "endpoint d = Some key" "cdb_groupByIpPort db key = Some gi"
  shows "group_device db (i, d) = db\<lparr>cdb_groups := add_member gi i (cdb_groups db)\<rparr>"
  using assms by (auto simp: group_device_def endpoint_def Let_def split: if_splits)

lemma group_device_new:
  assumes "endpoint d = Some key" "cdb_groupByIpPort db key = None"
  shows "group_device db (i, d) =
    db\<lparr>cdb_groups := cdb_groups db @ [\<lparr>rg_key = group_key i d, rg_members = [i]\<rparr>],
       cdb_groupByIpPort := (cdb_groupByIpPort db)(key \<mapsto> length (cdb_groups db))\<rparr>"
  using assms by (auto simp: group_device_def group_key_def endpoint_def Let_def split: if_splits)

lemma group_device_alone:
  assumes "endpoint d = None"
  shows "group_device db (i, d) =
    db\<lparr>cdb_groups := cdb_groups db @ [\<lparr>rg_key = group_key i d, rg_members = [i]\<rparr>]\<rparr>"
  using assms by (auto simp: group_device_def group_key_def endpoint_def Let_def split: if_splits)

lemma find_append: "find P (xs @ ys) = (case find P xs of Some x \<Rightarrow> Some x | None \<Rightarrow> find P ys)"
  by (induction xs) auto

lemma map_option_find_upt:
  "(\<And>i. i < n \<Longrightarrow> f i = g i) \<Longrightarrow> map_option f (find P [0 ..< n]) = map_option g (find P [0 ..< n])"
  by (rule map_option_cong) (auto simp: find_Some_iff)

lemma filter_upt_upd:
  "filter (\<lambda>i. (f(n := x)) i = y) [0 ..< Suc n] =
   filter (\<lambda>i. f i = y) [0 ..< n] @ (if (f(n := x)) n = y then [n] else [])"
proof -
  have "filter (\<lambda>i. (f(n := x)) i = y) [0 ..< n] = filter (\<lambda>i. f i = y) [0 ..< n]"
    by (rule filter_cong) auto
  then show ?thesis by (simp del: fun_upd_apply)
qed

text \<open>A device that opens a group.\<close>

lemma grouped_open:
  assumes g: "grouped devs n slot db"
    and new: "endpoint (devs ! n) = None \<or> find (\<lambda>i. endpoint (devs ! i) = endpoint (devs ! n)) [0 ..< n] = None"
    and gs': "cdb_groups db' = cdb_groups db @ [\<lparr>rg_key = group_key n (devs ! n), rg_members = [n]\<rparr>]"
    and M': "cdb_groupByIpPort db' = (case endpoint (devs ! n) of None \<Rightarrow> cdb_groupByIpPort db
               | Some key \<Rightarrow> (cdb_groupByIpPort db)(key \<mapsto> length (cdb_groups db)))"
  shows "grouped devs (Suc n) (slot(n := length (cdb_groups db))) db'"
proof -
  let ?gs = "cdb_groups db" and ?s = "slot(n := length (cdb_groups db))"
  have keys: "cdb_groupByIpPort db key = map_option slot (find (\<lambda>i. endpoint (devs ! i) = Some key) [0 ..< n])"
    for key using g by (simp add: grouped_def)
  have bnd: "slot i < length ?gs" if "i < n" for i using g that by (simp add: grouped_def)
  have mem: "filter (\<lambda>i. ?s i = gi) [0 ..< Suc n] = filter (\<lambda>i. slot i = gi) [0 ..< n] @
      (if ?s n = gi then [n] else [])" for gi by (rule filter_upt_upd)
  have first: "map_option ?s (find P [0 ..< n]) = map_option slot (find P [0 ..< n])" for P
    by (rule map_option_find_upt) simp
  have fresh: "endpoint (devs ! n) = None \<or> endpoint (devs ! i) \<noteq> endpoint (devs ! n)" if "i < n" for i
    using new that by (auto simp: find_None_iff)
  show ?thesis
    unfolding grouped_def gs'
  proof (intro conjI allI impI)
    fix gi assume "gi < length (?gs @ [\<lparr>rg_key = group_key n (devs ! n), rg_members = [n]\<rparr>])"
    then show "rg_members ((?gs @ [\<lparr>rg_key = group_key n (devs ! n), rg_members = [n]\<rparr>]) ! gi) =
        filter (\<lambda>i. ?s i = gi) [0 ..< Suc n]"
      using g by (auto simp: mem grouped_def nth_append less_Suc_eq filter_empty_conv simp del: fun_upd_apply upt_Suc)
        (use bnd in fastforce)+
  next
    fix key
    show "cdb_groupByIpPort db' key = map_option ?s (find (\<lambda>i. endpoint (devs ! i) = Some key) [0 ..< Suc n])"
      using new first [of "\<lambda>i. endpoint (devs ! i) = Some key"] keys [of key]
      by (auto simp: M' find_append split: option.splits)
  next
    fix gi assume "gi < length (?gs @ [\<lparr>rg_key = group_key n (devs ! n), rg_members = [n]\<rparr>])"
    then consider "gi < length ?gs" | "gi = length ?gs" by fastforce
    then show "\<exists>i < Suc n. ?s i = gi"
    proof cases
      case 1
      then obtain i where "i < n" "slot i = gi" using g by (auto simp: grouped_def)
      then show ?thesis by (intro exI [of _ i]) simp
    qed (auto intro: exI [of _ n])
  next
    fix i j assume "i < Suc n" "j < Suc n"
    then show "(?s i = ?s j) =
        (i = j \<or> endpoint (devs ! i) \<noteq> None \<and> endpoint (devs ! i) = endpoint (devs ! j))"
      using g fresh [of i] fresh [of j] bnd [of i] bnd [of j]
      by (auto simp: grouped_def less_Suc_eq)
  next
    fix i assume "i < Suc n"
    then show "?s i < length (?gs @ [\<lparr>rg_key = group_key n (devs ! n), rg_members = [n]\<rparr>])"
      "rg_key ((?gs @ [\<lparr>rg_key = group_key n (devs ! n), rg_members = [n]\<rparr>]) ! ?s i) = group_key i (devs ! i)"
      using g bnd [of i] by (auto simp: grouped_def nth_append less_Suc_eq)
  qed
qed

text \<open>A device that joins the group of an earlier one.\<close>

lemma grouped_join:
  assumes g: "grouped devs n slot db"
    and join: "endpoint (devs ! n) = Some key"
      "find (\<lambda>i. endpoint (devs ! i) = Some key) [0 ..< n] = Some m"
    and gs': "cdb_groups db' = add_member (slot m) n (cdb_groups db)"
    and M': "cdb_groupByIpPort db' = cdb_groupByIpPort db"
  shows "grouped devs (Suc n) (slot(n := slot m)) db'"
proof -
  let ?gs = "cdb_groups db" and ?s = "slot(n := slot m)"
  have m: "m < n" "endpoint (devs ! m) = Some key" using join(2) by (auto simp: find_Some_iff)
  have bnd: "slot i < length ?gs" if "i < n" for i using g that by (simp add: grouped_def)
  have share: "slot i = slot j \<longleftrightarrow> i = j \<or> (endpoint (devs ! i) \<noteq> None \<and> endpoint (devs ! i) = endpoint (devs ! j))"
    if "i < n" "j < n" for i j using g that by (simp add: grouped_def)
  have mem: "filter (\<lambda>i. ?s i = gi) [0 ..< Suc n] = filter (\<lambda>i. slot i = gi) [0 ..< n] @
      (if ?s n = gi then [n] else [])" for gi by (rule filter_upt_upd)
  have first: "map_option ?s (find P [0 ..< n]) = map_option slot (find P [0 ..< n])" for P
    by (rule map_option_find_upt) simp
  have len: "length (add_member (slot m) n ?gs) = length ?gs" by (simp add: add_member_def)
  have keep: "rg_key (add_member (slot m) n ?gs ! gi) = rg_key (?gs ! gi)" if "gi < length ?gs" for gi
    using that bnd [OF m(1)] by (auto simp: add_member_def nth_list_update)
  show ?thesis
    unfolding grouped_def gs' M' len
  proof (intro conjI allI impI)
    fix gi assume "gi < length ?gs"
    then show "rg_members (add_member (slot m) n ?gs ! gi) = filter (\<lambda>i. ?s i = gi) [0 ..< Suc n]"
      unfolding mem using g bnd [OF m(1)] by (auto simp: grouped_def add_member_def nth_list_update)
    show "\<exists>i < Suc n. ?s i = gi"
      using g \<open>gi < length ?gs\<close> by (auto simp: grouped_def less_Suc_eq)
  next
    fix k
    show "cdb_groupByIpPort db k = map_option ?s (find (\<lambda>i. endpoint (devs ! i) = Some k) [0 ..< Suc n])"
      using g join first [of "\<lambda>i. endpoint (devs ! i) = Some k"]
      by (auto simp: grouped_def find_append split: option.splits)
  next
    fix i j assume "i < Suc n" "j < Suc n"
    then show "(?s i = ?s j) =
        (i = j \<or> endpoint (devs ! i) \<noteq> None \<and> endpoint (devs ! i) = endpoint (devs ! j))"
      using share m join(1) by (auto simp: less_Suc_eq)
  next
    fix i assume "i < Suc n"
    then show "?s i < length ?gs" using bnd m(1) by (auto simp: less_Suc_eq)
    show "rg_key (add_member (slot m) n ?gs ! ?s i) = group_key i (devs ! i)"
      using \<open>i < Suc n\<close> g bnd m join(1)
      by (auto simp: grouped_def keep less_Suc_eq group_key_def split: option.splits)
  qed
qed

lemma grouped_step:
  assumes g: "grouped devs n slot db"
  shows "\<exists>slot'. grouped devs (Suc n) slot' (group_device db (n, devs ! n))"
proof (cases "endpoint (devs ! n)")
  case None
  then show ?thesis
    using grouped_open [OF g, of "group_device db (n, devs ! n)"] by (auto simp: group_device_alone)
next
  case (Some key)
  show ?thesis
  proof (cases "find (\<lambda>i. endpoint (devs ! i) = Some key) [0 ..< n]")
    case None
    then have "cdb_groupByIpPort db key = None" using g by (simp add: grouped_def)
    with Some None show ?thesis
      using grouped_open [OF g, of "group_device db (n, devs ! n)"] by (auto simp: group_device_new)
  next
    case (Some m)
    then have "cdb_groupByIpPort db key = Some (slot m)" using g by (simp add: grouped_def)
    with \<open>endpoint (devs ! n) = Some key\<close> show ?thesis
      using grouped_join [OF g _ Some, of "group_device db (n, devs ! n)"] by (auto simp: group_device_join)
  qed
qed

lemma index_groups_grouped:
  assumes "cdb_groups db = []" "cdb_groupByIpPort db = (\<lambda>_. None)"
  shows "\<exists>slot. grouped (cdb_devices db) (length (cdb_devices db)) slot (index_groups db)"
proof -
  let ?devs = "cdb_devices db"
  have "\<exists>slot. grouped ?devs n slot (foldl (\<lambda>db i. group_device db (i, ?devs ! i)) db [0 ..< n])" for n
  proof (induction n)
    case 0
    show ?case using assms by (simp add: grouped_def)
  next
    case (Suc n)
    then show ?case using grouped_step by auto
  qed
  then show ?thesis by (simp add: index_groups_def enumerate_map foldl_map)
qed

lemma group_device_keeps:
  "cdb_devices (group_device db p) = cdb_devices db" "cdb_httpByPort (group_device db p) = cdb_httpByPort db"
  "cdb_listenPorts (group_device db p) = cdb_listenPorts db"
  "cdb_httpListenPorts (group_device db p) = cdb_httpListenPorts db"
  "cdb_groupByIpUnique (group_device db p) = cdb_groupByIpUnique db"
  by (auto simp: group_device_def Let_def split: prod.split option.split)

lemma foldl_keeps: "(\<And>s x. h (f s x) = h s) \<Longrightarrow> h (foldl f s xs) = h s"
  by (induction xs arbitrary: s) auto

lemma index_groups_keeps:
  "cdb_devices (index_groups db) = cdb_devices db" "cdb_httpByPort (index_groups db) = cdb_httpByPort db"
  "cdb_listenPorts (index_groups db) = cdb_listenPorts db"
  "cdb_httpListenPorts (index_groups db) = cdb_httpListenPorts db"
  "cdb_groupByIpUnique (index_groups db) = cdb_groupByIpUnique db"
  by (simp_all add: index_groups_def foldl_keeps group_device_keeps)

section \<open>Ranking\<close>

text \<open>What ranking writes into the device at rank \<open>k\<close> of group \<open>gi\<close>.\<close>

definition routed :: "nat \<Rightarrow> int \<Rightarrow> nat \<Rightarrow> device_desc \<Rightarrow> device_desc" where
  "routed gi baseProto k d =
     d\<lparr>dd_group := Some gi, dd_isEvent := (0 < k),
       dd_eventType := (if 0 < k then dd_dataProtoId d - baseProto else 0),
       dd_immediateFlush := (k = 0 \<and> dd_connProto d = CONN_CUSTOM_DATA)\<rparr>"

lemma route_member_eq: "route_member gi b devs (k, i) = devs[i := routed gi b k (devs ! i)]"
  by (simp add: route_member_def routed_def Let_def)

lemma route_length: "length (foldl (route_member gi b) devs ps) = length devs"
  by (induction ps arbitrary: devs) (auto simp: route_member_eq)

lemma route_outside:
  "i \<notin> snd ` set ps \<Longrightarrow> foldl (route_member gi b) devs ps ! i = devs ! i"
  by (induction ps arbitrary: devs) (auto simp: route_member_eq)

lemma route_members:
  assumes "distinct ms" "\<forall>i \<in> set ms. i < length devs" "k < length ms"
  shows "foldl (route_member gi b) devs (enumerate n ms) ! (ms ! k) = routed gi b (n + k) (devs ! (ms ! k))"
  using assms
proof (induction ms arbitrary: devs n k)
  case (Cons m ms)
  show ?case
  proof (cases k)
    case 0
    have "m \<notin> snd ` set (enumerate (Suc n) ms)"
      using Cons.prems(1) by (auto simp: in_set_enumerate_eq)
    with 0 Cons.prems show ?thesis by (simp add: route_member_eq route_outside)
  next
    case (Suc j)
    have "m \<noteq> ms ! j" using Cons.prems Suc by auto
    then show ?thesis
      using Cons.prems Suc Cons.IH [of "devs[m := routed gi b n (devs ! m)]" j "Suc n"]
      by (simp add: route_member_eq)
  qed
qed simp

lemma insort_key_local:
  "(\<And>y. y \<in> insert x (set xs) \<Longrightarrow> f y = g y) \<Longrightarrow> insort_key f x xs = insort_key g x xs"
  by (induction xs) auto

lemma sort_key_local: "(\<And>y. y \<in> set xs \<Longrightarrow> f y = g y) \<Longrightarrow> sort_key f xs = sort_key g xs"
  by (induction xs) (auto intro!: insort_key_local simp: set_sort)

definition rank_of :: "device_desc list \<Rightarrow> raw_group \<Rightarrow> nat list" where
  "rank_of devs g = sort_key (rank_key devs) (rg_members g)"

definition ranked :: "device_desc list \<Rightarrow> raw_group list \<Rightarrow> nat \<Rightarrow> config_db \<Rightarrow> bool" where
  "ranked devs gs n db \<longleftrightarrow>
     length (cdb_devices db) = length devs \<and> length (cdb_groups db) = length gs \<and>
     (\<forall>gi < length gs. rg_key (cdb_groups db ! gi) = rg_key (gs ! gi) \<and>
        (if gi < n
         then rg_members (cdb_groups db ! gi) = rank_of devs (gs ! gi) \<and>
              (\<forall>k < length (rank_of devs (gs ! gi)).
                 cdb_devices db ! (rank_of devs (gs ! gi) ! k) =
                 routed gi (dd_dataProtoId (devs ! hd (rank_of devs (gs ! gi)))) k
                   (devs ! (rank_of devs (gs ! gi) ! k)))
         else rg_members (cdb_groups db ! gi) = rg_members (gs ! gi) \<and>
              (\<forall>i \<in> set (rg_members (gs ! gi)). cdb_devices db ! i = devs ! i)))"

definition partitioned :: "device_desc list \<Rightarrow> raw_group list \<Rightarrow> bool" where
  "partitioned devs gs \<longleftrightarrow>
     (\<forall>g \<in> set gs. rg_members g \<noteq> [] \<and> distinct (rg_members g) \<and> (\<forall>i \<in> set (rg_members g). i < length devs)) \<and>
     (\<forall>gi < length gs. \<forall>gj < length gs. gi \<noteq> gj \<longrightarrow> set (rg_members (gs ! gi)) \<inter> set (rg_members (gs ! gj)) = {})"

lemma grouped_partitioned: "grouped devs (length devs) slot db \<Longrightarrow> partitioned devs (cdb_groups db)"
proof -
  assume g: "grouped devs (length devs) slot db"
  let ?gs = "cdb_groups db"
  have mem: "rg_members (?gs ! gi) = filter (\<lambda>i. slot i = gi) [0 ..< length devs]"
    and ex: "\<exists>i < length devs. slot i = gi" if "gi < length ?gs" for gi
    using g that unfolding grouped_def by blast+
  have "rg_members (?gs ! gi) \<noteq> []" if "gi < length ?gs" for gi
    using ex [OF that] by (auto simp: mem [OF that] filter_empty_conv)
  then have "\<forall>gi < length ?gs. rg_members (?gs ! gi) \<noteq> [] \<and> distinct (rg_members (?gs ! gi)) \<and>
      (\<forall>i \<in> set (rg_members (?gs ! gi)). i < length devs)" by (simp add: mem)
  then show ?thesis unfolding partitioned_def all_set_conv_all_nth by (auto simp: mem)
qed

lemma set_rank_of [simp]: "set (rank_of devs g) = set (rg_members g)"
  by (simp add: rank_of_def set_sort)

lemma rank_group_ranked:
  assumes part: "partitioned devs gs" and r: "ranked devs gs n db" and n: "n < length gs"
  shows "ranked devs gs (Suc n) (rank_group db n)"
proof -
  let ?g = "gs ! n" and ?ms = "rank_of devs (gs ! n)"
  have g: "rg_members (cdb_groups db ! n) = rg_members ?g"
    and same: "\<forall>i \<in> set (rg_members ?g). cdb_devices db ! i = devs ! i"
    and len: "length (cdb_devices db) = length devs" "length (cdb_groups db) = length gs"
    using r n by (auto simp: ranked_def)
  have dist: "distinct ?ms" and rng: "\<forall>i \<in> set ?ms. i < length (cdb_devices db)" and ne: "?ms \<noteq> []"
    using part n len set_empty [of "rank_of devs (gs ! n)"]
    by (auto simp: partitioned_def) (simp add: rank_of_def)
  have ms: "sort_key (rank_key (cdb_devices db)) (rg_members ?g) = ?ms"
    unfolding rank_of_def by (rule sort_key_local) (use same in \<open>auto simp: rank_key_def\<close>)
  define base where "base = dd_dataProtoId (devs ! hd ?ms)"
  have base: "dd_dataProtoId (cdb_devices db ! hd ?ms) = base"
    using same ne hd_in_set [OF ne] by (simp add: base_def)
  let ?devs' = "foldl (route_member n base) (cdb_devices db) (enumerate 0 ?ms)"
  have db': "rank_group db n = db\<lparr>cdb_groups := (cdb_groups db)[n := (cdb_groups db ! n)\<lparr>rg_members := ?ms\<rparr>],
      cdb_devices := ?devs'\<rparr>"
    by (simp add: rank_group_def Let_def g ms base)
  have new: "?devs' ! (?ms ! k) = routed n base k (devs ! (?ms ! k))" if "k < length ?ms" for k
    using route_members [OF dist rng that, of n base 0] same nth_mem [OF that] by simp
  have other: "?devs' ! i = cdb_devices db ! i" if "i \<notin> set (rg_members ?g)" for i
    by (rule route_outside) (use that in \<open>auto simp: in_set_enumerate_eq simp del: set_rank_of\<close>,
        metis nth_mem set_rank_of)
  have apart: "i \<notin> set (rg_members ?g)" if "gi < length gs" "gi \<noteq> n" "i \<in> set (rg_members (gs ! gi))" for gi i
    using part n that unfolding partitioned_def by blast
  show ?thesis
    unfolding ranked_def
  proof (intro conjI allI impI)
    fix gi assume gi: "gi < length gs"
    show "rg_key (cdb_groups (rank_group db n) ! gi) = rg_key (gs ! gi)"
      using r gi n len by (auto simp: ranked_def db' nth_list_update)
    show "if gi < Suc n
        then rg_members (cdb_groups (rank_group db n) ! gi) = rank_of devs (gs ! gi) \<and>
             (\<forall>k < length (rank_of devs (gs ! gi)).
                cdb_devices (rank_group db n) ! (rank_of devs (gs ! gi) ! k) =
                routed gi (dd_dataProtoId (devs ! hd (rank_of devs (gs ! gi)))) k
                  (devs ! (rank_of devs (gs ! gi) ! k)))
        else rg_members (cdb_groups (rank_group db n) ! gi) = rg_members (gs ! gi) \<and>
             (\<forall>i \<in> set (rg_members (gs ! gi)). cdb_devices (rank_group db n) ! i = devs ! i)"
    proof (cases "gi = n")
      case True
      then show ?thesis using new n len by (simp add: db' base_def)
    next
      case False
      have "?devs' ! i = cdb_devices db ! i" if "i \<in> set (rg_members (gs ! gi))" for i
        using other apart [OF gi False that] by simp
      moreover have "rank_of devs (gs ! gi) ! k \<in> set (rg_members (gs ! gi))"
        if "k < length (rank_of devs (gs ! gi))" for k
        using nth_mem [OF that] by simp
      ultimately show ?thesis using r gi False by (auto simp: ranked_def db' less_Suc_eq)
    qed
  qed (simp_all add: db' route_length len)
qed

lemma index_ranks_ranked:
  assumes "partitioned (cdb_devices db) (cdb_groups db)"
  shows "ranked (cdb_devices db) (cdb_groups db) (length (cdb_groups db)) (index_ranks db)"
proof -
  have "n \<le> length (cdb_groups db) \<Longrightarrow>
      ranked (cdb_devices db) (cdb_groups db) n (foldl rank_group db [0 ..< n])" for n
    by (induction n) (auto simp: ranked_def [of _ _ 0] intro: rank_group_ranked [OF assms])
  then show ?thesis by (simp add: index_ranks_def)
qed

lemma rank_group_keeps:
  "cdb_groupByIpPort (rank_group db gi) = cdb_groupByIpPort db"
  "cdb_groupByIpUnique (rank_group db gi) = cdb_groupByIpUnique db"
  "cdb_httpByPort (rank_group db gi) = cdb_httpByPort db"
  by (simp_all add: rank_group_def Let_def)

lemma index_ranks_keeps:
  "cdb_groupByIpPort (index_ranks db) = cdb_groupByIpPort db"
  "cdb_groupByIpUnique (index_ranks db) = cdb_groupByIpUnique db"
  "cdb_httpByPort (index_ranks db) = cdb_httpByPort db"
  by (simp_all add: index_ranks_def foldl_keeps rank_group_keeps)

lemma unique_ip_keeps:
  "cdb_groupByIpPort (unique_ip db gi) = cdb_groupByIpPort db" "cdb_groups (unique_ip db gi) = cdb_groups db"
  "cdb_devices (unique_ip db gi) = cdb_devices db" "cdb_httpByPort (unique_ip db gi) = cdb_httpByPort db"
  by (simp_all add: unique_ip_def Let_def)

lemma index_ips_keeps:
  "cdb_groupByIpPort (index_ips db) = cdb_groupByIpPort db" "cdb_groups (index_ips db) = cdb_groups db"
  "cdb_devices (index_ips db) = cdb_devices db" "cdb_httpByPort (index_ips db) = cdb_httpByPort db"
  by (simp_all add: index_ips_def foldl_keeps unique_ip_keeps)

lemma index_ips_unique:
  assumes "cdb_groupByIpUnique db = (\<lambda>_. None)"
  shows "cdb_groupByIpUnique (index_ips db) ip = Some gi \<longleftrightarrow>
    gi < length (cdb_groups db) \<and> key_ip (rg_key (cdb_groups db ! gi)) = ip \<and> ip_groups (cdb_groups db) ip = 1"
proof -
  let ?gs = "cdb_groups db"
  have once: "gi = gj" if "ip_groups ?gs ip = 1" "gi < length ?gs" "gj < length ?gs"
      "key_ip (rg_key (?gs ! gi)) = ip" "key_ip (rg_key (?gs ! gj)) = ip" for gi gj ip
  proof (rule ccontr)
    assume "gi \<noteq> gj"
    moreover have "card {i. i < length ?gs \<and> key_ip (rg_key (?gs ! i)) = ip} = 1"
      using that(1) by (simp add: ip_groups_def length_filter_conv_card)
    moreover have "{gi, gj} \<subseteq> {i. i < length ?gs \<and> key_ip (rg_key (?gs ! i)) = ip}" using that by auto
    ultimately show False by (metis card_2_iff card_mono finite_Collect_conjI finite_Collect_less_nat
          numeral_le_one_iff semiring_norm(69))
  qed
  have "n \<le> length ?gs \<Longrightarrow> (let u = foldl unique_ip db [0 ..< n] in cdb_groups u = ?gs \<and>
      (\<forall>ip gi. cdb_groupByIpUnique u ip = Some gi \<longleftrightarrow>
         gi < n \<and> key_ip (rg_key (?gs ! gi)) = ip \<and> ip_groups ?gs ip = 1))" for n
  proof (induction n)
    case 0
    show ?case using assms by simp
  next
    case (Suc n)
    then show ?case
      using once [of _ n] by (auto simp: Let_def unique_ip_def less_Suc_eq)
  qed
  from this [of "length ?gs"] show ?thesis by (simp add: index_ips_def Let_def)
qed

section \<open>What the lookups return\<close>

lemma index_ports_keeps:
  "cdb_devices (index_ports db) = cdb_devices db" "cdb_groups (index_ports db) = cdb_groups db"
  "cdb_groupByIpPort (index_ports db) = cdb_groupByIpPort db"
  "cdb_groupByIpUnique (index_ports db) = cdb_groupByIpUnique db"
proof -
  have "cdb_devices (listen_port db p) = cdb_devices db" "cdb_groups (listen_port db p) = cdb_groups db"
    "cdb_groupByIpPort (listen_port db p) = cdb_groupByIpPort db"
    "cdb_groupByIpUnique (listen_port db p) = cdb_groupByIpUnique db" for db p
    by (auto simp: listen_port_def Let_def split: prod.split)
  then show "cdb_devices (index_ports db) = cdb_devices db" "cdb_groups (index_ports db) = cdb_groups db"
    "cdb_groupByIpPort (index_ports db) = cdb_groupByIpPort db"
    "cdb_groupByIpUnique (index_ports db) = cdb_groupByIpUnique db"
    by (simp_all add: index_ports_def Let_def foldl_keeps)
qed

text \<open>The indexes of a device list: its groups before ranking, and the state after it.\<close>

definition indexed :: "device_desc list \<Rightarrow> (nat \<Rightarrow> nat) \<Rightarrow> raw_group list \<Rightarrow> config_db \<Rightarrow> bool" where
  "indexed devs slot gs db \<longleftrightarrow>
     partitioned devs gs \<and> ranked devs gs (length gs) db \<and>
     (\<forall>gi < length gs. rg_members (gs ! gi) = filter (\<lambda>i. slot i = gi) [0 ..< length devs]) \<and>
     (\<forall>i < length devs. slot i < length gs) \<and>
     (\<forall>i < length devs. \<forall>j < length devs. slot i = slot j \<longleftrightarrow>
        i = j \<or> (endpoint (devs ! i) \<noteq> None \<and> endpoint (devs ! i) = endpoint (devs ! j))) \<and>
     (\<forall>key. cdb_groupByIpPort db key =
        map_option slot (find (\<lambda>i. endpoint (devs ! i) = Some key) [0 ..< length devs])) \<and>
     (\<forall>ip gi. cdb_groupByIpUnique db ip = Some gi \<longleftrightarrow>
        gi < length gs \<and> key_ip (rg_key (gs ! gi)) = ip \<and> ip_groups gs ip = 1) \<and>
     (\<forall>i < length devs. rg_key (gs ! slot i) = group_key i (devs ! i)) \<and>
     (\<forall>gi < length gs. \<exists>i < length devs. slot i = gi)"

lemma ip_groups_keys: "map rg_key gs = map rg_key gs' \<Longrightarrow> ip_groups gs ip = ip_groups gs' ip"
proof -
  assume "map rg_key gs = map rg_key gs'"
  moreover have "ip_groups gs ip = length (filter (\<lambda>k. key_ip k = ip) (map rg_key gs))" for gs
    by (simp add: ip_groups_def filter_map comp_def)
  ultimately show ?thesis by metis
qed

lemma rebuildIndexes_indexed: "\<exists>slot gs. indexed (cdb_devices db) slot gs (rebuildIndexes db)"
proof -
  define db0 where "db0 = index_ports (config_db_empty\<lparr>cdb_devices := cdb_devices db, cdb_specs := cdb_specs db\<rparr>)"
  define db1 where "db1 = index_groups db0"
  define db2 where "db2 = index_ranks db1"
  let ?devs = "cdb_devices db" and ?gs = "cdb_groups db1"
  have db0: "cdb_devices db0 = ?devs" "cdb_groups db0 = []" "cdb_groupByIpPort db0 = (\<lambda>_. None)"
    "cdb_groupByIpUnique db0 = (\<lambda>_. None)"
    by (simp_all add: db0_def index_ports_keeps config_db_empty_def)
  obtain slot where g: "grouped ?devs (length ?devs) slot db1"
    using index_groups_grouped [of db0] db0 by (auto simp: db1_def)
  have part: "partitioned ?devs ?gs" by (rule grouped_partitioned [OF g])
  have dev1: "cdb_devices db1 = ?devs" by (simp add: db1_def index_groups_keeps db0)
  have r: "ranked ?devs ?gs (length ?gs) db2"
    using index_ranks_ranked [of db1] part by (simp add: dev1 db2_def)
  have keys: "map rg_key (cdb_groups db2) = map rg_key ?gs"
    by (rule nth_equalityI) (use r in \<open>auto simp: ranked_def\<close>)
  have "cdb_groupByIpUnique db2 = (\<lambda>_. None)"
    by (simp add: db2_def db1_def index_ranks_keeps index_groups_keeps db0)
  from index_ips_unique [OF this] have "cdb_groupByIpUnique (index_ips db2) ip = Some gi \<longleftrightarrow>
      gi < length ?gs \<and> key_ip (rg_key (?gs ! gi)) = ip \<and> ip_groups ?gs ip = 1" for ip gi
    using r ip_groups_keys [OF keys] by (auto simp: ranked_def)
  moreover have "ranked ?devs ?gs (length ?gs) (index_ips db2)"
    using r by (simp add: ranked_def index_ips_keeps)
  moreover have "cdb_groupByIpPort (index_ips db2) = cdb_groupByIpPort db1"
    by (simp add: index_ips_keeps db2_def index_ranks_keeps)
  ultimately have "indexed ?devs slot ?gs (index_ips db2)"
    using part g unfolding indexed_def grouped_def by simp
  moreover have "rebuildIndexes db = index_ips db2"
    by (simp add: rebuildIndexes_def db0_def db1_def db2_def)
  ultimately show ?thesis by metis
qed

lemma routed_simps [simp]:
  "dd_addr (routed gi b k d) = dd_addr d" "dd_spec (routed gi b k d) = dd_spec d"
  "dd_ip (routed gi b k d) = dd_ip d" "dd_devicePort (routed gi b k d) = dd_devicePort d"
  "dd_connProto (routed gi b k d) = dd_connProto d" "dd_dataProtoId (routed gi b k d) = dd_dataProtoId d"
  "dd_deviceId (routed gi b k d) = dd_deviceId d" "dd_isEvent (routed gi b k d) = (0 < k)"
  "dd_group (routed gi b k d) = Some gi"
  by (simp_all add: routed_def)

lemma group_view_members:
  assumes "indexed devs slot gs db" "gi < length gs"
  shows "dg_members (group_view db gi) =
    map (\<lambda>k. routed gi (dd_dataProtoId (devs ! hd (rank_of devs (gs ! gi)))) k (devs ! (rank_of devs (gs ! gi) ! k)))
        [0 ..< length (rank_of devs (gs ! gi))]"
proof -
  have "rg_members (cdb_groups db ! gi) = rank_of devs (gs ! gi)"
    and "\<forall>k < length (rank_of devs (gs ! gi)). cdb_devices db ! (rank_of devs (gs ! gi) ! k) =
      routed gi (dd_dataProtoId (devs ! hd (rank_of devs (gs ! gi)))) k (devs ! (rank_of devs (gs ! gi) ! k))"
    using assms by (auto simp: indexed_def ranked_def)
  then show ?thesis by (intro nth_equalityI) (simp_all add: group_view_def)
qed

lemma matchGroupIndex_bound:
  "indexed devs slot gs db \<Longrightarrow> matchGroupIndex db ip p = Some gi \<Longrightarrow> gi < length gs"
proof -
  assume ix: "indexed devs slot gs db" and m: "matchGroupIndex db ip p = Some gi"
  have bnd: "slot i < length gs" if "i < length devs" for i using ix that by (simp add: indexed_def)
  have uni: "gi < length gs" if "cdb_groupByIpUnique db ip = Some gi" using ix that by (simp add: indexed_def)
  have "cdb_groupByIpPort db (endpoint_key ip p) =
      map_option slot (find (\<lambda>i. endpoint (devs ! i) = Some (endpoint_key ip p)) [0 ..< length devs])"
    using ix by (simp add: indexed_def)
  with m uni bnd show ?thesis
    by (auto simp: matchGroupIndex_def find_Some_iff split: option.splits)
qed

lemma matchGroup_members_in:
  assumes "indexed devs slot gs db" "matchGroup db ip p = Some g"
  shows "dg_members g \<noteq> [] \<and> (\<forall>d \<in> set (dg_members g). \<exists>i < length devs. \<exists>gi b k. d = routed gi b k (devs ! i))"
proof -
  obtain gi where gi: "gi < length gs" and g: "g = group_view db gi"
    using assms matchGroupIndex_bound [OF assms(1)] by (auto simp: matchGroup_def)
  have "gs ! gi \<in> set gs" using gi by simp
  then have part: "rg_members (gs ! gi) \<noteq> []" "\<forall>i \<in> set (rg_members (gs ! gi)). i < length devs"
    using assms(1) by (auto simp: indexed_def partitioned_def)
  then have "rank_of devs (gs ! gi) \<noteq> []" by (metis set_empty set_rank_of)
  moreover have "rank_of devs (gs ! gi) ! k < length devs" if "k < length (rank_of devs (gs ! gi))" for k
    using part(2) nth_mem [OF that] by simp
  ultimately show ?thesis by (auto simp: g group_view_members [OF assms(1) gi]) blast
qed

lemma endpoint_device: "dd_devicePort d \<noteq> 0 \<Longrightarrow> endpoint d = Some (endpoint_key (dd_ip d) (dd_devicePort d))"
  by (simp add: endpoint_def)

lemma matchGroup_own_slot:
  assumes ix: "indexed devs slot gs db" and i: "i < length devs" "dd_devicePort (devs ! i) \<noteq> 0"
  shows "matchGroupIndex db (dd_ip (devs ! i)) (dd_devicePort (devs ! i)) = Some (slot i)"
proof -
  let ?key = "endpoint_key (dd_ip (devs ! i)) (dd_devicePort (devs ! i))"
  have ei: "endpoint (devs ! i) = Some ?key" by (rule endpoint_device [OF i(2)])
  then obtain j where j: "find (\<lambda>i. endpoint (devs ! i) = Some ?key) [0 ..< length devs] = Some j"
    using i(1) by (cases "find (\<lambda>i. endpoint (devs ! i) = Some ?key) [0 ..< length devs]")
      (auto simp: find_None_iff)
  then have "j < length devs" "endpoint (devs ! j) = Some ?key" by (auto simp: find_Some_iff)
  then have "slot j = slot i" using ix i(1) ei by (simp add: indexed_def)
  with ix j show ?thesis by (simp add: matchGroupIndex_def indexed_def)
qed

lemma endpoint_eq_iff:
  "dd_devicePort d \<noteq> 0 \<Longrightarrow> endpoint d = endpoint e \<longleftrightarrow> dd_ip e = dd_ip d \<and> dd_devicePort e = dd_devicePort d"
  by (auto simp: endpoint_def endpoint_key_inject)

text \<open>The endpoint of a device finds exactly the devices with that endpoint, ranked.\<close>

definition status_first :: "device_group \<Rightarrow> bool" where
  "status_first g \<longleftrightarrow>
     sorted (map (\<lambda>d. (dd_dataProtoId d, dd_deviceId d)) (dg_members g)) \<and>
     (\<forall>k < length (dg_members g).
        (dd_isEvent (dg_members g ! k) \<longleftrightarrow> 0 < k) \<and>
        (dd_immediateFlush (dg_members g ! k) \<longleftrightarrow> k = 0 \<and> dd_connProto (dg_members g ! k) = CONN_CUSTOM_DATA) \<and>
        dd_eventType (dg_members g ! k) =
          dd_dataProtoId (dg_members g ! k) - dd_dataProtoId (dg_members g ! 0))"

lemma group_view_status_first:
  assumes "indexed devs slot gs db" "gi < length gs"
  shows "status_first (group_view db gi)"
proof -
  let ?ms = "rank_of devs (gs ! gi)"
  have keys: "map (\<lambda>d. (dd_dataProtoId d, dd_deviceId d)) (dg_members (group_view db gi)) = map (rank_key devs) ?ms"
    by (rule nth_equalityI) (simp_all add: group_view_members [OF assms] rank_key_def)
  have "sorted (map (rank_key devs) ?ms)" by (simp add: rank_of_def)
  moreover have "?ms \<noteq> [] \<Longrightarrow> hd ?ms = ?ms ! 0" by (rule hd_conv_nth)
  ultimately show ?thesis
    unfolding status_first_def keys
    by (cases "?ms = []") (auto simp: group_view_members [OF assms] routed_def)
qed

definition same_endpoint :: "device_desc \<Rightarrow> device_desc \<Rightarrow> bool" where
  "same_endpoint d e \<longleftrightarrow> dd_devicePort d \<noteq> 0 \<and> dd_ip d = dd_ip e \<and> dd_devicePort d = dd_devicePort e"

lemma group_view_addrs:
  assumes loaded: "devices_loaded devs" and ix: "indexed devs slot gs db" and gi: "gi < length gs"
  shows "map dd_addr (dg_members (group_view db gi)) = rank_of devs (gs ! gi)"
    "distinct (rank_of devs (gs ! gi))" "set (rank_of devs (gs ! gi)) = {j. j < length devs \<and> slot j = gi}"
proof -
  let ?ms = "rank_of devs (gs ! gi)"
  have mem: "rg_members (gs ! gi) = filter (\<lambda>j. slot j = gi) [0 ..< length devs]"
    using ix gi by (simp add: indexed_def)
  show set_ms: "set ?ms = {j. j < length devs \<and> slot j = gi}" by (auto simp: mem)
  show "distinct ?ms" by (simp add: rank_of_def mem)
  show "map dd_addr (dg_members (group_view db gi)) = ?ms"
  proof (rule nth_equalityI)
    fix k assume "k < length (map dd_addr (dg_members (group_view db gi)))"
    then have k: "k < length ?ms" by (simp add: group_view_members [OF ix gi])
    then have "?ms ! k < length devs" using nth_mem [OF k] set_ms by blast
    with k loaded show "map dd_addr (dg_members (group_view db gi)) ! k = ?ms ! k"
      by (simp add: group_view_members [OF ix gi] devices_loaded_def device_loaded_def Let_def)
  qed (simp add: group_view_members [OF ix gi])
qed

lemma same_slot:
  assumes ix: "indexed devs slot gs db" and "i < length devs" "j < length devs"
  shows "slot j = slot i \<longleftrightarrow> j = i \<or> same_endpoint (devs ! i) (devs ! j)"
proof -
  have "slot i = slot j \<longleftrightarrow> i = j \<or> (endpoint (devs ! i) \<noteq> None \<and> endpoint (devs ! i) = endpoint (devs ! j))"
    using assms unfolding indexed_def by blast
  moreover have "endpoint (devs ! i) \<noteq> None \<and> endpoint (devs ! i) = endpoint (devs ! j) \<longleftrightarrow>
      same_endpoint (devs ! i) (devs ! j)"
    by (auto simp: same_endpoint_def endpoint_def endpoint_key_inject)
  ultimately show ?thesis by metis
qed

lemma matchGroup_exact:
  assumes loaded: "devices_loaded devs" and i: "i < length devs" "dd_devicePort (devs ! i) \<noteq> 0"
    and ix: "indexed devs slot gs db"
  shows "\<exists>g. matchGroup db (dd_ip (devs ! i)) (dd_devicePort (devs ! i)) = Some g \<and> status_first g \<and>
    distinct (map dd_addr (dg_members g)) \<and>
    set (map dd_addr (dg_members g)) =
      {j. j < length devs \<and> dd_ip (devs ! j) = dd_ip (devs ! i) \<and> dd_devicePort (devs ! j) = dd_devicePort (devs ! i)}"
proof -
  have gi: "slot i < length gs" using ix i(1) by (simp add: indexed_def)
  have "slot j = slot i \<longleftrightarrow> dd_ip (devs ! j) = dd_ip (devs ! i) \<and> dd_devicePort (devs ! j) = dd_devicePort (devs ! i)"
    if "j < length devs" for j
    using same_slot [OF ix i(1) that] i(2) by (auto simp: same_endpoint_def)
  then have "{j. j < length devs \<and> slot j = slot i} = {j. j < length devs \<and>
      dd_ip (devs ! j) = dd_ip (devs ! i) \<and> dd_devicePort (devs ! j) = dd_devicePort (devs ! i)}" by blast
  moreover have "matchGroup db (dd_ip (devs ! i)) (dd_devicePort (devs ! i)) = Some (group_view db (slot i))"
    by (simp add: matchGroup_def matchGroup_own_slot [OF ix i])
  ultimately show ?thesis
    using group_view_status_first [OF ix gi] group_view_addrs [OF loaded ix gi] by metis
qed

text \<open>What a successful load went through.\<close>

lemma loadAll_Loaded:
  assumes "loadAll c = Some (Loaded db)"
  obtains specs1 specs2 devs where
    "loadHeaders (fst (dbc_headers c)) (snd (dbc_headers c)) (\<lambda>_. None) = Some (Loaded specs1)"
    "loadFields (fst (dbc_fields c)) (snd (dbc_fields c)) specs1 = Some (Loaded specs2)"
    "loadDevices (fst (dbc_devices c)) (snd (dbc_devices c)) specs2 = Some (Loaded devs)"
    "db = rebuildIndexes (config_db_empty\<lparr>cdb_devices := devs, cdb_specs := specs2\<rparr>)"
  using assms by (auto simp: loadAll_def and_then_Loaded split: if_splits)

lemma loadAll_indexed:
  assumes "loadAll c = Some (Loaded db)"
  shows "\<exists>devs slot gs. devices_loaded devs \<and> indexed devs slot gs db"
proof -
  obtain specs1 specs2 devs where
    h: "loadHeaders (fst (dbc_headers c)) (snd (dbc_headers c)) (\<lambda>_. None) = Some (Loaded specs1)"
    and f: "loadFields (fst (dbc_fields c)) (snd (dbc_fields c)) specs1 = Some (Loaded specs2)"
    and d: "loadDevices (fst (dbc_devices c)) (snd (dbc_devices c)) specs2 = Some (Loaded devs)"
    and db: "db = rebuildIndexes (config_db_empty\<lparr>cdb_devices := devs, cdb_specs := specs2\<rparr>)"
    using loadAll_Loaded [OF assms] .
  have "specs_ok (\<lambda>_. None)" by (simp add: specs_ok_def)
  from loadDevices_loaded [OF loadFields_ok [OF loadHeaders_ok [OF this h] f] d]
  show ?thesis
    using rebuildIndexes_indexed [of "config_db_empty\<lparr>cdb_devices := devs, cdb_specs := specs2\<rparr>"]
    by (auto simp: db)
qed

text \<open>Indexing only routes a device; everything else of it stays as it was loaded.\<close>

lemma indexed_device:
  assumes ix: "indexed devs slot gs db" and i: "i < length devs"
  shows "\<exists>gi b k. cdb_devices db ! i = routed gi b k (devs ! i)"
proof -
  have rk: "\<forall>gi < length gs. \<forall>k < length (rank_of devs (gs ! gi)). cdb_devices db ! (rank_of devs (gs ! gi) ! k) =
        routed gi (dd_dataProtoId (devs ! hd (rank_of devs (gs ! gi)))) k (devs ! (rank_of devs (gs ! gi) ! k))"
    using ix by (auto simp: indexed_def ranked_def)
  have mem: "\<forall>gi < length gs. rg_members (gs ! gi) = filter (\<lambda>i. slot i = gi) [0 ..< length devs]"
    and bnd: "\<forall>i < length devs. slot i < length gs"
    using ix by (simp_all add: indexed_def)
  have "i \<in> set (rank_of devs (gs ! slot i))" using i mem bnd by simp
  then obtain k where "k < length (rank_of devs (gs ! slot i))" "rank_of devs (gs ! slot i) ! k = i"
    by (auto simp: in_set_conv_nth simp del: set_rank_of)
  with rk bnd i show ?thesis by metis
qed

lemma key_ip_group_key: "CHR '':'' \<notin> set (dd_ip d) \<Longrightarrow> key_ip (group_key i d) = dd_ip d"
proof -
  assume "CHR '':'' \<notin> set (dd_ip d)"
  then have "takeWhile (\<lambda>c. c \<noteq> CHR '':'') (dd_ip d @ CHR '':'' # t) = dd_ip d" for t
    by (subst takeWhile_append2) auto
  then show ?thesis by (auto simp: key_ip_def group_key_def endpoint_def endpoint_key_def)
qed

lemma only_member: "x \<in> A \<and> card A = 1 \<longleftrightarrow> A = {x}"
  by (auto simp: card_1_singleton_iff)

text \<open>An address is unique exactly when all its devices are in one group.\<close>

lemma groupByIpUnique_iff:
  assumes ix: "indexed devs slot gs db" and plain: "\<forall>d \<in> set devs. CHR '':'' \<notin> set (dd_ip d)"
  shows "cdb_groupByIpUnique db ip = Some gi \<longleftrightarrow>
    (\<exists>i < length devs. slot i = gi \<and> dd_ip (devs ! i) = ip) \<and>
    (\<forall>j < length devs. dd_ip (devs ! j) = ip \<longrightarrow> slot j = gi)"
proof -
  have key: "key_ip (rg_key (gs ! slot i)) = dd_ip (devs ! i)" "slot i < length gs" if "i < length devs" for i
    using ix plain that key_ip_group_key by (simp_all add: indexed_def)
  have onto: "\<exists>i < length devs. slot i = g" if "g < length gs" for g using ix that by (simp add: indexed_def)
  let ?G = "{g. g < length gs \<and> key_ip (rg_key (gs ! g)) = ip}"
  have G: "?G = slot ` {j. j < length devs \<and> dd_ip (devs ! j) = ip}"
    using key onto by (auto simp: image_iff) metis
  have "cdb_groupByIpUnique db ip = Some gi \<longleftrightarrow> gi \<in> ?G \<and> card ?G = 1"
    using ix by (simp add: indexed_def ip_groups_def length_filter_conv_card)
  also have "\<dots> \<longleftrightarrow> ?G = {gi}"
    by (rule only_member)
  also have "\<dots> \<longleftrightarrow> (\<exists>i < length devs. slot i = gi \<and> dd_ip (devs ! i) = ip) \<and>
      (\<forall>j < length devs. dd_ip (devs ! j) = ip \<longrightarrow> slot j = gi)"
    unfolding G by blast
  finally show ?thesis .
qed

lemma matchGroup_fallback:
  assumes loaded: "devices_loaded devs" and ix: "indexed devs slot gs db"
    and plain: "\<forall>d \<in> set devs. CHR '':'' \<notin> set (dd_ip d)"
    and none: "\<forall>d \<in> set devs. \<not> (dd_ip d = ip \<and> dd_devicePort d = port \<and> port \<noteq> 0)"
  shows "if \<exists>i < length devs. dd_ip (devs ! i) = ip \<and>
           (\<forall>j < length devs. dd_ip (devs ! j) = ip \<longrightarrow> j = i \<or> same_endpoint (devs ! i) (devs ! j))
    then \<exists>g. matchGroup db ip port = Some g \<and> status_first g \<and>
           set (map dd_addr (dg_members g)) = {j. j < length devs \<and> dd_ip (devs ! j) = ip}
    else matchGroup db ip port = None"
proof -
  have "cdb_groupByIpPort db (endpoint_key ip port) = None"
    using ix none by (auto simp: indexed_def find_None_iff endpoint_def endpoint_key_inject)
  then have m: "matchGroup db ip port = map_option (group_view db) (cdb_groupByIpUnique db ip)"
    by (simp add: matchGroup_def matchGroupIndex_def)
  have u: "cdb_groupByIpUnique db ip = Some gi \<longleftrightarrow>
    (\<exists>i < length devs. slot i = gi \<and> dd_ip (devs ! i) = ip) \<and>
    (\<forall>j < length devs. dd_ip (devs ! j) = ip \<longrightarrow> slot j = gi)" for gi
    by (rule groupByIpUnique_iff [OF ix plain])
  show ?thesis
  proof (split if_split, intro conjI impI)
    assume "\<exists>i < length devs. dd_ip (devs ! i) = ip \<and>
           (\<forall>j < length devs. dd_ip (devs ! j) = ip \<longrightarrow> j = i \<or> same_endpoint (devs ! i) (devs ! j))"
    then obtain i where i: "i < length devs" "dd_ip (devs ! i) = ip"
      "\<forall>j < length devs. dd_ip (devs ! j) = ip \<longrightarrow> slot j = slot i"
      using same_slot [OF ix] by metis
    then have s: "cdb_groupByIpUnique db ip = Some (slot i)" using u by blast
    have gi: "slot i < length gs" using ix i(1) by (simp add: indexed_def)
    have "dd_ip (devs ! j) = ip" if "j < length devs" "slot j = slot i" for j
      using same_slot [OF ix i(1) that(1)] that(2) i(2) by (auto simp: same_endpoint_def)
    then have "{j. j < length devs \<and> slot j = slot i} = {j. j < length devs \<and> dd_ip (devs ! j) = ip}"
      using i(3) by blast
    then have "set (map dd_addr (dg_members (group_view db (slot i)))) = {j. j < length devs \<and> dd_ip (devs ! j) = ip}"
      by (simp only: group_view_addrs [OF loaded ix gi])
    moreover have "matchGroup db ip port = Some (group_view db (slot i))" by (simp add: m s)
    ultimately show "\<exists>g. matchGroup db ip port = Some g \<and> status_first g \<and>
           set (map dd_addr (dg_members g)) = {j. j < length devs \<and> dd_ip (devs ! j) = ip}"
      using group_view_status_first [OF ix gi] by blast
  next
    assume no: "\<not> (\<exists>i < length devs. dd_ip (devs ! i) = ip \<and>
           (\<forall>j < length devs. dd_ip (devs ! j) = ip \<longrightarrow> j = i \<or> same_endpoint (devs ! i) (devs ! j)))"
    have "cdb_groupByIpUnique db ip \<noteq> Some gi" for gi
    proof
      assume "cdb_groupByIpUnique db ip = Some gi"
      then obtain i where "i < length devs" "dd_ip (devs ! i) = ip"
        "\<forall>j < length devs. dd_ip (devs ! j) = ip \<longrightarrow> slot j = slot i" using u by metis
      with no same_slot [OF ix] show False by metis
    qed
    then have "cdb_groupByIpUnique db ip = None" by blast
    then show "matchGroup db ip port = None" by (simp add: m)
  qed
qed

lemma indexed_length: "indexed devs slot gs db \<Longrightarrow> length (cdb_devices db) = length devs"
  by (simp add: indexed_def ranked_def)

end
