(* ===== verification/Ingest_Server.thy ===== *)
theory Ingest_Server
  imports Config_Index Parser_Worker
begin

text \<open>
  The unified TCP listener (\<open>src/src/adapter/IngestServer.cpp\<close>): connections are bound to peer groups
  and every message becomes one chunk of the ingest queue. The network library delivers the
  callbacks; a connection pointer is a number.
\<close>

section \<open>State\<close>

record ingest_server =
  is_groupByConn :: "nat \<Rightarrow> nat option option"
  is_queue :: "raw_chunk list"
  is_stats :: adapter_stats

definition ingest_new :: "adapter_stats \<Rightarrow> ingest_server" where
  "ingest_new stats = \<lparr>is_groupByConn = (\<lambda>_. None), is_queue = [], is_stats = stats\<rparr>"

text \<open>The ports of \<open>start\<close>: those of the devices and the extra ones, sorted, without duplicates.\<close>

definition ingest_ports :: "config_db \<Rightarrow> u16 list \<Rightarrow> u16 list loaded" where
  "ingest_ports db extraListenPorts =
     (let ports = sort_unique (cdb_listenPorts db @ extraListenPorts)
      in if ports = []
         then LoadError (''no listen ports: device_table.local_server_port is empty and '' @
                         ''[server].extraListenPorts is not configured'')
         else Loaded ports)"

section \<open>Callbacks\<close>

definition onConnected :: "config_db \<Rightarrow> nat \<Rightarrow> string \<Rightarrow> u16 \<Rightarrow> ingest_server \<Rightarrow> ingest_server" where
  "onConnected db conn ip port s =
     s\<lparr>is_groupByConn := (is_groupByConn s)(conn \<mapsto> matchGroupIndex db ip port),
       is_stats := (is_stats s)\<lparr>as_connsOpened := as_connsOpened (is_stats s) + 1\<rparr>\<rparr>"

definition onDisconnected :: "nat \<Rightarrow> ingest_server \<Rightarrow> ingest_server" where
  "onDisconnected conn s =
     (case is_groupByConn s conn of
        None \<Rightarrow> s
      | Some _ \<Rightarrow> s\<lparr>is_groupByConn := (is_groupByConn s)(conn := None)\<rparr>)"

definition ingestable :: "device_group \<Rightarrow> bool" where
  "ingestable g \<longleftrightarrow>
     (case primary g of
        None \<Rightarrow> False
      | Some dev \<Rightarrow> (dd_connProto dev = CONN_CUSTOM_DATA \<or> dd_connProto dev = CONN_MODBUS) \<and>
                    fs_fields (dd_spec dev) \<noteq> [])"

definition onMessage ::
  "config_db \<Rightarrow> nat \<Rightarrow> string \<Rightarrow> u16 \<Rightarrow> bytes \<Rightarrow> i64 \<Rightarrow> ingest_server \<Rightarrow> ingest_server"
where
  "onMessage db conn ip port data microSeconds s =
     (if data = [] then s
      else
        let st1 = (is_stats s)\<lparr>as_bytesIn := as_bytesIn (is_stats s) + word_of_nat (length data)\<rparr>;
            bound = (case is_groupByConn s conn of Some (Some gi) \<Rightarrow> Some gi | _ \<Rightarrow> None);
            found = (case bound of Some gi \<Rightarrow> Some gi | None \<Rightarrow> matchGroupIndex db ip port);
            byConn = (case bound of
                        Some _ \<Rightarrow> is_groupByConn s
                      | None \<Rightarrow> (case found of
                                   Some gi \<Rightarrow> (is_groupByConn s)(conn \<mapsto> Some gi)
                                 | None \<Rightarrow> is_groupByConn s))
        in case found of
             Some gi \<Rightarrow>
               if ingestable (group_view db gi) then
                 s\<lparr>is_groupByConn := byConn,
                   is_queue := is_queue s @
                     [\<lparr>rc_group = Some (gi, group_view db gi),
                       rc_recvMs = word_of_int (if sint microSeconds < 0
                                                then - (- sint microSeconds div 1000)
                                                else sint microSeconds div 1000),
                       rc_data = data\<rparr>],
                   is_stats := st1\<lparr>as_chunks := as_chunks st1 + 1\<rparr>\<rparr>
               else s\<lparr>is_groupByConn := byConn, is_stats := st1\<lparr>as_unmatched := as_unmatched st1 + 1\<rparr>\<rparr>
           | None \<Rightarrow>
               s\<lparr>is_groupByConn := byConn, is_stats := st1\<lparr>as_unmatched := as_unmatched st1 + 1\<rparr>\<rparr>)"

datatype net_event =
    Connect nat string u16
  | Disconnect nat
  | Message nat string u16 bytes i64

fun net_step :: "config_db \<Rightarrow> ingest_server \<Rightarrow> net_event \<Rightarrow> ingest_server" where
  "net_step db s (Connect conn ip port) = onConnected db conn ip port s"
| "net_step db s (Disconnect conn) = onDisconnected conn s"
| "net_step db s (Message conn ip port data t) = onMessage db conn ip port data t s"

section \<open>Every queued chunk is one the parser accepts\<close>

text \<open>The device at an address of a loaded configuration.\<close>

definition device_at :: "config_db \<Rightarrow> nat \<Rightarrow> device_desc" where
  "device_at db a = (if a < length (cdb_devices db) then cdb_devices db ! a
                     else (cdb_devices db ! a)\<lparr>dd_addr := a\<rparr>)"

definition well_indexed :: "config_db \<Rightarrow> bool" where
  "well_indexed db \<longleftrightarrow>
     (\<forall>i < length (cdb_devices db). dd_addr (cdb_devices db ! i) = i \<and> spec_ok (dd_spec (cdb_devices db ! i)) \<and>
        fs_frameLen (dd_spec (cdb_devices db ! i)) < 2 ^ 31) \<and>
     (\<forall>gi < length (cdb_groups db). rg_members (cdb_groups db ! gi) \<noteq> [] \<and>
        (\<forall>i \<in> set (rg_members (cdb_groups db ! gi)). i < length (cdb_devices db))) \<and>
     (\<forall>ip port gi. matchGroupIndex db ip port = Some gi \<longrightarrow> gi < length (cdb_groups db))"

lemma loadAll_well_indexed:
  assumes "loadAll c = Some (Loaded db)"
  shows "well_indexed db"
proof -
  obtain devs slot gs where loaded: "devices_loaded devs" and ix: "indexed devs slot gs db"
    using loadAll_indexed [OF assms] by blast
  have len: "length (cdb_devices db) = length devs" "length (cdb_groups db) = length gs"
    and rk: "\<forall>gi < length gs. rg_members (cdb_groups db ! gi) = rank_of devs (gs ! gi)"
    using ix by (auto simp: indexed_def ranked_def)
  have part: "partitioned devs gs" using ix by (simp add: indexed_def)
  have "dd_addr (cdb_devices db ! i) = i \<and> spec_ok (dd_spec (cdb_devices db ! i)) \<and>
      fs_frameLen (dd_spec (cdb_devices db ! i)) < 2 ^ 31" if "i < length devs" for i
  proof -
    have "dd_addr (devs ! i) = i \<and> spec_ok (dd_spec (devs ! i)) \<and> fs_frameLen (dd_spec (devs ! i)) < 2 ^ 31"
      using loaded that by (simp add: devices_loaded_def device_loaded_def Let_def)
    with indexed_device [OF ix that] show ?thesis by auto
  qed
  moreover have "rg_members (cdb_groups db ! gi) \<noteq> [] \<and> (\<forall>i \<in> set (rg_members (cdb_groups db ! gi)). i < length devs)"
    if "gi < length gs" for gi
  proof -
    have "gs ! gi \<in> set gs" using that by simp
    then have "rg_members (gs ! gi) \<noteq> [] \<and> (\<forall>i \<in> set (rg_members (gs ! gi)). i < length devs)"
      using part by (simp add: partitioned_def)
    then show ?thesis using rk that set_rank_of [of devs "gs ! gi"] by (metis set_empty)
  qed
  ultimately show ?thesis
    using len matchGroupIndex_bound [OF ix] by (auto simp: well_indexed_def)
qed

lemma addressed_device_at: "well_indexed db \<Longrightarrow> addressed (device_at db)"
  by (simp add: addressed_def device_at_def well_indexed_def)

lemma group_view_chunk_ok:
  assumes "well_indexed db" "gi < length (cdb_groups db)"
  shows "chunk_ok (device_at db) \<lparr>rc_group = Some (gi, group_view db gi), rc_recvMs = t, rc_data = data\<rparr>"
  using assms by (auto simp: chunk_ok_def group_ok_def group_view_def well_indexed_def device_at_def)

definition ingest_ok :: "config_db \<Rightarrow> ingest_server \<Rightarrow> bool" where
  "ingest_ok db s \<longleftrightarrow>
     (\<forall>conn gi. is_groupByConn s conn = Some (Some gi) \<longrightarrow> gi < length (cdb_groups db)) \<and>
     (\<forall>c \<in> set (is_queue s). chunk_ok (device_at db) c \<and> rc_data c \<noteq> [] \<and>
        (\<exists>gi < length (cdb_groups db). rc_group c = Some (gi, group_view db gi) \<and> ingestable (group_view db gi)))"

lemma onMessage_ok:
  assumes w: "well_indexed db" and s: "ingest_ok db s"
  shows "ingest_ok db (onMessage db conn ip port data t s)"
proof -
  let ?bound = "case is_groupByConn s conn of Some (Some gi) \<Rightarrow> Some gi | _ \<Rightarrow> None"
  have b: "gi < length (cdb_groups db)" if "?bound = Some gi" for gi
    using s that by (auto simp: ingest_ok_def split: option.splits)
  have m: "gi < length (cdb_groups db)" if "matchGroupIndex db ip port = Some gi" for gi
    using w that by (simp add: well_indexed_def)
  show ?thesis
    using s b m group_view_chunk_ok [OF w]
    unfolding onMessage_def Let_def ingest_ok_def
    by (auto split: option.splits if_splits)
qed

lemma net_step_ok:
  assumes "well_indexed db" "ingest_ok db s"
  shows "ingest_ok db (net_step db s e)"
proof (cases e)
  case (Connect conn ip port)
  then show ?thesis
    using assms by (auto simp: onConnected_def ingest_ok_def well_indexed_def)
next
  case (Disconnect conn)
  then show ?thesis using assms by (auto simp: onDisconnected_def ingest_ok_def split: option.split)
next
  case (Message conn ip port data t)
  then show ?thesis using onMessage_ok [OF assms] by simp
qed

lemma net_run_ok:
  "well_indexed db \<Longrightarrow> ingest_ok db s \<Longrightarrow> ingest_ok db (foldl (net_step db) s es)"
  by (induction es arbitrary: s) (auto intro: net_step_ok)

lemma ingest_new_ok: "ingest_ok db (ingest_new stats)"
  by (simp add: ingest_ok_def ingest_new_def)

end
