(* ===== verification/Writer_Delivery.thy ===== *)
theory Writer_Delivery
  imports EtherDB_Writer Ingest_Server
begin

text \<open>
  What reaches the database. First the fields of a loaded configuration: each was materialised, so its
  column has the width the staging code writes. Then whole runs of the writer thread: for every device
  the rows of its batches are submitted exactly once and in order, as bound columns or, for http
  devices, as the rows of \<open>INSERT\<close> statements.
\<close>

section \<open>The columns of a loaded configuration\<close>

definition spec_columns :: "frame_spec \<Rightarrow> bool" where
  "spec_columns s \<longleftrightarrow> (\<forall>f \<in> set (fs_fields s). materialized f \<and> field_ok f \<and> column_ok f)"

definition specs_columns :: "specs \<Rightarrow> bool" where
  "specs_columns specs \<longleftrightarrow> (\<forall>pid s. specs pid = Some s \<longrightarrow> spec_columns s)"

lemma spec_columns_default [simp]: "spec_columns frame_spec_default"
  by (simp add: spec_columns_def frame_spec_default_def)

lemma header_row_columns:
  "specs_columns specs \<Longrightarrow> header_row b specs st = Some specs' \<Longrightarrow> specs_columns specs'"
  by (auto simp: header_row_def Let_def bind_Some_iff specs_columns_def spec_columns_def
      frame_spec_default_def split: if_splits)

lemma add_field_columns:
  assumes "specs_columns specs" "field_ok f" "field_width_ok f"
  shows "specs_columns (add_field pid f specs)"
proof -
  have new: "materialized (materializeField f n) \<and> field_ok (materializeField f n) \<and> column_ok (materializeField f n)"
    for n
    using materializeField_ok [OF assms(2)] materializeField_column_ok [OF assms(3)]
    by (auto simp: materialized_def)
  have "spec_columns (case specs pid of Some s \<Rightarrow> s | None \<Rightarrow> frame_spec_default)"
    using assms(1) by (auto simp: specs_columns_def split: option.split)
  with assms(1) new show ?thesis
    by (auto simp: add_field_def Let_def specs_columns_def spec_columns_def)
qed

lemma check_bits_width: "field_width_ok f \<Longrightarrow> field_width_ok (check_bits f)"
  by (simp add: check_bits_def field_width_ok_def cong: field_kind.case_cong)

lemma field_row_columns:
  assumes "specs_columns specs" "field_row specs st = Some specs'"
  shows "specs_columns specs'"
proof -
  have "specs_columns (add_field pid (check_bits \<lparr>fd_name = readText st 1, fd_unit = readText st 2, fd_kind = k,
      fd_size = sz, fd_byteOffset = bo, fd_bitOffset = ucast bi, fd_bitLen = ucast bl, fd_precision = pr,
      fd_outSize = 0, fd_bindType = 0, fd_colType = [], fd_asDouble = False\<rparr>) specs)"
    if "mapFieldType c = Some (k, sz)" for c k sz bo pr pid and bi bl :: u32
    by (intro add_field_columns [OF assms(1)] check_bits_ok check_bits_width mapFieldType_width [OF that]) simp_all
  with assms show ?thesis
    by (auto simp: field_row_def bind_Some_iff split: if_splits option.splits)
qed

lemma loadHeaders_columns:
  "loadHeaders schema rows specs = Some (Loaded specs') \<Longrightarrow> specs_columns specs \<Longrightarrow> specs_columns specs'"
  by (auto simp: loadHeaders_def split: header_schema.splits
           intro: load_rows_invariant [where P = specs_columns, OF header_row_columns])

lemma loadFields_columns:
  "loadFields perr rows specs = Some (Loaded specs') \<Longrightarrow> specs_columns specs \<Longrightarrow> specs_columns specs'"
  by (auto simp: loadFields_def split: option.splits
           intro: load_rows_invariant [where P = specs_columns, OF field_row_columns])

lemma loadDevices_columns:
  assumes "loadDevices perr rows specs = Some (Loaded devs)" "specs_columns specs"
  shows "\<forall>d \<in> set devs. spec_columns (dd_spec d)"
proof -
  have step: "\<forall>d \<in> set ds'. spec_columns (dd_spec d)"
    if "\<forall>d \<in> set ds. spec_columns (dd_spec d)" "device_row specs ds st = Some ds'" for ds ds' st
    using that assms(2)
    by (auto simp: device_row_def Let_def bind_Some_iff specs_columns_def split: if_splits option.split)
  have run: "load_rows (device_row specs) [] rows = Some devs"
    using assms(1) by (auto simp: loadDevices_def split: option.splits)
  show ?thesis
    by (rule load_rows_invariant [where P = "\<lambda>ds. \<forall>d \<in> set ds. spec_columns (dd_spec d)", OF step _ run]) simp_all
qed

lemma loadAll_columns:
  assumes "loadAll c = Some (Loaded db)"
  shows "\<forall>d \<in> set (cdb_devices db). spec_columns (dd_spec d)"
proof -
  obtain specs1 specs2 devs where
    h: "loadHeaders (fst (dbc_headers c)) (snd (dbc_headers c)) (\<lambda>_. None) = Some (Loaded specs1)"
    and f: "loadFields (fst (dbc_fields c)) (snd (dbc_fields c)) specs1 = Some (Loaded specs2)"
    and d: "loadDevices (fst (dbc_devices c)) (snd (dbc_devices c)) specs2 = Some (Loaded devs)"
    and db: "db = rebuildIndexes (config_db_empty\<lparr>cdb_devices := devs, cdb_specs := specs2\<rparr>)"
    using loadAll_Loaded [OF assms] .
  have "specs_columns (\<lambda>_. None)" by (simp add: specs_columns_def)
  then have devs: "\<forall>d \<in> set devs. spec_columns (dd_spec d)"
    by (rule loadDevices_columns [OF d loadFields_columns [OF f loadHeaders_columns [OF h]]])
  obtain slot gs where ix: "indexed devs slot gs db"
    using rebuildIndexes_indexed [of "config_db_empty\<lparr>cdb_devices := devs, cdb_specs := specs2\<rparr>"] by (auto simp: db)
  show ?thesis
    using devs indexed_device [OF ix] indexed_length [OF ix] by (fastforce simp: in_set_conv_nth)
qed

section \<open>The statements of an http device\<close>

fun comma_join :: "string list \<Rightarrow> string" where
  "comma_join [] = []"
| "comma_join [x] = x"
| "comma_join (x # y # xs) = x @ '','' @ comma_join (y # xs)"

definition insert_statement :: "device_desc \<Rightarrow> string list \<Rightarrow> submission" where
  "insert_statement dev rows = Statement (''INSERT INTO '' @ dd_deviceId dev @ '' VALUES '' @ comma_join rows)"

lemma comma_join_snoc: "comma_join (xs @ [x]) = (if xs = [] then x else comma_join xs @ '','' @ x)"
  by (induction xs rule: comma_join.induct) auto

lemma comma_join_upt:
  "concat (map (\<lambda>r. (if 0 < r then '','' else []) @ g r) [0 ..< n]) = comma_join (map g [0 ..< n])"
  by (induction n) (auto simp: comma_join_snoc)

lemma sql_statement_join:
  "Statement (sql_statement dev batch don n) =
   insert_statement dev (map (sql_row_text dev batch) [don ..< don + n])"
proof -
  have "map (sql_row_text dev batch) [don ..< don + n] = map (\<lambda>r. sql_row_text dev batch (don + r)) [0 ..< n]"
    by (rule nth_equalityI) simp_all
  then show ?thesis by (simp add: sql_statement_def insert_statement_def comma_join_upt)
qed

lemma sql_pieces_submits:
  assumes b: "rb_dev batch = Some dev" "batch_ok batch"
  shows "don \<le> rowCount batch \<Longrightarrow>
    \<exists>w' parts. sql_pieces db dev batch don w = Some w' \<and> ew_sinks w' = ew_sinks w \<and>
      ew_log w' = ew_log w @ map (insert_statement dev) parts \<and>
      concat parts = map (sql_row_text dev batch) [don ..< rowCount batch] \<and>
      (\<forall>p \<in> set parts. 0 < length p \<and> length p \<le> kMaxRowsPerStmt)"
proof (induction "rowCount batch - don" arbitrary: don w rule: less_induct)
  case less
  show ?case
  proof (cases "rowCount batch \<le> don")
    case True
    then show ?thesis
      by (intro exI [of _ w] exI [of _ "[]"]) (simp add: sql_pieces.simps [of db dev batch])
  next
    case False
    define n where "n = min (rowCount batch - don) kMaxRowsPerStmt"
    have n: "0 < n" "n \<le> kMaxRowsPerStmt" "don + n \<le> rowCount batch"
      using False by (auto simp: n_def kMaxRowsPerStmt_def)
    have "(don + n) * fieldCount dev \<le> rowCount batch * fieldCount dev" using n(3) by (rule mult_le_mono1)
    then have reads: "stage_reads_ok dev batch don n"
      using b n(3) by (simp add: stage_reads_ok_def batch_ok_def rowCount_def)
    define sub where "sub = insert_statement dev (map (sql_row_text dev batch) [don ..< don + n])"
    let ?w1 = "w\<lparr>ew_log := ew_log w @ [sub], ew_stats := count_query (db sub) n (ew_stats w)\<rparr>"
    have step: "sql_pieces db dev batch don w = sql_pieces db dev batch (don + n) ?w1"
      using False reads
      by (subst sql_pieces.simps) (simp add: n_def [symmetric] sub_def Let_def sql_statement_join)
    have lt: "rowCount batch - (don + n) < rowCount batch - don" using n by simp
    obtain w' parts where rest: "sql_pieces db dev batch (don + n) ?w1 = Some w'" "ew_sinks w' = ew_sinks w"
      "ew_log w' = ew_log w @ [sub] @ map (insert_statement dev) parts"
      "concat parts = map (sql_row_text dev batch) [don + n ..< rowCount batch]"
      "\<forall>p \<in> set parts. 0 < length p \<and> length p \<le> kMaxRowsPerStmt"
      using less.hyps [OF lt n(3), of ?w1] by auto
    have "[don ..< rowCount batch] = [don ..< don + n] @ [don + n ..< rowCount batch]"
      using n(3) by (metis le_add_diff_inverse upt_add_eq_append le_add1)
    then show ?thesis
      using rest n
      by (intro exI [of _ w'] exI [of _ "map (sql_row_text dev batch) [don ..< don + n] # parts"])
         (simp add: step sub_def)
  qed
qed

section \<open>A run of the writer\<close>

definition columns_for :: "nat \<Rightarrow> submission list \<Rightarrow> bytes list list" where
  "columns_for a log =
     concat (map submitted_rows (filter (\<lambda>s. map_option dd_addr (sub_device s) = Some a) log))"

lemma columns_for_append [simp]: "columns_for a (xs @ ys) = columns_for a xs @ columns_for a ys"
  by (simp add: columns_for_def)

lemma columns_for_device:
  "\<forall>s \<in> set subs. sub_device s = Some dev \<Longrightarrow>
   columns_for a subs = (if a = dd_addr dev then concat (map submitted_rows subs) else [])"
  by (induction subs) (auto simp: columns_for_def)

lemma columns_for_statements: "columns_for a (map (insert_statement dev) parts) = []"
  by (induction parts) (auto simp: columns_for_def insert_statement_def)

text \<open>Every sink belongs to the device of its key, whose columns have the widths the staging writes.\<close>

definition writer_ok :: "(nat \<Rightarrow> device_desc) \<Rightarrow> etherdb_writer \<Rightarrow> bool" where
  "writer_ok devs w \<longleftrightarrow>
     (\<forall>a sink. ew_sinks w a = Some sink \<longrightarrow> sink_of (devs a) sink \<and> spec_columns (dd_spec (devs a)))"

definition bound_device :: "device_desc \<Rightarrow> etherdb_writer \<Rightarrow> bool" where
  "bound_device d w \<longleftrightarrow> dd_connProto d \<noteq> CONN_HTTP \<and> ew_sinks w (dd_addr d) \<noteq> None"

definition batch_for :: "(nat \<Rightarrow> device_desc) \<Rightarrow> row_batch \<Rightarrow> bool" where
  "batch_for devs b \<longleftrightarrow> batch_ok b \<and> \<not> batch_empty b \<and> (\<exists>a. rb_dev b = Some (devs a))"

lemma writeBatch_columns:
  assumes devs: "addressed devs" and w: "writer_ok devs w" and b: "batch_ok b" "rb_dev b = Some (devs a)"
  shows "\<exists>w'. writeBatch db b w = Some w' \<and> writer_ok devs w' \<and> dom (ew_sinks w') = dom (ew_sinks w) \<and>
    (\<forall>c. columns_for c (ew_log w') = columns_for c (ew_log w) @
       (if c = a \<and> bound_device (devs a) w then map (row_image (devs a)) (batch_rows b) else []))"
proof -
  have adr: "dd_addr (devs a) = a" using devs by (simp add: addressed_def)
  consider (http) "dd_connProto (devs a) = CONN_HTTP"
    | (none) "dd_connProto (devs a) \<noteq> CONN_HTTP" "ew_sinks w a = None"
    | (sink) s where "dd_connProto (devs a) \<noteq> CONN_HTTP" "ew_sinks w a = Some s" by fastforce
  then show ?thesis
  proof cases
    case http
    obtain w' parts where "sql_pieces db (devs a) b 0 w = Some w'" "ew_sinks w' = ew_sinks w"
      "ew_log w' = ew_log w @ map (insert_statement (devs a)) parts"
      using sql_pieces_submits [OF b(2,1), of 0 db w] by auto
    with http w b(2) show ?thesis
      by (auto simp: writeBatch_def writeBatchSql_def writer_ok_def bound_device_def columns_for_statements)
  next
    case none
    with w b(2) adr show ?thesis by (auto simp: writeBatch_def bound_device_def)
  next
    case sink
    have ok: "sink_of (devs a) s" "\<forall>f \<in> set (fs_fields (dd_spec (devs a))). column_ok f"
      using w sink(2) by (auto simp: writer_ok_def spec_columns_def)
    obtain s' w' subs where p: "write_pieces db (devs a) b 0 s w = Some (s', w')" "ew_log w' = ew_log w @ subs"
      "sink_of (devs a) s'" "ew_sinks w' = ew_sinks w"
      "concat (map submitted_rows subs) = map (row_image (devs a)) (batch_rows b)"
      "\<forall>s \<in> set subs. sub_device s = Some (devs a)"
      using write_pieces_submits [OF b(2,1) ok(2,1), of 0 db w] by auto
    have "writeBatch db b w = Some (w'\<lparr>ew_sinks := (ew_sinks w')(a \<mapsto> s')\<rparr>)"
      using sink b(2) p(1) adr by (simp add: writeBatch_def)
    moreover have "columns_for c subs = (if c = a then map (row_image (devs a)) (batch_rows b) else [])" for c
      using columns_for_device [OF p(6), of c] adr p(5) by simp
    ultimately show ?thesis
      using p(2-4) sink w adr by (auto simp: writer_ok_def bound_device_def)
  qed
qed

lemma writer_run_columns:
  assumes devs: "addressed devs"
  shows "writer_ok devs w \<Longrightarrow> \<forall>b \<in> set bs. batch_for devs b \<Longrightarrow>
    \<exists>w'. writer_run db bs w = Some w' \<and>
      (\<forall>c. columns_for c (ew_log w') = columns_for c (ew_log w) @
         (if bound_device (devs c) w then map (row_image (devs c)) (queued c bs) else []))"
proof (induction bs arbitrary: w)
  case Nil
  then show ?case by (simp add: queued_def)
next
  case (Cons b bs)
  obtain a where b: "batch_ok b" "\<not> batch_empty b" "rb_dev b = Some (devs a)"
    using Cons.prems(2) by (auto simp: batch_for_def)
  obtain w1 where w1: "writeBatch db b w = Some w1" "writer_ok devs w1" "dom (ew_sinks w1) = dom (ew_sinks w)"
    "\<forall>c. columns_for c (ew_log w1) = columns_for c (ew_log w) @
       (if c = a \<and> bound_device (devs a) w then map (row_image (devs a)) (batch_rows b) else [])"
    using writeBatch_columns [OF devs Cons.prems(1) b(1,3)] by blast
  have adr: "dd_addr (devs c) = c" for c using devs by (simp add: addressed_def)
  have bound: "bound_device (devs c) w1 \<longleftrightarrow> bound_device (devs c) w" for c
    using w1(3) by (auto simp: bound_device_def dom_def set_eq_iff)
  have q: "queued c (b # bs) = (if c = a then batch_rows b else []) @ queued c bs" for c
    using b(3) adr by (auto simp: queued_def for_device_def)
  obtain w' where "writer_run db bs w1 = Some w'"
    "\<forall>c. columns_for c (ew_log w') = columns_for c (ew_log w1) @
       (if bound_device (devs c) w1 then map (row_image (devs c)) (queued c bs) else [])"
    using Cons.IH [OF w1(2)] Cons.prems(2) by auto
  with w1(1,4) b(2,3) bound show ?case by (auto simp: writer_step_def q)
qed

lemma columns_for_Nil [simp]: "columns_for a [] = []"
  by (simp add: columns_for_def)

lemma columns_for_logged [simp]: "columns_for a (ew_log (logged sql w)) = columns_for a (ew_log w)"
  by (simp add: logged_def columns_for_def)

lemma start_devices_log:
  "start_devices cfg sdk devs w = Loaded w' \<Longrightarrow> columns_for a (ew_log w') = columns_for a (ew_log w)"
proof (induction devs arbitrary: w)
  case (Cons d devs)
  then obtain w1 where w1: "start_device cfg sdk d w = Loaded w1" "start_devices cfg sdk devs w1 = Loaded w'"
    by (auto split: loaded.splits)
  have "columns_for a (ew_log w1) = columns_for a (ew_log w)"
    using w1(1) by (auto simp: start_device_def ensureTable_def install_sink_def Let_def
        split: if_splits loaded.splits)
  with Cons.IH [OF w1(2)] show ?case by simp
qed simp

lemma ensureDatabase_log:
  "ensureDatabase cfg sdk w = Loaded w' \<Longrightarrow> columns_for a (ew_log w') = columns_for a (ew_log w) \<and> ew_sinks w' = ew_sinks w"
  by (auto simp: ensureDatabase_def Let_def split: if_splits) (simp_all add: logged_def)

lemma addresses: "well_indexed db \<Longrightarrow> map dd_addr (cdb_devices db) = [0 ..< length (cdb_devices db)]"
  by (rule nth_equalityI) (simp_all add: well_indexed_def)

lemma writer_start_ok:
  assumes st: "writer_start cfg sdk (cdb_devices db) stats = Loaded w" and ix: "well_indexed db"
    and cols: "\<forall>d \<in> set (cdb_devices db). spec_columns (dd_spec d)"
  shows "writer_ok (device_at db) w" "columns_for a (ew_log w) = []"
    "d \<in> set (cdb_devices db) \<Longrightarrow> bound_device d w \<longleftrightarrow> served d \<and> dd_connProto d \<noteq> CONN_HTTP"
proof -
  obtain w0 where w0: "ensureDatabase cfg sdk \<lparr>ew_sinks = (\<lambda>_. None), ew_log = [], ew_stats = stats\<rparr> = Loaded w0"
    "start_devices cfg sdk (cdb_devices db) w0 = Loaded w"
    using st by (auto simp: writer_start_def split: option.splits loaded.splits)
  note db = ensureDatabase_log [OF w0(1)]
  show "columns_for a (ew_log w) = []"
    using start_devices_log [OF w0(2)] db by simp
  have none: "ew_sinks w0 = (\<lambda>_. None)" using db by simp
  have "distinct (map dd_addr (cdb_devices db))" by (simp add: addresses [OF ix])
  from start_devices_sinks [OF w0(2) this] none
  have s: "\<forall>dev \<in> set (cdb_devices db). ew_sinks w (dd_addr dev) =
      (if served dev \<and> dd_connProto dev \<noteq> CONN_HTTP then Some (prepareSink (ec_batchRows cfg) dev) else None)"
    and other: "\<forall>a. a \<notin> dd_addr ` set (cdb_devices db) \<longrightarrow> ew_sinks w a = None"
    by simp_all
  show "bound_device d w \<longleftrightarrow> served d \<and> dd_connProto d \<noteq> CONN_HTTP" if "d \<in> set (cdb_devices db)"
    using s that by (auto simp: bound_device_def)
  show "writer_ok (device_at db) w"
    unfolding writer_ok_def
  proof (intro allI impI)
    fix a sink assume sink: "ew_sinks w a = Some sink"
    then have "a \<in> dd_addr ` set (cdb_devices db)" using other by fastforce
    then obtain i where i: "i < length (cdb_devices db)" "dd_addr (cdb_devices db ! i) = a"
      by (auto simp: in_set_conv_nth)
    then have a: "device_at db a = cdb_devices db ! i" "cdb_devices db ! i \<in> set (cdb_devices db)"
      using ix by (simp_all add: well_indexed_def device_at_def)
    then have "sink = prepareSink (ec_batchRows cfg) (cdb_devices db ! i)"
      using s sink i(2) by (auto split: if_splits)
    then show "sink_of (device_at db a) sink \<and> spec_columns (dd_spec (device_at db a))"
      using prepareSink_sink_of cols a by simp
  qed
qed

end
