(* ===== verification/Config_Total.thy ===== *)
theory Config_Total
  imports Config_Index
begin

text \<open>
  When \<open>ConfigDB::loadAll\<close> returns, and with what. The only operation of the loader that has no defined
  result is the conversion of a floating-point column; tables without such columns always load, and an
  error is reported exactly when the database is closed or a statement cannot be prepared.
\<close>

definition no_float :: "sql_row \<Rightarrow> bool" where
  "no_float st \<longleftrightarrow> (\<forall>i. sv_type (st i) \<noteq> SQLITE_FLOAT)"

lemma read_total:
  assumes "no_float st"
  shows "\<exists>v. readInt64 st i d = Some v" "\<exists>v. readUInt32 st i e = Some v" "\<exists>v. readInt st i n = Some v"
proof -
  have "sv_type (st i) \<noteq> SQLITE_FLOAT" using assms by (simp add: no_float_def)
  then show "\<exists>v. readInt64 st i d = Some v" "\<exists>v. readUInt32 st i e = Some v" "\<exists>v. readInt st i n = Some v"
    by (auto simp: readInt64_def readUInt32_def readInt_def split: sql_type.split option.split)
qed

lemma header_row_total: "no_float st \<Longrightarrow> \<exists>s. header_row b specs st = Some s"
proof -
  assume st: "no_float st"
  obtain pid ft fl en sa fc sta an where
    "readInt st 0 (-1) = Some pid" "readInt st 1 0 = Some ft" "readInt st 2 0 = Some fl" "readInt st 5 0 = Some en"
    "readInt st 6 0 = Some sa" "readInt st 7 0 = Some fc" "readInt st 8 (-1) = Some sta" "readInt st 9 0 = Some an"
    using read_total(3) [OF st] by metis
  moreover obtain sf ef where "readUInt32 st 3 0 = Some sf" "readUInt32 st 4 0 = Some ef"
    using read_total(2) [OF st] by metis
  ultimately show ?thesis by (simp add: header_row_def Let_def)
qed

lemma field_row_total: "no_float st \<Longrightarrow> \<exists>s. field_row specs st = Some s"
proof -
  assume st: "no_float st"
  obtain pid c pr where "readInt st 0 (-1) = Some pid" "readInt st 3 (-1) = Some c" "readInt st 7 0 = Some pr"
    using read_total(3) [OF st] by metis
  moreover obtain bo bi bl where "readUInt32 st 4 0 = Some bo" "readUInt32 st 5 0 = Some bi" "readUInt32 st 6 0 = Some bl"
    using read_total(2) [OF st] by metis
  ultimately show ?thesis by (auto simp: field_row_def split: option.split)
qed

lemma device_row_total: "no_float st \<Longrightarrow> \<exists>ds. device_row specs devs st = Some ds"
proof -
  assume st: "no_float st"
  obtain pid en where "readInt st 6 0 = Some pid" "readInt st 7 0 = Some en" using read_total(3) [OF st] by metis
  moreover obtain dp lp where "readUInt32 st 3 0 = Some dp" "readUInt32 st 5 0 = Some lp"
    using read_total(2) [OF st] by metis
  ultimately show ?thesis by (simp add: device_row_def Let_def)
qed

lemma load_rows_total:
  assumes "\<And>s r. r \<in> set rows \<Longrightarrow> \<exists>s'. f s r = Some s'"
  shows "\<exists>s'. load_rows f s rows = Some s'"
  using assms
proof (induction rows arbitrary: s)
  case (Cons r rows)
  obtain s1 where "f s r = Some s1" using Cons.prems by fastforce
  with Cons show ?case by simp
qed simp

definition loadable :: "db_content \<Rightarrow> bool" where
  "loadable c \<longleftrightarrow>
     (\<forall>st \<in> set (snd (dbc_headers c) @ snd (dbc_fields c) @ snd (dbc_devices c)). no_float st)"

text \<open>The first obstacle the loader meets.\<close>

definition load_error :: "db_content \<Rightarrow> string option" where
  "load_error c =
     (if \<not> dbc_open c then Some ''config db not open''
      else case fst (dbc_headers c) of
        SchemaError msg \<Rightarrow> Some (''data_header_table: '' @ msg)
      | _ \<Rightarrow>
         (case fst (dbc_fields c) of
            Some msg \<Rightarrow> Some (''data_proto_table: '' @ msg)
          | None \<Rightarrow> map_option (\<lambda>msg. ''device_table: '' @ msg) (fst (dbc_devices c))))"

lemma loadHeaders_result:
  assumes "\<forall>st \<in> set rows. no_float st"
  shows "case schema of SchemaError msg \<Rightarrow> loadHeaders schema rows specs = Some (LoadError (''data_header_table: '' @ msg))
    | _ \<Rightarrow> \<exists>s. loadHeaders schema rows specs = Some (Loaded s)"
proof -
  have "\<exists>s. load_rows (header_row b) specs rows = Some s" for b
    by (rule load_rows_total) (use assms header_row_total in blast)
  then show ?thesis by (auto simp: loadHeaders_def split: header_schema.split)
qed

lemma loadFields_result:
  assumes "\<forall>st \<in> set rows. no_float st"
  shows "case perr of Some msg \<Rightarrow> loadFields perr rows specs = Some (LoadError (''data_proto_table: '' @ msg))
    | None \<Rightarrow> \<exists>s. loadFields perr rows specs = Some (Loaded s)"
proof -
  have "\<exists>s. load_rows field_row specs rows = Some s"
    by (rule load_rows_total) (use assms field_row_total in blast)
  then show ?thesis by (auto simp: loadFields_def split: option.split)
qed

lemma loadDevices_result:
  assumes "\<forall>st \<in> set rows. no_float st"
  shows "case perr of Some msg \<Rightarrow> loadDevices perr rows specs = Some (LoadError (''device_table: '' @ msg))
    | None \<Rightarrow> \<exists>s. loadDevices perr rows specs = Some (Loaded s)"
proof -
  have "\<exists>s. load_rows (device_row specs) [] rows = Some s"
    by (rule load_rows_total) (use assms device_row_total in blast)
  then show ?thesis by (auto simp: loadDevices_def split: option.split)
qed

lemma and_then_simps [simp]:
  "and_then (Some (LoadError e)) k = Some (LoadError e)" "and_then (Some (Loaded x)) k = k x"
  by (simp_all add: and_then_def)

lemma loadAll_error:
  assumes ok: "loadable c" and e: "load_error c = Some e"
  shows "loadAll c = Some (LoadError e)"
proof -
  have h: "\<forall>st \<in> set (snd (dbc_headers c)). no_float st" and f: "\<forall>st \<in> set (snd (dbc_fields c)). no_float st"
    and d: "\<forall>st \<in> set (snd (dbc_devices c)). no_float st"
    using ok by (auto simp: loadable_def)
  note hs = loadHeaders_result [OF h, of "fst (dbc_headers c)" "\<lambda>_. None"]
  note fs = loadFields_result [OF f, of "fst (dbc_fields c)"]
  note ds = loadDevices_result [OF d, of "fst (dbc_devices c)"]
  show ?thesis
  proof (cases "dbc_open c \<and> (\<forall>m. fst (dbc_headers c) \<noteq> SchemaError m)")
    case False
    with e hs show ?thesis
      by (auto simp: loadAll_def load_error_def split: header_schema.splits)
  next
    case True
    then obtain s1 where s1: "loadHeaders (fst (dbc_headers c)) (snd (dbc_headers c)) (\<lambda>_. None) = Some (Loaded s1)"
      using hs by (auto split: header_schema.splits)
    have e': "(case fst (dbc_fields c) of Some msg \<Rightarrow> Some (''data_proto_table: '' @ msg)
        | None \<Rightarrow> map_option (\<lambda>msg. ''device_table: '' @ msg) (fst (dbc_devices c))) = Some e"
      using e True by (auto simp: load_error_def split: header_schema.splits)
    show ?thesis
    proof (cases "fst (dbc_fields c)")
      case (Some m)
      with True s1 e' fs [of s1] show ?thesis by (simp add: loadAll_def)
    next
      case None
      with fs [of s1] obtain s2 where "loadFields None (snd (dbc_fields c)) s1 = Some (Loaded s2)" by auto
      with None True s1 e' ds [of s2] show ?thesis by (auto simp: loadAll_def)
    qed
  qed
qed

lemma loadAll_loads:
  assumes ok: "loadable c" and e: "load_error c = None"
  shows "\<exists>db. loadAll c = Some (Loaded db)"
proof -
  have h: "\<forall>st \<in> set (snd (dbc_headers c)). no_float st" and f: "\<forall>st \<in> set (snd (dbc_fields c)). no_float st"
    and d: "\<forall>st \<in> set (snd (dbc_devices c)). no_float st"
    using ok by (auto simp: loadable_def)
  have n: "dbc_open c" "fst (dbc_fields c) = None" "fst (dbc_devices c) = None"
    "\<And>m. fst (dbc_headers c) \<noteq> SchemaError m"
    using e by (auto simp: load_error_def split: if_splits header_schema.splits option.splits)
  obtain s1 where s1: "loadHeaders (fst (dbc_headers c)) (snd (dbc_headers c)) (\<lambda>_. None) = Some (Loaded s1)"
    using loadHeaders_result [OF h, of "fst (dbc_headers c)" "\<lambda>_. None"] n(4)
    by (auto split: header_schema.splits)
  obtain s2 where s2: "loadFields None (snd (dbc_fields c)) s1 = Some (Loaded s2)"
    using loadFields_result [OF f, of None] by auto
  obtain ds where "loadDevices None (snd (dbc_devices c)) s2 = Some (Loaded ds)"
    using loadDevices_result [OF d, of None] by auto
  with n s1 s2 show ?thesis by (simp add: loadAll_def)
qed

end
