(* ===== verification/Example_Config.thy ===== *)
theory Example_Config
  imports Config_Total Ingest_Server EtherDB_Writer
begin

text \<open>
  A small configuration database, used where a property is applied to a concrete input: a status and
  an event device behind one endpoint, a register-read device, and an http device without a source port.
\<close>

definition sql_int :: "i64 \<Rightarrow> sql_value" where
  "sql_int v = \<lparr>sv_type = SQLITE_INTEGER, sv_int64 = v, sv_double = 0, sv_text = None\<rparr>"

definition sql_text :: "string \<Rightarrow> sql_value" where
  "sql_text t = \<lparr>sv_type = SQLITE_TEXT, sv_int64 = 0, sv_double = 0, sv_text = Some t\<rparr>"

definition sql_null :: sql_value where
  "sql_null = \<lparr>sv_type = SQLITE_NULL, sv_int64 = 0, sv_double = 0, sv_text = None\<rparr>"

definition sql_row_of :: "sql_value list \<Rightarrow> sql_row" where
  "sql_row_of vs = (\<lambda>i. if i < length vs then vs ! i else sql_null)"

text \<open>Columns of \<open>data_header_table\<close>: protocol, frame type, frame length, start flag, end flag, endian,
  then slave address, function code, start address and number of registers.\<close>

definition example_headers :: "sql_row list" where
  "example_headers = map sql_row_of
     [[sql_int 1, sql_int 1, sql_int 2, sql_int 0, sql_int 0, sql_int 0],
      [sql_int 2, sql_int 2, sql_int 1, sql_int 0x7E, sql_int 0x7E, sql_int 0],
      [sql_int 3, sql_int 9, sql_int 9, sql_int 0, sql_int 0, sql_int 0,
       sql_int 1, sql_int 3, sql_int 0, sql_int 2]]"

text \<open>Columns of \<open>data_proto_table\<close>: protocol, name, unit, type, byte offset, bit offset, bit length,
  precision.\<close>

definition example_fields :: "sql_row list" where
  "example_fields = map sql_row_of
     [[sql_int 1, sql_text ''temp'', sql_text ''C'', sql_int 1, sql_int 0, sql_int 0, sql_int 0, sql_int 0],
      [sql_int 2, sql_text ''code'', sql_text [], sql_int 6, sql_int 0, sql_int 0, sql_int 0, sql_int 0],
      [sql_int 3, sql_text ''2 speed'', sql_text [], sql_int 7, sql_int 0, sql_int 0, sql_int 0, sql_int 0]]"

text \<open>Columns of \<open>device_table\<close>: id, name, ip, source port, protocol, local port, data protocol,
  endian.\<close>

definition example_devices :: "sql_row list" where
  "example_devices = map sql_row_of
     [[sql_text ''dev-e'', sql_text [], sql_text ''10.0.0.1'', sql_int 5000, sql_text ''custom(1)'', sql_int 6000,
       sql_int 2, sql_int 0],
      [sql_text ''dev-s'', sql_text [], sql_text ''10.0.0.1'', sql_int 5000, sql_text ''custom(1)'', sql_int 6000,
       sql_int 1, sql_int 0],
      [sql_text ''plc'', sql_text [], sql_text ''10.0.0.2'', sql_int 502, sql_text ''modbus(2)'', sql_int 6001,
       sql_int 3, sql_int 0],
      [sql_text ''web'', sql_text [], sql_text ''10.0.0.3'', sql_int 0, sql_text ''http(3)'', sql_int 8080,
       sql_int 1, sql_int 0]]"

definition example_content :: db_content where
  "example_content =
     \<lparr>dbc_open = True, dbc_headers = (SchemaNew, example_headers), dbc_fields = (None, example_fields),
      dbc_devices = (None, example_devices)\<rparr>"

text \<open>The database the loader builds from it; \<open>config_db_empty\<close> stands for a failed load.\<close>

definition example_db :: config_db where
  "example_db = (case loadAll example_content of Some (Loaded db) \<Rightarrow> db | _ \<Rightarrow> config_db_empty)"

lemma no_float_row: "list_all (\<lambda>v. sv_type v \<noteq> SQLITE_FLOAT) vs \<Longrightarrow> no_float (sql_row_of vs)"
  by (auto simp: no_float_def sql_row_of_def sql_null_def list_all_length)

lemma example_loadable: "loadable example_content" "load_error example_content = None"
  by (auto simp: loadable_def load_error_def example_content_def example_headers_def example_fields_def
      example_devices_def sql_int_def sql_text_def intro!: no_float_row)

lemma example_loaded: "loadAll example_content = Some (Loaded example_db)"
  using loadAll_loads [OF example_loadable] by (auto simp: example_db_def)

definition device_end :: "device_desc \<Rightarrow> string \<times> string \<times> u16 \<times> int" where
  "device_end d = (dd_deviceId d, dd_ip d, dd_devicePort d, dd_connProto d)"

definition device_ends :: "device_desc list loaded option \<Rightarrow> (string \<times> string \<times> u16 \<times> int) list" where
  "device_ends r = (case r of Some (Loaded devs) \<Rightarrow> map device_end devs | _ \<Rightarrow> [])"

lemma example_ends:
  "device_ends (loadDevices None example_devices specs) =
     [(''dev_e'', ''10.0.0.1'', 5000, 1), (''dev_s'', ''10.0.0.1'', 5000, 1), (''plc'', ''10.0.0.2'', 502, 2),
      (''web'', ''10.0.0.3'', 0, 3)]"
  by code_simp

text \<open>Every device of the example has a field.\<close>

definition device_fields :: "specs \<Rightarrow> bool list" where
  "device_fields specs1 = (case loadFields None example_fields specs1 of
     Some (Loaded specs2) \<Rightarrow>
       (case loadDevices None example_devices specs2 of
          Some (Loaded devs) \<Rightarrow> map (\<lambda>d. fs_fields (dd_spec d) \<noteq> []) devs | _ \<Rightarrow> [])
   | _ \<Rightarrow> [])"

lemma example_has_fields: "device_fields specs1 = [True, True, True, True]"
  by code_simp simp

lemma example_db_devices:
  "map device_end (cdb_devices example_db) =
     [(''dev_e'', ''10.0.0.1'', 5000, 1), (''dev_s'', ''10.0.0.1'', 5000, 1), (''plc'', ''10.0.0.2'', 502, 2),
      (''web'', ''10.0.0.3'', 0, 3)]"
  "\<forall>d \<in> set (cdb_devices example_db). fs_fields (dd_spec d) \<noteq> []"
proof -
  obtain specs1 specs2 devs where f: "loadFields None example_fields specs1 = Some (Loaded specs2)"
    and d: "loadDevices None example_devices specs2 = Some (Loaded devs)"
    and db: "example_db = rebuildIndexes (config_db_empty\<lparr>cdb_devices := devs, cdb_specs := specs2\<rparr>)"
    by (rule loadAll_Loaded [OF example_loaded]) (simp add: example_content_def)
  obtain slot gs where ix: "indexed devs slot gs example_db"
    using rebuildIndexes_indexed [of "config_db_empty\<lparr>cdb_devices := devs, cdb_specs := specs2\<rparr>"] by (auto simp: db)
  note len = indexed_length [OF ix]
  have same: "device_end (cdb_devices example_db ! i) = device_end (devs ! i)"
    "dd_spec (cdb_devices example_db ! i) = dd_spec (devs ! i)" if "i < length devs" for i
    using indexed_device [OF ix that] by (auto simp: device_end_def)
  then have "map device_end (cdb_devices example_db) = map device_end devs"
    by (intro nth_equalityI) (simp_all add: len)
  with example_ends [of specs2] d
  show "map device_end (cdb_devices example_db) =
     [(''dev_e'', ''10.0.0.1'', 5000, 1), (''dev_s'', ''10.0.0.1'', 5000, 1), (''plc'', ''10.0.0.2'', 502, 2),
      (''web'', ''10.0.0.3'', 0, 3)]"
    by (simp add: device_ends_def)
  have "map (\<lambda>d. fs_fields (dd_spec d) \<noteq> []) devs = replicate 4 True"
    using example_has_fields [of specs1] f d by (simp add: device_fields_def numeral_eq_Suc)
  then have "set (map (\<lambda>d. fs_fields (dd_spec d) \<noteq> []) devs) \<subseteq> {True}" by simp
  then have "\<forall>d \<in> set devs. fs_fields (dd_spec d) \<noteq> []" by auto
  then show "\<forall>d \<in> set (cdb_devices example_db). fs_fields (dd_spec d) \<noteq> []"
    using same(2) nth_mem [of _ devs] by (auto simp: in_set_conv_nth [of _ "cdb_devices example_db"] len)
qed

lemma example_served: "served (cdb_devices example_db ! 0)" "cdb_devices example_db ! 0 \<in> set (cdb_devices example_db)"
  and example_proto: "dd_connProto (cdb_devices example_db ! 0) \<noteq> CONN_HTTP"
proof -
  have len: "length (map device_end (cdb_devices example_db)) = 4" unfolding example_db_devices(1) by simp
  then show m: "cdb_devices example_db ! 0 \<in> set (cdb_devices example_db)" by simp
  have "map device_end (cdb_devices example_db) ! 0 = device_end (cdb_devices example_db ! 0)" using len by simp
  then have "dd_connProto (cdb_devices example_db ! 0) = 1"
    unfolding example_db_devices(1) by (simp add: device_end_def)
  then show "dd_connProto (cdb_devices example_db ! 0) \<noteq> CONN_HTTP" "served (cdb_devices example_db ! 0)"
    using m example_db_devices(2) by (auto simp: served_def conn_defs)
qed

lemma example_device:
  assumes "i < 4"
  shows "i < length (cdb_devices example_db)"
    "device_end (cdb_devices example_db ! i) =
       [(''dev_e'', ''10.0.0.1'', 5000, 1), (''dev_s'', ''10.0.0.1'', 5000, 1), (''plc'', ''10.0.0.2'', 502, 2),
        (''web'', ''10.0.0.3'', 0, 3)] ! i"
proof -
  have "length (map device_end (cdb_devices example_db)) = 4" unfolding example_db_devices(1) by simp
  then show "i < length (cdb_devices example_db)" using assms by simp
  then show "device_end (cdb_devices example_db ! i) =
       [(''dev_e'', ''10.0.0.1'', 5000, 1), (''dev_s'', ''10.0.0.1'', 5000, 1), (''plc'', ''10.0.0.2'', 502, 2),
        (''web'', ''10.0.0.3'', 0, 3)] ! i"
    by (simp flip: example_db_devices(1))
qed

text \<open>A client that accepts everything, and one turn of the example's traffic.\<close>

definition example_sdk :: sdk where
  "example_sdk = \<lparr>sdk_connect = (\<lambda>_ _ _ _. True), sdk_query = (\<lambda>_. []), sdk_prepare = (\<lambda>_. True)\<rparr>"

definition example_cfg :: etherdb_config where
  "example_cfg = etherdb_config_default\<lparr>ec_host := ''localhost'', ec_port := 6030, ec_batchRows := 100\<rparr>"

definition example_events :: "net_event list" where
  "example_events =
     [Connect 7 ''10.0.0.1'' 5000,
      Message 7 ''10.0.0.1'' 5000 [1, 0, 2, 0, 0, 0, 9, 0] 1000,
      Message 7 ''10.0.0.1'' 5000 [2, 0x7E, 1, 0, 0, 0, 5, 0x7E] 2000,
      Disconnect 7]"

lemma start_devices_accepting:
  "\<exists>w'. start_devices cfg example_sdk devs w = Loaded w'"
proof (induction devs arbitrary: w)
  case (Cons d devs)
  have "\<exists>w1. start_device cfg example_sdk d w = Loaded w1"
    by (auto simp: start_device_def ensureTable_def install_sink_def example_sdk_def Let_def)
  with Cons show ?case by auto
qed simp

lemma example_starts: "\<exists>w. writer_start cfg example_sdk devs stats = Loaded w"
  using start_devices_accepting
  by (auto simp: writer_start_def connectClient_def ensureDatabase_def Let_def)
     (auto simp: example_sdk_def)

end
