(* ===== verification/Modbus_Poller.thy ===== *)
theory Modbus_Poller
  imports Config_Index Pipeline
begin

text \<open>
  The register poller (\<open>src/src/adapter/ModbusPoller.cpp\<close>): which devices get a session, the request
  bytes, the connect with a timeout, one turn of the device thread and its interruptible sleep. What the
  socket calls and the running flag answer in a turn is the record \<open>turn_env\<close>.
\<close>

section \<open>Requests\<close>

definition buildRequest :: "u16 \<Rightarrow> frame_spec \<Rightarrow> bytes \<times> u16" where
  "buildRequest tid spec =
     (let t = (if tid = 0xFF then 1 else tid)
      in ([ucast (drop_bit 8 t), ucast (t AND 0xFF), 0, 0, 0, 6,
           word_of_int (fs_slaveAddr spec AND 0xFF), word_of_int (fs_funCode spec AND 0xFF),
           word_of_int (drop_bit 8 (fs_startAddr spec) AND 0xFF), word_of_int (fs_startAddr spec AND 0xFF),
           word_of_int (drop_bit 8 (fs_addrNum spec) AND 0xFF), word_of_int (fs_addrNum spec AND 0xFF)],
          t + 1))"

section \<open>Sessions\<close>

record session =
  se_dev :: device_desc
  se_connected :: bool
  se_tid :: u16
  se_failStreak :: nat
  se_sent :: u64
  se_conns :: u64
  se_errors :: u64
  se_pushedBack :: u64

definition session_new :: "device_desc \<Rightarrow> session" where
  "session_new d =
     \<lparr>se_dev = d, se_connected = False, se_tid = 1, se_failStreak = 0, se_sent = 0, se_conns = 0,
      se_errors = 0, se_pushedBack = 0\<rparr>"

definition pollable :: "device_desc \<Rightarrow> bool" where
  "pollable d \<longleftrightarrow>
     dd_connProto d = CONN_MODBUS \<and> hasModbusRequest (dd_spec d) \<and> fs_fields (dd_spec d) \<noteq> [] \<and>
     isModbusHeaderLen (dd_spec d)"

definition poller_start :: "device_desc list \<Rightarrow> session list" where
  "poller_start devs = map session_new (filter pollable devs)"

definition closeSession :: "session \<Rightarrow> session" where
  "closeSession s = s\<lparr>se_connected := False\<rparr>"

text \<open>One round of the drain loop: nothing readable, closed by the peer, or bytes to discard.\<close>

datatype drained = NotReadable | PeerClosed | Discarded nat

fun drainIncoming :: "session \<Rightarrow> drained list \<Rightarrow> session" where
  "drainIncoming s [] = s"
| "drainIncoming s (r # rs) =
     (if \<not> se_connected s then s
      else case r of
        NotReadable \<Rightarrow> s
      | PeerClosed \<Rightarrow> closeSession s
      | Discarded n \<Rightarrow> drainIncoming (s\<lparr>se_pushedBack := se_pushedBack s + word_of_nat n\<rparr>) rs)"

text \<open>What the system calls of \<open>nonBlockingConnect\<close> return, and what becomes of the socket.\<close>

record connect_env =
  ce_created :: bool
  ce_flags :: int
  ce_setfl :: bool
  ce_pton :: bool
  ce_connected :: bool
  ce_inProgress :: bool
  ce_select :: int
  ce_getsockopt :: bool
  ce_soErr :: int

datatype sock_end = NotCreated | ClosedAgain | BlockingSocket

definition nonBlockingConnect :: "connect_env \<Rightarrow> sock_end" where
  "nonBlockingConnect e =
     (if \<not> ce_created e then NotCreated
      else if ce_flags e < 0 \<or> \<not> ce_setfl e then ClosedAgain
      else if \<not> ce_pton e then ClosedAgain
      else if ce_connected e then BlockingSocket
      else if \<not> ce_inProgress e then ClosedAgain
      else if ce_select e \<le> 0 then ClosedAgain
      else if \<not> ce_getsockopt e \<or> ce_soErr e \<noteq> 0 then ClosedAgain
      else BlockingSocket)"

text \<open>The \<open>timeval\<close> of the wait: seconds and microseconds.\<close>

definition connect_timeval :: "int \<Rightarrow> int \<times> int" where
  "connect_timeval timeoutMs = (timeoutMs div 1000, (timeoutMs mod 1000) * 1000)"

record turn_env =
  te_connect :: connect_env
  te_running :: bool
  te_sent :: int
  te_drained :: "drained list"

text \<open>What a turn asks the environment to do: send a request, add \<open>to_counted\<close> to
  \<open>AdapterStats::modbusRequests\<close>, sleep some milliseconds, stop.\<close>

record turn_out =
  to_request :: "bytes option"
  to_counted :: u64
  to_sleepMs :: int
  to_stop :: bool

definition poll_backoff :: "nat \<Rightarrow> int" where
  "poll_backoff failStreak = min (int failStreak * 2) 8"

definition runDevice1 :: "int \<Rightarrow> session \<Rightarrow> turn_env \<Rightarrow> session \<times> turn_out" where
  "runDevice1 intervalMs s e =
     (if \<not> se_connected s \<and> nonBlockingConnect (te_connect e) \<noteq> BlockingSocket then
        (let s1 = s\<lparr>se_errors := se_errors s + 1, se_failStreak := se_failStreak s + 1\<rparr>
         in (s1, \<lparr>to_request = None, to_counted = 0, to_sleepMs = intervalMs * poll_backoff (se_failStreak s1), to_stop = False\<rparr>))
      else
        let s1 = (if se_connected s then s
                  else s\<lparr>se_failStreak := 0, se_connected := True, se_conns := se_conns s + 1\<rparr>)
        in if \<not> te_running e then (closeSession s1, \<lparr>to_request = None, to_counted = 0, to_sleepMs = 0, to_stop = True\<rparr>)
           else let (req, tid) = buildRequest (se_tid s1) (dd_spec (se_dev s1)); s2 = s1\<lparr>se_tid := tid\<rparr>
           in if te_sent e \<noteq> 12
              then (closeSession (s2\<lparr>se_errors := se_errors s2 + 1\<rparr>),
                    \<lparr>to_request = Some req, to_counted = 0, to_sleepMs = 500, to_stop = False\<rparr>)
              else (drainIncoming (s2\<lparr>se_sent := se_sent s2 + 1\<rparr>) (te_drained e),
                    \<lparr>to_request = Some req, to_counted = 1, to_sleepMs = intervalMs, to_stop = False\<rparr>))"

text \<open>\<open>sleepMs\<close>: the naps, where \<open>running k\<close> is the flag at the \<open>k\<close>-th check.\<close>

function sleepMs :: "int \<Rightarrow> (nat \<Rightarrow> bool) \<Rightarrow> nat \<Rightarrow> int list" where
  "sleepMs ms running k =
     (if 0 < ms \<and> running k then let step = (if 100 < ms then 100 else ms) in step # sleepMs (ms - step) running (Suc k)
      else [])"
  by pat_completeness auto
termination by (relation "measure (\<lambda>(ms, running, k). nat ms)") auto

declare sleepMs.simps [simp del]

text \<open>\<open>stop\<close>: every open link is shut down and closed, the threads are joined and the sessions forgotten.\<close>

definition poller_stop :: "session list \<Rightarrow> session list \<times> u64 \<times> u64" where
  "poller_stop ss =
     (map closeSession ss, foldl (\<lambda>n s. n + se_sent s) 0 ss, foldl (\<lambda>n s. n + se_errors s) 0 ss)"

text \<open>The requests of a whole thread, turn by turn, until it stops.\<close>

fun poll_requests :: "int \<Rightarrow> session \<Rightarrow> turn_env list \<Rightarrow> bytes list" where
  "poll_requests ms s [] = []"
| "poll_requests ms s (e # es) =
     (let (s', out) = runDevice1 ms s e
      in (case to_request out of None \<Rightarrow> [] | Some r \<Rightarrow> [r]) @
         (if to_stop out then [] else poll_requests ms s' es))"

section \<open>Transaction identifiers\<close>

definition tid_of :: "bytes \<Rightarrow> nat" where
  "tid_of req = unat (req ! 0) * 256 + unat (req ! 1)"

definition tid_ok :: "u16 \<Rightarrow> bool" where
  "tid_ok t \<longleftrightarrow> 1 \<le> t \<and> t \<le> 0xFF"

definition next_tid :: "nat \<Rightarrow> nat" where
  "next_tid t = (if t = 254 then 1 else t + 1)"

lemma tid_cases: "tid_ok t \<Longrightarrow> \<exists>n. 1 \<le> n \<and> n \<le> 255 \<and> t = word_of_nat n"
  by (intro exI [of _ "unat t"]) (auto simp: tid_ok_def word_le_nat_alt)

lemma buildRequest_length: "length (fst (buildRequest tid spec)) = 12"
  by (simp add: buildRequest_def Let_def)

lemma small_tid_bytes:
  assumes "1 \<le> n" "n \<le> (255::nat)"
  shows "unat (ucast (drop_bit 8 (word_of_nat n :: u16)) :: u8) = 0"
    and "unat (ucast ((word_of_nat n :: u16) AND 0xFF) :: u8) = n"
proof -
  have u: "unat (word_of_nat n :: u16) = n" using assms by (intro unat_of_nat_small) simp
  have "drop_bit 8 n = 0" using assms by (simp add: drop_bit_eq_div)
  then have "unat (drop_bit 8 (word_of_nat n :: u16)) = 0" by (simp only: unat_drop_bit_eq u)
  then have z: "drop_bit 8 (word_of_nat n :: u16) = 0" by (simp only: unat_eq_zero)
  show "unat (ucast (drop_bit 8 (word_of_nat n :: u16)) :: u8) = 0" unfolding z by simp
  have "(word_of_nat n :: u16) AND 0xFF = take_bit 8 (word_of_nat n)"
    by (simp add: take_bit_eq_mask mask_eq_exp_minus_1)
  then have "unat ((word_of_nat n :: u16) AND 0xFF) = take_bit 8 n" by (simp only: unsigned_take_bit_eq u)
  also have "\<dots> = n" using assms by (simp add: take_bit_nat_eq_self)
  finally show "unat (ucast ((word_of_nat n :: u16) AND 0xFF) :: u8) = n"
    using assms by (simp add: unsigned_ucast_eq take_bit_nat_eq_self)
qed

lemma buildRequest_tid:
  assumes "tid_ok t"
  defines "c \<equiv> (if unat t = 255 then 1 else unat t)"
  shows "tid_of (fst (buildRequest t spec)) = c" "1 \<le> c" "c \<le> 254"
    "tid_ok (snd (buildRequest t spec))" "unat (snd (buildRequest t spec)) = c + 1"
proof -
  have t: "1 \<le> unat t" "unat t \<le> 255" using assms(1) by (auto simp: tid_ok_def word_le_nat_alt)
  have ff: "t = 0xFF \<longleftrightarrow> unat t = 255" by (simp add: word_unat_eq_iff)
  show c: "1 \<le> c" "c \<le> 254" using t by (auto simp: c_def)
  have t': "(if t = 0xFF then 1 else t) = word_of_nat c" using ff by (auto simp: c_def)
  show "tid_of (fst (buildRequest t spec)) = c"
    unfolding buildRequest_def Let_def t' tid_of_def
    using small_tid_bytes [of c] c by (simp only: fst_conv nth_Cons_0 nth_Cons_Suc One_nat_def)
  have "snd (buildRequest t spec) = word_of_nat (c + 1)"
    unfolding buildRequest_def Let_def t' by (simp add: add.commute)
  moreover have "unat (word_of_nat (c + 1) :: u16) = c + 1" using c by (intro unat_of_nat_small) simp
  ultimately show u: "unat (snd (buildRequest t spec)) = c + 1" by metis
  show "tid_ok (snd (buildRequest t spec))" using u c by (simp add: tid_ok_def word_le_nat_alt)
qed

definition current_tid :: "u16 \<Rightarrow> nat" where
  "current_tid t = (if unat t = 255 then 1 else unat t)"

lemma current_tid_next: "unat t' = current_tid t + 1 \<Longrightarrow> current_tid t' = next_tid (current_tid t)"
  by (simp add: current_tid_def next_tid_def)

lemma drainIncoming_keeps: "se_tid (drainIncoming s rs) = se_tid s" "se_dev (drainIncoming s rs) = se_dev s"
  by (induction s rs rule: drainIncoming.induct) (auto simp: closeSession_def split: drained.split)

lemma runDevice1_request:
  assumes "tid_ok (se_tid s)" "runDevice1 ms s e = (s', out)"
  shows "tid_ok (se_tid s')" "se_dev s' = se_dev s"
    "to_request out = None \<Longrightarrow> se_tid s' = se_tid s"
    "to_request out = Some r \<Longrightarrow> r = fst (buildRequest (se_tid s) (dd_spec (se_dev s))) \<and>
       tid_of r = current_tid (se_tid s) \<and> current_tid (se_tid s') = next_tid (current_tid (se_tid s))"
proof -
  let ?b = "buildRequest (se_tid s) (dd_spec (se_dev s))"
  note b = buildRequest_tid(1,4,5) [OF assms(1), where spec = "dd_spec (se_dev s)", folded current_tid_def]
  have "(to_request out = None \<and> se_tid s' = se_tid s \<or> to_request out = Some (fst ?b) \<and> se_tid s' = snd ?b) \<and>
      se_dev s' = se_dev s"
    using assms(2) by (auto simp: runDevice1_def Let_def closeSession_def drainIncoming_keeps
        split: if_splits prod.splits)
  then show "tid_ok (se_tid s')" "se_dev s' = se_dev s" "to_request out = None \<Longrightarrow> se_tid s' = se_tid s"
    "to_request out = Some r \<Longrightarrow> r = fst ?b \<and> tid_of r = current_tid (se_tid s) \<and>
       current_tid (se_tid s') = next_tid (current_tid (se_tid s))"
    using b assms(1) current_tid_next [OF b(3)] by auto
qed

lemma poll_requests_tids:
  "tid_ok (se_tid s) \<Longrightarrow>
   map tid_of (poll_requests ms s es) =
     map (\<lambda>i. (next_tid ^^ i) (current_tid (se_tid s))) [0 ..< length (poll_requests ms s es)]"
proof (induction es arbitrary: s)
  case (Cons e es)
  obtain s' out where turn: "runDevice1 ms s e = (s', out)" by (cases "runDevice1 ms s e")
  note t = runDevice1_request [OF Cons.prems turn]
  have ih: "map tid_of (poll_requests ms s' es) =
      map (\<lambda>i. (next_tid ^^ i) (current_tid (se_tid s'))) [0 ..< length (poll_requests ms s' es)]"
    by (rule Cons.IH [OF t(1)])
  show ?case
  proof (cases "to_request out")
    case None
    then have "se_tid s' = se_tid s" by (rule t(3))
    with None ih turn show ?thesis by simp
  next
    case (Some r)
    have shift: "map (\<lambda>i. (next_tid ^^ i) (current_tid (se_tid s))) [0 ..< Suc n] =
        current_tid (se_tid s) # map (\<lambda>i. (next_tid ^^ i) (current_tid (se_tid s'))) [0 ..< n]" for n
      using t(4) [OF Some] by (simp add: map_upt_Suc funpow_swap1 del: upt_Suc)
    show ?thesis using Some ih turn t(4) [OF Some] shift by (auto simp del: upt_Suc)
  qed
qed simp

lemma next_tid_range: "1 \<le> t \<Longrightarrow> t \<le> 254 \<Longrightarrow> 1 \<le> (next_tid ^^ i) t \<and> (next_tid ^^ i) t \<le> 254"
  by (induction i) (auto simp: next_tid_def)

lemma funpow_next_tid: "1 \<le> t \<Longrightarrow> t \<le> 254 \<Longrightarrow> (next_tid ^^ i) t = (t - 1 + i) mod 254 + 1"
proof (induction i)
  case (Suc i)
  have "Suc ((t - 1 + i) mod 254) mod 254 = (t - 1 + Suc i) mod 254" by (simp add: mod_Suc_eq)
  moreover have "(t - 1 + i) mod 254 < 254" by simp
  ultimately show ?case using Suc by (auto simp: next_tid_def mod_Suc)
qed simp

text \<open>The addressed registers.\<close>

lemma byte_of_int: "0 \<le> x \<Longrightarrow> x < 65536 \<Longrightarrow>
  unat (word_of_int (drop_bit 8 x AND 0xFF) :: u8) = nat x div 256 \<and> unat (word_of_int (x AND 0xFF) :: u8) = nat x mod 256"
proof -
  assume x: "0 \<le> x" "x < 65536"
  have and8: "y AND 0xFF = y mod 256" for y :: int
    using take_bit_eq_mask [of 8 y] by (simp add: take_bit_eq_mod mask_eq_exp_minus_1)
  have "x div 256 mod 256 = x div 256" using x by simp
  then show ?thesis using x
    by (simp add: and8 drop_bit_eq_div unsigned_of_int take_bit_eq_mod nat_div_distrib nat_mod_distrib)
qed

lemma buildRequest_fields:
  fixes t :: u16
  assumes "0 \<le> fs_slaveAddr spec" "fs_slaveAddr spec < 256" "0 \<le> fs_funCode spec" "fs_funCode spec < 256"
    and "0 \<le> fs_startAddr spec" "fs_startAddr spec < 65536" "0 \<le> fs_addrNum spec" "fs_addrNum spec < 65536"
  defines "r \<equiv> fst (buildRequest t spec)"
  shows "r ! 2 = 0 \<and> r ! 3 = 0 \<and> r ! 4 = 0 \<and> r ! 5 = 6"
    "int (unat (r ! 6)) = fs_slaveAddr spec" "int (unat (r ! 7)) = fs_funCode spec"
    "int (unat (r ! 8) * 256 + unat (r ! 9)) = fs_startAddr spec"
    "int (unat (r ! 10) * 256 + unat (r ! 11)) = fs_addrNum spec"
proof -
  note n = numeral_eq_Suc pred_numeral_simps nth_Cons_Suc nth_Cons_0
  have nth: "r ! 2 = 0" "r ! 3 = 0" "r ! 4 = 0" "r ! 5 = 6"
    "r ! 6 = word_of_int (fs_slaveAddr spec AND 0xFF)" "r ! 7 = word_of_int (fs_funCode spec AND 0xFF)"
    "r ! 8 = word_of_int (drop_bit 8 (fs_startAddr spec) AND 0xFF)" "r ! 9 = word_of_int (fs_startAddr spec AND 0xFF)"
    "r ! 10 = word_of_int (drop_bit 8 (fs_addrNum spec) AND 0xFF)" "r ! 11 = word_of_int (fs_addrNum spec AND 0xFF)"
    by (simp_all add: r_def buildRequest_def Let_def nth_Cons_numeral)
  show "r ! 2 = 0 \<and> r ! 3 = 0 \<and> r ! 4 = 0 \<and> r ! 5 = 6" using nth by simp
  show "int (unat (r ! 6)) = fs_slaveAddr spec" "int (unat (r ! 7)) = fs_funCode spec"
    using byte_of_int [of "fs_slaveAddr spec"] byte_of_int [of "fs_funCode spec"] assms(1-4)
    unfolding nth by auto
  show "int (unat (r ! 8) * 256 + unat (r ! 9)) = fs_startAddr spec"
    "int (unat (r ! 10) * 256 + unat (r ! 11)) = fs_addrNum spec"
    using byte_of_int [of "fs_startAddr spec"] byte_of_int [of "fs_addrNum spec"] assms(5-8)
    unfolding nth by simp_all
qed

section \<open>Waiting\<close>

lemma connect_timeval_exact:
  "0 \<le> ms \<Longrightarrow> fst (connect_timeval ms) * 1000000 + snd (connect_timeval ms) = ms * 1000 \<and>
     0 \<le> snd (connect_timeval ms) \<and> snd (connect_timeval ms) < 1000000"
  by (simp add: connect_timeval_def) presburger

text \<open>A sleep takes as long as it says while the thread runs, and at most one nap of 100 ms more once it is stopped.\<close>

lemma sleepMs_running: "0 \<le> ms \<Longrightarrow> sum_list (sleepMs ms (\<lambda>_. True) k) = ms"
proof (induction ms "\<lambda>_ :: nat. True" k rule: sleepMs.induct)
  case (1 ms k)
  then show ?case by (subst sleepMs.simps) (auto simp: Let_def)
qed

lemma sleepMs_naps: "x \<in> set (sleepMs ms running k) \<Longrightarrow> 1 \<le> x \<and> x \<le> 100"
proof (induction ms running k rule: sleepMs.induct)
  case (1 ms running k)
  then show ?case by (subst (asm) sleepMs.simps) (auto simp: Let_def split: if_splits)
qed

lemma sleepMs_stopped: "k \<le> j \<Longrightarrow> \<not> running j \<Longrightarrow> length (sleepMs ms running k) \<le> j - k"
proof (induction ms running k rule: sleepMs.induct)
  case (1 ms running k)
  show ?case
  proof (cases "0 < ms \<and> running k")
    case True
    then have "k < j" using "1.prems" by (metis le_neq_implies_less)
    with True "1.IH" [OF True refl] "1.prems"(2) show ?thesis by (subst sleepMs.simps) (auto simp: Let_def)
  next
    case False
    then show ?thesis by (subst sleepMs.simps) auto
  qed
qed

end
