(* ===== verification/Adapter_Properties.thy ===== *)
theory Adapter_Properties
  imports Writer_Delivery Example_Config Modbus_Poller
begin

text \<open>
  The properties of the adapter's own pipeline: from the configuration database and the network
  callbacks through the parser thread to what the writer submits, and the register poller. Each is
  applied to the example configuration.
\<close>

section \<open>From the network to the database\<close>

lemma ingest_chunks_ok:
  assumes "well_indexed db" "chunks_of evs = is_queue (foldl (net_step db) (ingest_new stats) es)"
  shows "\<forall>e \<in> set evs. event_ok (device_at db) e"
    and "c \<in> set (chunks_of evs) \<Longrightarrow> dd_addr ` chunk_devices c \<subseteq> {..< length (cdb_devices db)}"
proof -
  let ?s = "foldl (net_step db) (ingest_new stats) es"
  have ok: "ingest_ok db ?s" by (rule net_run_ok [OF assms(1) ingest_new_ok])
  then show "\<forall>e \<in> set evs. event_ok (device_at db) e"
    by (simp add: event_ok_chunks assms(2) ingest_ok_def)
  assume "c \<in> set (chunks_of evs)"
  then obtain gi where g: "gi < length (cdb_groups db)" "rc_group c = Some (gi, group_view db gi)"
    using ok by (auto simp: assms(2) ingest_ok_def)
  then have "dd_addr d < length (cdb_devices db)" if "d \<in> set (dg_members (group_view db gi))" for d
    using assms(1) that by (auto simp: group_view_def well_indexed_def)
  with g show "dd_addr ` chunk_devices c \<subseteq> {..< length (cdb_devices db)}"
    by (auto simp: chunk_devices_def)
qed

text \<open>
  C7: Everything the adapter receives for a configured endpoint reaches the database. For a loaded
  configuration and a started writer, whatever the network callbacks are, in whatever turns the parser
  thread takes the queue and in whatever order its batch map is iterated at the end: the parser and the
  writer finish, and for every column-bound device the rows bound to its prepared statement are exactly
  the rows that decoding the received chunks in order gives for it, each once and in order.
\<close>

theorem adapter_delivers:
  assumes "loadAll c = Some (Loaded db)"
    and "writer_start cfg sdk (cdb_devices db) stats = Loaded w0"
    and "chunks_of evs = is_queue (foldl (net_step db) (ingest_new stats1) es)"
  shows "\<exists>w1 streams rows. run_events (parser_new n pq stats2) evs = Some w1 \<and>
    decode_events (\<lambda>_. None) evs = Some (streams, rows) \<and>
    dom (pw_batches w1) \<subseteq> {..< length (cdb_devices db)} \<and>
    (\<forall>order. dom (pw_batches w1) \<subseteq> set order \<longrightarrow>
       (\<exists>w2 w3. parser_run (parser_new n pq stats2) evs order = Some w2 \<and>
          writer_run reply (pw_write w2) w0 = Some w3 \<and>
          (\<forall>d \<in> set (cdb_devices db). served d \<and> dd_connProto d \<noteq> CONN_HTTP \<longrightarrow>
             columns_for (dd_addr d) (ew_log w3) = map (row_image d) (rows_for (dd_addr d) rows))))"
proof -
  have ix: "well_indexed db" by (rule loadAll_well_indexed [OF assms(1)])
  note adr = addressed_device_at [OF ix]
  note start = writer_start_ok [OF assms(2) ix loadAll_columns [OF assms(1)]]
  have evs: "\<forall>e \<in> set evs. event_ok (device_at db) e" by (rule ingest_chunks_ok(1) [OF ix assms(3)])
  obtain w1 streams rows where run: "run_events (parser_new n pq stats2) evs = Some w1"
    "decode_events (\<lambda>_. None) evs = Some (streams, rows)"
    and final: "\<And>order. dom (pw_batches w1) \<subseteq> set order \<Longrightarrow>
       \<exists>w. parser_run (parser_new n pq stats2) evs order = Some w \<and> worker_ok (device_at db) w \<and>
          (\<forall>a. queued a (pw_write w) = rows_for a rows)"
    using parser_run_delivers [OF adr evs, of n pq stats2] by blast
  have "dom (pw_batches w1) \<subseteq> dom (pw_batches (parser_new n pq stats2)) \<union>
      dd_addr ` (\<Union>c \<in> set (chunks_of evs). chunk_devices c)"
    by (rule run_events_dom [OF run(1)])
  also have "\<dots> \<subseteq> {..< length (cdb_devices db)}"
    using ingest_chunks_ok(2) [OF ix assms(3)] by (auto simp: parser_new_def)
  finally have dom: "dom (pw_batches w1) \<subseteq> {..< length (cdb_devices db)}" .
  have "\<exists>w2 w3. parser_run (parser_new n pq stats2) evs order = Some w2 \<and>
          writer_run reply (pw_write w2) w0 = Some w3 \<and>
          (\<forall>d \<in> set (cdb_devices db). served d \<and> dd_connProto d \<noteq> CONN_HTTP \<longrightarrow>
             columns_for (dd_addr d) (ew_log w3) = map (row_image d) (rows_for (dd_addr d) rows))"
    if order: "dom (pw_batches w1) \<subseteq> set order" for order
  proof -
    obtain w2 where w2: "parser_run (parser_new n pq stats2) evs order = Some w2"
      "worker_ok (device_at db) w2" "\<And>a. queued a (pw_write w2) = rows_for a rows"
      using final [OF order] by blast
    then have bs: "\<forall>b \<in> set (pw_write w2). batch_for (device_at db) b"
      by (simp add: worker_ok_def batch_for_def)
    obtain w3 where w3: "writer_run reply (pw_write w2) w0 = Some w3"
      "\<And>a. columns_for a (ew_log w3) = columns_for a (ew_log w0) @
         (if bound_device (device_at db a) w0 then map (row_image (device_at db a)) (queued a (pw_write w2)) else [])"
      using writer_run_columns [OF adr start(1) bs, of reply] by blast
    have "device_at db (dd_addr d) = d" if "d \<in> set (cdb_devices db)" for d
      using ix that by (auto simp: well_indexed_def device_at_def in_set_conv_nth)
    with w2 w3 start(2,3) show ?thesis by auto
  qed
  with run dom show ?thesis by blast
qed

theorem adapter_delivers_witness:
  "\<exists>w0 w1 w2 w3 streams rows. writer_start example_cfg example_sdk (cdb_devices example_db) adapter_stats_zero = Loaded w0 \<and>
    (let evs = map Dequeued (is_queue (foldl (net_step example_db) (ingest_new adapter_stats_zero) example_events));
         d = cdb_devices example_db ! 0
     in run_events (parser_new 100 None adapter_stats_zero) evs = Some w1 \<and>
        decode_events (\<lambda>_. None) evs = Some (streams, rows) \<and>
        parser_run (parser_new 100 None adapter_stats_zero) evs [0, 1, 2, 3] = Some w2 \<and>
        writer_run (\<lambda>_. QueryOk) (pw_write w2) w0 = Some w3 \<and>
        columns_for (dd_addr d) (ew_log w3) = map (row_image d) (rows_for (dd_addr d) rows))"
proof -
  let ?evs = "map Dequeued (is_queue (foldl (net_step example_db) (ingest_new adapter_stats_zero) example_events))"
  let ?d = "cdb_devices example_db ! 0"
  obtain w0 where w0: "writer_start example_cfg example_sdk (cdb_devices example_db) adapter_stats_zero = Loaded w0"
    using example_starts by blast
  have "chunks_of (map Dequeued cs) = cs" for cs by (induction cs) simp_all
  from adapter_delivers [OF example_loaded w0 this, of 100 None adapter_stats_zero adapter_stats_zero example_events
      "\<lambda>_. QueryOk"]
  obtain w1 streams rows where
    w1: "run_events (parser_new 100 None adapter_stats_zero) ?evs = Some w1"
      "decode_events (\<lambda>_. None) ?evs = Some (streams, rows)"
      "dom (pw_batches w1) \<subseteq> {..< length (cdb_devices example_db)}"
    and fin: "\<And>order. dom (pw_batches w1) \<subseteq> set order \<Longrightarrow>
       \<exists>w2 w3. parser_run (parser_new 100 None adapter_stats_zero) ?evs order = Some w2 \<and>
          writer_run (\<lambda>_. QueryOk) (pw_write w2) w0 = Some w3 \<and>
          (\<forall>d \<in> set (cdb_devices example_db). served d \<and> dd_connProto d \<noteq> CONN_HTTP \<longrightarrow>
             columns_for (dd_addr d) (ew_log w3) = map (row_image d) (rows_for (dd_addr d) rows))"
    by blast
  have "length (map device_end (cdb_devices example_db)) = 4" unfolding example_db_devices(1) by simp
  then have "length (cdb_devices example_db) = 4" by simp
  then have "dom (pw_batches w1) \<subseteq> set [0, 1, 2, 3]" using w1(3) by auto
  from fin [OF this] obtain w2 w3 where w3: "parser_run (parser_new 100 None adapter_stats_zero) ?evs [0, 1, 2, 3] = Some w2"
    "writer_run (\<lambda>_. QueryOk) (pw_write w2) w0 = Some w3"
    "columns_for (dd_addr ?d) (ew_log w3) = map (row_image ?d) (rows_for (dd_addr ?d) rows)"
    using example_served example_proto by blast
  show ?thesis unfolding Let_def by (intro exI conjI) (rule w0 w1 w3)+
qed

section \<open>The configuration\<close>



text \<open>
  C9: A connection from the configured address and source port of a device is bound to the group of
  exactly the devices with that endpoint, each once, ordered by protocol number and identifier, the
  first being the status device and the only one that is flushed immediately.
\<close>

theorem match_exact_endpoint:
  assumes "loadAll c = Some (Loaded db)" "i < length (cdb_devices db)" "dd_devicePort (cdb_devices db ! i) \<noteq> 0"
  shows "\<exists>g. matchGroup db (dd_ip (cdb_devices db ! i)) (dd_devicePort (cdb_devices db ! i)) = Some g \<and>
    status_first g \<and> distinct (map dd_addr (dg_members g)) \<and>
    set (map dd_addr (dg_members g)) = {j. j < length (cdb_devices db) \<and>
      dd_ip (cdb_devices db ! j) = dd_ip (cdb_devices db ! i) \<and>
      dd_devicePort (cdb_devices db ! j) = dd_devicePort (cdb_devices db ! i)}"
proof -
  obtain devs slot gs where ok: "devices_loaded devs" and ix: "indexed devs slot gs db"
    using loadAll_indexed [OF assms(1)] by blast
  note len = indexed_length [OF ix]
  have same: "dd_ip (cdb_devices db ! j) = dd_ip (devs ! j)" "dd_devicePort (cdb_devices db ! j) = dd_devicePort (devs ! j)"
    if "j < length devs" for j using indexed_device [OF ix that] by auto
  have i: "i < length devs" "dd_devicePort (devs ! i) \<noteq> 0" using assms(2,3) same by (simp_all add: len)
  have "{j. j < length devs \<and> dd_ip (devs ! j) = dd_ip (devs ! i) \<and> dd_devicePort (devs ! j) = dd_devicePort (devs ! i)} =
      {j. j < length (cdb_devices db) \<and> dd_ip (cdb_devices db ! j) = dd_ip (cdb_devices db ! i) \<and>
        dd_devicePort (cdb_devices db ! j) = dd_devicePort (cdb_devices db ! i)}"
    using same i(1) by (auto simp: len)
  with matchGroup_exact [OF ok i ix] show ?thesis by (simp only: same [OF i(1)])
qed

theorem match_exact_endpoint_witness:
  "\<exists>g. matchGroup example_db (dd_ip (cdb_devices example_db ! 0)) (dd_devicePort (cdb_devices example_db ! 0)) = Some g \<and>
    status_first g \<and> distinct (map dd_addr (dg_members g))"
proof -
  have "0 < length (cdb_devices example_db)" "dd_devicePort (cdb_devices example_db ! 0) \<noteq> 0"
    using example_device [of 0] by (simp_all add: device_end_def)
  from match_exact_endpoint [OF example_loaded this] show ?thesis by blast
qed

text \<open>
  C10: A connection from a source port that no device of that address is configured with falls back to
  the address alone: when all devices with this address share one endpoint group, the connection gets
  that group with all of them, and otherwise it stays unmatched. This holds for addresses without a
  colon.
\<close>

theorem match_by_address:
  assumes "loadAll c = Some (Loaded db)" "\<forall>d \<in> set (cdb_devices db). CHR '':'' \<notin> set (dd_ip d)"
    and "\<forall>d \<in> set (cdb_devices db). \<not> (dd_ip d = ip \<and> dd_devicePort d = port \<and> port \<noteq> 0)"
  shows "if \<exists>i < length (cdb_devices db). dd_ip (cdb_devices db ! i) = ip \<and>
        (\<forall>j < length (cdb_devices db). dd_ip (cdb_devices db ! j) = ip \<longrightarrow>
           j = i \<or> same_endpoint (cdb_devices db ! i) (cdb_devices db ! j))
    then \<exists>g. matchGroup db ip port = Some g \<and> status_first g \<and>
           set (map dd_addr (dg_members g)) = {j. j < length (cdb_devices db) \<and> dd_ip (cdb_devices db ! j) = ip}
    else matchGroup db ip port = None"
proof -
  obtain devs slot gs where ok: "devices_loaded devs" and ix: "indexed devs slot gs db"
    using loadAll_indexed [OF assms(1)] by blast
  note len = indexed_length [OF ix]
  have same: "dd_ip (cdb_devices db ! j) = dd_ip (devs ! j)" "dd_devicePort (cdb_devices db ! j) = dd_devicePort (devs ! j)"
    if "j < length devs" for j using indexed_device [OF ix that] by auto
  have ends: "same_endpoint (cdb_devices db ! i) (cdb_devices db ! j) \<longleftrightarrow> same_endpoint (devs ! i) (devs ! j)"
    if "i < length devs" "j < length devs" for i j using same that by (simp add: same_endpoint_def)
  have all: "(\<forall>d \<in> set devs. P (dd_ip d) (dd_devicePort d)) \<longleftrightarrow>
      (\<forall>d \<in> set (cdb_devices db). P (dd_ip d) (dd_devicePort d))" for P
    using same by (auto simp: all_set_conv_all_nth len)
  have plain: "\<forall>d \<in> set devs. CHR '':'' \<notin> set (dd_ip d)" using all [of "\<lambda>a p. CHR '':'' \<notin> set a"] assms(2) by simp
  have none: "\<forall>d \<in> set devs. \<not> (dd_ip d = ip \<and> dd_devicePort d = port \<and> port \<noteq> 0)"
    using all [of "\<lambda>a p. \<not> (a = ip \<and> p = port \<and> port \<noteq> 0)"] assms(3) by simp
  show ?thesis
    using matchGroup_fallback [OF ok ix plain none] same(1) ends
    by (simp add: len split: if_splits cong: conj_cong imp_cong)
qed

theorem match_by_address_witness:
  "\<exists>g. matchGroup example_db ''10.0.0.2'' 9999 = Some g \<and> status_first g"
proof -
  have all: "(\<forall>d \<in> set (cdb_devices example_db). P (device_end d)) \<longleftrightarrow>
      (\<forall>e \<in> set (map device_end (cdb_devices example_db)). P e)" for P by simp
  have 1: "\<forall>d \<in> set (cdb_devices example_db). CHR '':'' \<notin> set (dd_ip d)"
    using all [of "\<lambda>(n, a, p, t). CHR '':'' \<notin> set a"] unfolding example_db_devices(1) by (simp add: device_end_def)
  have 2: "\<forall>d \<in> set (cdb_devices example_db). \<not> (dd_ip d = ''10.0.0.2'' \<and> dd_devicePort d = 9999 \<and> 9999 \<noteq> (0 :: u16))"
    using all [of "\<lambda>(n, a, p, t). \<not> (a = ''10.0.0.2'' \<and> p = 9999 \<and> 9999 \<noteq> (0 :: u16))"]
    unfolding example_db_devices(1) by (simp add: device_end_def)
  have len: "length (cdb_devices example_db) = 4"
    using arg_cong [OF example_db_devices(1), of length] by simp
  have ips: "dd_ip (cdb_devices example_db ! j) = [''10.0.0.1'', ''10.0.0.1'', ''10.0.0.2'', ''10.0.0.3''] ! j" if "j < 4" for j
    using example_device(2) [OF that] that by (auto simp: device_end_def less_Suc_eq numeral_eq_Suc)
  have "\<exists>i < length (cdb_devices example_db). dd_ip (cdb_devices example_db ! i) = ''10.0.0.2'' \<and>
        (\<forall>j < length (cdb_devices example_db). dd_ip (cdb_devices example_db ! j) = ''10.0.0.2'' \<longrightarrow>
           j = i \<or> same_endpoint (cdb_devices example_db ! i) (cdb_devices example_db ! j))"
  proof (intro exI [of _ 2] conjI allI impI)
    fix j assume "j < length (cdb_devices example_db)" "dd_ip (cdb_devices example_db ! j) = ''10.0.0.2''"
    then show "j = 2 \<or> same_endpoint (cdb_devices example_db ! 2) (cdb_devices example_db ! j)"
      using ips [of j] by (auto simp: len less_Suc_eq numeral_eq_Suc)
  qed (simp_all add: len ips)
  with match_by_address [OF example_loaded 1 2] show ?thesis by (auto split: if_splits)
qed

section \<open>The parser thread and the listener\<close>

text \<open>
  C11: The flush policy holds between any two turns of the parser thread: a status device of a
  custom_data endpoint has no row waiting, and no device ever has a full batch waiting.
\<close>

theorem flush_policy:
  assumes "loadAll c = Some (Loaded db)"
    and "chunks_of evs = is_queue (foldl (net_step db) (ingest_new stats) es)"
  shows "\<exists>w. run_events (parser_new n pq stats2) evs = Some w \<and>
    (\<forall>d \<in> set (cdb_devices db). (dd_immediateFlush d \<longrightarrow> pending (dd_addr d) w = []) \<and>
       length (pending (dd_addr d) w) < (if 0 < n then nat n else 1))"
proof -
  have ix: "well_indexed db" by (rule loadAll_well_indexed [OF assms(1)])
  obtain w where w: "run_events (parser_new n pq stats2) evs = Some w" "settled (device_at db) w"
    "pw_batchRows w = (if 0 < n then nat n else 1)"
    using parser_run_delivers [OF addressed_device_at [OF ix] ingest_chunks_ok(1) [OF ix assms(2)], of n pq stats2]
    by (auto simp: parser_new_def)
  have "(dd_immediateFlush d \<longrightarrow> pending (dd_addr d) w = []) \<and>
       length (pending (dd_addr d) w) < (if 0 < n then nat n else 1)" if "d \<in> set (cdb_devices db)" for d
  proof -
    have "device_at db (dd_addr d) = d"
      using ix that by (auto simp: well_indexed_def device_at_def in_set_conv_nth)
    then have "pending_small (if 0 < n then nat n else 1) d w" using w(2,3) by (metis settled_def)
    then show ?thesis by (cases "pending (dd_addr d) w = []") (auto simp: pending_small_def)
  qed
  with w(1) show ?thesis by blast
qed

theorem flush_policy_witness:
  "\<exists>w. run_events (parser_new 1 None adapter_stats_zero)
      (map Dequeued (is_queue (foldl (net_step example_db) (ingest_new adapter_stats_zero) example_events))) = Some w \<and>
    length (pending (dd_addr (cdb_devices example_db ! 0)) w) < 1"
proof -
  have "chunks_of (map Dequeued cs) = cs" for cs by (induction cs) simp_all
  from flush_policy [OF example_loaded this, of 1 None adapter_stats_zero adapter_stats_zero example_events]
  obtain w where "run_events (parser_new 1 None adapter_stats_zero)
      (map Dequeued (is_queue (foldl (net_step example_db) (ingest_new adapter_stats_zero) example_events))) = Some w"
    "\<forall>d \<in> set (cdb_devices example_db). (dd_immediateFlush d \<longrightarrow> pending (dd_addr d) w = []) \<and>
       length (pending (dd_addr d) w) < (if 0 < (1::int) then nat 1 else 1)" by blast
  then show ?thesis using example_served(2) by fastforce
qed

fun received :: "net_event \<Rightarrow> bytes" where
  "received (Message conn ip port data t) = data"
| "received e = []"

fun opened :: "net_event \<Rightarrow> bool" where
  "opened (Connect conn ip port) \<longleftrightarrow> True"
| "opened e \<longleftrightarrow> False"

lemma net_step_counts:
  "as_bytesIn (is_stats (net_step db s e)) = as_bytesIn (is_stats s) + word_of_nat (length (received e))"
  "as_connsOpened (is_stats (net_step db s e)) = as_connsOpened (is_stats s) + (if opened e then 1 else 0)"
  "\<exists>q. is_queue (net_step db s e) = is_queue s @ q \<and> concat (map rc_data q) \<in> {[], received e} \<and>
     as_chunks (is_stats (net_step db s e)) = as_chunks (is_stats s) + word_of_nat (length q) \<and>
     as_unmatched (is_stats (net_step db s e)) + word_of_nat (length q) =
       as_unmatched (is_stats s) + (if received e = [] then 0 else 1)"
  by (cases e; auto simp: onConnected_def onDisconnected_def onMessage_def Let_def split: option.split)+

text \<open>
  C12: The listener accounts for everything it receives: the byte counter grows by the bytes of all
  messages, every connection is counted, each queued chunk is counted, and a non-empty message is either
  queued as one chunk or counted as unmatched.
\<close>

theorem ingest_accounting:
  "let s = foldl (net_step db) (ingest_new adapter_stats_zero) es
   in as_bytesIn (is_stats s) = word_of_nat (length (concat (map received es))) \<and>
      as_connsOpened (is_stats s) = word_of_nat (length (filter opened es)) \<and>
      as_chunks (is_stats s) = word_of_nat (length (is_queue s)) \<and>
      as_chunks (is_stats s) + as_unmatched (is_stats s) = word_of_nat (length (filter (\<lambda>e. received e \<noteq> []) es))"
proof (induction es rule: rev_induct)
  case Nil
  show ?case by (simp add: ingest_new_def adapter_stats_zero_def)
next
  case (snoc e es)
  let ?s = "foldl (net_step db) (ingest_new adapter_stats_zero) es"
  obtain q where q: "is_queue (net_step db ?s e) = is_queue ?s @ q"
    "as_chunks (is_stats (net_step db ?s e)) = as_chunks (is_stats ?s) + word_of_nat (length q)"
    "as_unmatched (is_stats (net_step db ?s e)) + word_of_nat (length q) =
       as_unmatched (is_stats ?s) + (if received e = [] then 0 else 1)"
    using net_step_counts(3) [of db ?s e] by blast
  have "as_chunks (is_stats (net_step db ?s e)) + as_unmatched (is_stats (net_step db ?s e)) =
      as_chunks (is_stats ?s) + (as_unmatched (is_stats (net_step db ?s e)) + word_of_nat (length q))"
    by (simp add: q(2) ac_simps)
  also have "\<dots> = as_chunks (is_stats ?s) + as_unmatched (is_stats ?s) + (if received e = [] then 0 else 1)"
    by (simp only: q(3) add.assoc)
  finally have both: "as_chunks (is_stats (net_step db ?s e)) + as_unmatched (is_stats (net_step db ?s e)) =
      as_chunks (is_stats ?s) + as_unmatched (is_stats ?s) + (if received e = [] then 0 else 1)" .
  from snoc.IH show ?case
    unfolding Let_def foldl_append foldl_Cons foldl_Nil both
    by (auto simp: net_step_counts(1,2) q(1,2) ac_simps)
qed

section \<open>Settings\<close>

text \<open>
  C30: A configuration file is read back: for a file printed from sections of quoted values, \<open>get\<close> yields the last
  value of a key in a section, and the default when there is none.
\<close>

theorem config_file_read:
  assumes "list_all clean_section secs"
  shows "ini_get (ini_load (ini_text secs)) sec key d =
    (case map_of (rev (ini_entries secs)) (sec, key) of None \<Rightarrow> d | Some v \<Rightarrow> v)"
  by (simp add: ini_get_lookup ini_text_read [OF assms])

theorem config_file_read_witness:
  "ini_get (ini_load (ini_text [(''etherdb'', [(''host'', ''a;b''), (''host'', '' c '')]), (''log'', [])])) ''etherdb'' ''host'' [] = '' c ''"
proof -
  have "list_all clean_section [(''etherdb'', [(''host'', ''a;b''), (''host'', '' c '')]), (''log'', [])]" by code_simp
  from config_file_read [OF this, of "''etherdb''" "''host''" "[]"] show ?thesis by (simp add: ini_entries_def)
qed

text \<open>Whatever the configuration file contains, or without one, the loaded settings are in range.\<close>

lemma config_in_range:
  "let cfg = AdapterConfig_load link cfgFile file
   in 1 \<le> ec_batchRows (ac_etherdb cfg) \<and> 1 \<le> ec_flushIntervalMs (ac_etherdb cfg) \<and>
      50 \<le> mc_pollIntervalMs (ac_modbus cfg) \<and> 100 \<le> mc_connectTimeoutMs (ac_modbus cfg) \<and>
      0 \<notin> set (sc_extraListenPorts (ac_server cfg))"
  by (cases "file")
     (simp_all add: AdapterConfig_load_def Let_def load_etherdb_def load_modbus_def load_server_def parsePortList_nonzero
        adapter_config_default_def etherdb_config_default_def modbus_config_default_def server_config_default_def)

end
