(* ===== verification/Store_Properties.thy ===== *)
theory Store_Properties
  imports Writer_Delivery Example_Config Modbus_Poller
begin

text \<open>
  Properties of what is stored and of what is requested: the values of the columns, the SQL text of the
  writer, and the requests of the register poller.
\<close>

section \<open>Values\<close>

text \<open>A signed 12-bit field at bit 2 of a 16-bit word, and a 32-bit float.\<close>

definition example_bits :: field_desc where
  "example_bits = materializeField
     \<lparr>fd_name = ''level'', fd_unit = [], fd_kind = IntSigned, fd_size = 2, fd_byteOffset = 0, fd_bitOffset = 2,
      fd_bitLen = 12, fd_precision = 0, fd_outSize = 0, fd_bindType = 0, fd_colType = [], fd_asDouble = False\<rparr> 0"

definition example_float :: field_desc where
  "example_float = materializeField
     \<lparr>fd_name = ''p'', fd_unit = [], fd_kind = Float32, fd_size = 4, fd_byteOffset = 2, fd_bitOffset = 0,
      fd_bitLen = 0, fd_precision = 0, fd_outSize = 0, fd_bindType = 0, fd_colType = [], fd_asDouble = False\<rparr> 1"

lemma example_bits_fields:
  "fd_kind example_bits = IntSigned" "fd_size example_bits = 2" "fd_bitOffset example_bits = 2"
  "fd_bitLen example_bits = 12" "materialized example_bits"
  by (auto simp: example_bits_def materializeField_keeps materialized_def)

lemma example_bits_ok: "field_ok example_bits" "\<not> whole_uint64 example_bits"
  by (simp_all add: field_ok_def field_width_ok_def field_bits_ok_def whole_uint64_def example_bits_fields)



text \<open>
  C14: An integer field is stored with its value on the wire: read back from its column as a
  little-endian two's complement number, the bytes of the cell are that number. The only exception is a
  whole unsigned 64-bit field, whose column is signed.
\<close>

theorem stored_integer:
  assumes "materialized f" "field_ok f" "fd_kind f \<in> {IntSigned, IntUnsigned}" "\<not> whole_uint64 f"
    and "length bs = unat (fd_size f)"
  shows "column_value (cell_bytes f \<lparr>cell_v = field_bits f be bs, cell_isNull = nu\<rparr>) =
    int_field_value f (wire_nat be bs)"
  by (rule stored_int_value [OF assms])

theorem stored_integer_witness:
  "column_value (cell_bytes example_bits \<lparr>cell_v = field_bits example_bits False [0xFC, 0xFF], cell_isNull = 0\<rparr>) =
    int_field_value example_bits (wire_nat False [0xFC, 0xFF])"
  by (rule stored_integer) (simp_all add: example_bits_fields example_bits_ok)

text \<open>
  A 32-bit float is stored bit for bit although the adapter carries it as a double: for every value
  that is not a NaN, zeros, infinities and subnormal numbers included, the column holds the bits received.
\<close>

theorem stored_float:
  assumes "materialized f" "fd_kind f = Float32" "\<not> is_nan32 (if be then swap32 (le32 bs) else le32 bs)"
  shows "cell_bytes f \<lparr>cell_v = field_bits f be bs, cell_isNull = nu\<rparr> =
    le_bytes 4 (unat (if be then swap32 (le32 bs) else le32 bs))"
  by (rule stored_float32 [OF assms])

theorem stored_float_witness:
  "cell_bytes example_float \<lparr>cell_v = field_bits example_float False [1, 0, 0, 0], cell_isNull = 0\<rparr> =
    le_bytes 4 (unat (le32 [1, 0, 0, 0]))"
proof -
  have "\<not> is_nan32 (if False then swap32 (le32 [1, 0, 0, 0]) else le32 [1, 0, 0, 0])"
    by (simp add: is_nan32_def f32_exp_def f32_frac_def le32_def)
  from stored_float [OF _ _ this, of example_float 0] show ?thesis
    by (auto simp: example_float_def materializeField_keeps materialized_def)
qed

section \<open>Statements\<close>

text \<open>
  C15: The rows of an http device are all written: the writer finishes, every row of the batch is in
  exactly one statement, in order, and no statement has more than two hundred rows.
\<close>

theorem http_rows_complete:
  assumes "rb_dev batch = Some dev" "batch_ok batch" "dd_connProto dev = CONN_HTTP" "fieldCount dev \<noteq> 0"
  shows "\<exists>w' parts. writeBatch reply batch w = Some w' \<and>
    ew_log w' = ew_log w @ map (insert_statement dev) parts \<and>
    concat parts = map (sql_row_text dev batch) [0 ..< rowCount batch] \<and>
    list_all (\<lambda>p. 0 < length p \<and> length p \<le> 200) parts"
proof (cases "rowCount batch = 0")
  case True
  with assms show ?thesis
    by (intro exI [of _ w] exI [of _ "[]"]) (simp add: writeBatch_def writeBatchSql_def)
next
  case False
  with assms sql_pieces_submits [OF assms(1,2), of 0 reply w] show ?thesis
    by (auto simp: writeBatch_def writeBatchSql_def kMaxRowsPerStmt_def list_all_iff)
qed

definition example_http :: device_desc where
  "example_http = \<lparr>dd_addr = 3, dd_deviceId = ''web'', dd_deviceName = [], dd_ip = ''10.0.0.3'', dd_devicePort = 0,
     dd_connProto = CONN_HTTP, dd_localServerPort = 8080, dd_dataProtoId = 1, dd_endian = 0,
     dd_spec = frame_spec_default\<lparr>fs_fields := [example_bits]\<rparr>, dd_group = None, dd_isEvent = False,
     dd_eventType = 0, dd_immediateFlush = False\<rparr>"

definition example_batch :: row_batch where
  "example_batch = \<lparr>rb_dev = Some example_http, rb_ts = [1, 2],
     rb_cells = [\<lparr>cell_v = 7, cell_isNull = 0\<rparr>, \<lparr>cell_v = 0, cell_isNull = 1\<rparr>]\<rparr>"

theorem http_rows_complete_witness:
  "\<exists>w' parts. writeBatch (\<lambda>_. QueryOk) example_batch
       \<lparr>ew_sinks = (\<lambda>_. None), ew_log = [], ew_stats = adapter_stats_zero\<rparr> = Some w' \<and>
    ew_log w' = map (insert_statement example_http) parts \<and>
    concat parts = map (sql_row_text example_http example_batch) [0 ..< rowCount example_batch]"
proof -
  have "rb_dev example_batch = Some example_http" "batch_ok example_batch" "dd_connProto example_http = CONN_HTTP"
    "fieldCount example_http \<noteq> 0"
    by (simp_all add: example_batch_def example_http_def batch_ok_def rowCount_def fieldCount_def frame_spec_default_def)
  from http_rows_complete [OF this, of "\<lambda>_. QueryOk"
      "\<lparr>ew_sinks = (\<lambda>_. None), ew_log = [], ew_stats = adapter_stats_zero\<rparr>"]
  show ?thesis by auto
qed














section \<open>Requests of the poller\<close>

text \<open>
  C17: The requests of a poller thread carry the transaction identifiers 1, 2, ..., 254, 1, ... without a
  gap, whatever connects, sends and reads fail in between.
\<close>

theorem poll_transaction_ids:
  "map tid_of (poll_requests ms (session_new d) es) =
     map (\<lambda>i. i mod 254 + 1) [0 ..< length (poll_requests ms (session_new d) es)]"
proof -
  have "tid_ok (se_tid (session_new d))" "current_tid (se_tid (session_new d)) = 1"
    by (simp_all add: session_new_def tid_ok_def current_tid_def)
  with poll_requests_tids [of "session_new d" ms es] funpow_next_tid [of 1] show ?thesis by simp
qed

text \<open>
  A request is a twelve-byte Modbus TCP frame with the configured unit, function, start address and
  register count in big-endian order, protocol identifier zero and length six.
\<close>

theorem poll_request_fields:
  assumes "0 \<le> fs_slaveAddr spec" "fs_slaveAddr spec < 256" "0 \<le> fs_funCode spec" "fs_funCode spec < 256"
    and "0 \<le> fs_startAddr spec" "fs_startAddr spec < 65536" "0 \<le> fs_addrNum spec" "fs_addrNum spec < 65536"
  shows "let r = fst (buildRequest t spec)
    in length r = 12 \<and> r ! 2 = 0 \<and> r ! 3 = 0 \<and> r ! 4 = 0 \<and> r ! 5 = 6 \<and>
       int (unat (r ! 6)) = fs_slaveAddr spec \<and> int (unat (r ! 7)) = fs_funCode spec \<and>
       int (unat (r ! 8) * 256 + unat (r ! 9)) = fs_startAddr spec \<and>
       int (unat (r ! 10) * 256 + unat (r ! 11)) = fs_addrNum spec"
  using buildRequest_fields [OF assms, of t] buildRequest_length [of t spec] by (simp only: Let_def simp_thms)

theorem poll_request_fields_witness:
  "int (unat (fst (buildRequest 7 (frame_spec_default\<lparr>fs_slaveAddr := 1, fs_funCode := 3, fs_startAddr := 0x102,
      fs_addrNum := 20\<rparr>)) ! 8) * 256 +
     unat (fst (buildRequest 7 (frame_spec_default\<lparr>fs_slaveAddr := 1, fs_funCode := 3, fs_startAddr := 0x102,
      fs_addrNum := 20\<rparr>)) ! 9)) = 0x102"
  using poll_request_fields [of "frame_spec_default\<lparr>fs_slaveAddr := 1, fs_funCode := 3, fs_startAddr := 0x102,
      fs_addrNum := 20\<rparr>" 7]
  by (simp only: Let_def) (simp add: frame_spec_default_def)

text \<open>
  A register-read device whose responses cannot fit a frame (header length 0 or 2 and more than
  64 KiB of fields) never produces a row: every chunk is appended to the stream buffer, which is never
  compacted, so that the pending bytes grow by the length of each chunk.
\<close>

theorem modbus_oversized_stalls:
  assumes "fs_fields (dd_spec dev) \<noteq> []" "isModbusHeaderLen (dd_spec dev)" "\<not> modbus_len_ok dev"
  shows "\<exists>st'. feedModbus dev st data ts = Some (st', []) \<and>
    length (ds_buf st') = length (ds_buf st) + length data"
  by (simp add: feedModbus_oversized [OF assms] sized_def)

definition example_oversized :: device_desc where
  "example_oversized = example_http\<lparr>dd_connProto := CONN_MODBUS,
     dd_spec := frame_spec_default\<lparr>fs_frameType := 2, fs_payloadMin := 70000, fs_fields := [example_bits]\<rparr>\<rparr>"

theorem modbus_oversized_stalls_witness:
  "\<exists>st'. feedModbus example_oversized device_stream_new [1, 2, 3] 0 = Some (st', []) \<and>
    length (ds_buf st') = length (ds_buf device_stream_new) + 3"
proof -
  have "fs_fields (dd_spec example_oversized) \<noteq> []" "isModbusHeaderLen (dd_spec example_oversized)"
    "\<not> modbus_len_ok example_oversized"
    by (simp_all add: example_oversized_def frame_spec_default_def isModbusHeaderLen_def modbus_len_ok_def
        is_mbap_def kMaxFrame_def)
  from modbus_oversized_stalls [OF this, of device_stream_new "[1, 2, 3]" 0] show ?thesis
    by (simp add: numeral_3_eq_3)
qed

end
