(* ===== verification/Http_Types.thy ===== *)
theory Http_Types
  imports Adapter_Prelude
begin

text \<open>
  The data model of the HTTP parser (\<open>src/net/http/http_parser.h\<close> and the declarations at the head of
  \<open>src/net/http/http_parser.c\<close>), built with \<open>HTTP_PARSER_STRICT\<close> = 1: its enumerations, the parser and
  settings structures, the character tables and classes, and the small operations on a parser.

  The bit-fields of \<open>struct http_parser\<close> that hold an enumeration are that enumeration; the others are
  words of the declared width. \<open>void *data\<close> is a field of the client's own type \<open>'u\<close>, so a callback is a
  function of the parser it may change; \<open>None\<close> is a callback that aborts.
\<close>

section \<open>Enumerations\<close>

datatype http_parser_type = HTTP_REQUEST | HTTP_RESPONSE | HTTP_BOTH

datatype (plugins only: code size) http_method =
  HTTP_DELETE | HTTP_GET | HTTP_HEAD | HTTP_POST | HTTP_PUT | HTTP_CONNECT | HTTP_OPTIONS
| HTTP_TRACE | HTTP_COPY | HTTP_LOCK | HTTP_MKCOL | HTTP_MOVE | HTTP_PROPFIND | HTTP_PROPPATCH
| HTTP_SEARCH | HTTP_UNLOCK | HTTP_BIND | HTTP_REBIND | HTTP_UNBIND | HTTP_ACL | HTTP_REPORT
| HTTP_MKACTIVITY | HTTP_CHECKOUT | HTTP_MERGE | HTTP_MSEARCH | HTTP_NOTIFY | HTTP_SUBSCRIBE
| HTTP_UNSUBSCRIBE | HTTP_PATCH | HTTP_PURGE | HTTP_MKCALENDAR | HTTP_LINK | HTTP_UNLINK
| HTTP_SOURCE

primrec method_strings :: "http_method \<Rightarrow> string" where
  "method_strings HTTP_DELETE = ''DELETE''"
| "method_strings HTTP_GET = ''GET''"
| "method_strings HTTP_HEAD = ''HEAD''"
| "method_strings HTTP_POST = ''POST''"
| "method_strings HTTP_PUT = ''PUT''"
| "method_strings HTTP_CONNECT = ''CONNECT''"
| "method_strings HTTP_OPTIONS = ''OPTIONS''"
| "method_strings HTTP_TRACE = ''TRACE''"
| "method_strings HTTP_COPY = ''COPY''"
| "method_strings HTTP_LOCK = ''LOCK''"
| "method_strings HTTP_MKCOL = ''MKCOL''"
| "method_strings HTTP_MOVE = ''MOVE''"
| "method_strings HTTP_PROPFIND = ''PROPFIND''"
| "method_strings HTTP_PROPPATCH = ''PROPPATCH''"
| "method_strings HTTP_SEARCH = ''SEARCH''"
| "method_strings HTTP_UNLOCK = ''UNLOCK''"
| "method_strings HTTP_BIND = ''BIND''"
| "method_strings HTTP_REBIND = ''REBIND''"
| "method_strings HTTP_UNBIND = ''UNBIND''"
| "method_strings HTTP_ACL = ''ACL''"
| "method_strings HTTP_REPORT = ''REPORT''"
| "method_strings HTTP_MKACTIVITY = ''MKACTIVITY''"
| "method_strings HTTP_CHECKOUT = ''CHECKOUT''"
| "method_strings HTTP_MERGE = ''MERGE''"
| "method_strings HTTP_MSEARCH = ''M-SEARCH''"
| "method_strings HTTP_NOTIFY = ''NOTIFY''"
| "method_strings HTTP_SUBSCRIBE = ''SUBSCRIBE''"
| "method_strings HTTP_UNSUBSCRIBE = ''UNSUBSCRIBE''"
| "method_strings HTTP_PATCH = ''PATCH''"
| "method_strings HTTP_PURGE = ''PURGE''"
| "method_strings HTTP_MKCALENDAR = ''MKCALENDAR''"
| "method_strings HTTP_LINK = ''LINK''"
| "method_strings HTTP_UNLINK = ''UNLINK''"
| "method_strings HTTP_SOURCE = ''SOURCE''"

datatype (plugins only: code size) http_errno =
  HPE_OK
| HPE_CB_message_begin | HPE_CB_url | HPE_CB_header_field | HPE_CB_header_value
| HPE_CB_headers_complete | HPE_CB_body | HPE_CB_message_complete | HPE_CB_status
| HPE_CB_chunk_header | HPE_CB_chunk_complete
| HPE_INVALID_EOF_STATE | HPE_HEADER_OVERFLOW | HPE_CLOSED_CONNECTION | HPE_INVALID_VERSION
| HPE_INVALID_STATUS | HPE_INVALID_METHOD | HPE_INVALID_URL | HPE_INVALID_HOST | HPE_INVALID_PORT
| HPE_INVALID_PATH | HPE_INVALID_QUERY_STRING | HPE_INVALID_FRAGMENT | HPE_LF_EXPECTED
| HPE_INVALID_HEADER_TOKEN | HPE_INVALID_CONTENT_LENGTH | HPE_UNEXPECTED_CONTENT_LENGTH
| HPE_INVALID_CHUNK_SIZE | HPE_INVALID_CONSTANT | HPE_INVALID_INTERNAL_STATE | HPE_STRICT
| HPE_PAUSED | HPE_UNKNOWN

datatype (plugins only: code size) http_state =
  s_dead | s_start_req_or_res | s_res_or_resp_H | s_start_res | s_res_H | s_res_HT | s_res_HTT
| s_res_HTTP | s_res_http_major | s_res_http_dot | s_res_http_minor | s_res_http_end
| s_res_first_status_code | s_res_status_code | s_res_status_start | s_res_status
| s_res_line_almost_done
| s_start_req
| s_req_method | s_req_spaces_before_url | s_req_schema | s_req_schema_slash
| s_req_schema_slash_slash | s_req_server_start | s_req_server | s_req_server_with_at | s_req_path
| s_req_query_string_start | s_req_query_string | s_req_fragment_start | s_req_fragment
| s_req_http_start | s_req_http_H | s_req_http_HT | s_req_http_HTT | s_req_http_HTTP
| s_req_http_major | s_req_http_dot | s_req_http_minor | s_req_http_end | s_req_line_almost_done
| s_header_field_start | s_header_field | s_header_value_discard_ws
| s_header_value_discard_ws_almost_done | s_header_value_discard_lws | s_header_value_start
| s_header_value | s_header_value_lws
| s_header_almost_done
| s_chunk_size_start | s_chunk_size | s_chunk_parameters | s_chunk_size_almost_done
| s_headers_almost_done | s_headers_done
| s_chunk_data | s_chunk_data_almost_done | s_chunk_data_done
| s_body_identity | s_body_identity_eof
| s_message_done

text \<open>\<open>PARSING_HEADER\<close> is \<open>state <= s_headers_done\<close>: every state but the six declared after it.\<close>

definition PARSING_HEADER :: "http_state \<Rightarrow> bool" where
  "PARSING_HEADER s = (s \<notin> {s_chunk_data, s_chunk_data_almost_done, s_chunk_data_done,
     s_body_identity, s_body_identity_eof, s_message_done})"

datatype (plugins only: code size) header_states =
  h_general | h_C | h_CO | h_CON
| h_matching_connection | h_matching_proxy_connection | h_matching_content_length
| h_matching_transfer_encoding | h_matching_upgrade
| h_connection | h_content_length | h_content_length_num | h_content_length_ws
| h_transfer_encoding | h_upgrade
| h_matching_transfer_encoding_chunked | h_matching_connection_token_start
| h_matching_connection_keep_alive | h_matching_connection_close | h_matching_connection_upgrade
| h_matching_connection_token
| h_transfer_encoding_chunked | h_connection_keep_alive | h_connection_close
| h_connection_upgrade

section \<open>Structures\<close>

definition F_CHUNKED :: u8 where "F_CHUNKED = 1"
definition F_CONNECTION_KEEP_ALIVE :: u8 where "F_CONNECTION_KEEP_ALIVE = 2"
definition F_CONNECTION_CLOSE :: u8 where "F_CONNECTION_CLOSE = 4"
definition F_CONNECTION_UPGRADE :: u8 where "F_CONNECTION_UPGRADE = 8"
definition F_TRAILING :: u8 where "F_TRAILING = 16"
definition F_UPGRADE :: u8 where "F_UPGRADE = 32"
definition F_SKIPBODY :: u8 where "F_SKIPBODY = 64"
definition F_CONTENTLENGTH :: u8 where "F_CONTENTLENGTH = 128"

lemmas flag_defs = F_CHUNKED_def F_CONNECTION_KEEP_ALIVE_def F_CONNECTION_CLOSE_def
  F_CONNECTION_UPGRADE_def F_TRAILING_def F_UPGRADE_def F_SKIPBODY_def F_CONTENTLENGTH_def

record 'u http_parser =
  hp_type :: http_parser_type
  flags :: u8
  state :: http_state
  header_state :: header_states
  index :: "7 word"
  lenient_http_headers :: bool
  nread :: u32
  content_length :: u64
  http_major :: u16
  http_minor :: u16
  status_code :: u16
  meth :: http_method
  http_errno :: http_errno
  upgrade :: bool
  user_data :: 'u

type_synonym 'u http_cb = "'u http_parser \<Rightarrow> (int \<times> 'u http_parser) option"
type_synonym 'u http_data_cb = "'u http_parser \<Rightarrow> bytes \<Rightarrow> (int \<times> 'u http_parser) option"

record 'u http_parser_settings =
  on_message_begin :: "'u http_cb option"
  on_url :: "'u http_data_cb option"
  on_status :: "'u http_data_cb option"
  on_header_field :: "'u http_data_cb option"
  on_header_value :: "'u http_data_cb option"
  on_headers_complete :: "'u http_cb option"
  on_body :: "'u http_data_cb option"
  on_message_complete :: "'u http_cb option"
  on_chunk_header :: "'u http_cb option"
  on_chunk_complete :: "'u http_cb option"

definition HTTP_MAX_HEADER_SIZE :: u32 where "HTTP_MAX_HEADER_SIZE = 80 * 1024"

definition ULLONG_MAX :: u64 where "ULLONG_MAX = - 1"

definition flag :: "u8 \<Rightarrow> 'u http_parser \<Rightarrow> bool" where
  "flag f pr = (flags pr AND f \<noteq> 0)"

definition set_flag :: "u8 \<Rightarrow> 'u http_parser \<Rightarrow> 'u http_parser" where
  "set_flag f pr = pr\<lparr>flags := flags pr OR f\<rparr>"

section \<open>Character tables and classes\<close>

abbreviation byte :: "char \<Rightarrow> u8" where "byte c \<equiv> of_char c"

abbreviation CR :: u8 where "CR \<equiv> 13"
abbreviation LF :: u8 where "LF \<equiv> 10"
abbreviation SP :: u8 where "SP \<equiv> 32"
abbreviation HT :: u8 where "HT \<equiv> 9"

text \<open>A read of the C string literal \<open>s\<close>: its bytes, then the terminating zero, nothing after it.\<close>

definition cstr :: "string \<Rightarrow> nat \<Rightarrow> u8 option" where
  "cstr s i = (if i < length s then Some (byte (s ! i)) else if i = length s then Some 0 else None)"

definition tokens :: "u8 list" where
  "tokens = replicate 32 0 @
     [0, 33, 0, 35, 36, 37, 38, 39,
      0, 0, 42, 43, 0, 45, 46, 0,
      48, 49, 50, 51, 52, 53, 54, 55,
      56, 57, 0, 0, 0, 0, 0, 0,
      0, 97, 98, 99, 100, 101, 102, 103,
      104, 105, 106, 107, 108, 109, 110, 111,
      112, 113, 114, 115, 116, 117, 118, 119,
      120, 121, 122, 0, 0, 0, 94, 95,
      96, 97, 98, 99, 100, 101, 102, 103,
      104, 105, 106, 107, 108, 109, 110, 111,
      112, 113, 114, 115, 116, 117, 118, 119,
      120, 121, 122, 0, 124, 0, 126, 0] @ replicate 128 0"

definition TOKEN :: "u8 \<Rightarrow> u8" where "TOKEN c = tokens ! unat c"

text \<open>The initialiser of \<open>unhex[256]\<close> has 128 entries: C fills the rest with zero, not with -1.\<close>

definition unhex :: "int list" where
  "unhex = replicate 48 (- 1) @
     [0, 1, 2, 3, 4, 5, 6, 7, 8, 9, -1, -1, -1, -1, -1, -1,
      -1, 10, 11, 12, 13, 14, 15, -1, -1, -1, -1, -1, -1, -1, -1, -1,
      -1, -1, -1, -1, -1, -1, -1, -1, -1, -1, -1, -1, -1, -1, -1, -1,
      -1, 10, 11, 12, 13, 14, 15, -1, -1, -1, -1, -1, -1, -1, -1, -1,
      -1, -1, -1, -1, -1, -1, -1, -1, -1, -1, -1, -1, -1, -1, -1, -1] @ replicate 128 0"

definition unhex_of :: "u8 \<Rightarrow> int" where "unhex_of c = unhex ! unat c"

definition normal_url_char :: "u8 list" where
  "normal_url_char =
     [0, 0, 0, 0, 246, 255, 255, 127, 255, 255, 255, 255, 255, 255, 255, 127] @ replicate 16 0"

definition BIT_AT :: "u8 list \<Rightarrow> nat \<Rightarrow> bool" where
  "BIT_AT a i = bit (a ! (i div 8)) (i mod 8)"

definition IS_URL_CHAR :: "u8 \<Rightarrow> bool" where
  "IS_URL_CHAR c = BIT_AT normal_url_char (unat c)"

definition LOWER :: "u8 \<Rightarrow> u8" where "LOWER c = c OR 0x20"

definition IS_ALPHA :: "u8 \<Rightarrow> bool" where "IS_ALPHA c = (97 \<le> LOWER c \<and> LOWER c \<le> 122)"

definition IS_NUM :: "u8 \<Rightarrow> bool" where "IS_NUM c = (48 \<le> c \<and> c \<le> 57)"

definition IS_ALPHANUM :: "u8 \<Rightarrow> bool" where "IS_ALPHANUM c = (IS_ALPHA c \<or> IS_NUM c)"

definition IS_HEX :: "u8 \<Rightarrow> bool" where
  "IS_HEX c = (IS_NUM c \<or> 97 \<le> LOWER c \<and> LOWER c \<le> 102)"

definition IS_MARK :: "u8 \<Rightarrow> bool" where
  "IS_MARK c = (c \<in> set (map byte ''-_.!~*'') \<or> c = 39 \<or> c \<in> set (map byte ''()''))"

definition IS_USERINFO_CHAR :: "u8 \<Rightarrow> bool" where
  "IS_USERINFO_CHAR c = (IS_ALPHANUM c \<or> IS_MARK c \<or> c \<in> set (map byte ''%;:&=+$,''))"

definition IS_HOST_CHAR :: "u8 \<Rightarrow> bool" where
  "IS_HOST_CHAR c = (IS_ALPHANUM c \<or> c = byte CHR ''.'' \<or> c = byte CHR ''-'')"

definition IS_HEADER_CHAR :: "u8 \<Rightarrow> bool" where
  "IS_HEADER_CHAR c = (c = CR \<or> c = LF \<or> c = 9 \<or> (31 < c \<and> c \<noteq> 127))"

section \<open>Operations on a parser\<close>

definition http_message_needs_eof :: "'u http_parser \<Rightarrow> bool" where
  "http_message_needs_eof pr =
     (if hp_type pr = HTTP_REQUEST then False
      else if status_code pr div 100 = 1 \<or> status_code pr = 204 \<or> status_code pr = 304
           \<or> flag F_SKIPBODY pr then False
      else if flag F_CHUNKED pr \<or> content_length pr \<noteq> ULLONG_MAX then False
      else True)"

definition http_should_keep_alive :: "'u http_parser \<Rightarrow> bool" where
  "http_should_keep_alive pr =
     (if http_major pr > 0 \<and> http_minor pr > 0
      then (if flag F_CONNECTION_CLOSE pr then False else \<not> http_message_needs_eof pr)
      else (if \<not> flag F_CONNECTION_KEEP_ALIVE pr then False else \<not> http_message_needs_eof pr))"

definition start_state :: "'u http_parser \<Rightarrow> http_state" where
  "start_state pr = (if hp_type pr = HTTP_REQUEST then s_start_req else s_start_res)"

definition NEW_MESSAGE :: "'u http_parser \<Rightarrow> http_state" where
  "NEW_MESSAGE pr = (if http_should_keep_alive pr then start_state pr else s_dead)"

definition http_parser_init :: "'u \<Rightarrow> http_parser_type \<Rightarrow> 'u http_parser" where
  "http_parser_init d t =
     \<lparr>hp_type = t, flags = 0,
      state = (if t = HTTP_REQUEST then s_start_req
               else if t = HTTP_RESPONSE then s_start_res else s_start_req_or_res),
      header_state = h_general, index = 0, lenient_http_headers = False, nread = 0,
      content_length = 0, http_major = 0, http_minor = 0, status_code = 0, meth = HTTP_DELETE,
      http_errno = HPE_OK, upgrade = False, user_data = d\<rparr>"

definition http_parser_settings_init :: "'u http_parser_settings" where
  "http_parser_settings_init =
     \<lparr>on_message_begin = None, on_url = None, on_status = None, on_header_field = None,
      on_header_value = None, on_headers_complete = None, on_body = None,
      on_message_complete = None, on_chunk_header = None, on_chunk_complete = None\<rparr>"

text \<open>\<open>None\<close>: the assertion that the parser is not in an error state fails.\<close>

definition http_parser_pause :: "'u http_parser \<Rightarrow> bool \<Rightarrow> 'u http_parser option" where
  "http_parser_pause pr paused =
     (if http_errno pr = HPE_OK \<or> http_errno pr = HPE_PAUSED
      then Some (pr\<lparr>http_errno := if paused then HPE_PAUSED else HPE_OK\<rparr>) else None)"

definition http_body_is_final :: "'u http_parser \<Rightarrow> bool" where
  "http_body_is_final pr = (state pr = s_message_done)"

section \<open>Lemmas\<close>

lemma length_tables [simp]: "length tokens = 256" "length unhex = 256" "length normal_url_char = 32"
  by (simp_all add: tokens_def unhex_def normal_url_char_def)

lemma flag_set_flag:
  "flag f (set_flag g pr) \<longleftrightarrow> flag f pr \<or> f AND g \<noteq> 0"
proof -
  have "(flags pr OR g) AND f = (flags pr AND f) OR (g AND f)"
    by (rule bit_word_eqI) (auto simp: bit_simps)
  then show ?thesis
    by (simp add: flag_def set_flag_def or_eq_0_iff and.commute [of f g])
qed

lemma set_flag_simps [simp]:
  "hp_type (set_flag f pr) = hp_type pr" "state (set_flag f pr) = state pr"
  "header_state (set_flag f pr) = header_state pr" "index (set_flag f pr) = index pr"
  "lenient_http_headers (set_flag f pr) = lenient_http_headers pr"
  "nread (set_flag f pr) = nread pr" "content_length (set_flag f pr) = content_length pr"
  "status_code (set_flag f pr) = status_code pr" "meth (set_flag f pr) = meth pr"
  "http_errno (set_flag f pr) = http_errno pr" "user_data (set_flag f pr) = user_data pr"
  "upgrade (set_flag f pr) = upgrade pr"
  by (simp_all add: set_flag_def)

lemma cstr_in_range: "i \<le> length s \<Longrightarrow> \<exists>c. cstr s i = Some c"
  by (simp add: cstr_def)

end
