(* ===== verification/Http_Url.thy ===== *)
theory Http_Url
  imports Http_Types
begin

text \<open>
  The URL parser of \<open>src/net/http/http_parser.c\<close>: the character machine \<open>parse_url_char\<close> that
  \<open>http_parser_execute\<close> shares, the host machine \<open>http_parse_host_char\<close>, and \<open>http_parse_host\<close> and
  \<open>http_parser_parse_url\<close>, which record the fields of a URL as 16-bit offsets and lengths.

  \<open>None\<close> is a read outside the buffer or a failed assertion; \<open>Some (rc, u)\<close> is the return code (\<open>True\<close>
  for the non-zero one) with the structure as it was left.
\<close>

section \<open>The character machine\<close>

definition parse_url_server :: "u8 \<Rightarrow> http_state" where
  "parse_url_server ch =
     (if ch = byte CHR ''/'' then s_req_path
      else if ch = byte CHR ''?'' then s_req_query_string_start
      else if ch = byte CHR ''@'' then s_req_server_with_at
      else if IS_USERINFO_CHAR ch \<or> ch = byte CHR ''['' \<or> ch = byte CHR '']'' then s_req_server
      else s_dead)"

definition parse_url_query :: "u8 \<Rightarrow> http_state" where
  "parse_url_query ch =
     (if IS_URL_CHAR ch then s_req_query_string
      else if ch = byte CHR ''?'' then s_req_query_string
      else if ch = byte CHR ''#'' then s_req_fragment_start else s_dead)"

definition parse_url_char :: "http_state \<Rightarrow> u8 \<Rightarrow> http_state" where
  "parse_url_char s ch =
     (if ch = SP \<or> ch = CR \<or> ch = LF then s_dead
      else if ch = HT \<or> ch = 12 then s_dead
      else case s of
        s_req_spaces_before_url \<Rightarrow>
          if ch = byte CHR ''/'' \<or> ch = byte CHR ''*'' then s_req_path
          else if IS_ALPHA ch then s_req_schema else s_dead
      | s_req_schema \<Rightarrow>
          if IS_ALPHA ch then s else if ch = byte CHR '':'' then s_req_schema_slash else s_dead
      | s_req_schema_slash \<Rightarrow>
          if ch = byte CHR ''/'' then s_req_schema_slash_slash else s_dead
      | s_req_schema_slash_slash \<Rightarrow>
          if ch = byte CHR ''/'' then s_req_server_start else s_dead
      | s_req_server_with_at \<Rightarrow>
          if ch = byte CHR ''@'' then s_dead else parse_url_server ch
      | s_req_server_start \<Rightarrow> parse_url_server ch
      | s_req_server \<Rightarrow> parse_url_server ch
      | s_req_path \<Rightarrow>
          if IS_URL_CHAR ch then s
          else if ch = byte CHR ''?'' then s_req_query_string_start
          else if ch = byte CHR ''#'' then s_req_fragment_start else s_dead
      | s_req_query_string_start \<Rightarrow> parse_url_query ch
      | s_req_query_string \<Rightarrow> parse_url_query ch
      | s_req_fragment_start \<Rightarrow>
          if IS_URL_CHAR ch then s_req_fragment
          else if ch = byte CHR ''?'' then s_req_fragment
          else if ch = byte CHR ''#'' then s else s_dead
      | s_req_fragment \<Rightarrow>
          if IS_URL_CHAR ch then s
          else if ch = byte CHR ''?'' \<or> ch = byte CHR ''#'' then s else s_dead
      | _ \<Rightarrow> s_dead)"

section \<open>The host machine\<close>

datatype http_host_state =
  s_http_host_dead | s_http_userinfo_start | s_http_userinfo | s_http_host_start
| s_http_host_v6_start | s_http_host | s_http_host_v6 | s_http_host_v6_end
| s_http_host_v6_zone_start | s_http_host_v6_zone | s_http_host_port_start | s_http_host_port

definition host_port_colon :: "u8 \<Rightarrow> http_host_state" where
  "host_port_colon ch = (if ch = byte CHR '':'' then s_http_host_port_start else s_http_host_dead)"

definition host_v6_char :: "http_host_state \<Rightarrow> u8 \<Rightarrow> http_host_state" where
  "host_v6_char s ch =
     (if IS_HEX ch \<or> ch = byte CHR '':'' \<or> ch = byte CHR ''.'' then s_http_host_v6
      else if s = s_http_host_v6 \<and> ch = byte CHR ''%'' then s_http_host_v6_zone_start
      else s_http_host_dead)"

definition host_zone_char :: "u8 \<Rightarrow> http_host_state" where
  "host_zone_char ch =
     (if IS_ALPHANUM ch \<or> ch \<in> set (map byte ''%.-_~'') then s_http_host_v6_zone
      else s_http_host_dead)"

definition http_parse_host_char :: "http_host_state \<Rightarrow> u8 \<Rightarrow> http_host_state" where
  "http_parse_host_char s ch =
     (if s = s_http_userinfo \<or> s = s_http_userinfo_start then
        if ch = byte CHR ''@'' then s_http_host_start
        else if IS_USERINFO_CHAR ch then s_http_userinfo else s_http_host_dead
      else if s = s_http_host_start then
        if ch = byte CHR ''['' then s_http_host_v6_start
        else if IS_HOST_CHAR ch then s_http_host else s_http_host_dead
      else if s = s_http_host then
        if IS_HOST_CHAR ch then s_http_host else host_port_colon ch
      else if s = s_http_host_v6_end then host_port_colon ch
      else if s = s_http_host_v6 then
        if ch = byte CHR '']'' then s_http_host_v6_end else host_v6_char s ch
      else if s = s_http_host_v6_start then host_v6_char s ch
      else if s = s_http_host_v6_zone then
        if ch = byte CHR '']'' then s_http_host_v6_end else host_zone_char ch
      else if s = s_http_host_v6_zone_start then host_zone_char ch
      else if s = s_http_host_port \<or> s = s_http_host_port_start then
        if IS_NUM ch then s_http_host_port else s_http_host_dead
      else s_http_host_dead)"

section \<open>The URL structure\<close>

datatype url_field =
  UF_SCHEMA | UF_HOST | UF_PORT | UF_PATH | UF_QUERY | UF_FRAGMENT | UF_USERINFO | UF_MAX

primrec uf_bit :: "url_field \<Rightarrow> u16" where
  "uf_bit UF_SCHEMA = 1"
| "uf_bit UF_HOST = 2"
| "uf_bit UF_PORT = 4"
| "uf_bit UF_PATH = 8"
| "uf_bit UF_QUERY = 16"
| "uf_bit UF_FRAGMENT = 32"
| "uf_bit UF_USERINFO = 64"
| "uf_bit UF_MAX = 128"

record http_parser_url =
  field_set :: u16
  port :: u16
  fd_off :: "url_field \<Rightarrow> u16"
  fd_len :: "url_field \<Rightarrow> u16"

definition http_parser_url_init :: http_parser_url where
  "http_parser_url_init = \<lparr>field_set = 0, port = 0, fd_off = (\<lambda>_. 0), fd_len = (\<lambda>_. 0)\<rparr>"

definition has_field :: "url_field \<Rightarrow> http_parser_url \<Rightarrow> bool" where
  "has_field f u = (field_set u AND uf_bit f \<noteq> 0)"

definition grow :: "url_field \<Rightarrow> http_parser_url \<Rightarrow> http_parser_url" where
  "grow f u = u\<lparr>fd_len := (fd_len u)(f := fd_len u f + 1)\<rparr>"

definition open_field :: "url_field \<Rightarrow> nat \<Rightarrow> u16 \<Rightarrow> http_parser_url \<Rightarrow> http_parser_url" where
  "open_field f i n u =
     u\<lparr>fd_off := (fd_off u)(f := of_nat i), fd_len := (fd_len u)(f := n),
       field_set := field_set u OR uf_bit f\<rparr>"

definition move_host :: "nat \<Rightarrow> http_parser_url \<Rightarrow> http_parser_url" where
  "move_host i u = u\<lparr>fd_off := (fd_off u)(UF_HOST := of_nat i)\<rparr>"

section \<open>Parsing the host\<close>

text \<open>The body of the loop of \<open>http_parse_host\<close> on the byte at offset \<open>i\<close>, \<open>new_s\<close> not dead.\<close>

definition host_step ::
  "http_host_state \<Rightarrow> http_host_state \<Rightarrow> nat \<Rightarrow> http_parser_url \<Rightarrow> http_parser_url" where
  "host_step s new_s i u = (case new_s of
     s_http_host \<Rightarrow> grow UF_HOST (if s \<noteq> s_http_host then move_host i u else u)
   | s_http_host_v6 \<Rightarrow> grow UF_HOST (if s \<noteq> s_http_host_v6 then move_host i u else u)
   | s_http_host_v6_zone_start \<Rightarrow> grow UF_HOST u
   | s_http_host_v6_zone \<Rightarrow> grow UF_HOST u
   | s_http_host_port \<Rightarrow> grow UF_PORT (if s \<noteq> s_http_host_port then open_field UF_PORT i 0 u else u)
   | s_http_userinfo \<Rightarrow>
       grow UF_USERINFO (if s \<noteq> s_http_userinfo then open_field UF_USERINFO i 0 u else u)
   | _ \<Rightarrow> u)"

fun host_loop ::
  "bytes \<Rightarrow> nat \<Rightarrow> http_host_state \<Rightarrow> http_parser_url \<Rightarrow> bool \<times> http_host_state \<times> http_parser_url" where
  "host_loop [] i s u = (False, s, u)"
| "host_loop (c # cs) i s u =
     (let new_s = http_parse_host_char s c in
      if new_s = s_http_host_dead then (True, s, u)
      else host_loop cs (i + 1) new_s (host_step s new_s i u))"

definition host_incomplete :: "http_host_state \<Rightarrow> bool" where
  "host_incomplete s = (s \<in> {s_http_host_start, s_http_host_v6_start, s_http_host_v6,
     s_http_host_v6_zone_start, s_http_host_v6_zone, s_http_host_port_start, s_http_userinfo,
     s_http_userinfo_start})"

definition http_parse_host ::
  "bytes \<Rightarrow> http_parser_url \<Rightarrow> bool \<Rightarrow> (bool \<times> http_parser_url) option" where
  "http_parse_host buf u found_at =
     (let off = unat (fd_off u UF_HOST); n = unat (fd_len u UF_HOST) in
      if \<not> has_field UF_HOST u then None
      else do {
        bs \<leftarrow> rdn buf off n;
        let u = u\<lparr>fd_len := (fd_len u)(UF_HOST := 0)\<rparr>;
        let (dead, s, u) =
          host_loop bs off (if found_at then s_http_userinfo_start else s_http_host_start) u;
        Some (if dead then True else host_incomplete s, u)
      })"

section \<open>Parsing the URL\<close>

text \<open>The field a state belongs to: \<open>Some None\<close> is a delimiter, \<open>None\<close> the assertion.\<close>

definition field_of :: "http_state \<Rightarrow> url_field option option" where
  "field_of s =
     (if s \<in> {s_req_schema_slash, s_req_schema_slash_slash, s_req_server_start,
              s_req_query_string_start, s_req_fragment_start} then Some None
      else if s = s_req_schema then Some (Some UF_SCHEMA)
      else if s = s_req_server_with_at \<or> s = s_req_server then Some (Some UF_HOST)
      else if s = s_req_path then Some (Some UF_PATH)
      else if s = s_req_query_string then Some (Some UF_QUERY)
      else if s = s_req_fragment then Some (Some UF_FRAGMENT)
      else None)"

fun url_loop ::
  "bytes \<Rightarrow> nat \<Rightarrow> http_state \<Rightarrow> url_field \<Rightarrow> bool \<Rightarrow> http_parser_url \<Rightarrow>
   (bool \<times> bool \<times> http_parser_url) option" where
  "url_loop [] i s old_uf found_at u = Some (False, found_at, u)"
| "url_loop (c # cs) i s old_uf found_at u =
     (let s = parse_url_char s c in
      if s = s_dead then Some (True, found_at, u)
      else case field_of s of
        None \<Rightarrow> None
      | Some None \<Rightarrow> url_loop cs (i + 1) s old_uf found_at u
      | Some (Some uf) \<Rightarrow>
          let found_at = (found_at \<or> s = s_req_server_with_at) in
          if uf = old_uf then url_loop cs (i + 1) s old_uf found_at (grow uf u)
          else url_loop cs (i + 1) s uf found_at (open_field uf i 1 u))"

text \<open>\<open>unsigned long v\<close> stays below 2^32 here whatever its width: the loop leaves above 0xffff.\<close>

fun port_loop :: "bytes \<Rightarrow> u64 \<Rightarrow> u64 option" where
  "port_loop [] v = Some v"
| "port_loop (c # cs) v =
     (let v = v * 10; v = v + word_of_int (sint c - 48) in
      if v > 0xffff then None else port_loop cs v)"

definition http_parser_parse_url ::
  "bytes \<Rightarrow> bool \<Rightarrow> http_parser_url \<Rightarrow> (bool \<times> http_parser_url) option" where
  "http_parser_parse_url buf is_connect u = do {
     let u = u\<lparr>port := 0, field_set := 0\<rparr>;
     (dead, found_at, u) \<leftarrow>
       url_loop buf 0 (if is_connect then s_req_server_start else s_req_spaces_before_url) UF_MAX
         False u;
     if dead then Some (True, u)
     else if has_field UF_SCHEMA u \<and> \<not> has_field UF_HOST u then Some (True, u)
     else do {
       (bad, u) \<leftarrow> (if has_field UF_HOST u then http_parse_host buf u found_at
                    else Some (False, u));
       if bad then Some (True, u)
       else if is_connect \<and> field_set u \<noteq> (uf_bit UF_HOST OR uf_bit UF_PORT) then Some (True, u)
       else if has_field UF_PORT u then do {
         ds \<leftarrow> rdn buf (unat (fd_off u UF_PORT)) (unat (fd_len u UF_PORT));
         Some (case port_loop ds 0 of
             None \<Rightarrow> (True, u)
           | Some v \<Rightarrow> (False, u\<lparr>port := ucast v\<rparr>))
       }
       else Some (False, u)
     }
   }"

section \<open>The character machines\<close>

lemma parse_url_char_field:
  "parse_url_char s c \<noteq> s_dead \<Longrightarrow> \<exists>r. field_of (parse_url_char s c) = Some r"
  by (cases s) (auto simp: parse_url_char_def parse_url_server_def parse_url_query_def field_of_def
    split: if_splits)

lemma field_of_in: "field_of s = Some (Some f) \<Longrightarrow> f \<noteq> UF_PORT \<and> f \<noteq> UF_USERINFO"
  by (auto simp: field_of_def split: if_splits)

section \<open>The URL structure\<close>

lemma field_set_or: "(w OR uf_bit g) AND uf_bit f \<noteq> 0 \<longleftrightarrow> w AND uf_bit f \<noteq> 0 \<or> f = g"
proof -
  have "(w OR uf_bit g) AND uf_bit f = (w AND uf_bit f) OR (uf_bit g AND uf_bit f)"
    by (rule bit_word_eqI) (auto simp: bit_simps)
  moreover have "uf_bit g AND uf_bit f \<noteq> 0 \<longleftrightarrow> f = g"
    by (cases f; cases g) simp_all
  ultimately show ?thesis
    by (simp add: or_eq_0_iff)
qed

lemma url_fields [simp]:
  "has_field f (grow g u) = has_field f u" "fd_off (grow g u) = fd_off u"
  "fd_len (grow g u) f = (if f = g then fd_len u g + 1 else fd_len u f)"
  "has_field f (open_field g i n u) \<longleftrightarrow> has_field f u \<or> f = g"
  "fd_off (open_field g i n u) f = (if f = g then of_nat i else fd_off u f)"
  "fd_len (open_field g i n u) f = (if f = g then n else fd_len u f)"
  "has_field f (move_host i u) = has_field f u"
  "fd_off (move_host i u) f = (if f = UF_HOST then of_nat i else fd_off u f)"
  "fd_len (move_host i u) = fd_len u"
  by (simp_all add: grow_def open_field_def move_host_def has_field_def field_set_or)

lemma unat_succ_le: "unat (w + 1 :: 'a::len word) \<le> unat w + 1"
  by (cases "w = - 1") (simp_all add: unatSuc unat_plus_if_size)

lemma unat_of_nat_le: "unat (of_nat n :: 'a::len word) \<le> n"
  by (simp add: unat_of_nat)

text \<open>Every field that is set and in \<open>F\<close> ends at or before \<open>i\<close>.\<close>

definition fields_end :: "url_field set \<Rightarrow> nat \<Rightarrow> http_parser_url \<Rightarrow> bool" where
  "fields_end F i u = (\<forall>f\<in>F. has_field f u \<longrightarrow> unat (fd_off u f) + unat (fd_len u f) \<le> i)"

lemma fields_end_mono: "fields_end F i u \<Longrightarrow> i \<le> j \<Longrightarrow> G \<subseteq> F \<Longrightarrow> fields_end G j u"
  by (fastforce simp: fields_end_def)

lemma fields_end_grow: "fields_end F i u \<Longrightarrow> fields_end F (i + 1) (grow g u)"
  using unat_succ_le [of "fd_len u g"] by (fastforce simp: fields_end_def)

lemma fields_end_open:
  "fields_end F i u \<Longrightarrow> unat n \<le> m \<Longrightarrow> fields_end F (i + m) (open_field g i n u)"
  using unat_of_nat_le [of i, where 'a = 16] by (fastforce simp: fields_end_def)

section \<open>Bounds of the recorded fields\<close>

lemma url_loop_ok:
  assumes "fields_end UNIV i u" "\<not> has_field UF_PORT u" "\<not> has_field UF_USERINFO u"
  shows "\<exists>r fa u'. url_loop cs i s old fa0 u = Some (r, fa, u') \<and> fields_end UNIV (i + length cs) u'
    \<and> \<not> has_field UF_PORT u' \<and> \<not> has_field UF_USERINFO u'"
  using assms
proof (induction cs arbitrary: i s old fa0 u)
  case Nil
  then show ?case by auto
next
  case (Cons c cs)
  let ?s = "parse_url_char s c"
  show ?case
  proof (cases "?s = s_dead")
    case True
    then show ?thesis using Cons.prems by (auto intro: fields_end_mono)
  next
    case False
    then obtain r where r: "field_of ?s = Some r" using parse_url_char_field by blast
    show ?thesis
    proof (cases r)
      case None
      have "fields_end UNIV (i + 1) u" using Cons.prems(1) by (rule fields_end_mono) auto
      from Cons.IH [OF this Cons.prems(2,3)] show ?thesis using False r None by simp
    next
      case (Some f)
      have f: "f \<noteq> UF_PORT" "f \<noteq> UF_USERINFO" using field_of_in r Some by blast+
      have "fields_end UNIV (i + 1) (grow f u)" "fields_end UNIV (i + 1) (open_field f i 1 u)"
        using fields_end_grow fields_end_open [of UNIV i u 1 1] Cons.prems(1) by simp_all
      then show ?thesis
        using Cons.IH [of "i + 1" "grow f u"] Cons.IH [of "i + 1" "open_field f i 1 u"]
          Cons.prems(2,3) f False r Some by (cases "f = old") (simp_all add: Let_def)
    qed
  qed
qed

text \<open>The states before the first host byte: the length of the host is still zero there.\<close>

definition before_host :: "http_host_state \<Rightarrow> bool" where
  "before_host s =
     (s \<in> {s_http_userinfo_start, s_http_userinfo, s_http_host_start, s_http_host_v6_start})"

definition host_inv :: "nat \<Rightarrow> nat \<Rightarrow> http_host_state \<Rightarrow> http_parser_url \<Rightarrow> bool" where
  "host_inv B i s u = (fields_end {UF_HOST, UF_PORT, UF_USERINFO} i u \<and> fields_end UNIV B u
     \<and> (before_host s \<longrightarrow> fd_len u UF_HOST = 0))"

lemma host_char_before:
  "http_parse_host_char s c = s_http_host \<Longrightarrow> s \<noteq> s_http_host \<Longrightarrow> before_host s"
  "http_parse_host_char s c = s_http_host_v6 \<Longrightarrow> s \<noteq> s_http_host_v6 \<Longrightarrow> before_host s"
  "before_host (http_parse_host_char s c) \<Longrightarrow> before_host s"
  by (auto simp: http_parse_host_char_def before_host_def host_port_colon_def host_v6_char_def
    host_zone_char_def split: if_splits)

lemma fields_end_union:
  "fields_end F i u \<Longrightarrow> fields_end G i u \<Longrightarrow> fields_end (F \<union> G) i u"
  by (auto simp: fields_end_def)

lemma fields_end_other:
  assumes "fields_end UNIV B u" "fields_end {UF_HOST, UF_PORT, UF_USERINFO} i u'" "i \<le> B"
    and "\<And>f. f \<notin> {UF_HOST, UF_PORT, UF_USERINFO} \<Longrightarrow>
      has_field f u' = has_field f u \<and> fd_off u' f = fd_off u f \<and> fd_len u' f = fd_len u f"
  shows "fields_end UNIV B u'"
  unfolding fields_end_def
proof (intro ballI impI)
  fix f
  assume "has_field f u'"
  then show "unat (fd_off u' f) + unat (fd_len u' f) \<le> B"
    using assms by (cases "f \<in> {UF_HOST, UF_PORT, UF_USERINFO}") (force simp: fields_end_def)+
qed

lemma host_step_inv:
  assumes inv: "host_inv B i s u" and i: "i < B"
    and new: "t = http_parse_host_char s c"
  shows "host_inv B (i + 1) t (host_step s t i u)"
proof -
  let ?F = "{UF_HOST, UF_PORT, UF_USERINFO}"
  let ?u = "host_step s t i u"
  have F: "fields_end ?F i u" using inv by (simp add: host_inv_def)
  have mono: "fields_end ?F (i + 1) u" using F by (rule fields_end_mono) auto
  have moved: "fields_end ?F i (move_host i u)" if "before_host s"
    using F that inv unat_of_nat_le [of i, where 'a = 16]
    by (auto simp: fields_end_def host_inv_def)
  have opened: "fields_end ?F i (open_field g i 0 u)" for g
    using fields_end_open [OF F, of 0 0] by simp
  have end': "fields_end ?F (i + 1) ?u"
  proof (cases "t = s_http_host")
    case True
    then show ?thesis
      using host_char_before(1) [of s c] new F moved fields_end_grow by (auto simp: host_step_def)
  next
    case nohost: False
    show ?thesis
    proof (cases "t = s_http_host_v6")
      case True
      then show ?thesis
        using host_char_before(2) [of s c] new F moved fields_end_grow by (auto simp: host_step_def)
    next
      case False
      then show ?thesis
        using nohost mono fields_end_grow [OF F] fields_end_grow [OF opened]
        by (cases t) (auto simp: host_step_def)
    qed
  qed
  have "fields_end UNIV B ?u"
    by (rule fields_end_other [where u = u and i = "i + 1"])
      (use inv end' i in \<open>auto simp: host_inv_def host_step_def split: http_host_state.split\<close>)
  moreover have "before_host t \<longrightarrow> fd_len ?u UF_HOST = 0"
    using inv host_char_before(3) [of s c] new
    by (cases t) (auto simp: host_step_def host_inv_def before_host_def)
  ultimately show ?thesis using end' by (simp add: host_inv_def)
qed

lemma host_loop_inv:
  "host_inv B i s u \<Longrightarrow> i + length cs \<le> B \<Longrightarrow> host_loop cs i s u = (r, s', u') \<Longrightarrow>
   fields_end UNIV B u'"
proof (induction cs arbitrary: i s u)
  case Nil
  then show ?case by (simp add: host_inv_def)
next
  case (Cons c cs)
  show ?case
  proof (cases "http_parse_host_char s c = s_http_host_dead")
    case True
    then show ?thesis using Cons.prems by (simp add: host_inv_def)
  next
    case False
    then show ?thesis
      using Cons.IH [OF host_step_inv [OF Cons.prems(1) _ refl, of c]] Cons.prems(2,3)
      by (simp add: Let_def)
  qed
qed

lemma http_parse_host_ok:
  assumes u: "fields_end UNIV (length buf) u" "has_field UF_HOST u"
    "\<not> has_field UF_PORT u" "\<not> has_field UF_USERINFO u"
  shows "\<exists>r u'. http_parse_host buf u fa = Some (r, u') \<and> fields_end UNIV (length buf) u'"
proof -
  let ?off = "unat (fd_off u UF_HOST)" and ?n = "unat (fd_len u UF_HOST)"
  let ?v = "u\<lparr>fd_len := (fd_len u)(UF_HOST := 0)\<rparr>"
  let ?s = "if fa then s_http_userinfo_start else s_http_host_start"
  let ?bs = "take ?n (drop ?off buf)"
  have in_buf: "?off + ?n \<le> length buf"
    using u(1,2) by (auto simp: fields_end_def)
  obtain r s' u' where loop: "host_loop ?bs ?off ?s ?v = (r, s', u')"
    by (cases "host_loop ?bs ?off ?s ?v") auto
  have "host_inv (length buf) ?off ?s ?v"
    using u add_leD1 [OF in_buf] by (auto simp: host_inv_def fields_end_def has_field_def)
  from host_loop_inv [OF this _ loop] in_buf have "fields_end UNIV (length buf) u'" by simp
  then show ?thesis
    using u(2) in_buf loop by (simp add: http_parse_host_def rdn_def)
qed

lemma parse_url_ok:
  "\<exists>r u'. http_parser_parse_url buf conn u = Some (r, u') \<and> fields_end UNIV (length buf) u'"
proof -
  let ?u = "u\<lparr>port := 0, field_set := 0\<rparr>"
  let ?s = "if conn then s_req_server_start else s_req_spaces_before_url"
  have "fields_end UNIV 0 ?u" "\<not> has_field UF_PORT ?u" "\<not> has_field UF_USERINFO ?u"
    by (simp_all add: fields_end_def has_field_def)
  from url_loop_ok [OF this, of buf ?s UF_MAX False]
  obtain r fa v where v: "url_loop buf 0 ?s UF_MAX False ?u = Some (r, fa, v)"
    "fields_end UNIV (length buf) v" "\<not> has_field UF_PORT v" "\<not> has_field UF_USERINFO v"
    by auto
  obtain bad w where w: "(if has_field UF_HOST v then http_parse_host buf v fa
      else Some (False, v)) = Some (bad, w)" "fields_end UNIV (length buf) w"
    using v http_parse_host_ok [of buf v fa] by (cases "has_field UF_HOST v") auto
  have port: "has_field UF_PORT w \<Longrightarrow>
      unat (fd_off w UF_PORT) + unat (fd_len w UF_PORT) \<le> length buf"
    using w(2) by (auto simp: fields_end_def)
  have [simp]: "fields_end UNIV n (w\<lparr>port := x\<rparr>) = fields_end UNIV n w" for n x
    by (simp add: fields_end_def has_field_def)
  show ?thesis
    using v w port
    by (auto simp: http_parser_parse_url_def rdn_def Let_def bind_eq_Some_conv split: option.split)
qed

section \<open>Recorded fields of a well-formed URL\<close>

text \<open>\<open>n\<close> consecutive \<open>grow\<close>s, and the runs of bytes that stay in one state.\<close>

definition grown :: "url_field \<Rightarrow> nat \<Rightarrow> http_parser_url \<Rightarrow> http_parser_url" where
  "grown f n u = u\<lparr>fd_len := (fd_len u)(f := fd_len u f + of_nat n)\<rparr>"

lemma grown_simps [simp]:
  "grown f 0 u = u" "grown f n (grow f u) = grown f (Suc n) u"
  "has_field g (grown f n u) = has_field g u" "fd_off (grown f n u) = fd_off u"
  "fd_len (grown f n u) g = (if g = f then fd_len u f + of_nat n else fd_len u g)"
  "field_set (grown f n u) = field_set u" "field_set (grow f u) = field_set u"
  by (simp_all add: grown_def grow_def has_field_def ac_simps)

lemma url_loop_run:
  assumes "\<And>c. c \<in> set xs \<Longrightarrow> parse_url_char s c = s" "field_of s = Some (Some f)"
    "s \<noteq> s_req_server_with_at" "s \<noteq> s_dead"
  shows "url_loop (xs @ ys) i s f fa u = url_loop ys (i + length xs) s f fa (grown f (length xs) u)"
  using assms(1)
proof (induction xs arbitrary: i u)
  case Nil
  show ?case by simp
next
  case (Cons x xs)
  then show ?case using assms(2-4) by (simp add: Let_def)
qed

lemma url_loop_enter:
  assumes "parse_url_char s x = t" "\<And>c. c \<in> set xs \<Longrightarrow> parse_url_char t c = t"
    and t: "field_of t = Some (Some f)" "t \<noteq> s_req_server_with_at" "t \<noteq> s_dead" and "f \<noteq> old"
  shows "url_loop (x # xs @ ys) i s old fa u =
    url_loop ys (i + length (x # xs)) t f fa (grown f (length xs) (open_field f i 1 u))"
  using assms(1,6) t by (simp add: Let_def url_loop_run assms(2))

lemma url_loop_skip:
  assumes "parse_url_char s x = t" "field_of t = Some None"
  shows "url_loop (x # ys) i s old fa u = url_loop ys (Suc i) t old fa u"
  using assms by (auto simp: Let_def field_of_def split: if_splits)

fun decimal :: "nat \<Rightarrow> bytes \<Rightarrow> nat" where
  "decimal v [] = v"
| "decimal v (c # cs) = decimal (v * 10 + (unat c - 48)) cs"

lemma decimal_ge: "v \<le> decimal v cs"
proof (induction cs arbitrary: v)
  case (Cons c cs)
  have "v \<le> v * 10 + (unat c - 48)" by simp
  also have "\<dots> \<le> decimal \<dots> cs" by (rule Cons.IH)
  finally show ?case by simp
qed simp

lemma digit_value:
  assumes "IS_NUM c"
  shows "word_of_int (sint c - 48) = (of_nat (unat c - 48) :: u64)" "48 \<le> unat c" "unat c \<le> 57"
proof -
  have r: "48 \<le> unat c" "unat c \<le> 57"
    using assms by (simp_all add: IS_NUM_def word_le_nat_alt)
  have "sint c = signed_take_bit 7 (int (unat c))"
    by (simp add: sint_uint)
  also have "\<dots> = int (unat c)"
  proof (rule signed_take_bit_int_eq_self)
    show "- (2 ^ 7) \<le> int (unat c)" by (rule order_trans [OF _ of_nat_0_le_iff]) simp
    have "int (unat c) \<le> 57" using r(2) by linarith
    then show "int (unat c) < 2 ^ 7" by simp
  qed
  finally have "sint c = int (unat c)" .
  then have "sint c - 48 = int (unat c - 48)"
    using r(1) by linarith
  then show "word_of_int (sint c - 48) = (of_nat (unat c - 48) :: u64)"
    by (simp only: of_int_of_nat_eq)
  show "48 \<le> unat c" "unat c \<le> 57" using r by auto
qed

lemma port_loop_value:
  assumes "\<forall>c\<in>set ds. IS_NUM c" "v \<le> 65535"
  shows "port_loop ds (of_nat v) =
    (if decimal v ds \<le> 65535 then Some (of_nat (decimal v ds)) else None)"
  using assms
proof (induction ds arbitrary: v)
  case Nil
  then show ?case by simp
next
  case (Cons d ds)
  have d: "IS_NUM d" using Cons.prems by simp
  define w where "w = v * 10 + (unat d - 48)"
  have eq: "of_nat v * 10 + word_of_int (sint d - 48) = (of_nat w :: u64)"
    unfolding digit_value(1) [OF d] by (simp add: w_def)
  have small: "w < 2 ^ 64" using Cons.prems(2) digit_value(3) [OF d] by (simp add: w_def)
  have cmp: "(0xffff < (of_nat w :: u64)) = (65535 < w)"
    using small by (simp add: word_less_nat_alt unat_of_nat)
  show ?case
  proof (cases "65535 < w")
    case True
    then show ?thesis
      using decimal_ge [of w ds] eq cmp by (simp add: Let_def flip: w_def)
  next
    case False
    then show ?thesis
      using Cons eq cmp by (simp add: Let_def flip: w_def)
  qed
qed

lemma class_char [simp]:
  "IS_ALPHA c \<Longrightarrow> parse_url_char s_req_spaces_before_url c = s_req_schema"
  "IS_ALPHA c \<Longrightarrow> parse_url_char s_req_schema c = s_req_schema"
  "IS_HOST_CHAR c \<Longrightarrow> parse_url_char s_req_server_start c = s_req_server"
  "IS_HOST_CHAR c \<Longrightarrow> parse_url_char s_req_server c = s_req_server"
  "IS_URL_CHAR c \<Longrightarrow> parse_url_char s_req_path c = s_req_path"
  "IS_URL_CHAR c \<Longrightarrow> parse_url_char s_req_query_string_start c = s_req_query_string"
  "IS_URL_CHAR c \<Longrightarrow> parse_url_char s_req_query_string c = s_req_query_string"
proof -
  have alpha: "IS_ALPHA c \<Longrightarrow> c \<notin> {SP, CR, LF, HT, 12, byte CHR ''/'', byte CHR ''*''}"
    by (auto simp: IS_ALPHA_def LOWER_def)
  have host: "IS_HOST_CHAR c \<Longrightarrow>
      c \<notin> {SP, CR, LF, HT, 12, byte CHR ''/'', byte CHR ''?'', byte CHR ''@''}"
    by (auto simp: IS_HOST_CHAR_def IS_ALPHANUM_def IS_ALPHA_def IS_NUM_def LOWER_def)
  have user: "IS_HOST_CHAR c \<Longrightarrow> IS_USERINFO_CHAR c"
    by (auto simp: IS_HOST_CHAR_def IS_USERINFO_CHAR_def IS_MARK_def)
  have url: "IS_URL_CHAR c \<Longrightarrow> c \<notin> {SP, CR, LF, HT, 12}"
    by (auto simp: IS_URL_CHAR_def BIT_AT_def normal_url_char_def)
  show "IS_ALPHA c \<Longrightarrow> parse_url_char s_req_spaces_before_url c = s_req_schema"
    "IS_ALPHA c \<Longrightarrow> parse_url_char s_req_schema c = s_req_schema"
    using alpha by (auto simp: parse_url_char_def)
  show "IS_HOST_CHAR c \<Longrightarrow> parse_url_char s_req_server_start c = s_req_server"
    "IS_HOST_CHAR c \<Longrightarrow> parse_url_char s_req_server c = s_req_server"
    using host user by (auto simp: parse_url_char_def parse_url_server_def)
  show "IS_URL_CHAR c \<Longrightarrow> parse_url_char s_req_path c = s_req_path"
    "IS_URL_CHAR c \<Longrightarrow> parse_url_char s_req_query_string_start c = s_req_query_string"
    "IS_URL_CHAR c \<Longrightarrow> parse_url_char s_req_query_string c = s_req_query_string"
    using url by (auto simp: parse_url_char_def parse_url_query_def)
qed

lemma IS_NUM_host: "IS_NUM c \<Longrightarrow> IS_HOST_CHAR c"
  by (simp add: IS_HOST_CHAR_def IS_ALPHANUM_def)

lemma host_loop_run:
  assumes "\<And>c. c \<in> set xs \<Longrightarrow> http_parse_host_char s c = s" "s \<noteq> s_http_host_dead"
    and "\<And>i u. host_step s s i u = grow f u"
  shows "host_loop (xs @ ys) i s u = host_loop ys (i + length xs) s (grown f (length xs) u)"
  using assms(1)
proof (induction xs arbitrary: i u)
  case (Cons x xs)
  then show ?case using assms(2,3) by (simp add: Let_def)
qed simp

lemma host_port_loop:
  assumes h: "\<forall>c\<in>set (h # hs). IS_HOST_CHAR c" and d: "\<forall>c\<in>set (d # ds). IS_NUM c"
  shows "host_loop ((h # hs) @ byte CHR '':'' # (d # ds)) i s_http_host_start u =
    (False, s_http_host_port,
     grown UF_PORT (Suc (length ds)) (open_field UF_PORT (i + length hs + 2) 0
       (grown UF_HOST (Suc (length hs)) (move_host i u))))"
proof -
  have no: "h \<noteq> byte CHR ''[''" "\<not> IS_HOST_CHAR (byte CHR '':'')"
    using h by (auto simp: IS_HOST_CHAR_def IS_ALPHANUM_def IS_ALPHA_def IS_NUM_def LOWER_def)
  have run: "host_loop (hs @ ys) j s_http_host v =
      host_loop ys (j + length hs) s_http_host (grown UF_HOST (length hs) v)" for ys j v
    by (rule host_loop_run) (use h in \<open>auto simp: http_parse_host_char_def host_step_def\<close>)
  have run': "host_loop (ds @ []) j s_http_host_port v =
      host_loop [] (j + length ds) s_http_host_port (grown UF_PORT (length ds) v)" for j v
    by (rule host_loop_run) (use d in \<open>auto simp: http_parse_host_char_def host_step_def\<close>)
  show ?thesis
    using h d no run run' by (simp add: http_parse_host_char_def host_step_def host_port_colon_def Let_def)
qed

text \<open>An absolute URL with a port and a query, and the bytes a recorded field denotes.\<close>

definition print_url :: "bytes \<Rightarrow> bytes \<Rightarrow> bytes \<Rightarrow> bytes \<Rightarrow> bytes \<Rightarrow> bytes" where
  "print_url sch host ds path query =
     sch @ map byte ''://'' @ host @ byte CHR '':'' # ds @ byte CHR ''/'' # path @
     byte CHR ''?'' # query"

definition url_part :: "bytes \<Rightarrow> http_parser_url \<Rightarrow> url_field \<Rightarrow> bytes option" where
  "url_part buf u f =
     (if has_field f u then rdn buf (unat (fd_off u f)) (unat (fd_len u f)) else None)"

definition url_ok :: "bytes \<Rightarrow> bytes \<Rightarrow> bytes \<Rightarrow> bytes \<Rightarrow> bytes \<Rightarrow> bool" where
  "url_ok sch host ds path query =
     (sch \<noteq> [] \<and> host \<noteq> [] \<and> ds \<noteq> [] \<and> query \<noteq> [] \<and>
      list_all IS_ALPHA sch \<and> list_all IS_HOST_CHAR host \<and> list_all IS_NUM ds \<and>
      list_all IS_URL_CHAR path \<and> list_all IS_URL_CHAR query \<and>
      length (print_url sch host ds path query) \<le> 65535)"

lemma url_delims [simp]:
  "parse_url_char s_req_schema 58 = s_req_schema_slash"
  "parse_url_char s_req_schema_slash 47 = s_req_schema_slash_slash"
  "parse_url_char s_req_schema_slash_slash 47 = s_req_server_start"
  "parse_url_char s_req_server 58 = s_req_server"
  "parse_url_char s_req_server 47 = s_req_path"
  "parse_url_char s_req_path 63 = s_req_query_string_start"
  by (simp_all add: parse_url_char_def parse_url_server_def IS_ALPHA_def LOWER_def IS_URL_CHAR_def
      BIT_AT_def normal_url_char_def IS_USERINFO_CHAR_def IS_MARK_def)

text \<open>The structure after the first loop on such a URL.\<close>

definition split_url :: "nat \<Rightarrow> nat \<Rightarrow> nat \<Rightarrow> nat \<Rightarrow> http_parser_url \<Rightarrow> http_parser_url" where
  "split_url a h p q u =
     grown UF_QUERY (q - 1) (open_field UF_QUERY (a + 3 + h + p + 1) 1
      (grown UF_PATH (p - 1) (open_field UF_PATH (a + 3 + h) 1
       (grown UF_HOST (h - 1) (open_field UF_HOST (a + 3) 1
        (grown UF_SCHEMA (a - 1) (open_field UF_SCHEMA 0 1 u)))))))"

lemma url_loop_print:
  assumes ok: "url_ok sch host ds path query"
  shows "url_loop (print_url sch host ds path query) 0 s_req_spaces_before_url UF_MAX False u =
    Some (False, False, split_url (length sch) (length host + 1 + length ds) (1 + length path)
      (length query) u)"
proof -
  obtain a as h hs q qs where e: "sch = a # as" "host = h # hs" "query = q # qs"
    using ok by (auto simp: url_ok_def neq_Nil_conv)
  have cls: "\<And>c. c \<in> set (a # as) \<Longrightarrow> IS_ALPHA c" "\<And>c. c \<in> set (h # hs) \<Longrightarrow> IS_HOST_CHAR c"
    "\<And>c. c \<in> set ds \<Longrightarrow> IS_HOST_CHAR c" "\<And>c. c \<in> set path \<Longrightarrow> IS_URL_CHAR c"
    "\<And>c. c \<in> set (q # qs) \<Longrightarrow> IS_URL_CHAR c"
    using ok IS_NUM_host by (auto simp: url_ok_def e list_all_iff)
  let ?hp = "hs @ 58 # ds"
  have split: "print_url sch host ds path query =
      a # as @ byte CHR '':'' # byte CHR ''/'' # byte CHR ''/'' # h # ?hp @
      byte CHR ''/'' # path @ byte CHR ''?'' # q # qs @ []"
    by (simp add: print_url_def e)
  have hp: "\<And>c. c \<in> set ?hp \<Longrightarrow> parse_url_char s_req_server c = s_req_server"
    using cls(2,3) by auto
  have fo [simp]: "field_of s_req_schema = Some (Some UF_SCHEMA)"
    "field_of s_req_server = Some (Some UF_HOST)" "field_of s_req_path = Some (Some UF_PATH)"
    "field_of s_req_query_string = Some (Some UF_QUERY)"
    "field_of s_req_schema_slash = Some None" "field_of s_req_schema_slash_slash = Some None"
    "field_of s_req_server_start = Some None" "field_of s_req_query_string_start = Some None"
    by (simp_all add: field_of_def)
  have heads [simp]: "IS_ALPHA a" "IS_HOST_CHAR h" "IS_URL_CHAR q" using cls by simp_all
  have enter:
    "url_loop (a # as @ ys) i s_req_spaces_before_url UF_MAX False v =
     url_loop ys (i + length (a # as)) s_req_schema UF_SCHEMA False
       (grown UF_SCHEMA (length as) (open_field UF_SCHEMA i 1 v))"
    "url_loop (h # ?hp @ ys) i s_req_server_start UF_SCHEMA False v =
     url_loop ys (i + length (h # ?hp)) s_req_server UF_HOST False
       (grown UF_HOST (length ?hp) (open_field UF_HOST i 1 v))"
    "url_loop (47 # path @ ys) i s_req_server UF_HOST False v =
     url_loop ys (i + length (47 # path)) s_req_path UF_PATH False
       (grown UF_PATH (length path) (open_field UF_PATH i 1 v))"
    "url_loop (q # qs @ []) i s_req_query_string_start UF_PATH False v =
     url_loop [] (i + length (q # qs)) s_req_query_string UF_QUERY False
       (grown UF_QUERY (length qs) (open_field UF_QUERY i 1 v))" for ys i v
    by (rule url_loop_enter; use cls hp in simp)+
  have loop: "url_loop (print_url sch host ds path query) 0 s_req_spaces_before_url UF_MAX False u =
      Some (False, False, grown UF_QUERY (length qs)
       (open_field UF_QUERY (length as + 4 + length (h # ?hp) + length path + 2) 1
        (grown UF_PATH (length path) (open_field UF_PATH (length as + 4 + length (h # ?hp)) 1
         (grown UF_HOST (length ?hp) (open_field UF_HOST (length as + 4) 1
          (grown UF_SCHEMA (length as) (open_field UF_SCHEMA 0 1 u))))))))"
    unfolding split
    by (simp add: enter [unfolded append_Nil2] url_loop_skip eval_nat_numeral add.assoc
        del: url_loop.simps(2) append_assoc)
  show ?thesis
    unfolding loop split_url_def by (simp add: e eval_nat_numeral add.assoc)
qed

lemma field_read:
  "buf = xs @ ys @ zs \<Longrightarrow> i = length xs \<Longrightarrow> n = length ys \<Longrightarrow> rdn buf i n = Some ys"
  by (simp add: rdn_def)

lemma u16_of_nat: "n \<le> 65535 \<Longrightarrow> unat (of_nat n :: u16) = n"
  by (simp add: unat_of_nat)

lemma url_part_read:
  assumes "has_field f u" "fd_off u f = of_nat (length xs)" "fd_len u f = of_nat (length bs)"
    and buf: "buf = xs @ bs @ zs" and len: "length buf \<le> 65535"
  shows "url_part buf u f = Some bs"
proof -
  have "length xs \<le> 65535" "length bs \<le> 65535" using len by (simp_all add: buf)
  then show ?thesis
    using assms(1-3) field_read [OF buf refl refl] by (simp add: url_part_def u16_of_nat)
qed

text \<open>The structure after \<open>http_parse_host\<close>: \<open>host\<close> and \<open>ds\<close> are the lengths of host and port.\<close>

definition host_url :: "nat \<Rightarrow> nat \<Rightarrow> nat \<Rightarrow> http_parser_url \<Rightarrow> http_parser_url" where
  "host_url off host ds v = grown UF_PORT ds (open_field UF_PORT (off + host + 1) 0
     (grown UF_HOST host (move_host off (v\<lparr>fd_len := (fd_len v)(UF_HOST := 0)\<rparr>))))"

lemma host_url_fields:
  "has_field f (host_url off host ds v) \<longleftrightarrow> has_field f v \<or> f = UF_PORT"
  "fd_off (host_url off host ds v) UF_HOST = of_nat off"
  "fd_len (host_url off host ds v) UF_HOST = of_nat host"
  "fd_off (host_url off host ds v) UF_PORT = of_nat (off + host + 1)"
  "fd_len (host_url off host ds v) UF_PORT = of_nat ds"
  "f \<noteq> UF_HOST \<Longrightarrow> f \<noteq> UF_PORT \<Longrightarrow> fd_off (host_url off host ds v) f = fd_off v f"
  "f \<noteq> UF_HOST \<Longrightarrow> f \<noteq> UF_PORT \<Longrightarrow> fd_len (host_url off host ds v) f = fd_len v f"
  by (simp_all add: host_url_def has_field_def [of f "v\<lparr>fd_len := _\<rparr>"] has_field_def [of f v])

lemma http_parse_host_print:
  assumes host: "host \<noteq> []" "list_all IS_HOST_CHAR host" and ds: "ds \<noteq> []" "list_all IS_NUM ds"
    and buf: "buf = xs @ (host @ byte CHR '':'' # ds) @ zs" and len: "length buf \<le> 65535"
    and v: "has_field UF_HOST v" "fd_off v UF_HOST = of_nat (length xs)"
      "fd_len v UF_HOST = of_nat (length host + 1 + length ds)"
  shows "http_parse_host buf v False =
    Some (False, host_url (length xs) (length host) (length ds) v)"
proof -
  obtain h hs d ds' where e: "host = h # hs" "ds = d # ds'"
    using host(1) ds(1) by (auto simp: neq_Nil_conv)
  let ?z = "v\<lparr>fd_len := (fd_len v)(UF_HOST := 0)\<rparr>"
  have u: "unat (fd_off v UF_HOST) = length xs"
    "unat (fd_len v UF_HOST) = length host + 1 + length ds"
    unfolding v by (rule u16_of_nat, use len in \<open>simp add: buf\<close>)+
  have rd: "rdn buf (length xs) (length host + 1 + length ds) = Some (host @ byte CHR '':'' # ds)"
    by (rule field_read [OF buf refl]) simp
  have loop: "host_loop (host @ byte CHR '':'' # ds) (length xs) s_http_host_start ?z =
      (False, s_http_host_port, host_url (length xs) (length host) (length ds) v)"
    using host_port_loop [of h hs d ds' "length xs" ?z] host(2) ds(2)
    unfolding e by (simp add: host_url_def list_all_iff)
  show ?thesis
    unfolding http_parse_host_def Let_def u rd if_False bind.bind_lunit loop
    using v(1) by (simp add: host_incomplete_def)
qed

lemma split_url_fields:
  assumes "0 < a" "0 < h" "0 < p" "0 < q" "field_set u = 0"
  defines "v \<equiv> split_url a h p q u"
  shows "has_field f v \<longleftrightarrow> f \<in> {UF_SCHEMA, UF_HOST, UF_PATH, UF_QUERY}"
    "fd_off v UF_SCHEMA = 0" "fd_len v UF_SCHEMA = of_nat a"
    "fd_off v UF_HOST = of_nat (a + 3)" "fd_len v UF_HOST = of_nat h"
    "fd_off v UF_PATH = of_nat (a + 3 + h)" "fd_len v UF_PATH = of_nat p"
    "fd_off v UF_QUERY = of_nat (a + 3 + h + p + 1)" "fd_len v UF_QUERY = of_nat q"
proof -
  have one: "1 + of_nat (n - Suc 0) = (of_nat n :: u16)" if "0 < n" for n
    using that by (cases n) simp_all
  show "has_field f v \<longleftrightarrow> f \<in> {UF_SCHEMA, UF_HOST, UF_PATH, UF_QUERY}"
    using assms(5) by (simp add: v_def split_url_def has_field_def [of f u])
  show "fd_off v UF_SCHEMA = 0" "fd_len v UF_SCHEMA = of_nat a"
    "fd_off v UF_HOST = of_nat (a + 3)" "fd_len v UF_HOST = of_nat h"
    "fd_off v UF_PATH = of_nat (a + 3 + h)" "fd_len v UF_PATH = of_nat p"
    "fd_off v UF_QUERY = of_nat (a + 3 + h + p + 1)" "fd_len v UF_QUERY = of_nat q"
    by (simp_all add: one [OF assms(1)] one [OF assms(2)] one [OF assms(3)] one [OF assms(4)]
        v_def split_url_def)
qed

text \<open>The fields of a printed URL, whatever the port structure held before.\<close>

definition url_parts ::
  "bytes \<Rightarrow> http_parser_url \<Rightarrow> bytes \<Rightarrow> bytes \<Rightarrow> bytes \<Rightarrow> bytes \<Rightarrow> bytes \<Rightarrow> bool" where
  "url_parts buf u sch host ds path query =
     (url_part buf u UF_SCHEMA = Some sch \<and> url_part buf u UF_HOST = Some host \<and>
      url_part buf u UF_PORT = Some ds \<and> url_part buf u UF_PATH = Some (byte CHR ''/'' # path) \<and>
      url_part buf u UF_QUERY = Some query \<and> url_part buf u UF_FRAGMENT = None \<and>
      url_part buf u UF_USERINFO = None)"

lemma url_parts_print:
  assumes ok: "url_ok sch host ds path query" and u: "field_set u = 0"
  defines "v \<equiv> split_url (length sch) (length host + 1 + length ds) (1 + length path) (length query) u"
  shows "url_parts (print_url sch host ds path query)
    (host_url (length sch + 3) (length host) (length ds) v) sch host ds path query"
proof -
  have pos: "0 < length sch" "0 < length host + 1 + length ds" "0 < 1 + length path"
    "0 < length query" and len: "length (print_url sch host ds path query) \<le> 65535"
    using ok by (auto simp: url_ok_def)
  note V = split_url_fields [OF pos u, folded v_def]
  let ?s = "sch @ map byte ''://''" and ?c = "byte CHR '':''" and ?d = "byte CHR ''/''"
  have cut: "print_url sch host ds path query = [] @ sch @ map byte ''://'' @ host @ ?c # ds @ ?d # path @ byte CHR ''?'' # query"
    "print_url sch host ds path query = ?s @ host @ ?c # ds @ ?d # path @ byte CHR ''?'' # query"
    "print_url sch host ds path query = (?s @ host @ [?c]) @ ds @ ?d # path @ byte CHR ''?'' # query"
    "print_url sch host ds path query = (?s @ host @ ?c # ds) @ (?d # path) @ byte CHR ''?'' # query"
    "print_url sch host ds path query = (?s @ host @ ?c # ds @ ?d # path @ map byte ''?'') @ query @ []"
    by (simp_all add: print_url_def)
  show ?thesis
    unfolding url_parts_def
  proof (intro conjI)
    show "url_part (print_url sch host ds path query)
        (host_url (length sch + 3) (length host) (length ds) v) UF_SCHEMA = Some sch"
      by (rule url_part_read [OF _ _ _ cut(1) len]) (simp_all add: host_url_fields V)
    show "url_part (print_url sch host ds path query)
        (host_url (length sch + 3) (length host) (length ds) v) UF_HOST = Some host"
      by (rule url_part_read [OF _ _ _ cut(2) len]) (simp_all add: host_url_fields V)
    show "url_part (print_url sch host ds path query)
        (host_url (length sch + 3) (length host) (length ds) v) UF_PORT = Some ds"
      by (rule url_part_read [OF _ _ _ cut(3) len]) (simp_all add: host_url_fields V)
    show "url_part (print_url sch host ds path query)
        (host_url (length sch + 3) (length host) (length ds) v) UF_PATH = Some (?d # path)"
      by (rule url_part_read [OF _ _ _ cut(4) len]) (simp_all add: host_url_fields V)
    show "url_part (print_url sch host ds path query)
        (host_url (length sch + 3) (length host) (length ds) v) UF_QUERY = Some query"
      by (rule url_part_read [OF _ _ _ cut(5) len]) (simp_all add: host_url_fields V)
  qed (simp_all add: url_part_def host_url_fields V)
qed

lemma parse_url_print:
  assumes ok: "url_ok sch host ds path query" and port: "decimal 0 ds \<le> 65535"
  shows "\<exists>u'. http_parser_parse_url (print_url sch host ds path query) False u = Some (False, u') \<and>
    url_parts (print_url sch host ds path query) u' sch host ds path query \<and>
    unat (Http_Url.port u') = decimal 0 ds"
proof -
  let ?buf = "print_url sch host ds path query"
  let ?u = "u\<lparr>port := 0, field_set := 0\<rparr>"
  define v where "v = split_url (length sch) (length host + 1 + length ds) (1 + length path) (length query) ?u"
  define w where "w = host_url (length sch + 3) (length host) (length ds) v"
  have pos: "0 < length sch" "0 < length host + 1 + length ds" "0 < 1 + length path"
    "0 < length query" and cls: "host \<noteq> []" "list_all IS_HOST_CHAR host" "ds \<noteq> []" "list_all IS_NUM ds"
    and len: "length ?buf \<le> 65535"
    using ok by (auto simp: url_ok_def)
  note V = split_url_fields [OF pos, of ?u, folded v_def, simplified]
  have loop: "url_loop ?buf 0 s_req_spaces_before_url UF_MAX False ?u = Some (False, False, v)"
    unfolding v_def by (rule url_loop_print [OF ok])
  have host: "http_parse_host ?buf v False = Some (False, w)"
    using http_parse_host_print [OF cls _ len, of "sch @ map byte ''://''"
        "byte CHR ''/'' # path @ byte CHR ''?'' # query" v]
    by (simp add: V w_def print_url_def numeral_3_eq_3)
  have parts: "url_parts ?buf w sch host ds path query"
    unfolding w_def v_def by (rule url_parts_print [OF ok]) simp
  then have rd: "has_field UF_PORT w"
    "rdn ?buf (unat (fd_off w UF_PORT)) (unat (fd_len w UF_PORT)) = Some ds"
    by (simp_all add: url_parts_def url_part_def split: if_splits)
  have val: "port_loop ds 0 = Some (of_nat (decimal 0 ds))"
    using port_loop_value [of ds 0] port cls(4) by (simp add: list_all_iff)
  define r where "r = w\<lparr>port := ucast (of_nat (decimal 0 ds) :: u64)\<rparr>"
  have hv: "has_field UF_SCHEMA v" "has_field UF_HOST v" by (simp_all add: V)
  have "http_parser_parse_url ?buf False u = Some (False, r)"
    unfolding http_parser_parse_url_def Let_def if_False loop
    using hv host rd val by (simp add: r_def)
  moreover have "url_part ?buf r f = url_part ?buf w f" for f
    by (simp add: url_part_def r_def has_field_def)
  then have "url_parts ?buf r sch host ds path query"
    using parts by (simp add: url_parts_def)
  moreover have "unat (Http_Url.port r) = decimal 0 ds"
    using port by (simp add: r_def unsigned_ucast_eq unsigned_of_nat take_bit_nat_eq_self)
  ultimately show ?thesis by blast
qed

end
