(* ===== verification/Http_Exec.thy ===== *)
theory Http_Exec
  imports Http_Url "HOL-Library.While_Combinator"
begin

text \<open>
  \<open>http_parser_execute\<close> (\<open>src/net/http/http_parser.c\<close>): one definition per \<open>case\<close> of its switch, over the
  local variables of the function.

  A step of the machine ends in a value of type \<open>run\<close>: at the head of the \<open>for\<close> loop (\<open>Head\<close>, after a
  \<open>break\<close>), at the label \<open>reexecute\<close> (\<open>Switch\<close>), returned (\<open>Done\<close>, with the value and the parser), at a
  failed assertion or a read outside an object (\<open>Fault\<close>), or in a callback that does not return
  (\<open>Aborted\<close>). The loop is \<open>while_option\<close>, so that a run that never returns is \<open>None\<close>. Bytes are unsigned;
  the pointers \<open>p\<close> and the marks are offsets into \<open>data\<close>.
\<close>

section \<open>Local variables and control flow\<close>

datatype mark = header_field_mark | header_value_mark | url_mark | body_mark | status_mark

record 'u exec =
  parser :: "'u http_parser"
  pos :: nat
  ch :: u8
  p_state :: http_state
  marks :: "mark \<Rightarrow> nat option"
  lenient :: bool

datatype 'u run =
    Head "'u exec"
  | Switch "'u exec"
  | Done nat "'u http_parser"
  | Fault
  | Aborted

definition set_parser :: "('u http_parser \<Rightarrow> 'u http_parser) \<Rightarrow> 'u exec \<Rightarrow> 'u exec" where
  "set_parser f l = l\<lparr>parser := f (parser l)\<rparr>"

definition UPDATE_STATE :: "http_state \<Rightarrow> 'u exec \<Rightarrow> 'u exec" where
  "UPDATE_STATE s l = l\<lparr>p_state := s\<rparr>"

text \<open>\<open>break\<close> out of the switch: the loop advances \<open>p\<close>.\<close>

definition break_out :: "'u exec \<Rightarrow> 'u run" where
  "break_out l = Head (l\<lparr>pos := pos l + 1\<rparr>)"

definition RETURN :: "nat \<Rightarrow> 'u exec \<Rightarrow> 'u run" where
  "RETURN n l = Done n ((parser l)\<lparr>state := p_state l\<rparr>)"

definition goto_error :: "'u exec \<Rightarrow> 'u run" where
  "goto_error l =
     RETURN (pos l) (set_parser (\<lambda>pr. if http_errno pr = HPE_OK then pr\<lparr>http_errno := HPE_UNKNOWN\<rparr>
                                      else pr) l)"

definition fail :: "http_errno \<Rightarrow> 'u exec \<Rightarrow> 'u run" where
  "fail e l = goto_error (set_parser (\<lambda>pr. pr\<lparr>http_errno := e\<rparr>) l)"

definition MARK :: "mark \<Rightarrow> 'u exec \<Rightarrow> 'u exec" where
  "MARK m l = (case marks l m of None \<Rightarrow> l\<lparr>marks := (marks l)(m \<mapsto> pos l)\<rparr> | Some _ \<Rightarrow> l)"

definition COUNT_HEADER_SIZE :: "nat \<Rightarrow> 'u exec \<Rightarrow> ('u exec \<Rightarrow> 'u run) \<Rightarrow> 'u run" where
  "COUNT_HEADER_SIZE n l k =
     (let l = set_parser (\<lambda>pr. pr\<lparr>nread := nread pr + of_nat n\<rparr>) l
      in if nread (parser l) > HTTP_MAX_HEADER_SIZE then fail HPE_HEADER_OVERFLOW l else k l)"

text \<open>What the callback macros do with the callback's result; \<open>er\<close> is their return value.\<close>

definition after_callback ::
  "http_errno \<Rightarrow> nat \<Rightarrow> 'u exec \<Rightarrow> (int \<times> 'u http_parser) option \<Rightarrow> ('u exec \<Rightarrow> 'u run) \<Rightarrow> 'u run" where
  "after_callback e er l res k =
     (case res of
        None \<Rightarrow> Aborted
      | Some (r, pr0) \<Rightarrow>
          let pr = (if r \<noteq> 0 then pr0\<lparr>http_errno := e\<rparr> else pr0)
          in if http_errno pr \<noteq> HPE_OK then Done er pr
             else k (l\<lparr>parser := pr, p_state := state pr\<rparr>))"

definition CALLBACK_NOTIFY ::
  "'u http_cb option \<Rightarrow> http_errno \<Rightarrow> nat \<Rightarrow> 'u exec \<Rightarrow> ('u exec \<Rightarrow> 'u run) \<Rightarrow> 'u run" where
  "CALLBACK_NOTIFY cb e er l k =
     (if http_errno (parser l) \<noteq> HPE_OK then Fault
      else case cb of
        None \<Rightarrow> k l
      | Some f \<Rightarrow> after_callback e er l (f ((parser l)\<lparr>state := p_state l\<rparr>)) k)"

text \<open>The data callback of mark \<open>m\<close> with the bytes from the mark up to offset \<open>till\<close>.\<close>

definition CALLBACK_DATA ::
  "'u http_data_cb option \<Rightarrow> http_errno \<Rightarrow> mark \<Rightarrow> nat \<Rightarrow> nat \<Rightarrow> bytes \<Rightarrow> 'u exec \<Rightarrow>
   ('u exec \<Rightarrow> 'u run) \<Rightarrow> 'u run" where
  "CALLBACK_DATA cb e m till er data l k =
     (if http_errno (parser l) \<noteq> HPE_OK then Fault
      else case marks l m of
        None \<Rightarrow> k l
      | Some i \<Rightarrow>
          let k' = (\<lambda>l. k (l\<lparr>marks := (marks l)(m := None)\<rparr>))
          in (case cb of
                None \<Rightarrow> k' l
              | Some f \<Rightarrow>
                  if \<not> (i \<le> till \<and> till \<le> length data) then Fault
                  else after_callback e er l
                         (f ((parser l)\<lparr>state := p_state l\<rparr>) (take (till - i) (drop i data))) k'))"

definition new_message :: "'u http_parser \<Rightarrow> 'u http_parser" where
  "new_message pr = pr\<lparr>flags := 0, content_length := ULLONG_MAX\<rparr>"

section \<open>Start states and the status line\<close>

definition st_dead :: "'u exec \<Rightarrow> 'u run" where
  "st_dead l = (if ch l = CR \<or> ch l = LF then break_out l else fail HPE_CLOSED_CONNECTION l)"

definition st_start_req_or_res :: "'u http_parser_settings \<Rightarrow> 'u exec \<Rightarrow> 'u run" where
  "st_start_req_or_res S l =
     (if ch l = CR \<or> ch l = LF then break_out l
      else let l = set_parser new_message l
      in if ch l = byte CHR ''H'' then
           CALLBACK_NOTIFY (on_message_begin S) HPE_CB_message_begin (pos l + 1)
             (UPDATE_STATE s_res_or_resp_H l) break_out
         else Switch (UPDATE_STATE s_start_req (set_parser (\<lambda>pr. pr\<lparr>hp_type := HTTP_REQUEST\<rparr>) l)))"

definition st_res_or_resp_H :: "'u exec \<Rightarrow> 'u run" where
  "st_res_or_resp_H l =
     (if ch l = byte CHR ''T'' then
        break_out (UPDATE_STATE s_res_HT (set_parser (\<lambda>pr. pr\<lparr>hp_type := HTTP_RESPONSE\<rparr>) l))
      else if ch l \<noteq> byte CHR ''E'' then fail HPE_INVALID_CONSTANT l
      else break_out (UPDATE_STATE s_req_method
             (set_parser (\<lambda>pr. pr\<lparr>hp_type := HTTP_REQUEST, meth := HTTP_HEAD, index := 2\<rparr>) l)))"

definition st_start_res :: "'u http_parser_settings \<Rightarrow> 'u exec \<Rightarrow> 'u run" where
  "st_start_res S l =
     (let l = set_parser new_message l
      in if ch l = byte CHR ''H'' then
           CALLBACK_NOTIFY (on_message_begin S) HPE_CB_message_begin (pos l + 1)
             (UPDATE_STATE s_res_H l) break_out
         else if ch l = CR \<or> ch l = LF then
           CALLBACK_NOTIFY (on_message_begin S) HPE_CB_message_begin (pos l + 1) l break_out
         else fail HPE_INVALID_CONSTANT l)"

text \<open>\<open>STRICT_CHECK(ch != c); UPDATE_STATE(s); break;\<close>\<close>

definition expect :: "u8 \<Rightarrow> http_state \<Rightarrow> 'u exec \<Rightarrow> 'u run" where
  "expect c s l = (if ch l \<noteq> c then fail HPE_STRICT l else break_out (UPDATE_STATE s l))"

definition st_version_digit ::
  "(u16 \<Rightarrow> 'u http_parser \<Rightarrow> 'u http_parser) \<Rightarrow> http_state \<Rightarrow> 'u exec \<Rightarrow> 'u run" where
  "st_version_digit upd s l =
     (if \<not> IS_NUM (ch l) then fail HPE_INVALID_VERSION l
      else break_out (UPDATE_STATE s (set_parser (upd (ucast (ch l - 48))) l)))"

definition set_http_major :: "u16 \<Rightarrow> 'u http_parser \<Rightarrow> 'u http_parser" where
  "set_http_major v pr = pr\<lparr>http_major := v\<rparr>"

definition set_http_minor :: "u16 \<Rightarrow> 'u http_parser \<Rightarrow> 'u http_parser" where
  "set_http_minor v pr = pr\<lparr>http_minor := v\<rparr>"

definition st_version_char :: "u8 \<Rightarrow> http_state \<Rightarrow> 'u exec \<Rightarrow> 'u run" where
  "st_version_char c s l =
     (if ch l \<noteq> c then fail HPE_INVALID_VERSION l else break_out (UPDATE_STATE s l))"

definition st_res_first_status_code :: "'u exec \<Rightarrow> 'u run" where
  "st_res_first_status_code l =
     (if \<not> IS_NUM (ch l) then
        if ch l = SP then break_out l else fail HPE_INVALID_STATUS l
      else break_out (UPDATE_STATE s_res_status_code
             (set_parser (\<lambda>pr. pr\<lparr>status_code := ucast (ch l - 48)\<rparr>) l)))"

definition st_res_status_code :: "'u exec \<Rightarrow> 'u run" where
  "st_res_status_code l =
     (if \<not> IS_NUM (ch l) then
        if ch l = SP then break_out (UPDATE_STATE s_res_status_start l)
        else if ch l = CR \<or> ch l = LF then Switch (UPDATE_STATE s_res_status_start l)
        else fail HPE_INVALID_STATUS l
      else let l = set_parser (\<lambda>pr. pr\<lparr>status_code := status_code pr * 10 + ucast (ch l - 48)\<rparr>) l
      in if status_code (parser l) > 999 then fail HPE_INVALID_STATUS l else break_out l)"

definition st_res_status_start :: "'u exec \<Rightarrow> 'u run" where
  "st_res_status_start l =
     (let l = set_parser (\<lambda>pr. pr\<lparr>index := 0\<rparr>) (UPDATE_STATE s_res_status (MARK status_mark l))
      in if ch l = CR \<or> ch l = LF then Switch l else break_out l)"

definition st_res_status :: "'u http_parser_settings \<Rightarrow> bytes \<Rightarrow> 'u exec \<Rightarrow> 'u run" where
  "st_res_status S data l =
     (if ch l = CR then
        CALLBACK_DATA (on_status S) HPE_CB_status status_mark (pos l) (pos l + 1) data
          (UPDATE_STATE s_res_line_almost_done l) break_out
      else if ch l = LF then
        CALLBACK_DATA (on_status S) HPE_CB_status status_mark (pos l) (pos l + 1) data
          (UPDATE_STATE s_header_field_start l) break_out
      else break_out l)"

section \<open>The request line\<close>

definition first_method :: "u8 \<Rightarrow> http_method option" where
  "first_method c = map_of
     [(byte CHR ''A'', HTTP_ACL), (byte CHR ''B'', HTTP_BIND), (byte CHR ''C'', HTTP_CONNECT),
      (byte CHR ''D'', HTTP_DELETE), (byte CHR ''G'', HTTP_GET), (byte CHR ''H'', HTTP_HEAD),
      (byte CHR ''L'', HTTP_LOCK), (byte CHR ''M'', HTTP_MKCOL), (byte CHR ''N'', HTTP_NOTIFY),
      (byte CHR ''O'', HTTP_OPTIONS), (byte CHR ''P'', HTTP_POST), (byte CHR ''R'', HTTP_REPORT),
      (byte CHR ''S'', HTTP_SUBSCRIBE), (byte CHR ''T'', HTTP_TRACE), (byte CHR ''U'', HTTP_UNLOCK)] c"

definition st_start_req :: "'u http_parser_settings \<Rightarrow> 'u exec \<Rightarrow> 'u run" where
  "st_start_req S l =
     (if ch l = CR \<or> ch l = LF then break_out l
      else let l = set_parser new_message l
      in if \<not> IS_ALPHA (ch l) then fail HPE_INVALID_METHOD l
         else case first_method (ch l) of
           None \<Rightarrow> fail HPE_INVALID_METHOD (set_parser (\<lambda>pr. pr\<lparr>meth := HTTP_DELETE, index := 1\<rparr>) l)
         | Some m \<Rightarrow>
             CALLBACK_NOTIFY (on_message_begin S) HPE_CB_message_begin (pos l + 1)
               (UPDATE_STATE s_req_method (set_parser (\<lambda>pr. pr\<lparr>meth := m, index := 1\<rparr>) l)) break_out)"

definition next_method :: "http_method \<Rightarrow> nat \<Rightarrow> u8 \<Rightarrow> http_method option" where
  "next_method m i c = map_of
     [((HTTP_POST, 1, byte CHR ''U''), HTTP_PUT),
      ((HTTP_POST, 1, byte CHR ''A''), HTTP_PATCH),
      ((HTTP_POST, 1, byte CHR ''R''), HTTP_PROPFIND),
      ((HTTP_PUT, 2, byte CHR ''R''), HTTP_PURGE),
      ((HTTP_CONNECT, 1, byte CHR ''H''), HTTP_CHECKOUT),
      ((HTTP_CONNECT, 2, byte CHR ''P''), HTTP_COPY),
      ((HTTP_MKCOL, 1, byte CHR ''O''), HTTP_MOVE),
      ((HTTP_MKCOL, 1, byte CHR ''E''), HTTP_MERGE),
      ((HTTP_MKCOL, 1, byte CHR ''-''), HTTP_MSEARCH),
      ((HTTP_MKCOL, 2, byte CHR ''A''), HTTP_MKACTIVITY),
      ((HTTP_MKCOL, 3, byte CHR ''A''), HTTP_MKCALENDAR),
      ((HTTP_SUBSCRIBE, 1, byte CHR ''E''), HTTP_SEARCH),
      ((HTTP_SUBSCRIBE, 1, byte CHR ''O''), HTTP_SOURCE),
      ((HTTP_REPORT, 2, byte CHR ''B''), HTTP_REBIND),
      ((HTTP_PROPFIND, 4, byte CHR ''P''), HTTP_PROPPATCH),
      ((HTTP_LOCK, 1, byte CHR ''I''), HTTP_LINK),
      ((HTTP_UNLOCK, 2, byte CHR ''S''), HTTP_UNSUBSCRIBE),
      ((HTTP_UNLOCK, 2, byte CHR ''B''), HTTP_UNBIND),
      ((HTTP_UNLOCK, 3, byte CHR ''I''), HTTP_UNLINK)] (m, i, c)"

definition st_req_method :: "'u exec \<Rightarrow> 'u run" where
  "st_req_method l =
     (let pr = parser l; i = unat (index pr); step = set_parser (\<lambda>pr. pr\<lparr>index := index pr + 1\<rparr>)
      in if ch l = 0 then fail HPE_INVALID_METHOD l
         else case cstr (method_strings (meth pr)) i of
           None \<Rightarrow> Fault
         | Some c \<Rightarrow>
             if ch l = SP \<and> c = 0 then break_out (step (UPDATE_STATE s_req_spaces_before_url l))
             else if ch l = c then break_out (step l)
             else if byte CHR ''A'' \<le> ch l \<and> ch l \<le> byte CHR ''Z'' \<or> ch l = byte CHR ''-'' then
               case next_method (meth pr) i (ch l) of
                 None \<Rightarrow> fail HPE_INVALID_METHOD l
               | Some m \<Rightarrow> break_out (step (set_parser (\<lambda>pr. pr\<lparr>meth := m\<rparr>) l))
             else fail HPE_INVALID_METHOD l)"

text \<open>\<open>UPDATE_STATE(parse_url_char(...))\<close> and the test of its result.\<close>

definition url_step :: "'u exec \<Rightarrow> 'u run" where
  "url_step l =
     (let l = UPDATE_STATE (parse_url_char (p_state l) (ch l)) l
      in if p_state l = s_dead then fail HPE_INVALID_URL l else break_out l)"

definition st_req_spaces_before_url :: "'u exec \<Rightarrow> 'u run" where
  "st_req_spaces_before_url l =
     (if ch l = SP then break_out l
      else let l = MARK url_mark l
      in url_step (if meth (parser l) = HTTP_CONNECT then UPDATE_STATE s_req_server_start l else l))"

definition st_req_schema :: "'u exec \<Rightarrow> 'u run" where
  "st_req_schema l =
     (if ch l = SP \<or> ch l = CR \<or> ch l = LF then fail HPE_INVALID_URL l else url_step l)"

definition st_req_url :: "'u http_parser_settings \<Rightarrow> bytes \<Rightarrow> 'u exec \<Rightarrow> 'u run" where
  "st_req_url S data l =
     (if ch l = SP then
        CALLBACK_DATA (on_url S) HPE_CB_url url_mark (pos l) (pos l + 1) data
          (UPDATE_STATE s_req_http_start l) break_out
      else if ch l = CR \<or> ch l = LF then
        CALLBACK_DATA (on_url S) HPE_CB_url url_mark (pos l) (pos l + 1) data
          (UPDATE_STATE (if ch l = CR then s_req_line_almost_done else s_header_field_start)
            (set_parser (\<lambda>pr. pr\<lparr>http_major := 0, http_minor := 9\<rparr>) l)) break_out
      else url_step l)"

definition st_req_http_start :: "'u exec \<Rightarrow> 'u run" where
  "st_req_http_start l =
     (if ch l = byte CHR ''H'' then break_out (UPDATE_STATE s_req_http_H l)
      else if ch l = SP then break_out l
      else fail HPE_INVALID_CONSTANT l)"

definition st_req_http_end :: "'u exec \<Rightarrow> 'u run" where
  "st_req_http_end l =
     (if ch l = CR then break_out (UPDATE_STATE s_req_line_almost_done l)
      else if ch l = LF then break_out (UPDATE_STATE s_header_field_start l)
      else fail HPE_INVALID_VERSION l)"

definition st_lf_expected :: "http_state \<Rightarrow> 'u exec \<Rightarrow> 'u run" where
  "st_lf_expected s l =
     (if ch l \<noteq> LF then fail HPE_LF_EXPECTED l else break_out (UPDATE_STATE s l))"

section \<open>Header fields\<close>

definition st_header_field_start :: "'u exec \<Rightarrow> 'u run" where
  "st_header_field_start l =
     (if ch l = CR then break_out (UPDATE_STATE s_headers_almost_done l)
      else if ch l = LF then Switch (UPDATE_STATE s_headers_almost_done l)
      else let c = TOKEN (ch l)
      in if c = 0 then fail HPE_INVALID_HEADER_TOKEN l
         else
           let h = (if c = byte CHR ''c'' then h_C
                    else if c = byte CHR ''p'' then h_matching_proxy_connection
                    else if c = byte CHR ''t'' then h_matching_transfer_encoding
                    else if c = byte CHR ''u'' then h_matching_upgrade
                    else h_general)
           in break_out (set_parser (\<lambda>pr. pr\<lparr>index := 0, header_state := h\<rparr>)
                (UPDATE_STATE s_header_field (MARK header_field_mark l))))"

text \<open>
  \<open>parser->index++\<close>, then the byte \<open>c\<close> against the name at that index: past its end or different gives
  \<open>miss\<close>, its last byte \<open>hit\<close>, otherwise the state stays \<open>h\<close>.
\<close>

definition match_at :: "string \<Rightarrow> header_states \<Rightarrow> header_states \<Rightarrow> header_states \<Rightarrow> nat \<Rightarrow> u8 \<Rightarrow> header_states" where
  "match_at name hit miss h i c =
     (if i > length name \<or> cstr name i \<noteq> Some c then miss
      else if i = length name - 1 then hit else h)"

definition match_name :: "string \<Rightarrow> header_states \<Rightarrow> u8 \<Rightarrow> 'u http_parser \<Rightarrow> 'u http_parser" where
  "match_name name hit c pr =
     (let i = index pr + 1
      in pr\<lparr>index := i, header_state := match_at name hit h_general (header_state pr) (unat i) c\<rparr>)"

text \<open>One byte of a header name, \<open>c = TOKEN(b)\<close>; \<open>None\<close> is the assertion of the default case.\<close>

definition field_char :: "u8 \<Rightarrow> u8 \<Rightarrow> 'u http_parser \<Rightarrow> 'u http_parser option" where
  "field_char b c pr =
     (case header_state pr of
        h_general \<Rightarrow> Some pr
      | h_C \<Rightarrow> Some (pr\<lparr>index := index pr + 1,
                        header_state := (if c = byte CHR ''o'' then h_CO else h_general)\<rparr>)
      | h_CO \<Rightarrow> Some (pr\<lparr>index := index pr + 1,
                         header_state := (if c = byte CHR ''n'' then h_CON else h_general)\<rparr>)
      | h_CON \<Rightarrow> Some (pr\<lparr>index := index pr + 1,
                          header_state := (if c = byte CHR ''n'' then h_matching_connection
                                           else if c = byte CHR ''t'' then h_matching_content_length
                                           else h_general)\<rparr>)
      | h_matching_connection \<Rightarrow> Some (match_name ''connection'' h_connection c pr)
      | h_matching_proxy_connection \<Rightarrow> Some (match_name ''proxy-connection'' h_connection c pr)
      | h_matching_content_length \<Rightarrow> Some (match_name ''content-length'' h_content_length c pr)
      | h_matching_transfer_encoding \<Rightarrow> Some (match_name ''transfer-encoding'' h_transfer_encoding c pr)
      | h_matching_upgrade \<Rightarrow> Some (match_name ''upgrade'' h_upgrade c pr)
      | h_connection \<Rightarrow> Some (if b \<noteq> SP then pr\<lparr>header_state := h_general\<rparr> else pr)
      | h_content_length \<Rightarrow> Some (if b \<noteq> SP then pr\<lparr>header_state := h_general\<rparr> else pr)
      | h_transfer_encoding \<Rightarrow> Some (if b \<noteq> SP then pr\<lparr>header_state := h_general\<rparr> else pr)
      | h_upgrade \<Rightarrow> Some (if b \<noteq> SP then pr\<lparr>header_state := h_general\<rparr> else pr)
      | _ \<Rightarrow> None)"

text \<open>The inner loop over \<open>*p\<close>, on the bytes from \<open>p\<close> on; \<open>b0\<close> is the value of \<open>ch\<close> before it.\<close>

fun field_scan :: "bytes \<Rightarrow> nat \<Rightarrow> u8 \<Rightarrow> 'u http_parser \<Rightarrow> (nat \<times> u8 \<times> 'u http_parser) option" where
  "field_scan [] p b0 pr = Some (p, b0, pr)"
| "field_scan (b # bs) p b0 pr =
     (let c = TOKEN b
      in if c = 0 then Some (p, b, pr)
         else case field_char b c pr of
           None \<Rightarrow> None
         | Some pr' \<Rightarrow> field_scan bs (p + 1) b pr')"

definition st_header_field :: "'u http_parser_settings \<Rightarrow> bytes \<Rightarrow> 'u exec \<Rightarrow> 'u run" where
  "st_header_field S data l =
     (case field_scan (drop (pos l) data) (pos l) (ch l) (parser l) of
        None \<Rightarrow> Fault
      | Some (p, b, pr) \<Rightarrow>
          COUNT_HEADER_SIZE (p - pos l) (l\<lparr>pos := p, ch := b, parser := pr\<rparr>) (\<lambda>l.
            if pos l = length data then break_out (l\<lparr>pos := pos l - 1\<rparr>)
            else if ch l = byte CHR '':'' then
              CALLBACK_DATA (on_header_field S) HPE_CB_header_field header_field_mark (pos l) (pos l + 1)
                data (UPDATE_STATE s_header_value_discard_ws l) break_out
            else fail HPE_INVALID_HEADER_TOKEN l))"

section \<open>Header values\<close>

definition st_header_value_start :: "'u exec \<Rightarrow> 'u run" where
  "st_header_value_start l0 =
     (let l = set_parser (\<lambda>pr. pr\<lparr>index := 0\<rparr>) (UPDATE_STATE s_header_value (MARK header_value_mark l0));
          c = LOWER (ch l); pr = parser l;
          become = (\<lambda>h pr. pr\<lparr>header_state := h\<rparr>)
      in case header_state pr of
           h_upgrade \<Rightarrow> break_out (set_parser (\<lambda>pr. become h_general (set_flag F_UPGRADE pr)) l)
         | h_transfer_encoding \<Rightarrow>
             break_out (set_parser (become (if c = byte CHR ''c'' then h_matching_transfer_encoding_chunked
                                            else h_general)) l)
         | h_content_length \<Rightarrow>
             if \<not> IS_NUM (ch l) then fail HPE_INVALID_CONTENT_LENGTH l
             else if flag F_CONTENTLENGTH pr then fail HPE_UNEXPECTED_CONTENT_LENGTH l
             else break_out (set_parser (\<lambda>pr. become h_content_length_num
                    (set_flag F_CONTENTLENGTH pr\<lparr>content_length := ucast (ch l - 48)\<rparr>)) l)
         | h_connection \<Rightarrow>
             break_out (set_parser (become
               (if c = byte CHR ''k'' then h_matching_connection_keep_alive
                else if c = byte CHR ''c'' then h_matching_connection_close
                else if c = byte CHR ''u'' then h_matching_connection_upgrade
                else h_matching_connection_token)) l)
         | h_matching_connection_token_start \<Rightarrow> break_out l
         | _ \<Rightarrow> break_out (set_parser (become h_general) l))"

definition st_header_value_discard_ws :: "'u exec \<Rightarrow> 'u run" where
  "st_header_value_discard_ws l =
     (if ch l = SP \<or> ch l = HT then break_out l
      else if ch l = CR then break_out (UPDATE_STATE s_header_value_discard_ws_almost_done l)
      else if ch l = LF then break_out (UPDATE_STATE s_header_value_discard_lws l)
      else st_header_value_start l)"

definition memchr :: "u8 \<Rightarrow> bytes \<Rightarrow> nat option" where
  "memchr b bs = (if b \<in> set bs then Some (length (takeWhile (\<lambda>x. x \<noteq> b) bs)) else None)"

text \<open>Where the \<open>h_general\<close> case looks for the end of the line.\<close>

definition skip_general :: "bytes \<Rightarrow> nat \<Rightarrow> nat" where
  "skip_general data p =
     (let win = take (unat HTTP_MAX_HEADER_SIZE) (drop p data)
      in case memchr CR win of
           Some i \<Rightarrow> (case memchr LF win of
                        Some j \<Rightarrow> if i \<ge> j then p + j else p + i
                      | None \<Rightarrow> p + i)
         | None \<Rightarrow> (case memchr LF win of Some j \<Rightarrow> p + j | None \<Rightarrow> length data))"

text \<open>One turn of the inner loop on the byte \<open>b\<close> at \<open>p\<close>, which is not CR or LF, in local \<open>h_state\<close>.\<close>

datatype 'u value_out =
    VNext nat header_states "'u http_parser"
  | VError http_errno "'u http_parser"
  | VFault

definition content_length_digit :: "nat \<Rightarrow> u8 \<Rightarrow> 'u http_parser \<Rightarrow> 'u value_out" where
  "content_length_digit p b pr =
     (if b = SP then VNext p h_content_length_ws pr
      else if \<not> IS_NUM b then VError HPE_INVALID_CONTENT_LENGTH (pr\<lparr>header_state := h_content_length_num\<rparr>)
      else let t = content_length pr * 10 + ucast (b - 48)
      in if (ULLONG_MAX - 10) div 10 < content_length pr
         then VError HPE_INVALID_CONTENT_LENGTH (pr\<lparr>header_state := h_content_length_num\<rparr>)
         else VNext p h_content_length_num (pr\<lparr>content_length := t\<rparr>))"

definition match_value ::
  "string \<Rightarrow> header_states \<Rightarrow> header_states \<Rightarrow> nat \<Rightarrow> header_states \<Rightarrow> u8 \<Rightarrow> 'u http_parser \<Rightarrow> 'u value_out" where
  "match_value name hit miss p h c pr =
     (let i = index pr + 1
      in VNext p (match_at name hit miss h (unat i) c) (pr\<lparr>index := i\<rparr>))"

definition connection_token_start :: "u8 \<Rightarrow> header_states" where
  "connection_token_start c =
     (if c = byte CHR ''k'' then h_matching_connection_keep_alive
      else if c = byte CHR ''c'' then h_matching_connection_close
      else if c = byte CHR ''u'' then h_matching_connection_upgrade
      else if TOKEN c \<noteq> 0 then h_matching_connection_token
      else if c = SP \<or> c = HT then h_matching_connection_token_start
      else h_general)"

definition connection_flag :: "header_states \<Rightarrow> 'u http_parser \<Rightarrow> 'u http_parser" where
  "connection_flag h pr =
     (if h = h_connection_keep_alive then set_flag F_CONNECTION_KEEP_ALIVE pr
      else if h = h_connection_close then set_flag F_CONNECTION_CLOSE pr
      else if h = h_connection_upgrade then set_flag F_CONNECTION_UPGRADE pr
      else pr)"

definition connection_value_end :: "nat \<Rightarrow> header_states \<Rightarrow> u8 \<Rightarrow> 'u http_parser \<Rightarrow> 'u value_out" where
  "connection_value_end p h b pr =
     (if b = byte CHR '','' then
        VNext p h_matching_connection_token_start ((connection_flag h pr)\<lparr>index := 0\<rparr>)
      else if b \<noteq> SP then VNext p h_matching_connection_token pr
      else VNext p h pr)"

definition value_char :: "bytes \<Rightarrow> nat \<Rightarrow> u8 \<Rightarrow> header_states \<Rightarrow> 'u http_parser \<Rightarrow> 'u value_out" where
  "value_char data p b h pr =
     (let c = LOWER b
      in case h of
           h_general \<Rightarrow> VNext (skip_general data p - 1) h pr
         | h_connection \<Rightarrow> VFault
         | h_transfer_encoding \<Rightarrow> VFault
         | h_content_length \<Rightarrow> if b = SP then VNext p h pr else content_length_digit p b pr
         | h_content_length_num \<Rightarrow> content_length_digit p b pr
         | h_content_length_ws \<Rightarrow>
             if b = SP then VNext p h pr
             else VError HPE_INVALID_CONTENT_LENGTH (pr\<lparr>header_state := h\<rparr>)
         | h_matching_transfer_encoding_chunked \<Rightarrow>
             match_value ''chunked'' h_transfer_encoding_chunked h_general p h c pr
         | h_matching_connection_token_start \<Rightarrow> VNext p (connection_token_start c) pr
         | h_matching_connection_keep_alive \<Rightarrow>
             match_value ''keep-alive'' h_connection_keep_alive h_matching_connection_token p h c pr
         | h_matching_connection_close \<Rightarrow>
             match_value ''close'' h_connection_close h_matching_connection_token p h c pr
         | h_matching_connection_upgrade \<Rightarrow>
             match_value ''upgrade'' h_connection_upgrade h_matching_connection_token p h c pr
         | h_matching_connection_token \<Rightarrow>
             if b = byte CHR '','' then VNext p h_matching_connection_token_start (pr\<lparr>index := 0\<rparr>)
             else VNext p h pr
         | h_transfer_encoding_chunked \<Rightarrow> VNext p (if b \<noteq> SP then h_general else h) pr
         | h_connection_keep_alive \<Rightarrow> connection_value_end p h b pr
         | h_connection_close \<Rightarrow> connection_value_end p h b pr
         | h_connection_upgrade \<Rightarrow> connection_value_end p h b pr
         | _ \<Rightarrow> VNext p h_general pr)"

lemma memchr_Some:
  assumes "memchr b bs = Some i"
  shows "i < length bs \<and> bs ! i = b"
proof -
  from assms have b: "b \<in> set bs" and i: "i = length (takeWhile (\<lambda>x. x \<noteq> b) bs)"
    by (auto simp: memchr_def split: if_splits)
  have "takeWhile (\<lambda>x. x \<noteq> b) bs \<noteq> bs" using b by (auto simp: takeWhile_eq_all_conv)
  then have "i < length bs"
    using length_takeWhile_le [of "\<lambda>x. x \<noteq> b" bs] unfolding i
    by (metis order_neq_le_trans takeWhile_eq_take take_all_iff)
  then show ?thesis using nth_length_takeWhile [of "\<lambda>x. x \<noteq> b" bs] by (simp add: i)
qed

lemma skip_general_gt:
  assumes "p < length data" "data ! p \<noteq> CR" "data ! p \<noteq> LF"
  shows "p < skip_general data p \<and> skip_general data p \<le> length data"
proof -
  let ?win = "take (unat HTTP_MAX_HEADER_SIZE) (drop p data)"
  have "0 < i \<and> p + i \<le> length data" if "memchr b ?win = Some i" "b = CR \<or> b = LF" for b i
    using memchr_Some [OF that(1)] that(2) assms by (cases i) auto
  then show ?thesis
    using assms(1) by (auto simp: skip_general_def Let_def split: option.split)
qed

lemma value_char_next:
  assumes "value_char data p b h pr = VNext q h' pr'" "p < length data" "data ! p \<noteq> CR" "data ! p \<noteq> LF"
  shows "p \<le> q \<and> q < length data"
  using assms(1,2) skip_general_gt [OF assms(2-4)]
  by (cases h) (auto simp: value_char_def Let_def match_value_def content_length_digit_def
      connection_value_end_def split: if_splits)

text \<open>The inner loop: it stops at the end of the data, at CR, at LF or with an error.\<close>

datatype 'u value_stop =
    VEnd nat u8 header_states "'u http_parser"
  | VCr nat header_states "'u http_parser"
  | VLf nat header_states "'u http_parser"
  | VBad http_errno nat u8 "'u http_parser"
  | VCrash

function value_scan :: "bool \<Rightarrow> bytes \<Rightarrow> nat \<Rightarrow> u8 \<Rightarrow> header_states \<Rightarrow> 'u http_parser \<Rightarrow> 'u value_stop" where
  "value_scan len data p b0 h pr =
     (if \<not> p < length data then VEnd p b0 h pr
      else let b = data ! p
      in if b = CR then VCr p h pr
         else if b = LF then VLf p h pr
         else if \<not> len \<and> \<not> IS_HEADER_CHAR b then VBad HPE_INVALID_HEADER_TOKEN p b pr
         else case value_char data p b h pr of
           VNext q h' pr' \<Rightarrow> value_scan len data (q + 1) b h' pr'
         | VError e pr' \<Rightarrow> VBad e p b pr'
         | VFault \<Rightarrow> VCrash)"
  by pat_completeness auto
termination
  by (relation "measure (\<lambda>(len, data, p, b0, h, pr). length data - p)")
    (auto dest!: value_char_next)

declare value_scan.simps [simp del]

definition st_header_value :: "'u http_parser_settings \<Rightarrow> bytes \<Rightarrow> 'u exec \<Rightarrow> 'u run" where
  "st_header_value S data l0 =
     (let start = pos l0; hs = (\<lambda>h pr. pr\<lparr>header_state := h\<rparr>)
      in case value_scan (lenient l0) data start (ch l0) (header_state (parser l0)) (parser l0) of
           VEnd p b h pr \<Rightarrow>
             COUNT_HEADER_SIZE (p - start) (l0\<lparr>pos := p, ch := b, parser := hs h pr\<rparr>)
               (\<lambda>l. break_out (l\<lparr>pos := pos l - 1\<rparr>))
         | VCr p h pr \<Rightarrow>
             CALLBACK_DATA (on_header_value S) HPE_CB_header_value header_value_mark p (p + 1) data
               (UPDATE_STATE s_header_almost_done (l0\<lparr>pos := p, ch := CR, parser := hs h pr\<rparr>))
               (\<lambda>l. COUNT_HEADER_SIZE (p - start) (set_parser (hs h) l) break_out)
         | VLf p h pr \<Rightarrow>
             COUNT_HEADER_SIZE (p - start)
               (UPDATE_STATE s_header_almost_done (l0\<lparr>pos := p, ch := LF, parser := pr\<rparr>))
               (\<lambda>l. CALLBACK_DATA (on_header_value S) HPE_CB_header_value header_value_mark p p data
                      (set_parser (hs h) l) Switch)
         | VBad e p b pr \<Rightarrow> fail e (l0\<lparr>pos := p, ch := b, parser := pr\<rparr>)
         | VCrash \<Rightarrow> Fault)"

text \<open>The flags a finished header sets.\<close>

definition finish_header :: "'u http_parser \<Rightarrow> 'u http_parser" where
  "finish_header pr =
     (case header_state pr of
        h_connection_keep_alive \<Rightarrow> set_flag F_CONNECTION_KEEP_ALIVE pr
      | h_connection_close \<Rightarrow> set_flag F_CONNECTION_CLOSE pr
      | h_transfer_encoding_chunked \<Rightarrow> set_flag F_CHUNKED pr
      | h_connection_upgrade \<Rightarrow> set_flag F_CONNECTION_UPGRADE pr
      | _ \<Rightarrow> pr)"

definition st_header_value_lws :: "'u exec \<Rightarrow> 'u run" where
  "st_header_value_lws l =
     (if ch l = SP \<or> ch l = HT then Switch (UPDATE_STATE s_header_value_start l)
      else Switch (UPDATE_STATE s_header_field_start (set_parser finish_header l)))"

definition st_header_value_discard_lws ::
  "'u http_parser_settings \<Rightarrow> bytes \<Rightarrow> 'u exec \<Rightarrow> 'u run" where
  "st_header_value_discard_lws S data l =
     (if ch l = SP \<or> ch l = HT then break_out (UPDATE_STATE s_header_value_discard_ws l)
      else
        let l = UPDATE_STATE s_header_field_start (MARK header_value_mark (set_parser finish_header l))
        in CALLBACK_DATA (on_header_value S) HPE_CB_header_value header_value_mark (pos l) (pos l) data l
             Switch)"

section \<open>End of the headers\<close>

definition headers_continue :: "'u exec \<Rightarrow> 'u run" where
  "headers_continue l = (if http_errno (parser l) \<noteq> HPE_OK then RETURN (pos l) l else Switch l)"

definition headers_upgrade :: "'u http_parser \<Rightarrow> bool" where
  "headers_upgrade pr =
     (if flag F_UPGRADE pr \<and> flag F_CONNECTION_UPGRADE pr
      then hp_type pr = HTTP_REQUEST \<or> status_code pr = 101
      else meth pr = HTTP_CONNECT)"

text \<open>\<open>on_headers_complete\<close> is called with \<open>parser->state\<close> as it is and without reloading the state.\<close>

definition st_headers_almost_done :: "'u http_parser_settings \<Rightarrow> 'u exec \<Rightarrow> 'u run" where
  "st_headers_almost_done S l =
     (if ch l \<noteq> LF then fail HPE_STRICT l
      else if flag F_TRAILING (parser l) then
        CALLBACK_NOTIFY (on_chunk_complete S) HPE_CB_chunk_complete (pos l)
          (UPDATE_STATE s_message_done l) Switch
      else if flag F_CHUNKED (parser l) \<and> flag F_CONTENTLENGTH (parser l) then
        fail HPE_UNEXPECTED_CONTENT_LENGTH l
      else
        let l = set_parser (\<lambda>pr. pr\<lparr>upgrade := headers_upgrade pr\<rparr>) (UPDATE_STATE s_headers_done l)
        in case on_headers_complete S of
             None \<Rightarrow> headers_continue l
           | Some f \<Rightarrow>
               (case f (parser l) of
                  None \<Rightarrow> Aborted
                | Some (r, pr) \<Rightarrow>
                    if r = 0 then headers_continue (l\<lparr>parser := pr\<rparr>)
                    else if r = 2 then
                      headers_continue (l\<lparr>parser := set_flag F_SKIPBODY (pr\<lparr>upgrade := True\<rparr>)\<rparr>)
                    else if r = 1 then headers_continue (l\<lparr>parser := set_flag F_SKIPBODY pr\<rparr>)
                    else RETURN (pos l) (l\<lparr>parser := pr\<lparr>http_errno := HPE_CB_headers_complete\<rparr>\<rparr>)))"

definition message_complete :: "'u http_parser_settings \<Rightarrow> 'u exec \<Rightarrow> ('u exec \<Rightarrow> 'u run) \<Rightarrow> 'u run" where
  "message_complete S l k =
     CALLBACK_NOTIFY (on_message_complete S) HPE_CB_message_complete (pos l + 1)
       (UPDATE_STATE (NEW_MESSAGE (parser l)) l) k"

definition has_body :: "'u http_parser \<Rightarrow> bool" where
  "has_body pr = (flag F_CHUNKED pr \<or> content_length pr > 0 \<and> content_length pr \<noteq> ULLONG_MAX)"

definition st_headers_done :: "'u http_parser_settings \<Rightarrow> 'u exec \<Rightarrow> 'u run" where
  "st_headers_done S l =
     (if ch l \<noteq> LF then fail HPE_STRICT l
      else
        let l = set_parser (\<lambda>pr. pr\<lparr>nread := 0\<rparr>) l; pr = parser l
        in if upgrade pr \<and> (meth pr = HTTP_CONNECT \<or> flag F_SKIPBODY pr \<or> \<not> has_body pr) then
             message_complete S l (\<lambda>l. RETURN (pos l + 1) l)
           else if flag F_SKIPBODY pr then message_complete S l break_out
           else if flag F_CHUNKED pr then break_out (UPDATE_STATE s_chunk_size_start l)
           else if content_length pr = 0 then message_complete S l break_out
           else if content_length pr \<noteq> ULLONG_MAX then break_out (UPDATE_STATE s_body_identity l)
           else if \<not> http_message_needs_eof pr then message_complete S l break_out
           else break_out (UPDATE_STATE s_body_identity_eof l))"

section \<open>Message bodies\<close>

definition to_read :: "bytes \<Rightarrow> 'u exec \<Rightarrow> u64" where
  "to_read data l = min (content_length (parser l)) (of_nat (length data - pos l))"

text \<open>\<open>MARK(body); content_length -= to_read; p += to_read - 1;\<close>\<close>

definition take_body :: "bytes \<Rightarrow> 'u exec \<Rightarrow> 'u exec" where
  "take_body data l =
     (let n = to_read data l; l = MARK body_mark l
      in (set_parser (\<lambda>pr. pr\<lparr>content_length := content_length pr - n\<rparr>) l)\<lparr>pos := pos l + unat n - 1\<rparr>)"

definition st_body_identity :: "'u http_parser_settings \<Rightarrow> bytes \<Rightarrow> 'u exec \<Rightarrow> 'u run" where
  "st_body_identity S data l =
     (if content_length (parser l) = 0 \<or> content_length (parser l) = ULLONG_MAX then Fault
      else let l = take_body data l
      in if content_length (parser l) = 0 then
           CALLBACK_DATA (on_body S) HPE_CB_body body_mark (pos l + 1) (pos l) data
             (UPDATE_STATE s_message_done l) Switch
         else break_out l)"

definition st_body_identity_eof :: "bytes \<Rightarrow> 'u exec \<Rightarrow> 'u run" where
  "st_body_identity_eof data l = break_out ((MARK body_mark l)\<lparr>pos := length data - 1\<rparr>)"

definition st_message_done :: "'u http_parser_settings \<Rightarrow> 'u exec \<Rightarrow> 'u run" where
  "st_message_done S l =
     message_complete S l (\<lambda>l. if upgrade (parser l) then RETURN (pos l + 1) l else break_out l)"

definition st_chunk_size_start :: "'u exec \<Rightarrow> 'u run" where
  "st_chunk_size_start l =
     (if nread (parser l) \<noteq> 1 \<or> \<not> flag F_CHUNKED (parser l) then Fault
      else let v = unhex_of (ch l)
      in if v = - 1 then fail HPE_INVALID_CHUNK_SIZE l
         else break_out (UPDATE_STATE s_chunk_size
                (set_parser (\<lambda>pr. pr\<lparr>content_length := word_of_int v\<rparr>) l)))"

definition st_chunk_size :: "'u exec \<Rightarrow> 'u run" where
  "st_chunk_size l =
     (if \<not> flag F_CHUNKED (parser l) then Fault
      else if ch l = CR then break_out (UPDATE_STATE s_chunk_size_almost_done l)
      else let v = unhex_of (ch l); n = content_length (parser l)
      in if v = - 1 then
           if ch l = byte CHR '';'' \<or> ch l = SP then break_out (UPDATE_STATE s_chunk_parameters l)
           else fail HPE_INVALID_CHUNK_SIZE l
         else if (ULLONG_MAX - 16) div 16 < n then fail HPE_INVALID_CONTENT_LENGTH l
         else break_out (set_parser (\<lambda>pr. pr\<lparr>content_length := n * 16 + word_of_int v\<rparr>) l))"

definition st_chunk_parameters :: "'u exec \<Rightarrow> 'u run" where
  "st_chunk_parameters l =
     (if \<not> flag F_CHUNKED (parser l) then Fault
      else if ch l = CR then break_out (UPDATE_STATE s_chunk_size_almost_done l)
      else break_out l)"

definition st_chunk_size_almost_done :: "'u http_parser_settings \<Rightarrow> 'u exec \<Rightarrow> 'u run" where
  "st_chunk_size_almost_done S l =
     (if \<not> flag F_CHUNKED (parser l) then Fault
      else if ch l \<noteq> LF then fail HPE_STRICT l
      else
        let l = set_parser (\<lambda>pr. pr\<lparr>nread := 0\<rparr>) l;
            l = (if content_length (parser l) = 0
                 then UPDATE_STATE s_header_field_start (set_parser (set_flag F_TRAILING) l)
                 else UPDATE_STATE s_chunk_data l)
        in CALLBACK_NOTIFY (on_chunk_header S) HPE_CB_chunk_header (pos l + 1) l break_out)"

definition st_chunk_data :: "bytes \<Rightarrow> 'u exec \<Rightarrow> 'u run" where
  "st_chunk_data data l =
     (if \<not> flag F_CHUNKED (parser l) \<or> content_length (parser l) = 0
         \<or> content_length (parser l) = ULLONG_MAX then Fault
      else let l = take_body data l
      in break_out (if content_length (parser l) = 0 then UPDATE_STATE s_chunk_data_almost_done l else l))"

definition st_chunk_data_almost_done :: "'u http_parser_settings \<Rightarrow> bytes \<Rightarrow> 'u exec \<Rightarrow> 'u run" where
  "st_chunk_data_almost_done S data l =
     (if \<not> flag F_CHUNKED (parser l) \<or> content_length (parser l) \<noteq> 0 then Fault
      else if ch l \<noteq> CR then fail HPE_STRICT l
      else CALLBACK_DATA (on_body S) HPE_CB_body body_mark (pos l) (pos l + 1) data
             (UPDATE_STATE s_chunk_data_done l) break_out)"

definition st_chunk_data_done :: "'u http_parser_settings \<Rightarrow> 'u exec \<Rightarrow> 'u run" where
  "st_chunk_data_done S l =
     (if \<not> flag F_CHUNKED (parser l) then Fault
      else if ch l \<noteq> LF then fail HPE_STRICT l
      else CALLBACK_NOTIFY (on_chunk_complete S) HPE_CB_chunk_complete (pos l + 1)
             (UPDATE_STATE s_chunk_size_start (set_parser (\<lambda>pr. pr\<lparr>nread := 0\<rparr>) l)) break_out)"

section \<open>The loop\<close>

definition exec_switch :: "'u http_parser_settings \<Rightarrow> bytes \<Rightarrow> 'u exec \<Rightarrow> 'u run" where
  "exec_switch S data l =
     (case p_state l of
        s_dead \<Rightarrow> st_dead l
      | s_start_req_or_res \<Rightarrow> st_start_req_or_res S l
      | s_res_or_resp_H \<Rightarrow> st_res_or_resp_H l
      | s_start_res \<Rightarrow> st_start_res S l
      | s_res_H \<Rightarrow> expect (byte CHR ''T'') s_res_HT l
      | s_res_HT \<Rightarrow> expect (byte CHR ''T'') s_res_HTT l
      | s_res_HTT \<Rightarrow> expect (byte CHR ''P'') s_res_HTTP l
      | s_res_HTTP \<Rightarrow> expect (byte CHR ''/'') s_res_http_major l
      | s_res_http_major \<Rightarrow> st_version_digit set_http_major s_res_http_dot l
      | s_res_http_dot \<Rightarrow> st_version_char (byte CHR ''.'') s_res_http_minor l
      | s_res_http_minor \<Rightarrow> st_version_digit set_http_minor s_res_http_end l
      | s_res_http_end \<Rightarrow> st_version_char SP s_res_first_status_code l
      | s_res_first_status_code \<Rightarrow> st_res_first_status_code l
      | s_res_status_code \<Rightarrow> st_res_status_code l
      | s_res_status_start \<Rightarrow> st_res_status_start l
      | s_res_status \<Rightarrow> st_res_status S data l
      | s_res_line_almost_done \<Rightarrow> expect LF s_header_field_start l
      | s_start_req \<Rightarrow> st_start_req S l
      | s_req_method \<Rightarrow> st_req_method l
      | s_req_spaces_before_url \<Rightarrow> st_req_spaces_before_url l
      | s_req_schema \<Rightarrow> st_req_schema l
      | s_req_schema_slash \<Rightarrow> st_req_schema l
      | s_req_schema_slash_slash \<Rightarrow> st_req_schema l
      | s_req_server_start \<Rightarrow> st_req_schema l
      | s_req_server \<Rightarrow> st_req_url S data l
      | s_req_server_with_at \<Rightarrow> st_req_url S data l
      | s_req_path \<Rightarrow> st_req_url S data l
      | s_req_query_string_start \<Rightarrow> st_req_url S data l
      | s_req_query_string \<Rightarrow> st_req_url S data l
      | s_req_fragment_start \<Rightarrow> st_req_url S data l
      | s_req_fragment \<Rightarrow> st_req_url S data l
      | s_req_http_start \<Rightarrow> st_req_http_start l
      | s_req_http_H \<Rightarrow> expect (byte CHR ''T'') s_req_http_HT l
      | s_req_http_HT \<Rightarrow> expect (byte CHR ''T'') s_req_http_HTT l
      | s_req_http_HTT \<Rightarrow> expect (byte CHR ''P'') s_req_http_HTTP l
      | s_req_http_HTTP \<Rightarrow> expect (byte CHR ''/'') s_req_http_major l
      | s_req_http_major \<Rightarrow> st_version_digit set_http_major s_req_http_dot l
      | s_req_http_dot \<Rightarrow> st_version_char (byte CHR ''.'') s_req_http_minor l
      | s_req_http_minor \<Rightarrow> st_version_digit set_http_minor s_req_http_end l
      | s_req_http_end \<Rightarrow> st_req_http_end l
      | s_req_line_almost_done \<Rightarrow> st_lf_expected s_header_field_start l
      | s_header_field_start \<Rightarrow> st_header_field_start l
      | s_header_field \<Rightarrow> st_header_field S data l
      | s_header_value_discard_ws \<Rightarrow> st_header_value_discard_ws l
      | s_header_value_start \<Rightarrow> st_header_value_start l
      | s_header_value \<Rightarrow> st_header_value S data l
      | s_header_almost_done \<Rightarrow> st_lf_expected s_header_value_lws l
      | s_header_value_lws \<Rightarrow> st_header_value_lws l
      | s_header_value_discard_ws_almost_done \<Rightarrow> expect LF s_header_value_discard_lws l
      | s_header_value_discard_lws \<Rightarrow> st_header_value_discard_lws S data l
      | s_headers_almost_done \<Rightarrow> st_headers_almost_done S l
      | s_headers_done \<Rightarrow> st_headers_done S l
      | s_body_identity \<Rightarrow> st_body_identity S data l
      | s_body_identity_eof \<Rightarrow> st_body_identity_eof data l
      | s_message_done \<Rightarrow> st_message_done S l
      | s_chunk_size_start \<Rightarrow> st_chunk_size_start l
      | s_chunk_size \<Rightarrow> st_chunk_size l
      | s_chunk_parameters \<Rightarrow> st_chunk_parameters l
      | s_chunk_size_almost_done \<Rightarrow> st_chunk_size_almost_done S l
      | s_chunk_data \<Rightarrow> st_chunk_data data l
      | s_chunk_data_almost_done \<Rightarrow> st_chunk_data_almost_done S data l
      | s_chunk_data_done \<Rightarrow> st_chunk_data_done S l)"

text \<open>The callbacks for the marks left when the bytes run out.\<close>

definition marks_set :: "'u exec \<Rightarrow> nat" where
  "marks_set l = length (filter (\<lambda>m. marks l m \<noteq> None)
     [header_field_mark, header_value_mark, url_mark, body_mark, status_mark])"

definition leftover :: "'u http_parser_settings \<Rightarrow> bytes \<Rightarrow> 'u exec \<Rightarrow> 'u run" where
  "leftover S data l =
     (let n = pos l
      in if 1 < marks_set l then Fault
         else CALLBACK_DATA (on_header_field S) HPE_CB_header_field header_field_mark n n data l (\<lambda>l.
              CALLBACK_DATA (on_header_value S) HPE_CB_header_value header_value_mark n n data l (\<lambda>l.
              CALLBACK_DATA (on_url S) HPE_CB_url url_mark n n data l (\<lambda>l.
              CALLBACK_DATA (on_body S) HPE_CB_body body_mark n n data l (\<lambda>l.
              CALLBACK_DATA (on_status S) HPE_CB_status status_mark n n data l (\<lambda>l.
                RETURN (length data) l))))))"

definition loop_head :: "'u http_parser_settings \<Rightarrow> bytes \<Rightarrow> 'u exec \<Rightarrow> 'u run" where
  "loop_head S data l =
     (if \<not> pos l < length data then leftover S data l
      else let l = l\<lparr>ch := data ! pos l\<rparr>
      in if PARSING_HEADER (p_state l) then COUNT_HEADER_SIZE 1 l Switch else Switch l)"

fun exec_step :: "'u http_parser_settings \<Rightarrow> bytes \<Rightarrow> 'u run \<Rightarrow> 'u run" where
  "exec_step S data (Head l) = loop_head S data l"
| "exec_step S data (Switch l) = exec_switch S data l"
| "exec_step S data r = r"

fun running :: "'u run \<Rightarrow> bool" where
  "running (Head l) = True"
| "running (Switch l) = True"
| "running r = False"

text \<open>The marks a call starts with: at the start of the data when a token is split across calls.\<close>

definition url_state :: "http_state \<Rightarrow> bool" where
  "url_state s = (s \<in> {s_req_path, s_req_schema, s_req_schema_slash, s_req_schema_slash_slash,
     s_req_server_start, s_req_server, s_req_server_with_at, s_req_query_string_start,
     s_req_query_string, s_req_fragment_start, s_req_fragment})"

definition initial_marks :: "http_state \<Rightarrow> mark \<Rightarrow> nat option" where
  "initial_marks s m =
     (case m of
        header_field_mark \<Rightarrow> if s = s_header_field then Some 0 else None
      | header_value_mark \<Rightarrow> if s = s_header_value then Some 0 else None
      | url_mark \<Rightarrow> if url_state s then Some 0 else None
      | status_mark \<Rightarrow> if s = s_res_status then Some 0 else None
      | body_mark \<Rightarrow> None)"

definition exec_init :: "'u http_parser \<Rightarrow> 'u exec" where
  "exec_init pr = \<lparr>parser = pr, pos = 0, ch = 0, p_state = state pr, marks = initial_marks (state pr),
     lenient = lenient_http_headers pr\<rparr>"

definition execute_eof :: "'u http_parser_settings \<Rightarrow> 'u http_parser \<Rightarrow> 'u run" where
  "execute_eof S pr =
     (if state pr = s_body_identity_eof then
        CALLBACK_NOTIFY (on_message_complete S) HPE_CB_message_complete 0 (exec_init pr)
          (\<lambda>l. Done 0 (parser l))
      else if state pr \<in> {s_dead, s_start_req_or_res, s_start_res, s_start_req} then Done 0 pr
      else Done 1 (pr\<lparr>http_errno := HPE_INVALID_EOF_STATE\<rparr>))"

definition http_parser_execute ::
  "'u http_parser_settings \<Rightarrow> bytes \<Rightarrow> 'u http_parser \<Rightarrow> 'u run option" where
  "http_parser_execute S data pr =
     (if http_errno pr \<noteq> HPE_OK then Some (Done 0 pr)
      else if data = [] then Some (execute_eof S pr)
      else while_option running (exec_step S data) (Head (exec_init pr)))"

end
