(* ===== verification/Http_Invariant.thy ===== *)
theory Http_Invariant
  imports Http_Exec
begin

text \<open>
  \<open>http_parser_execute\<close> is safe and total: for every input and every parser state that an earlier call
  can leave, it reads only inside its objects, none of its assertions fails, and it returns.

  What it relies on is the interface \<open>http_callbacks\<close>: a callback may change the client's data and may
  pause the parser, and leaves the rest of the parser alone. It may also not return at all.
\<close>

section \<open>The callback interface\<close>

definition keeps_parser :: "'u http_parser \<Rightarrow> 'u http_parser \<Rightarrow> bool" where
  "keeps_parser pr pr' \<longleftrightarrow>
     (\<exists>d e. (e = HPE_OK \<or> e = HPE_PAUSED) \<and> pr' = pr\<lparr>user_data := d, http_errno := e\<rparr>)"

definition notify_ok :: "'u http_cb option \<Rightarrow> bool" where
  "notify_ok cb \<longleftrightarrow>
     (\<forall>f pr r pr'. cb = Some f \<longrightarrow> http_errno pr = HPE_OK \<longrightarrow> f pr = Some (r, pr') \<longrightarrow> keeps_parser pr pr')"

definition data_ok :: "'u http_data_cb option \<Rightarrow> bool" where
  "data_ok cb \<longleftrightarrow>
     (\<forall>f pr bs r pr'. cb = Some f \<longrightarrow> http_errno pr = HPE_OK \<longrightarrow> f pr bs = Some (r, pr') \<longrightarrow> keeps_parser pr pr')"

locale http_callbacks =
  fixes S :: "'u http_parser_settings"
  assumes message_begin: "notify_ok (on_message_begin S)"
    and url: "data_ok (on_url S)"
    and status: "data_ok (on_status S)"
    and header_field: "data_ok (on_header_field S)"
    and header_value: "data_ok (on_header_value S)"
    and headers_complete: "notify_ok (on_headers_complete S)"
    and body: "data_ok (on_body S)"
    and message_complete: "notify_ok (on_message_complete S)"
    and chunk_header: "notify_ok (on_chunk_header S)"
    and chunk_complete: "notify_ok (on_chunk_complete S)"

section \<open>The invariant\<close>

text \<open>What each state assumes of the parser.\<close>

definition field_states :: "header_states set" where
  "field_states =
     {h_general, h_C, h_CO, h_CON, h_matching_connection, h_matching_proxy_connection,
      h_matching_content_length, h_matching_transfer_encoding, h_matching_upgrade, h_connection,
      h_content_length, h_transfer_encoding, h_upgrade}"

definition proper_length :: "u64 \<Rightarrow> bool" where
  "proper_length n \<longleftrightarrow> n \<noteq> 0 \<and> n \<noteq> ULLONG_MAX"

definition state_ok :: "http_state \<Rightarrow> 'u http_parser \<Rightarrow> bool" where
  "state_ok s pr =
     (case s of
        s_req_method \<Rightarrow> unat (index pr) \<le> length (method_strings (meth pr))
      | s_header_field \<Rightarrow> header_state pr \<in> field_states
      | s_header_value \<Rightarrow> header_state pr \<noteq> h_connection \<and> header_state pr \<noteq> h_transfer_encoding
      | s_chunk_size_start \<Rightarrow> flag F_CHUNKED pr
      | s_chunk_size \<Rightarrow> flag F_CHUNKED pr \<and> content_length pr \<noteq> ULLONG_MAX
      | s_chunk_parameters \<Rightarrow> flag F_CHUNKED pr \<and> content_length pr \<noteq> ULLONG_MAX
      | s_chunk_size_almost_done \<Rightarrow> flag F_CHUNKED pr \<and> content_length pr \<noteq> ULLONG_MAX
      | s_chunk_data \<Rightarrow> flag F_CHUNKED pr \<and> proper_length (content_length pr)
      | s_chunk_data_almost_done \<Rightarrow> flag F_CHUNKED pr \<and> content_length pr = 0
      | s_chunk_data_done \<Rightarrow> flag F_CHUNKED pr
      | s_body_identity \<Rightarrow> proper_length (content_length pr)
      | _ \<Rightarrow> True)"

text \<open>The one mark that may be set in a state.\<close>

definition owner :: "http_state \<Rightarrow> mark option" where
  "owner s =
     (if s = s_header_field then Some header_field_mark
      else if s = s_header_value then Some header_value_mark
      else if url_state s then Some url_mark
      else if s = s_res_status then Some status_mark
      else if s \<in> {s_body_identity, s_body_identity_eof, s_chunk_data, s_chunk_data_almost_done}
      then Some body_mark
      else None)"

text \<open>A parser between two calls.\<close>

definition parser_ok :: "'u http_parser \<Rightarrow> bool" where
  "parser_ok pr \<longleftrightarrow> state_ok (state pr) pr \<and> nread pr \<le> HTTP_MAX_HEADER_SIZE \<and>
     (state pr = s_chunk_size_start \<longrightarrow> nread pr = 0)"

definition marks_ok :: "http_state \<Rightarrow> 'u exec \<Rightarrow> bool" where
  "marks_ok s l \<longleftrightarrow> (\<forall>m i. marks l m = Some i \<longrightarrow> i \<le> pos l \<and> owner s = Some m)"

definition base_ok :: "'u exec \<Rightarrow> bool" where
  "base_ok l \<longleftrightarrow>
     http_errno (parser l) = HPE_OK \<and> state_ok (p_state l) (parser l) \<and>
     nread (parser l) \<le> HTTP_MAX_HEADER_SIZE \<and> marks_ok (p_state l) l"

definition returned_ok :: "nat \<Rightarrow> nat \<Rightarrow> 'u http_parser \<Rightarrow> bool" where
  "returned_ok len n pr \<longleftrightarrow>
     n \<le> len \<and> (http_errno pr = HPE_OK \<or> http_errno pr = HPE_PAUSED \<longrightarrow> parser_ok pr) \<and>
     (http_errno pr = HPE_OK \<longrightarrow> n = len \<or> upgrade pr)"

fun run_ok :: "nat \<Rightarrow> 'u run \<Rightarrow> bool" where
  "run_ok len (Head l) \<longleftrightarrow> base_ok l \<and> pos l \<le> len \<and>
     (p_state l = s_chunk_size_start \<longrightarrow> nread (parser l) = 0)"
| "run_ok len (Switch l) \<longleftrightarrow> base_ok l \<and> pos l < len \<and>
     (p_state l = s_chunk_size_start \<longrightarrow> nread (parser l) = 1)"
| "run_ok len (Done n pr) \<longleftrightarrow> returned_ok len n pr"
| "run_ok len Fault \<longleftrightarrow> False"
| "run_ok len Aborted \<longleftrightarrow> True"

text \<open>The measure: the bytes left, then how far a chain of \<open>reexecute\<close>s can still go.\<close>

definition rank :: "http_state \<Rightarrow> nat" where
  "rank s =
     (if s = s_header_value_lws \<or> s = s_header_value_discard_lws then 4
      else if s = s_header_field_start then 3
      else if s = s_headers_almost_done \<or> s = s_res_status_code then 2
      else if s \<in> {s_headers_done, s_start_req_or_res, s_res_status_start, s_header_value,
                   s_body_identity} then 1
      else 0)"

fun weight :: "nat \<Rightarrow> 'u run \<Rightarrow> nat" where
  "weight len (Head l) = (len - pos l) * 8 + 6"
| "weight len (Switch l) = (len - pos l) * 8 + rank (p_state l)"
| "weight len r = 0"

definition step_ok :: "nat \<Rightarrow> 'u exec \<Rightarrow> 'u run \<Rightarrow> bool" where
  "step_ok len l0 r \<longleftrightarrow> run_ok len r \<and> weight len r < weight len (Switch l0)"

section \<open>Rules for the control flow\<close>

lemma exec_simps [simp]:
  "parser (set_parser f l) = f (parser l)" "pos (set_parser f l) = pos l"
  "ch (set_parser f l) = ch l" "p_state (set_parser f l) = p_state l"
  "marks (set_parser f l) = marks l" "lenient (set_parser f l) = lenient l"
  "parser (UPDATE_STATE s l) = parser l" "pos (UPDATE_STATE s l) = pos l"
  "ch (UPDATE_STATE s l) = ch l" "p_state (UPDATE_STATE s l) = s"
  "marks (UPDATE_STATE s l) = marks l" "lenient (UPDATE_STATE s l) = lenient l"
  "parser (MARK m l) = parser l" "pos (MARK m l) = pos l" "ch (MARK m l) = ch l"
  "p_state (MARK m l) = p_state l" "lenient (MARK m l) = lenient l"
  by (simp_all add: set_parser_def UPDATE_STATE_def MARK_def split: option.split)

lemma marks_MARK: "marks (MARK m l) k =
    (if k = m then (case marks l m of None \<Rightarrow> Some (pos l) | Some i \<Rightarrow> Some i) else marks l k)"
  by (simp add: MARK_def split: option.split)

lemma marks_none: "marks_ok s l \<Longrightarrow> owner s = None \<Longrightarrow> marks l m = None"
  by (cases "marks l m") (auto simp: marks_ok_def)

lemma step_break:
  assumes "base_ok l" "p_state l = s_chunk_size_start \<Longrightarrow> nread (parser l) = 0"
    and "pos l0 \<le> pos l" "pos l < len"
  shows "step_ok len l0 (break_out l)"
proof -
  have "base_ok (l\<lparr>pos := pos l + 1\<rparr>)"
    using assms(1) by (fastforce simp: base_ok_def marks_ok_def)
  then show ?thesis using assms(2-4) by (auto simp: step_ok_def break_out_def)
qed

lemma step_switch:
  assumes "base_ok l" "p_state l \<noteq> s_chunk_size_start" "pos l0 \<le> pos l" "pos l < len"
    and "rank (p_state l) < rank (p_state l0)"
  shows "step_ok len l0 (Switch l)"
proof -
  have "(len - pos l) * 8 \<le> (len - pos l0) * 8" using assms(3) by simp
  then show ?thesis using assms by (simp add: step_ok_def)
qed

lemma step_return:
  "returned_ok len n pr \<Longrightarrow> pos l0 < len \<Longrightarrow> step_ok len l0 (Done n pr)"
  by (simp add: step_ok_def)

lemma fail_Done:
  "e \<noteq> HPE_OK \<Longrightarrow> fail e l = Done (pos l) ((parser l)\<lparr>http_errno := e, state := p_state l\<rparr>)"
  by (simp add: fail_def goto_error_def RETURN_def)

lemma step_fail:
  "e \<noteq> HPE_OK \<Longrightarrow> e \<noteq> HPE_PAUSED \<Longrightarrow> pos l \<le> len \<Longrightarrow> pos l0 < len \<Longrightarrow>
   step_ok len l0 (fail e l)"
  by (simp add: fail_Done step_ok_def returned_ok_def)

lemma step_count:
  assumes "pos l \<le> len" "pos l0 < len"
    and "nread (parser l) + of_nat n \<le> HTTP_MAX_HEADER_SIZE \<Longrightarrow>
      step_ok len l0
        (k (set_parser (\<lambda>pr. pr\<lparr>nread := nread pr + of_nat n\<rparr>) l))"
  shows "step_ok len l0 (COUNT_HEADER_SIZE n l k)"
  using assms step_fail [of HPE_HEADER_OVERFLOW "set_parser _ l" len l0]
  by (auto simp: COUNT_HEADER_SIZE_def Let_def not_less)

text \<open>
  The local variables after a callback that returned zero without pausing: the parser has a new
  client pointer and its \<open>state\<close> field is current.
\<close>

definition called :: "'u \<Rightarrow> 'u exec \<Rightarrow> 'u exec" where
  "called d l = l\<lparr>parser := (parser l)\<lparr>state := p_state l, user_data := d, http_errno := HPE_OK\<rparr>\<rparr>"

lemma state_ok_frame [simp]:
  "state_ok s (pr\<lparr>state := t\<rparr>) = state_ok s pr"
  "state_ok s (pr\<lparr>user_data := d\<rparr>) = state_ok s pr"
  "state_ok s (pr\<lparr>http_errno := e\<rparr>) = state_ok s pr"
  "state_ok s (pr\<lparr>nread := n\<rparr>) = state_ok s pr"
  "state_ok s (pr\<lparr>upgrade := u\<rparr>) = state_ok s pr"
  by (cases s; simp add: state_ok_def flag_def)+

lemma called_simps [simp]:
  "pos (called d l) = pos l" "ch (called d l) = ch l" "p_state (called d l) = p_state l"
  "marks (called d l) = marks l" "lenient (called d l) = lenient l"
  "nread (parser (called d l)) = nread (parser l)"
  "upgrade (parser (called d l)) = upgrade (parser l)"
  "header_state (parser (called d l)) = header_state (parser l)"
  "http_errno (parser (called d l)) = HPE_OK"
  "state (parser (called d l)) = p_state l"
  "state_ok s (parser (called d l)) = state_ok s (parser l)"
  by (simp_all add: called_def)

lemma base_ok_called [simp]:
  "base_ok (called d l) \<longleftrightarrow> state_ok (p_state l) (parser l) \<and> nread (parser l) \<le> HTTP_MAX_HEADER_SIZE
     \<and> marks_ok (p_state l) l"
  by (simp add: base_ok_def marks_ok_def)

text \<open>What holds of the local variables when a callback is made: the new state is already in place.\<close>

definition call_ok :: "'u exec \<Rightarrow> bool" where
  "call_ok l \<longleftrightarrow> http_errno (parser l) = HPE_OK \<and> state_ok (p_state l) (parser l) \<and>
     nread (parser l) \<le> HTTP_MAX_HEADER_SIZE \<and>
     (p_state l = s_chunk_size_start \<longrightarrow> nread (parser l) = 0)"

lemma after_callback_ok:
  assumes "call_ok l" "er \<le> len" "pos l0 < len" "e \<noteq> HPE_OK" "e \<noteq> HPE_PAUSED"
    and "\<And>r pr. res = Some (r, pr) \<Longrightarrow> keeps_parser ((parser l)\<lparr>state := p_state l\<rparr>) pr"
    and "\<And>d. step_ok len l0 (k (called d l))"
  shows "step_ok len l0 (after_callback e er l res k)"
proof (cases res)
  case None
  then show ?thesis using assms(3) by (simp add: after_callback_def step_ok_def)
next
  case (Some a)
  obtain r pr where a: "a = (r, pr)" by (cases a)
  obtain d f where f: "f = HPE_OK \<or> f = HPE_PAUSED"
    and pr: "pr = (parser l)\<lparr>state := p_state l, user_data := d, http_errno := f\<rparr>"
    using assms(6) Some a by (auto simp: keeps_parser_def)
  have "returned_ok len er (pr\<lparr>http_errno := e'\<rparr>)" if "e' \<noteq> HPE_OK" for e'
    using assms(1,2) that by (simp add: returned_ok_def parser_ok_def pr call_ok_def)
  moreover have "pr = pr\<lparr>http_errno := f\<rparr>" by (simp add: pr)
  ultimately have "step_ok len l0 (Done er (pr\<lparr>http_errno := e\<rparr>))"
    "f \<noteq> HPE_OK \<Longrightarrow> step_ok len l0 (Done er pr)"
    using assms(3,4) step_return by metis+
  moreover have "f = HPE_OK \<Longrightarrow> l\<lparr>parser := pr, p_state := state pr\<rparr> = called d l"
    by (simp add: called_def pr)
  moreover have "http_errno pr = f" by (simp add: pr)
  ultimately show ?thesis
    using assms(4) assms(7) [of d] f by (auto simp: after_callback_def Some a Let_def)
qed

lemma step_notify:
  assumes "notify_ok cb" "call_ok l" "er \<le> len" "pos l0 < len" "e \<noteq> HPE_OK" "e \<noteq> HPE_PAUSED"
    and "\<And>d. step_ok len l0 (k (called d l))"
    and "step_ok len l0 (k l)"
  shows "step_ok len l0 (CALLBACK_NOTIFY cb e er l k)"
proof (cases cb)
  case None
  then show ?thesis using assms(2,8) by (simp add: CALLBACK_NOTIFY_def call_ok_def)
next
  case (Some f)
  then show ?thesis
    using assms(1,2) after_callback_ok [OF assms(2-6), where k = k, OF _ assms(7)]
    by (auto simp: CALLBACK_NOTIFY_def call_ok_def notify_ok_def)
qed

definition unmark :: "mark \<Rightarrow> 'u exec \<Rightarrow> 'u exec" where
  "unmark m l = l\<lparr>marks := (marks l)(m := None)\<rparr>"

lemma unmark_simps [simp]:
  "parser (unmark m l) = parser l" "pos (unmark m l) = pos l" "ch (unmark m l) = ch l"
  "p_state (unmark m l) = p_state l" "lenient (unmark m l) = lenient l"
  "marks (unmark m l) k = (if k = m then None else marks l k)"
  "called d (unmark m l) = unmark m (called d l)"
  by (simp_all add: unmark_def called_def)

lemma unmark_id: "marks l m = None \<Longrightarrow> unmark m l = l"
  by (simp add: unmark_def fun_upd_idem)

lemma step_data:
  assumes "data_ok cb" "call_ok l" "er \<le> length data" "pos l0 < length data" "e \<noteq> HPE_OK"
    "e \<noteq> HPE_PAUSED" "till \<le> length data" "\<And>i. marks l m = Some i \<Longrightarrow> i \<le> till"
    and "\<And>d. step_ok (length data) l0 (k (unmark m (called d l)))"
    and "step_ok (length data) l0 (k (unmark m l))"
  shows "step_ok (length data) l0 (CALLBACK_DATA cb e m till er data l k)"
proof (cases "marks l m")
  case None
  then show ?thesis using assms(2,10) by (simp add: CALLBACK_DATA_def call_ok_def unmark_id)
next
  case mark: (Some i)
  show ?thesis
  proof (cases cb)
    case None
    then show ?thesis using assms(2,10) mark by (simp add: CALLBACK_DATA_def call_ok_def unmark_def)
  next
    case (Some f)
    then show ?thesis
      using assms(1,2,7,8) mark
        after_callback_ok [OF assms(2-6), where k = "\<lambda>l. k (unmark m l)", OF _ assms(9)]
      by (auto simp: CALLBACK_DATA_def call_ok_def data_ok_def unmark_def Let_def)
  qed
qed

section \<open>Every state keeps the invariant\<close>

text \<open>The states that assume nothing of the parser.\<close>

definition plain :: "http_state \<Rightarrow> bool" where
  "plain s \<longleftrightarrow> s \<notin> {s_req_method, s_header_field, s_header_value, s_chunk_size_start,
     s_chunk_size, s_chunk_parameters, s_chunk_size_almost_done, s_chunk_data, s_chunk_data_almost_done,
     s_chunk_data_done, s_body_identity}"

lemma plain_state: "plain s \<Longrightarrow> state_ok s pr" "plain s \<Longrightarrow> s \<noteq> s_chunk_size_start"
  by (cases s; simp add: plain_def state_ok_def)+

lemma plain_url_state: "url_state s \<Longrightarrow> plain s"
  by (auto simp: url_state_def plain_def)

text \<open>Moving to a state without a mark set: \<open>f\<close> is the change of the parser.\<close>

lemma quiet_marks: "base_ok l \<Longrightarrow> owner (p_state l) = None \<Longrightarrow> marks l m = None"
  using marks_none [of "p_state l" l m] by (simp add: base_ok_def)

lemma base_quiet:
  assumes "base_ok l" "owner (p_state l) = None" "state_ok s (f (parser l))"
    and "http_errno (f (parser l)) = http_errno (parser l)" "nread (f (parser l)) \<le> HTTP_MAX_HEADER_SIZE"
  shows "base_ok (UPDATE_STATE s (set_parser f l))"
  using assms quiet_marks [OF assms(1,2)] by (simp add: base_ok_def marks_ok_def)

lemma base_quiet_plain:
  "base_ok l \<Longrightarrow> owner (p_state l) = None \<Longrightarrow> plain s \<Longrightarrow> base_ok (UPDATE_STATE s l)"
  using quiet_marks [of l] plain_state by (simp add: base_ok_def marks_ok_def)

lemma base_errno: "base_ok l \<Longrightarrow> http_errno (parser l) = HPE_OK"
  "base_ok l \<Longrightarrow> nread (parser l) \<le> HTTP_MAX_HEADER_SIZE"
  "base_ok l \<Longrightarrow> state_ok (p_state l) (parser l)"
  by (simp_all add: base_ok_def)

lemma start_simps [simp]:
  "http_errno (new_message pr) = http_errno pr" "nread (new_message pr) = nread pr"
  "hp_type (new_message pr) = hp_type pr" "index (new_message pr) = index pr"
  "meth (new_message pr) = meth pr"
  by (simp_all add: new_message_def)

text \<open>Plain transitions: no callback and no mark.\<close>

lemma to_plain_ok:
  assumes "run_ok len (Switch l)" "owner (p_state l) = None" "plain s"
    and "http_errno (f (parser l)) = http_errno (parser l)" "nread (f (parser l)) = nread (parser l)"
  shows "step_ok len l (break_out (UPDATE_STATE s (set_parser f l)))"
    and "rank s < rank (p_state l) \<Longrightarrow> step_ok len l (Switch (UPDATE_STATE s (set_parser f l)))"
    and "step_ok len l (break_out (UPDATE_STATE s l))"
    and "rank s < rank (p_state l) \<Longrightarrow> step_ok len l (Switch (UPDATE_STATE s l))"
proof -
  have base: "base_ok l" using assms(1) by simp
  have "base_ok (UPDATE_STATE s (set_parser f l))"
    by (rule base_quiet) (use base assms plain_state(1) base_errno(2) [OF base] in simp_all)
  moreover have "base_ok (UPDATE_STATE s l)"
    by (rule base_quiet_plain [OF base assms(2,3)])
  ultimately show "step_ok len l (break_out (UPDATE_STATE s (set_parser f l)))"
    "rank s < rank (p_state l) \<Longrightarrow> step_ok len l (Switch (UPDATE_STATE s (set_parser f l)))"
    "step_ok len l (break_out (UPDATE_STATE s l))"
    "rank s < rank (p_state l) \<Longrightarrow> step_ok len l (Switch (UPDATE_STATE s l))"
    using assms(1,3) plain_state(2) by (auto intro!: step_break step_switch)
qed

lemma stay_ok:
  assumes "run_ok len (Switch l)" "p_state l \<noteq> s_chunk_size_start"
  shows "step_ok len l (break_out l)"
  using assms by (auto intro: step_break)

lemma fail_ok:
  "run_ok len (Switch l) \<Longrightarrow> pos l' = pos l \<Longrightarrow> e \<noteq> HPE_OK \<Longrightarrow> e \<noteq> HPE_PAUSED \<Longrightarrow>
   step_ok len l (fail e l')"
  by (auto intro: step_fail)

lemma expect_ok:
  assumes "run_ok len (Switch l)" "owner (p_state l) = None" "plain s"
  shows "step_ok len l (expect c s l)" "step_ok len l (st_version_char c s l)"
    "step_ok len l (st_lf_expected s l)"
    "step_ok len l (st_version_digit set_http_major s l)"
    "step_ok len l (st_version_digit set_http_minor s l)"
  using assms to_plain_ok [OF assms] fail_ok [OF assms(1)]
  by (auto simp: expect_def st_version_char_def st_lf_expected_def st_version_digit_def
      set_http_major_def set_http_minor_def)

lemma first_states_ok:
  assumes r: "run_ok len (Switch l)"
  shows "p_state l = s_dead \<Longrightarrow> step_ok len l (st_dead l)"
    and "p_state l = s_res_or_resp_H \<Longrightarrow> step_ok len l (st_res_or_resp_H l)"
    and "p_state l = s_res_first_status_code \<Longrightarrow> step_ok len l (st_res_first_status_code l)"
    and "p_state l = s_req_http_start \<Longrightarrow> step_ok len l (st_req_http_start l)"
    and "p_state l = s_req_http_end \<Longrightarrow> step_ok len l (st_req_http_end l)"
proof -
  have o: "owner s = None" if "s \<in> {s_dead, s_res_or_resp_H, s_res_first_status_code, s_req_http_start,
      s_req_http_end}" for s
    using that by (auto simp: owner_def url_state_def)
  note rules = to_plain_ok [OF r] stay_ok [OF r] fail_ok [OF r]
  show "p_state l = s_dead \<Longrightarrow> step_ok len l (st_dead l)"
    by (auto simp: st_dead_def intro!: rules)
  show "p_state l = s_res_or_resp_H \<Longrightarrow> step_ok len l (st_res_or_resp_H l)"
    using r by (auto simp: st_res_or_resp_H_def o plain_def state_ok_def base_errno
        intro!: rules step_break base_quiet)
  show "p_state l = s_res_first_status_code \<Longrightarrow> step_ok len l (st_res_first_status_code l)"
    by (auto simp: st_res_first_status_code_def o plain_def intro!: rules)
  show "p_state l = s_req_http_start \<Longrightarrow> step_ok len l (st_req_http_start l)"
    by (auto simp: st_req_http_start_def o plain_def intro!: rules)
  show "p_state l = s_req_http_end \<Longrightarrow> step_ok len l (st_req_http_end l)"
    by (auto simp: st_req_http_end_def o plain_def intro!: rules)
qed

lemma status_code_ok:
  assumes r: "run_ok len (Switch l)"
  shows "p_state l = s_res_status_code \<Longrightarrow> step_ok len l (st_res_status_code l)"
    and "p_state l = s_res_status_start \<Longrightarrow> step_ok len l (st_res_status_start l)"
proof -
  assume p: "p_state l = s_res_status_code"
  have o: "owner s_res_status_code = None" by (simp add: owner_def url_state_def)
  have "base_ok (set_parser (\<lambda>pr. pr\<lparr>status_code := v pr\<rparr>) l)" for v
    using r p by (simp add: base_ok_def state_ok_def marks_ok_def)
  then show "step_ok len l (st_res_status_code l)"
    using r p by (auto simp: st_res_status_code_def Let_def o plain_def rank_def
        intro!: step_switch fail_ok [OF r] step_break base_quiet_plain)
next
  assume p: "p_state l = s_res_status_start"
  then have "marks l m = None" for m
    using r quiet_marks [of l m] by (simp add: owner_def url_state_def)
  then have "base_ok (set_parser (\<lambda>pr. pr\<lparr>index := 0\<rparr>) (UPDATE_STATE s_res_status (MARK status_mark l)))"
    using r p by (auto simp: base_ok_def state_ok_def marks_ok_def marks_MARK owner_def url_state_def
        split: if_splits)
  then show "step_ok len l (st_res_status_start l)"
    using r p by (auto simp: st_res_status_start_def Let_def rank_def intro!: step_break step_switch)
qed

text \<open>The method machine: the bytes read so far are the prefix of the current method's name.\<close>

lemma next_method_prefix:
  assumes "next_method m i c = Some m'"
  shows "i < length (method_strings m) \<and> i < length (method_strings m') \<and>
    take i (method_strings m') = take i (method_strings m) \<and> byte (method_strings m' ! i) = c"
  using assms unfolding next_method_def
  by (auto simp: eval_nat_numeral split: if_splits)

lemma first_method_prefix: "first_method c = Some m \<Longrightarrow> method_strings m \<noteq> [] \<and> byte (hd (method_strings m)) = c"
  unfolding first_method_def by (auto split: if_splits)

lemma unat_plus_one_7: "unat (i :: 7 word) < 127 \<Longrightarrow> unat (i + 1) = unat i + 1"
  using unat_add_lem [of i 1] by simp

lemma method_length: "length (method_strings m) < 127"
  by (cases m) simp_all

lemma req_method_ok:
  assumes r: "run_ok len (Switch l)" and p: "p_state l = s_req_method"
  shows "step_ok len l (st_req_method l)"
proof -
  let ?pr = "parser l" and ?i = "unat (index (parser l))"
  have i: "?i \<le> length (method_strings (meth ?pr))"
    using r p by (simp add: base_ok_def state_ok_def)
  then have small: "?i < 127" using method_length [of "meth ?pr"] by simp
  have quiet: "marks l m = None" for m
    using r p quiet_marks [of l m] by (simp add: owner_def url_state_def)
  have stay: "step_ok len l (break_out (set_parser (\<lambda>pr. pr\<lparr>index := index pr + 1\<rparr>) (set_parser f l)))"
    if "?i < length (method_strings (meth (f ?pr)))" "index (f ?pr) = index ?pr"
      "http_errno (f ?pr) = http_errno ?pr" "nread (f ?pr) = nread ?pr" for f
    using that r p quiet unat_plus_one_7 [OF small]
    by (auto simp: base_ok_def state_ok_def marks_ok_def intro!: step_break)
  have same: "step_ok len l (break_out (set_parser (\<lambda>pr. pr\<lparr>index := index pr + 1\<rparr>) l))"
    if "?i < length (method_strings (meth ?pr))"
    using stay [of "\<lambda>pr. pr"] that by (simp add: set_parser_def)
  have leave: "step_ok len l (break_out (set_parser (\<lambda>pr. pr\<lparr>index := index pr + 1\<rparr>)
      (UPDATE_STATE s_req_spaces_before_url l)))"
    using r p quiet by (auto simp: base_ok_def state_ok_def marks_ok_def intro!: step_break)
  have read: "?i < length (method_strings (meth ?pr))" if "cstr (method_strings (meth ?pr)) ?i = Some c" "c \<noteq> 0" for c
    using that by (auto simp: cstr_def split: if_splits)
  obtain c where c: "cstr (method_strings (meth ?pr)) ?i = Some c"
    using cstr_in_range [OF i] by blast
  have other: "step_ok len l (break_out (set_parser (\<lambda>pr. pr\<lparr>index := index pr + 1\<rparr>)
      (set_parser (\<lambda>pr. pr\<lparr>meth := m\<rparr>) l)))" if "next_method (meth ?pr) ?i (ch l) = Some m" for m
    using stay [of "\<lambda>pr. pr\<lparr>meth := m\<rparr>"] next_method_prefix [OF that] by simp
  show ?thesis
    unfolding st_req_method_def Let_def c
    using leave same read [OF c] other fail_ok [OF r, of l HPE_INVALID_METHOD]
    by (auto split: option.split)
qed

text \<open>URL states.\<close>

lemma parse_url_char_range:
  "parse_url_char s c = s_dead \<or> url_state (parse_url_char s c)"
  by (cases s) (auto simp: parse_url_char_def parse_url_server_def parse_url_query_def url_state_def)

lemma owner_url: "url_state s \<Longrightarrow> owner s = Some url_mark"
  by (auto simp: owner_def url_state_def)

lemma url_step_ok:
  assumes "run_ok len (Switch l0)" "pos l = pos l0" "http_errno (parser l) = HPE_OK"
    "nread (parser l) \<le> HTTP_MAX_HEADER_SIZE"
    "\<And>m i. marks l m = Some i \<Longrightarrow> m = url_mark \<and> i \<le> pos l"
  shows "step_ok len l0 (url_step l)"
proof -
  let ?s = "parse_url_char (p_state l) (ch l)"
  have "base_ok (UPDATE_STATE ?s l)" if "?s \<noteq> s_dead"
  proof -
    have "url_state ?s" using that parse_url_char_range by blast
    then show ?thesis
      using assms(3-5) plain_state(1) [OF plain_url_state] owner_url by (auto simp: base_ok_def marks_ok_def)
  qed
  moreover have "?s \<noteq> s_chunk_size_start"
    using parse_url_char_range [of "p_state l" "ch l"] plain_state(2) plain_url_state by auto
  ultimately show ?thesis
    using assms(1,2) by (auto simp: url_step_def Let_def intro!: step_break fail_ok [OF assms(1)])
qed

lemma url_mark_only:
  assumes "base_ok l" "url_state (p_state l)" "marks l m = Some i"
  shows "m = url_mark \<and> i \<le> pos l"
  using assms by (auto simp: base_ok_def marks_ok_def owner_url)

lemma spaces_before_url_ok:
  assumes r: "run_ok len (Switch l)" and p: "p_state l = s_req_spaces_before_url"
  shows "step_ok len l (st_req_spaces_before_url l)"
proof -
  have quiet: "marks l m = None" for m
    using r p quiet_marks [of l m] by (simp add: owner_def url_state_def)
  show ?thesis
    using r p quiet unfolding st_req_spaces_before_url_def Let_def
    by (auto simp: marks_MARK base_errno split: if_splits intro!: stay_ok [OF r] url_step_ok)
qed

lemma schema_ok:
  assumes r: "run_ok len (Switch l)" and p: "url_state (p_state l)"
  shows "step_ok len l (st_req_schema l)"
  using r url_mark_only [OF _ p] base_errno(1,2) [of l] unfolding st_req_schema_def
  by (auto intro!: fail_ok [OF r] url_step_ok)

lemma value_start_ok:
  assumes r: "run_ok len (Switch l)" and p: "owner (p_state l) = None"
  shows "step_ok len l (st_header_value_start l)"
proof -
  let ?l = "set_parser (\<lambda>pr. pr\<lparr>index := 0\<rparr>) (UPDATE_STATE s_header_value (MARK header_value_mark l))"
  have quiet: "marks l m = None" for m
    using r p quiet_marks [of l m] by simp
  have ok: "step_ok len l (break_out (set_parser f ?l))"
    if "header_state (f (parser ?l)) \<noteq> h_connection" "header_state (f (parser ?l)) \<noteq> h_transfer_encoding"
      "http_errno (f (parser ?l)) = http_errno (parser l)" "nread (f (parser ?l)) = nread (parser l)" for f
    using r that quiet
    by (auto simp: base_ok_def state_ok_def marks_ok_def marks_MARK owner_def split: if_splits
        intro!: step_break)
  have keep: "step_ok len l (break_out ?l)"
    if "header_state (parser l) \<noteq> h_connection" "header_state (parser l) \<noteq> h_transfer_encoding"
    using ok [of "\<lambda>pr. pr"] that by (simp add: set_parser_def)
  have bad: "step_ok len l (fail e ?l)" if "e \<noteq> HPE_OK" "e \<noteq> HPE_PAUSED" for e
    using that by (intro fail_ok [OF r]) simp_all
  show ?thesis
    unfolding st_header_value_start_def Let_def
    by (cases "header_state (parser l)") (auto intro!: ok keep bad)
qed

lemma discard_ws_ok:
  assumes r: "run_ok len (Switch l)" and p: "p_state l = s_header_value_discard_ws"
  shows "step_ok len l (st_header_value_discard_ws l)"
proof -
  have o: "owner s_header_value_discard_ws = None" by (simp add: owner_def url_state_def)
  show ?thesis
    using r p unfolding st_header_value_discard_ws_def
    by (auto simp: o plain_def intro!: stay_ok [OF r] to_plain_ok(3) [OF r] value_start_ok)
qed

lemma finish_header_simps [simp]:
  "http_errno (finish_header pr) = http_errno pr" "nread (finish_header pr) = nread pr"
  by (simp_all add: finish_header_def split: header_states.split)

lemma value_lws_ok:
  assumes r: "run_ok len (Switch l)" and p: "p_state l = s_header_value_lws"
  shows "step_ok len l (st_header_value_lws l)"
proof -
  have o: "owner (p_state l) = None" by (simp add: p owner_def url_state_def)
  have "rank s_header_value_start < rank (p_state l)" "rank s_header_field_start < rank (p_state l)"
    by (simp_all add: p rank_def)
  then show ?thesis
    unfolding st_header_value_lws_def
    by (auto simp: plain_def intro!: to_plain_ok(2,4) [OF r o])
qed

lemma field_start_ok:
  assumes r: "run_ok len (Switch l)" and p: "p_state l = s_header_field_start"
  shows "step_ok len l (st_header_field_start l)"
proof -
  have o: "owner (p_state l) = None" by (simp add: p owner_def url_state_def)
  have quiet: "marks l m = None" for m
    using r o quiet_marks [of l m] by simp
  have go: "step_ok len l (break_out (set_parser (\<lambda>pr. pr\<lparr>index := 0, header_state := h\<rparr>)
      (UPDATE_STATE s_header_field (MARK header_field_mark l))))" if "h \<in> field_states" for h
    using r that quiet
    by (auto simp: base_ok_def state_ok_def marks_ok_def marks_MARK owner_def split: if_splits
        intro!: step_break)
  have "rank s_headers_almost_done < rank (p_state l)" by (simp add: p rank_def)
  then show ?thesis
    unfolding st_header_field_start_def Let_def
    by (auto simp: plain_def field_states_def intro!: to_plain_ok(3,4) [OF r o] fail_ok [OF r] go)
qed

section \<open>Scanning a header name and value\<close>

lemma match_at_range: "match_at name hit miss h i c \<in> {hit, miss, h}"
  by (auto simp: match_at_def)

text \<open>Only the matcher fields of the parser differ.\<close>

definition retagged :: "'u http_parser \<Rightarrow> 'u http_parser \<Rightarrow> bool" where
  "retagged pr pr' \<longleftrightarrow> pr' = pr\<lparr>index := index pr', header_state := header_state pr'\<rparr>"

lemma retagged_simps [simp]:
  "retagged pr pr" "retagged pr (pr\<lparr>header_state := h\<rparr>)" "retagged pr (pr\<lparr>index := i\<rparr>)"
  "retagged pr (pr\<lparr>index := i, header_state := h\<rparr>)"
  by (simp_all add: retagged_def)

lemma retagged_trans: "retagged a b \<Longrightarrow> retagged b c \<Longrightarrow> retagged a c"
  by (auto simp: retagged_def) (metis http_parser.surjective http_parser.update_convs(4,5))

lemma retagged_fields:
  assumes "retagged pr pr'"
  shows "http_errno pr' = http_errno pr" "nread pr' = nread pr" "content_length pr' = content_length pr"
    "flags pr' = flags pr" "user_data pr' = user_data pr" "meth pr' = meth pr" "state pr' = state pr"
  by (subst assms [unfolded retagged_def]; simp)+

lemma match_name_ok:
  assumes "hit \<in> field_states" "header_state pr \<in> field_states"
  shows "retagged pr (match_name name hit c pr) \<and> header_state (match_name name hit c pr) \<in> field_states"
  using match_at_range [of name hit h_general "header_state pr" "unat (index pr + 1)" c] assms
  by (auto simp: match_name_def Let_def field_states_def)

lemma field_char_ok:
  assumes "header_state pr \<in> field_states"
  shows "\<exists>pr'. field_char b c pr = Some pr' \<and> retagged pr pr' \<and> header_state pr' \<in> field_states"
proof -
  have "h_connection \<in> field_states" "h_content_length \<in> field_states" "h_transfer_encoding \<in> field_states"
    "h_upgrade \<in> field_states" by (simp_all add: field_states_def)
  note m = this [THEN match_name_ok, OF assms]
  show ?thesis
  proof (cases "header_state pr \<in> {h_matching_connection, h_matching_proxy_connection,
      h_matching_content_length, h_matching_transfer_encoding, h_matching_upgrade}")
    case True
    then show ?thesis using m by (auto simp: field_char_def)
  next
    case False
    then show ?thesis
      using assms by (auto simp: field_char_def field_states_def)
  qed
qed

lemma field_scan_ok:
  assumes "header_state pr \<in> field_states"
  shows "\<exists>q b' pr'. field_scan bs p b pr = Some (q, b', pr') \<and> retagged pr pr' \<and>
    header_state pr' \<in> field_states \<and> p \<le> q \<and> q \<le> p + length bs \<and>
    (q < p + length bs \<longrightarrow> b' = bs ! (q - p) \<and> TOKEN b' = 0)"
  using assms
proof (induction bs arbitrary: p b pr)
  case Nil
  then show ?case by simp
next
  case (Cons x xs)
  obtain pr1 where pr1: "field_char x (TOKEN x) pr = Some pr1" "retagged pr pr1"
    "header_state pr1 \<in> field_states"
    using field_char_ok [OF Cons.prems] by blast
  obtain q b' pr' where ih: "field_scan xs (p + 1) x pr1 = Some (q, b', pr')" "retagged pr1 pr'"
    "header_state pr' \<in> field_states" "p + 1 \<le> q" "q \<le> p + 1 + length xs"
    "q < p + 1 + length xs \<longrightarrow> b' = xs ! (q - (p + 1)) \<and> TOKEN b' = 0"
    using Cons.IH [OF pr1(3), of "p + 1" x] by blast
  have idx: "q - p = Suc (q - (p + 1))" using ih(4) by simp
  show ?case
  proof (cases "TOKEN x = 0")
    case True
    then show ?thesis using Cons.prems by simp
  next
    case False
    then show ?thesis
      using pr1 ih retagged_trans [OF pr1(2) ih(2)] idx by auto
  qed
qed

text \<open>
  Scanning a value changes the matcher fields, the flags and the content length; it ends inside the
  data with a state in which \<open>s_header_value\<close> may go on.
\<close>

definition value_like :: "'u http_parser \<Rightarrow> 'u http_parser \<Rightarrow> bool" where
  "value_like pr pr' \<longleftrightarrow> http_errno pr' = http_errno pr \<and> nread pr' = nread pr"

definition resumable :: "header_states \<Rightarrow> bool" where
  "resumable h \<longleftrightarrow> h \<noteq> h_connection \<and> h \<noteq> h_transfer_encoding"

lemma value_like_simps [simp]:
  "value_like pr pr" "value_like pr (pr\<lparr>index := i\<rparr>)" "value_like pr (pr\<lparr>content_length := n\<rparr>)"
  "value_like pr (pr\<lparr>header_state := h\<rparr>)" "value_like pr ((connection_flag g pr)\<lparr>index := i\<rparr>)"
  by (simp_all add: value_like_def connection_flag_def)

lemma value_like_trans: "value_like a b \<Longrightarrow> value_like b c \<Longrightarrow> value_like a c"
  by (simp add: value_like_def)

lemma match_value_ok:
  assumes "resumable hit" "resumable miss" "resumable h"
  shows "\<exists>h' i. match_value name hit miss p h c pr = VNext p h' (pr\<lparr>index := i\<rparr>) \<and> resumable h'"
  using match_at_range [of name hit miss h "unat (index pr + 1)" c] assms
  by (auto simp: match_value_def Let_def)

text \<open>One byte of a value: no fault, and an error is one of a header or length error.\<close>

definition value_out_ok :: "'u http_parser \<Rightarrow> 'u value_out \<Rightarrow> bool" where
  "value_out_ok pr out \<longleftrightarrow>
     (case out of
        VNext q h pr' \<Rightarrow> resumable h \<and> value_like pr pr'
      | VError e pr' \<Rightarrow> e = HPE_INVALID_CONTENT_LENGTH \<and> value_like pr pr'
      | VFault \<Rightarrow> False)"

lemma value_out_ok_simps [simp]:
  "value_out_ok pr (VNext q h pr') \<longleftrightarrow> resumable h \<and> value_like pr pr'"
  "value_out_ok pr (VError e pr') \<longleftrightarrow> e = HPE_INVALID_CONTENT_LENGTH \<and> value_like pr pr'"
  "\<not> value_out_ok pr VFault"
  by (simp_all add: value_out_ok_def)

lemma content_length_digit_ok: "value_out_ok pr (content_length_digit p b pr)"
  by (simp add: value_out_ok_def content_length_digit_def Let_def resumable_def)

lemma connection_value_end_ok: "resumable h \<Longrightarrow> value_out_ok pr (connection_value_end p h b pr)"
  by (simp add: value_out_ok_def connection_value_end_def resumable_def)

lemma value_char_ok:
  assumes "resumable h"
  shows "value_out_ok pr (value_char data p b h pr)"
proof -
  have m: "value_out_ok pr (match_value name hit miss p h c pr)" if "resumable hit" "resumable miss"
    for name hit miss c
    using match_value_ok [OF that assms, of name p c pr] by (auto simp: value_out_ok_def)
  show ?thesis
    using assms m connection_value_end_ok [OF assms, of pr p b]
    by (cases h) (simp_all add: content_length_digit_ok value_char_def Let_def resumable_def connection_token_start_def)
qed

definition value_stop_ok :: "nat \<Rightarrow> nat \<Rightarrow> 'u http_parser \<Rightarrow> 'u value_stop \<Rightarrow> bool" where
  "value_stop_ok len p pr stop \<longleftrightarrow>
     (case stop of
        VEnd q b h pr' \<Rightarrow> q = len \<and> resumable h \<and> value_like pr pr'
      | VCr q h pr' \<Rightarrow> p \<le> q \<and> q < len \<and> resumable h \<and> value_like pr pr'
      | VLf q h pr' \<Rightarrow> p \<le> q \<and> q < len \<and> resumable h \<and> value_like pr pr'
      | VBad e q b pr' \<Rightarrow> q < len \<and> (e = HPE_INVALID_HEADER_TOKEN \<or> e = HPE_INVALID_CONTENT_LENGTH)
      | VCrash \<Rightarrow> False)"

lemma value_scan_ok:
  assumes "resumable h" "p \<le> length data"
  shows "value_stop_ok (length data) p pr (value_scan len data p b h pr)"
  using assms
proof (induction len data p b h pr rule: value_scan.induct)
  case (1 len data p b h pr)
  let ?b = "data ! p"
  consider "\<not> p < length data" | "p < length data" "?b = CR" | "p < length data" "?b = LF"
    | "p < length data" "?b \<noteq> CR" "?b \<noteq> LF" "\<not> len \<and> \<not> IS_HEADER_CHAR ?b"
    | "p < length data" "?b \<noteq> CR" "?b \<noteq> LF" "\<not> (\<not> len \<and> \<not> IS_HEADER_CHAR ?b)"
    by blast
  then show ?case
  proof cases
    case 5
    show ?thesis
    proof (cases "value_char data p ?b h pr")
      case (VNext q h' pr')
      have ok: "resumable h'" "value_like pr pr'" "p \<le> q" "q < length data"
        using value_char_ok [OF 1(2), of pr data p ?b] value_char_next [OF VNext 5(1-3)] VNext
        by (simp_all add: value_out_ok_def)
      have "value_stop_ok (length data) (q + 1) pr' (value_scan len data (q + 1) ?b h' pr')"
        by (rule 1(1) [OF _ refl _ _ _ VNext]) (use 5 ok in auto)
      then show ?thesis
        using 5 VNext ok(2,3) value_like_trans
        by (subst value_scan.simps) (auto simp: value_stop_ok_def Let_def split: value_stop.splits)
    qed (use 5 value_char_ok [OF 1(2), of pr data p ?b] in
        \<open>subst value_scan.simps, simp add: value_stop_ok_def value_out_ok_def Let_def\<close>)+
  qed (subst value_scan.simps, use 1(2,3) in \<open>simp add: value_stop_ok_def\<close>)+
qed

section \<open>States with callbacks\<close>

lemma call_quiet:
  "base_ok l \<Longrightarrow> plain s \<Longrightarrow> http_errno (f (parser l)) = http_errno (parser l) \<Longrightarrow>
   nread (f (parser l)) \<le> HTTP_MAX_HEADER_SIZE \<Longrightarrow> call_ok (UPDATE_STATE s (set_parser f l))"
  "base_ok l \<Longrightarrow> plain s \<Longrightarrow> call_ok (UPDATE_STATE s l)"
  by (simp_all add: call_ok_def plain_state base_ok_def)

lemma call_base: "call_ok l \<Longrightarrow> marks_ok (p_state l) l \<Longrightarrow> base_ok l \<and> base_ok (called d l)"
  by (simp add: call_ok_def base_ok_def marks_ok_def)

lemma marks_ok_none: "(\<And>m. marks l m = None) \<Longrightarrow> marks_ok s l"
  by (simp add: marks_ok_def)

text \<open>A notification from a state without a mark, then \<open>break\<close>.\<close>

lemma notify_break_ok:
  assumes r: "run_ok len (Switch l0)" and cb: "notify_ok cb" and c: "call_ok l"
    and "pos l = pos l0" "er \<le> len" "e \<noteq> HPE_OK" "e \<noteq> HPE_PAUSED" "\<And>m. marks l m = None"
  shows "step_ok len l0 (CALLBACK_NOTIFY cb e er l break_out)"
proof -
  have base: "base_ok l" "base_ok (called d l)" for d
    using call_base [OF c marks_ok_none] assms(8) by auto
  show ?thesis
    by (rule step_notify [OF cb c]) (use assms base c in \<open>auto simp: call_ok_def intro!: step_break\<close>)
qed

text \<open>A data callback for the only mark that may be set.\<close>

definition only_mark :: "mark \<Rightarrow> nat \<Rightarrow> 'u exec \<Rightarrow> bool" where
  "only_mark m n l \<longleftrightarrow> (\<forall>k i. marks l k = Some i \<longrightarrow> k = m \<and> i \<le> n)"

lemma only_mark_owner:
  "base_ok l0 \<Longrightarrow> owner (p_state l0) = Some m \<Longrightarrow> marks l = marks l0 \<Longrightarrow> pos l0 \<le> n \<Longrightarrow> only_mark m n l"
  unfolding only_mark_def base_ok_def marks_ok_def by fastforce

lemma only_mark_MARK:
  "(\<And>k. marks l k = None) \<Longrightarrow> pos l \<le> n \<Longrightarrow> only_mark m n (MARK m l)"
  by (auto simp: only_mark_def marks_MARK split: if_splits)

lemma unmark_none: "only_mark m n l \<Longrightarrow> marks (unmark m l) k = None"
  by (cases "marks l k") (auto simp: only_mark_def)

lemma data_call:
  assumes cb: "data_ok cb" and c: "call_ok l" and only: "only_mark m till l"
    and bounds: "er \<le> length data" "pos l0 < length data" and e: "e \<noteq> HPE_OK" "e \<noteq> HPE_PAUSED"
    and till: "till \<le> length data"
    and k: "\<And>l'. base_ok l' \<Longrightarrow> pos l' = pos l \<Longrightarrow> p_state l' = p_state l \<Longrightarrow>
      nread (parser l') = nread (parser l) \<Longrightarrow> (\<And>n. marks l' n = None) \<Longrightarrow>
      step_ok (length data) l0 (k l')"
  shows "step_ok (length data) l0 (CALLBACK_DATA cb e m till er data l k)"
proof -
  have none: "marks (unmark m l') n = None" if "marks l' = marks l" for l' n
    using unmark_none [of m till l' n] only that by (simp add: only_mark_def)
  have base: "base_ok (unmark m l)" "base_ok (unmark m (called d l))" for d
    using c none [OF refl] none [of "called d l" for d, OF called_simps(4)]
    unfolding call_ok_def base_ok_def by (simp_all add: marks_ok_none)
  have "step_ok (length data) l0 (k (unmark m l))" "step_ok (length data) l0 (k (unmark m (called d l)))" for d
    by (rule k; use base none [OF refl] none [of "called d l" for d, OF called_simps(4)] in simp)+
  moreover have "i \<le> till" if "marks l m = Some i" for i
    using only that by (simp add: only_mark_def)
  ultimately show ?thesis
    by (intro step_data [OF cb c bounds e till])
qed

lemma data_break:
  assumes cb: "data_ok cb" and c: "call_ok l" and only: "only_mark m till l"
    and "er \<le> length data" "pos l0 < length data" "e \<noteq> HPE_OK" "e \<noteq> HPE_PAUSED" "till \<le> length data"
    and p: "pos l0 \<le> pos l" "pos l < length data"
  shows "step_ok (length data) l0 (CALLBACK_DATA cb e m till er data l break_out)"
  by (rule data_call [OF assms(1-8)]) (use c p in \<open>auto simp: call_ok_def intro!: step_break\<close>)

lemma data_switch:
  assumes cb: "data_ok cb" and c: "call_ok l" and only: "only_mark m till l"
    and "er \<le> length data" "pos l0 < length data" "e \<noteq> HPE_OK" "e \<noteq> HPE_PAUSED" "till \<le> length data"
    and p: "pos l0 \<le> pos l" "pos l < length data"
    and rank: "p_state l \<noteq> s_chunk_size_start" "rank (p_state l) < rank (p_state l0)"
  shows "step_ok (length data) l0 (CALLBACK_DATA cb e m till er data l Switch)"
  by (rule data_call [OF assms(1-8)]) (use p rank in \<open>auto intro!: step_switch\<close>)

end
