(* ===== verification/Http_Safety.thy ===== *)
theory Http_Safety
  imports Http_Invariant
begin

text \<open>
  \<open>http_parser_execute\<close> is safe and total for every client that keeps the callback interface: every
  state of the machine keeps the invariant of \<open>Http_Invariant\<close>, so the loop never faults and returns.
\<close>

section \<open>Taking a piece of the body\<close>

lemma to_read_range:
  assumes "proper_length (content_length (parser l))" "pos l < length data" "length data < 2 ^ 64"
  shows "0 < unat (to_read data l)" "unat (to_read data l) \<le> length data - pos l"
    "to_read data l \<le> content_length (parser l)"
proof -
  let ?c = "content_length (parser l)" and ?n = "of_nat (length data - pos l) :: u64"
  have n: "unat ?n = length data - pos l" using assms(3) by (simp add: unat_of_nat)
  have c: "0 < unat ?c" using assms(1) by (simp add: proper_length_def unat_gt_0)
  have "unat (to_read data l) = min (unat ?c) (length data - pos l)"
    by (simp add: to_read_def min_def word_le_nat_alt n)
  then show "0 < unat (to_read data l)" "unat (to_read data l) \<le> length data - pos l"
    using c assms(2) by simp_all
  show "to_read data l \<le> ?c" by (simp add: to_read_def)
qed

lemma minus_proper:
  assumes "proper_length c" "n \<le> c" "c - n \<noteq> 0"
  shows "proper_length (c - n)"
proof -
  have "c < ULLONG_MAX" using assms(1) by (simp add: proper_length_def ULLONG_MAX_def word_order.not_eq_extremum)
  moreover have "c - n \<le> c" using assms(2) by (rule word_sub_le)
  ultimately show ?thesis using assms(3) by (auto simp: proper_length_def)
qed

lemma take_body_ok:
  assumes l: "base_ok l" "pos l < length data" "length data < 2 ^ 64"
    and c: "proper_length (content_length (parser l))" and o: "owner (p_state l) = Some body_mark"
  shows "pos l \<le> pos (take_body data l)" "pos (take_body data l) < length data"
    "content_length (parser (take_body data l)) \<noteq> 0 \<Longrightarrow>
       proper_length (content_length (parser (take_body data l)))"
    "only_mark body_mark (pos (take_body data l)) (take_body data l)"
    "p_state (take_body data l) = p_state l" "http_errno (parser (take_body data l)) = HPE_OK"
    "nread (parser (take_body data l)) = nread (parser l)" "flags (parser (take_body data l)) = flags (parser l)"
proof -
  note n = to_read_range [OF c l(2,3)]
  have pos: "pos (take_body data l) = pos l + unat (to_read data l) - 1" by (simp add: take_body_def Let_def)
  show le: "pos l \<le> pos (take_body data l)" and "pos (take_body data l) < length data"
    using n(1,2) l(2) by (simp_all add: pos)
  show "proper_length (content_length (parser (take_body data l)))"
    if "content_length (parser (take_body data l)) \<noteq> 0"
    using that minus_proper [OF c n(3)] by (simp add: take_body_def Let_def)
  have m: "marks (take_body data l) = marks (MARK body_mark l)" by (simp add: take_body_def Let_def)
  have old: "k = body_mark \<and> i \<le> pos (take_body data l)" if "marks l k = Some i" for k i
  proof -
    have "k = body_mark \<and> i \<le> pos l" using l(1) o that by (auto simp: base_ok_def marks_ok_def)
    then show ?thesis using le by simp
  qed
  show "only_mark body_mark (pos (take_body data l)) (take_body data l)"
    unfolding only_mark_def
  proof (intro allI impI)
    fix k i assume "marks (take_body data l) k = Some i"
    then show "k = body_mark \<and> i \<le> pos (take_body data l)"
      using old [of k i] old [of body_mark i] le
      by (simp add: m marks_MARK split: if_splits option.splits)
  qed
  show "p_state (take_body data l) = p_state l" "http_errno (parser (take_body data l)) = HPE_OK"
    "nread (parser (take_body data l)) = nread (parser l)" "flags (parser (take_body data l)) = flags (parser l)"
    using base_errno(1) [OF l(1)] by (simp_all add: take_body_def Let_def)
qed

lemma only_mark_ok: "only_mark m (pos l) l \<Longrightarrow> owner s = Some m \<Longrightarrow> marks_ok s l"
  by (auto simp: only_mark_def marks_ok_def)

lemma only_mark_le: "only_mark m n l \<Longrightarrow> n \<le> k \<Longrightarrow> only_mark m k l"
  by (fastforce simp: only_mark_def)

lemma unhex_range: "- 1 \<le> unhex_of c" "unhex_of c \<le> 15"
proof -
  have "\<forall>v \<in> set unhex. - 1 \<le> v \<and> v \<le> 15" "length unhex = 256" by (simp_all add: unhex_def)
  moreover have "unat c < 256" using unsigned_less [of c, where 'a = nat] by simp
  ultimately have "- 1 \<le> unhex_of c \<and> unhex_of c \<le> 15" unfolding unhex_of_def by (metis nth_mem)
  then show "- 1 \<le> unhex_of c" "unhex_of c \<le> 15" by simp_all
qed

lemma flag_frame [simp]:
  "flag g (pr\<lparr>content_length := n\<rparr>) = flag g pr" "flag g (pr\<lparr>nread := m\<rparr>) = flag g pr"
  by (simp_all add: flag_def)

text \<open>The size of a chunk stays below \<open>ULLONG_MAX\<close>: the guard of \<open>s_chunk_size\<close> leaves room for a digit.\<close>

lemma chunk_digit_first: "unhex_of c \<noteq> - 1 \<Longrightarrow> (word_of_int (unhex_of c) :: u64) \<noteq> ULLONG_MAX"
proof -
  assume "unhex_of c \<noteq> - 1"
  then have "0 \<le> unhex_of c" "unhex_of c \<le> 15" using unhex_range [of c] by simp_all
  then have "uint (word_of_int (unhex_of c) :: u64) \<le> 15"
    by (simp add: uint_word_of_int_eq take_bit_int_eq_self)
  then show ?thesis by (auto simp: ULLONG_MAX_def unsigned_minus_1_eq_mask mask_eq_exp_minus_1)
qed

lemma chunk_digit_next:
  assumes "unhex_of c \<noteq> - 1" "\<not> (ULLONG_MAX - 16) div 16 < n"
  shows "n * 16 + word_of_int (unhex_of c) \<noteq> ULLONG_MAX"
proof -
  have v: "0 \<le> unhex_of c" "unhex_of c \<le> 15" using assms(1) unhex_range [of c] by simp_all
  have "uint n \<le> 1152921504606846974"
    using assms(2) by (simp add: ULLONG_MAX_def word_le_def not_less)
  then have n: "uint n * 16 + unhex_of c < 2 ^ 64 - 1" using v by simp
  have "uint (n * 16 + word_of_int (unhex_of c)) = uint n * 16 + unhex_of c"
    using n v unsigned_greater_eq [of n]
    by (simp add: uint_word_ariths uint_word_of_int_eq take_bit_int_eq_self)
  then show ?thesis using n by (auto simp: ULLONG_MAX_def unsigned_minus_1_eq_mask mask_eq_exp_minus_1)
qed

lemma chunk_states_ok:
  assumes r: "run_ok len (Switch l)"
  shows "p_state l = s_chunk_size_start \<Longrightarrow> step_ok len l (st_chunk_size_start l)"
    and "p_state l = s_chunk_size \<Longrightarrow> step_ok len l (st_chunk_size l)"
    and "p_state l = s_chunk_parameters \<Longrightarrow> step_ok len l (st_chunk_parameters l)"
proof -
  have base: "base_ok l" and pos: "pos l < len" using r by simp_all
  have o: "owner s = None" if "s \<in> {s_chunk_size_start, s_chunk_size, s_chunk_parameters}" for s
    using that by (auto simp: owner_def url_state_def)
  have go: "step_ok len l (break_out (UPDATE_STATE s (set_parser (\<lambda>pr. pr\<lparr>content_length := n\<rparr>) l)))"
    if "state_ok s ((parser l)\<lparr>content_length := n\<rparr>)" "owner (p_state l) = None" "s \<noteq> s_chunk_size_start" for s n
    by (rule step_break [OF base_quiet [OF base that(2)]]) (use that pos base_errno(2) [OF base] in simp_all)
  have stay: "UPDATE_STATE (p_state l) (set_parser f l) = set_parser f l" for f
    by (simp add: UPDATE_STATE_def set_parser_def)
  have move: "step_ok len l (break_out (UPDATE_STATE s l))"
    if "state_ok s (parser l)" "owner (p_state l) = None" "s \<noteq> s_chunk_size_start" for s
    using go [of s "content_length (parser l)"] that by (simp add: set_parser_def)
  have st: "state_ok (p_state l) (parser l)" by (rule base_errno(3) [OF base])
  show "step_ok len l (st_chunk_size_start l)" if p: "p_state l = s_chunk_size_start"
    using r st p unfolding st_chunk_size_start_def Let_def
    by (auto simp: state_ok_def chunk_digit_first o intro!: go fail_ok [OF r])
  show "step_ok len l (st_chunk_size l)" if p: "p_state l = s_chunk_size"
  proof -
    have "step_ok len l (break_out (set_parser (\<lambda>pr. pr\<lparr>content_length := n\<rparr>) l))" if "n \<noteq> ULLONG_MAX" for n
      using go [of s_chunk_size n] stay [unfolded p] st p that o by (simp add: state_ok_def)
    then show ?thesis
      using st p unfolding st_chunk_size_def Let_def
      by (auto simp: state_ok_def chunk_digit_next o intro!: move fail_ok [OF r])
  qed
  show "step_ok len l (st_chunk_parameters l)" if p: "p_state l = s_chunk_parameters"
    using st p unfolding st_chunk_parameters_def
    by (auto simp: state_ok_def o intro!: move stay_ok [OF r])
qed

lemma chunk_data_ok:
  assumes r: "run_ok (length data) (Switch l)" and p: "p_state l = s_chunk_data" and len: "length data < 2 ^ 64"
  shows "step_ok (length data) l (st_chunk_data data l)"
proof -
  have base: "base_ok l" and pos: "pos l < length data" using r by simp_all
  have st: "flag F_CHUNKED (parser l)" "proper_length (content_length (parser l))"
    using base_errno(3) [OF base] p by (simp_all add: state_ok_def)
  have o: "owner s_chunk_data = Some body_mark" "owner s_chunk_data_almost_done = Some body_mark"
    by (simp_all add: owner_def url_state_def)
  note b = take_body_ok [OF base pos len st(2)]
  let ?l = "take_body data l"
  have up: "base_ok (UPDATE_STATE s ?l)" if "s \<in> {s_chunk_data, s_chunk_data_almost_done}"
    "state_ok s (parser ?l)" for s
    using that b p o base_errno(2) [OF base] only_mark_ok [of body_mark ?l s]
    by (auto simp: base_ok_def marks_ok_def)
  have "flag F_CHUNKED (parser ?l)" using st(1) b(8) p o by (simp add: flag_def)
  moreover have "UPDATE_STATE s_chunk_data ?l = ?l" using b(5) p o by (simp add: UPDATE_STATE_def)
  ultimately have "base_ok (if content_length (parser ?l) = 0 then UPDATE_STATE s_chunk_data_almost_done ?l else ?l)"
    using b(3) p o up [of s_chunk_data] up [of s_chunk_data_almost_done] by (simp add: state_ok_def)
  then have "step_ok (length data) l
      (break_out (if content_length (parser ?l) = 0 then UPDATE_STATE s_chunk_data_almost_done ?l else ?l))"
    by (rule step_break) (use b p o in \<open>auto split: if_splits\<close>)
  then show ?thesis using st by (simp add: st_chunk_data_def proper_length_def Let_def)
qed

lemma body_identity_eof_ok:
  assumes r: "run_ok (length data) (Switch l)" and p: "p_state l = s_body_identity_eof"
  shows "step_ok (length data) l (st_body_identity_eof data l)"
proof -
  have base: "base_ok l" and pos: "pos l < length data" using r by simp_all
  have "marks_ok s_body_identity_eof ((MARK body_mark l)\<lparr>pos := length data - 1\<rparr>)"
    using base p pos by (fastforce simp: base_ok_def marks_ok_def marks_MARK owner_def url_state_def
        split: if_splits option.splits)
  then have "base_ok ((MARK body_mark l)\<lparr>pos := length data - 1\<rparr>)"
    using base p by (simp add: base_ok_def state_ok_def)
  then show ?thesis
    unfolding st_body_identity_eof_def by (rule step_break) (use p pos in simp_all)
qed

lemma CALLBACK_DATA_stops:
  "(\<And>l. \<not> running (k l)) \<Longrightarrow> \<not> running (CALLBACK_DATA cb e m till er data l k)"
  by (simp add: CALLBACK_DATA_def after_callback_def Let_def split: option.split)

lemma leftover_stops: "\<not> running (leftover S data l)"
  by (simp add: leftover_def Let_def CALLBACK_DATA_stops RETURN_def)

lemma stopped_weight: "\<not> running r \<Longrightarrow> weight len r = 0"
  by (cases r) simp_all

lemma marks_set_le:
  assumes "marks_ok s l"
  shows "marks_set l \<le> 1"
proof -
  have none: "marks l m = None" if "owner s \<noteq> Some m" for m
    using assms that by (cases "marks l m") (auto simp: marks_ok_def)
  show ?thesis by (cases "owner s"; cases "the (owner s)") (simp_all add: marks_set_def none)
qed

text \<open>A data callback in the tail of the call, where all marks lie in the data.\<close>

definition tail_ok :: "nat \<Rightarrow> 'u exec \<Rightarrow> bool" where
  "tail_ok len l \<longleftrightarrow> call_ok l \<and> pos l = len \<and> (\<forall>m i. marks l m = Some i \<longrightarrow> i \<le> len)"

lemma tail_call:
  assumes "data_ok cb" "tail_ok (length data) l" "pos l0 < length data" "e \<noteq> HPE_OK" "e \<noteq> HPE_PAUSED"
    and k: "\<And>l'. tail_ok (length data) l' \<Longrightarrow> step_ok (length data) l0 (k l')"
  shows "step_ok (length data) l0 (CALLBACK_DATA cb e m (length data) (length data) data l k)"
proof -
  have call: "call_ok l" using assms(2) by (simp add: tail_ok_def)
  have "tail_ok (length data) (unmark m (called d l))" "tail_ok (length data) (unmark m l)" for d
    using assms(2) by (auto simp: tail_ok_def call_ok_def split: if_splits)
  then show ?thesis
    using assms(2) by (intro step_data [OF assms(1) call _ assms(3-5)] k) (auto simp: tail_ok_def)
qed

section \<open>States with callbacks\<close>

context http_callbacks
begin

lemma start_states_ok:
  assumes r: "run_ok len (Switch l)"
  shows "p_state l = s_start_req_or_res \<Longrightarrow> step_ok len l (st_start_req_or_res S l)"
    and "p_state l = s_start_res \<Longrightarrow> step_ok len l (st_start_res S l)"
    and "p_state l = s_start_req \<Longrightarrow> step_ok len l (st_start_req S l)"
proof -
  have base: "base_ok l" and pos: "pos l < len" using r by simp_all
  have quiet: "marks l m = None" if "owner (p_state l) = None" for m
    using quiet_marks [OF base that] .
  have o: "owner s_start_req_or_res = None" "owner s_start_res = None" "owner s_start_req = None"
    by (simp_all add: owner_def url_state_def)
  note n = notify_break_ok [OF r message_begin]
  have req: "base_ok (UPDATE_STATE s_start_req (set_parser (\<lambda>pr. pr\<lparr>hp_type := HTTP_REQUEST\<rparr>)
      (set_parser new_message l)))" if "owner (p_state l) = None"
    using base quiet [OF that] by (simp add: base_ok_def marks_ok_def state_ok_def)
  show "step_ok len l (st_start_req_or_res S l)" if "p_state l = s_start_req_or_res"
    using pos that o quiet req base
    by (auto simp: st_start_req_or_res_def Let_def plain_def rank_def call_ok_def plain_state base_errno
        intro!: stay_ok [OF r] n step_switch)
  show "step_ok len l (st_start_res S l)" if "p_state l = s_start_res"
    using base pos that o quiet
    by (auto simp: st_start_res_def Let_def plain_def call_ok_def plain_state base_errno
        intro!: n fail_ok [OF r])
  have m: "unat (1 :: 7 word) \<le> length (method_strings m)" if "first_method c = Some m" for c m
    using first_method_prefix [OF that] by (cases "method_strings m") simp_all
  show "step_ok len l (st_start_req S l)" if "p_state l = s_start_req"
    using base pos that o quiet m
    by (auto simp: st_start_req_def Let_def call_ok_def state_ok_def base_errno
        split: option.split intro!: n fail_ok [OF r] stay_ok [OF r])
qed

lemma status_ok:
  assumes r: "run_ok (length data) (Switch l)" and p: "p_state l = s_res_status"
  shows "step_ok (length data) l (st_res_status S data l)"
proof -
  have base: "base_ok l" and pos: "pos l < length data" using r by simp_all
  have o: "owner (p_state l) = Some status_mark" by (simp add: p owner_def url_state_def)
  have cb: "step_ok (length data) l (CALLBACK_DATA (on_status S) HPE_CB_status status_mark (pos l) (Suc (pos l))
      data (UPDATE_STATE s l) break_out)" if "plain s" for s
    by (rule data_break [OF status call_quiet(2) [OF base that] only_mark_owner [OF base o]])
      (use pos in simp_all)
  show ?thesis
    unfolding st_res_status_def using stay_ok [OF r] p by (auto simp: plain_def intro!: cb)
qed

lemma url_ok:
  assumes r: "run_ok (length data) (Switch l)" and p: "url_state (p_state l)"
  shows "step_ok (length data) l (st_req_url S data l)"
proof -
  have base: "base_ok l" and pos: "pos l < length data" using r by simp_all
  have o: "owner (p_state l) = Some url_mark" by (rule owner_url [OF p])
  have cb: "step_ok (length data) l (CALLBACK_DATA (on_url S) HPE_CB_url url_mark (pos l) (Suc (pos l)) data
      (UPDATE_STATE s (set_parser f l)) break_out)"
    if "plain s" "http_errno (f (parser l)) = http_errno (parser l)" "nread (f (parser l)) = nread (parser l)" for s f
    by (rule data_break [OF url call_quiet(1) [where f = f, OF base that(1,2)] only_mark_owner [OF base o]])
      (use pos that(3) base_errno(2) [OF base] in simp_all)
  have cb': "step_ok (length data) l (CALLBACK_DATA (on_url S) HPE_CB_url url_mark (pos l) (Suc (pos l)) data
      (UPDATE_STATE s_req_http_start l) break_out)"
    using cb [of s_req_http_start "\<lambda>pr. pr"] by (simp add: plain_def set_parser_def)
  have st: "step_ok (length data) l (url_step l)"
    by (rule url_step_ok [OF r refl]) (use base base_errno url_mark_only [OF base p] in auto)
  show ?thesis
    unfolding st_req_url_def using cb' st by (auto simp: plain_def intro!: cb)
qed

lemma header_field_ok:
  assumes r: "run_ok (length data) (Switch l)" and p: "p_state l = s_header_field"
  shows "step_ok (length data) l (st_header_field S data l)"
proof -
  have base: "base_ok l" and pos: "pos l < length data" using r by simp_all
  have o: "owner (p_state l) = Some header_field_mark" by (simp add: p owner_def)
  have h: "header_state (parser l) \<in> field_states" using base p by (simp add: base_ok_def state_ok_def)
  obtain q b pr where scan: "field_scan (drop (pos l) data) (pos l) (ch l) (parser l) = Some (q, b, pr)"
    and pr: "retagged (parser l) pr" "header_state pr \<in> field_states"
    and q: "pos l \<le> q" "q \<le> length data"
    using field_scan_ok [OF h, of "drop (pos l) data" "pos l" "ch l"] pos by auto
  note f = retagged_fields [OF pr(1)]
  let ?m = "l\<lparr>pos := q, ch := b, parser := pr\<rparr>"
  let ?l = "set_parser (\<lambda>pr. pr\<lparr>nread := nread pr + of_nat (q - pos l)\<rparr>) ?m"
  show ?thesis
    unfolding st_header_field_def scan option.case prod.case
  proof (rule step_count)
    assume "nread (parser ?m) + of_nat (q - pos l) \<le> HTTP_MAX_HEADER_SIZE"
    then have n: "nread (parser l) + of_nat (q - pos l) \<le> HTTP_MAX_HEADER_SIZE" by (simp add: f)
    have call: "call_ok (UPDATE_STATE s_header_value_discard_ws ?l)"
      using n base f by (simp add: call_ok_def state_ok_def base_errno)
    have cb: "step_ok (length data) l (CALLBACK_DATA (on_header_field S) HPE_CB_header_field
        header_field_mark q (Suc q) data (UPDATE_STATE s_header_value_discard_ws ?l) break_out)"
      if "q \<noteq> length data"
      by (rule data_break [OF header_field call only_mark_owner [OF base o]]) (use q that pos in simp_all)
    have stay: "base_ok (?l\<lparr>pos := q - Suc 0\<rparr>)" if "q = length data"
      using that n base f pr(2) p pos by (fastforce simp: base_ok_def state_ok_def marks_ok_def)
    show "step_ok (length data) l (if pos ?l = length data then break_out (?l\<lparr>pos := pos ?l - 1\<rparr>)
        else if ch ?l = byte CHR '':'' then
          CALLBACK_DATA (on_header_field S) HPE_CB_header_field header_field_mark (pos ?l) (pos ?l + 1) data
            (UPDATE_STATE s_header_value_discard_ws ?l) break_out
        else fail HPE_INVALID_HEADER_TOKEN ?l)"
      using stay cb q pos p by (auto intro!: step_break step_fail)
  qed (use q pos in simp_all)
qed

lemma header_value_cr_ok:
  assumes r: "run_ok (length data) (Switch l)" and p: "p_state l = s_header_value"
    and q: "pos l \<le> q" "q < length data" and pr: "value_like (parser l) pr"
  shows "step_ok (length data) l
    (CALLBACK_DATA (on_header_value S) HPE_CB_header_value header_value_mark q (q + 1) data
       (UPDATE_STATE s_header_almost_done (l\<lparr>pos := q, ch := CR, parser := pr\<lparr>header_state := h\<rparr>\<rparr>))
       (\<lambda>l. COUNT_HEADER_SIZE n (set_parser (\<lambda>pr. pr\<lparr>header_state := h\<rparr>) l) break_out))"
proof -
  have base: "base_ok l" and pos: "pos l < length data" using r by simp_all
  have o: "owner (p_state l) = Some header_value_mark" by (simp add: p owner_def)
  have call: "call_ok (UPDATE_STATE s_header_almost_done
      (l\<lparr>pos := q, ch := CR, parser := pr\<lparr>header_state := h\<rparr>\<rparr>))"
    using base pr by (simp add: call_ok_def state_ok_def value_like_def base_errno)
  have k: "step_ok (length data) l
      (COUNT_HEADER_SIZE n (set_parser (\<lambda>pr. pr\<lparr>header_state := h\<rparr>) l') break_out)"
    if "base_ok l'" "pos l' = q" "p_state l' = s_header_almost_done" "\<And>n. marks l' n = None" for l'
    by (rule step_count) (use that q pos in
      \<open>auto simp: base_ok_def state_ok_def marks_ok_def intro!: step_break\<close>)
  show ?thesis
    by (rule data_call [OF header_value call only_mark_owner [OF base o]])
      (use q k in auto)
qed

lemma header_value_lf_ok:
  assumes r: "run_ok (length data) (Switch l)" and p: "p_state l = s_header_value"
    and q: "pos l \<le> q" "q < length data" and pr: "value_like (parser l) pr"
  shows "step_ok (length data) l
    (COUNT_HEADER_SIZE n (UPDATE_STATE s_header_almost_done (l\<lparr>pos := q, ch := LF, parser := pr\<rparr>))
       (\<lambda>l. CALLBACK_DATA (on_header_value S) HPE_CB_header_value header_value_mark q q data
              (set_parser (\<lambda>pr. pr\<lparr>header_state := h\<rparr>) l) Switch))"
proof (rule step_count)
  let ?l = "UPDATE_STATE s_header_almost_done (l\<lparr>pos := q, ch := LF, parser := pr\<rparr>)"
  have base: "base_ok l" and pos: "pos l < length data" using r by simp_all
  have o: "owner (p_state l) = Some header_value_mark" by (simp add: p owner_def)
  assume n: "nread (parser ?l) + of_nat n \<le> HTTP_MAX_HEADER_SIZE"
  have call: "call_ok (set_parser (\<lambda>pr. pr\<lparr>header_state := h\<rparr>)
      (set_parser (\<lambda>pr. pr\<lparr>nread := nread pr + of_nat n\<rparr>) ?l))"
    using base pr n by (simp add: call_ok_def state_ok_def value_like_def base_errno)
  show "step_ok (length data) l (CALLBACK_DATA (on_header_value S) HPE_CB_header_value header_value_mark
      q q data (set_parser (\<lambda>pr. pr\<lparr>header_state := h\<rparr>)
        (set_parser (\<lambda>pr. pr\<lparr>nread := nread pr + of_nat n\<rparr>) ?l)) Switch)"
    by (rule data_switch [OF header_value call only_mark_owner [OF base o]])
      (use q p in \<open>simp_all add: rank_def\<close>)
qed (use r q in simp_all)

lemma header_value_ok:
  assumes r: "run_ok (length data) (Switch l)" and p: "p_state l = s_header_value"
  shows "step_ok (length data) l (st_header_value S data l)"
proof -
  have base: "base_ok l" and pos: "pos l < length data" using r by simp_all
  let ?scan = "value_scan (lenient l) data (pos l) (ch l) (header_state (parser l)) (parser l)"
  have h: "resumable (header_state (parser l))"
    using base p by (simp add: base_ok_def state_ok_def resumable_def)
  have ok: "value_stop_ok (length data) (pos l) (parser l) ?scan"
    by (rule value_scan_ok [OF h]) (use pos in simp)
  show ?thesis
  proof (cases ?scan)
    case (VEnd q b h' pr)
    then have q: "q = length data" "resumable h'" "value_like (parser l) pr"
      using ok by (simp_all add: value_stop_ok_def)
    let ?l = "set_parser (\<lambda>pr. pr\<lparr>nread := nread pr + of_nat (q - pos l)\<rparr>)
      (l\<lparr>pos := q, ch := b, parser := pr\<lparr>header_state := h'\<rparr>\<rparr>)"
    have "base_ok (?l\<lparr>pos := q - Suc 0\<rparr>)"
      if "nread pr + of_nat (q - pos l) \<le> HTTP_MAX_HEADER_SIZE"
      using that base q p pos
      by (fastforce simp: base_ok_def state_ok_def marks_ok_def value_like_def resumable_def)
    then show ?thesis
      using pos q(1) p by (auto simp: st_header_value_def VEnd intro!: step_count step_break)
  next
    case (VCr q h' pr)
    then show ?thesis
      using ok header_value_cr_ok [OF r p] by (simp add: st_header_value_def value_stop_ok_def)
  next
    case (VLf q h' pr)
    then show ?thesis
      using ok header_value_lf_ok [OF r p] by (simp add: st_header_value_def value_stop_ok_def)
  next
    case (VBad e q b pr)
    then show ?thesis
      using ok pos by (auto simp: st_header_value_def value_stop_ok_def intro!: step_fail)
  qed (use ok in \<open>simp add: value_stop_ok_def\<close>)
qed

lemma discard_lws_ok:
  assumes r: "run_ok (length data) (Switch l)" and p: "p_state l = s_header_value_discard_lws"
  shows "step_ok (length data) l (st_header_value_discard_lws S data l)"
proof -
  have base: "base_ok l" and pos: "pos l < length data" using r by simp_all
  have o: "owner (p_state l) = None" by (simp add: p owner_def url_state_def)
  let ?l = "UPDATE_STATE s_header_field_start (MARK header_value_mark (set_parser finish_header l))"
  have call: "call_ok ?l" using base by (simp add: call_ok_def state_ok_def base_errno)
  have only: "only_mark header_value_mark (pos l) ?l"
    using quiet_marks [OF base o] by (auto simp: only_mark_def marks_MARK split: if_splits)
  have "step_ok (length data) l (CALLBACK_DATA (on_header_value S) HPE_CB_header_value header_value_mark
      (pos l) (pos l) data ?l Switch)"
    by (rule data_switch [OF header_value call only]) (use pos p in \<open>simp_all add: rank_def\<close>)
  then show ?thesis
    unfolding st_header_value_discard_lws_def
    by (auto simp: plain_def Let_def intro!: to_plain_ok(3) [OF r o])
qed

lemma headers_continue_ok:
  assumes r: "run_ok len (Switch l)" and p: "p_state l = s_headers_almost_done"
    and e: "http_errno pr = HPE_OK \<or> http_errno pr = HPE_PAUSED" "nread pr = nread (parser l)"
  shows "step_ok len l (headers_continue ((UPDATE_STATE s_headers_done l)\<lparr>parser := pr\<rparr>))"
proof -
  have base: "base_ok l" and pos: "pos l < len" using r by simp_all
  have o: "owner (p_state l) = None" by (simp add: p owner_def url_state_def)
  have "step_ok len l (Switch ((UPDATE_STATE s_headers_done l)\<lparr>parser := pr\<rparr>))" if "http_errno pr = HPE_OK"
    using base pos p that e(2) quiet_marks [OF base o]
    by (auto simp: base_ok_def state_ok_def marks_ok_def rank_def intro!: step_switch)
  moreover have "step_ok len l (RETURN (pos l) ((UPDATE_STATE s_headers_done l)\<lparr>parser := pr\<rparr>))"
    if "http_errno pr \<noteq> HPE_OK"
    using base pos that e(2)
    by (auto simp: RETURN_def returned_ok_def parser_ok_def state_ok_def base_errno intro!: step_return)
  ultimately show ?thesis by (simp add: headers_continue_def)
qed

lemma set_flag_keeps [simp]:
  "http_errno (set_flag g pr) = http_errno pr" "nread (set_flag g pr) = nread pr"
  by (simp_all add: set_flag_def)

lemma headers_almost_done_ok:
  assumes r: "run_ok len (Switch l)" and p: "p_state l = s_headers_almost_done"
  shows "step_ok len l (st_headers_almost_done S l)"
proof -
  have base: "base_ok l" and pos: "pos l < len" using r by simp_all
  have o: "owner (p_state l) = None" by (simp add: p owner_def url_state_def)
  have trailing: "step_ok len l (CALLBACK_NOTIFY (on_chunk_complete S) HPE_CB_chunk_complete (pos l)
      (UPDATE_STATE s_message_done l) Switch)"
    by (rule step_notify [OF chunk_complete]; (rule step_switch)?)
      (use base pos p quiet_marks [OF base o] in
        \<open>simp_all add: call_ok_def base_ok_def state_ok_def marks_ok_def rank_def\<close>)
  let ?pr = "(parser l)\<lparr>upgrade := headers_upgrade (parser l)\<rparr>"
  note go = headers_continue_ok [OF r p]
  have kept: "(http_errno pr = HPE_OK \<or> http_errno pr = HPE_PAUSED) \<and> nread pr = nread (parser l)"
    if "on_headers_complete S = Some f" "f ?pr = Some (c, pr)" for f c pr
  proof -
    have "http_errno ?pr = HPE_OK" using base_errno(1) [OF base] by simp
    then have "keeps_parser ?pr pr" using headers_complete that unfolding notify_ok_def by blast
    then show ?thesis by (auto simp: keeps_parser_def)
  qed
  have bad: "step_ok len l (RETURN (pos l) ((UPDATE_STATE s_headers_done l)\<lparr>parser :=
      pr\<lparr>http_errno := HPE_CB_headers_complete\<rparr>\<rparr>))" for pr
    using pos by (auto simp: RETURN_def returned_ok_def intro!: step_return)
  have first: "step_ok len l (headers_continue (set_parser (\<lambda>pr. pr\<lparr>upgrade := headers_upgrade pr\<rparr>)
      (UPDATE_STATE s_headers_done l)))"
    using go [of ?pr] base_errno(1) [OF base] by (simp add: set_parser_def)
  have aborted: "step_ok len l Aborted" using pos by (simp add: step_ok_def)
  have put: "(set_parser g l')\<lparr>parser := pr\<rparr> = l'\<lparr>parser := pr\<rparr>" for g pr and l' :: "'a exec"
    by (simp add: set_parser_def)
  show ?thesis
    unfolding st_headers_almost_done_def Let_def put
    using trailing first go bad kept fail_ok [OF r refl] aborted
    by (auto split: option.split)
qed

lemma NEW_MESSAGE_plain: "plain (NEW_MESSAGE pr)"
  by (simp add: NEW_MESSAGE_def start_state_def plain_def)

lemma message_complete_ok:
  assumes pos: "pos l < len" and none: "\<And>m. marks l m = None"
    and l: "http_errno (parser l) = HPE_OK" "nread (parser l) \<le> HTTP_MAX_HEADER_SIZE"
  shows "pos l0 \<le> pos l \<Longrightarrow> step_ok len l0 (message_complete S l break_out)"
    and "pos l0 \<le> pos l \<Longrightarrow> upgrade (parser l) \<Longrightarrow> step_ok len l0 (message_complete S l (\<lambda>l. RETURN (Suc (pos l)) l))"
proof -
  let ?l = "UPDATE_STATE (NEW_MESSAGE (parser l)) l"
  note plain = plain_state [OF NEW_MESSAGE_plain]
  have call: "call_ok ?l" using l by (simp add: call_ok_def plain)
  have base: "base_ok ?l" using l by (simp add: base_ok_def plain marks_ok_none none)
  show "step_ok len l0 (message_complete S l break_out)" if "pos l0 \<le> pos l"
    unfolding message_complete_def
    by (rule step_notify [OF message_complete call]; (rule step_break)?)
      (use base pos that l in \<open>simp_all add: plain marks_ok_none none\<close>)
  show "step_ok len l0 (message_complete S l (\<lambda>l. RETURN (Suc (pos l)) l))"
    if "pos l0 \<le> pos l" "upgrade (parser l)"
    unfolding message_complete_def RETURN_def
    by (rule step_notify [OF message_complete call]; (rule step_return)?)
      (use pos that l in \<open>simp_all add: plain returned_ok_def parser_ok_def\<close>)
qed

lemma headers_done_ok:
  assumes r: "run_ok len (Switch l)" and p: "p_state l = s_headers_done"
  shows "step_ok len l (st_headers_done S l)"
proof -
  have base: "base_ok l" and pos: "pos l < len" using r by simp_all
  have o: "owner (p_state l) = None" by (simp add: p owner_def url_state_def)
  let ?l = "set_parser (\<lambda>pr. pr\<lparr>nread := 0\<rparr>) l"
  have go: "step_ok len l (break_out (UPDATE_STATE s ?l))" if "state_ok s (parser l)" for s
    by (rule step_break) (use base pos that base_quiet [OF base o, of s "\<lambda>pr. pr\<lparr>nread := 0\<rparr>"] in simp_all)
  have states: "flag F_CHUNKED pr \<Longrightarrow> state_ok s_chunk_size_start pr"
    "content_length pr \<noteq> 0 \<Longrightarrow> content_length pr \<noteq> ULLONG_MAX \<Longrightarrow> state_ok s_body_identity pr"
    "state_ok s_body_identity_eof pr" for pr :: "'a http_parser"
    by (simp_all add: state_ok_def proper_length_def)
  have "step_ok len l (message_complete S ?l break_out)"
    "upgrade (parser l) \<Longrightarrow> step_ok len l (message_complete S ?l (\<lambda>l. RETURN (Suc (pos l)) l))"
    using pos base quiet_marks [OF base o] base_errno by (auto intro!: message_complete_ok)
  then show ?thesis
    unfolding st_headers_done_def Let_def using states
    by (auto simp: flag_def intro!: go fail_ok [OF r])
qed

lemma message_done_ok:
  assumes r: "run_ok len (Switch l)" and p: "p_state l = s_message_done"
  shows "step_ok len l (st_message_done S l)"
proof -
  have base: "base_ok l" and pos: "pos l < len" using r by simp_all
  have o: "owner (p_state l) = None" by (simp add: p owner_def url_state_def)
  let ?k = "\<lambda>l. if upgrade (parser l) then RETURN (pos l + 1) l else break_out l"
  let ?l = "UPDATE_STATE (NEW_MESSAGE (parser l)) l"
  note plain = plain_state [OF NEW_MESSAGE_plain] and none = quiet_marks [OF base o]
  have call: "call_ok ?l" using base by (simp add: call_ok_def plain base_errno)
  have k: "step_ok len l (?k l')" if "base_ok l'" "pos l' = pos l" "plain (p_state l')" for l'
  proof (cases "upgrade (parser l')")
    case True
    then show ?thesis
      using that pos plain_state [OF that(3)] base_errno [OF that(1)]
      by (simp add: RETURN_def step_return returned_ok_def parser_ok_def)
  next
    case False
    have "step_ok len l (break_out l')"
      by (rule step_break) (use that pos plain_state(2) [OF that(3)] in simp_all)
    then show ?thesis using False by simp
  qed
  show ?thesis
    unfolding st_message_done_def message_complete_def
    by (rule step_notify [OF message_complete call]; (rule k)?)
      (use pos base_quiet_plain [OF base o NEW_MESSAGE_plain] base_errno(2) [OF base] in
        \<open>simp_all add: marks_ok_none none plain NEW_MESSAGE_plain\<close>)
qed

lemma body_identity_ok:
  assumes r: "run_ok (length data) (Switch l)" and p: "p_state l = s_body_identity" and len: "length data < 2 ^ 64"
  shows "step_ok (length data) l (st_body_identity S data l)"
proof -
  have base: "base_ok l" and pos: "pos l < length data" using r by simp_all
  have c: "proper_length (content_length (parser l))"
    using base_errno(3) [OF base] p by (simp add: state_ok_def)
  have o: "owner (p_state l) = Some body_mark" by (simp add: p owner_def url_state_def)
  let ?l = "take_body data l"
  note b = take_body_ok [OF base pos len c o]
  have "step_ok (length data) l (break_out ?l)" if "content_length (parser ?l) \<noteq> 0"
    by (rule step_break)
      (use b(1,2,5-7) b(3) [OF that] only_mark_ok [OF b(4) o] p base_errno(2) [OF base] in
        \<open>simp_all add: base_ok_def state_ok_def\<close>)
  moreover have "step_ok (length data) l (CALLBACK_DATA (on_body S) HPE_CB_body body_mark (pos ?l + 1) (pos ?l)
      data (UPDATE_STATE s_message_done ?l) Switch)"
  proof (rule data_switch [OF body])
    show "call_ok (UPDATE_STATE s_message_done ?l)"
      using b(6,7) base_errno(2) [OF base] by (simp add: call_ok_def state_ok_def)
    show "only_mark body_mark (pos ?l + 1) (UPDATE_STATE s_message_done ?l)"
      using only_mark_le [OF b(4), of "pos ?l + 1"] by (simp add: only_mark_def)
  qed (use b(1,2) pos p in \<open>simp_all add: rank_def\<close>)
  ultimately show ?thesis using c by (simp add: st_body_identity_def proper_length_def Let_def)
qed

lemma chunk_callbacks_ok:
  assumes r: "run_ok (length data) (Switch l)"
  shows "p_state l = s_chunk_size_almost_done \<Longrightarrow> step_ok (length data) l (st_chunk_size_almost_done S l)"
    and "p_state l = s_chunk_data_almost_done \<Longrightarrow> step_ok (length data) l (st_chunk_data_almost_done S data l)"
    and "p_state l = s_chunk_data_done \<Longrightarrow> step_ok (length data) l (st_chunk_data_done S l)"
proof -
  have base: "base_ok l" and pos: "pos l < length data" using r by simp_all
  have st: "state_ok (p_state l) (parser l)" by (rule base_errno(3) [OF base])
  have quiet: "marks l m = None" if "owner (p_state l) = None" for m by (rule quiet_marks [OF base that])
  show "step_ok (length data) l (st_chunk_size_almost_done S l)" if p: "p_state l = s_chunk_size_almost_done"
  proof -
    have o: "owner (p_state l) = None" by (simp add: p owner_def url_state_def)
    have "step_ok (length data) l (CALLBACK_NOTIFY (on_chunk_header S) HPE_CB_chunk_header (Suc (pos l))
        (UPDATE_STATE s (set_parser f l)) break_out)"
      if "state_ok s (f (parser l))" "s \<noteq> s_chunk_size_start" "http_errno (f (parser l)) = http_errno (parser l)"
        "nread (f (parser l)) = 0" for s f
      by (rule notify_break_ok [OF r chunk_header])
        (use that base_errno(1) [OF base] quiet [OF o] pos in \<open>simp_all add: call_ok_def\<close>)
    note cb = this [of s_header_field_start "\<lambda>pr. set_flag F_TRAILING (pr\<lparr>nread := 0\<rparr>)"]
      this [of s_chunk_data "\<lambda>pr. pr\<lparr>nread := 0\<rparr>"]
    show ?thesis
      using st p cb fail_ok [OF r refl, of HPE_STRICT]
      by (auto simp: st_chunk_size_almost_done_def Let_def state_ok_def proper_length_def set_parser_def)
  qed
  show "step_ok (length data) l (st_chunk_data_almost_done S data l)" if p: "p_state l = s_chunk_data_almost_done"
  proof -
    have o: "owner (p_state l) = Some body_mark" by (simp add: p owner_def url_state_def)
    have call: "call_ok (UPDATE_STATE s_chunk_data_done l)"
      using base st p by (simp add: call_ok_def state_ok_def base_errno)
    have "step_ok (length data) l (CALLBACK_DATA (on_body S) HPE_CB_body body_mark (pos l) (Suc (pos l)) data
        (UPDATE_STATE s_chunk_data_done l) break_out)"
      by (rule data_break [OF body call only_mark_owner [OF base o]]) (use pos in simp_all)
    then show ?thesis
      using st p fail_ok [OF r refl, of HPE_STRICT] by (simp add: st_chunk_data_almost_done_def state_ok_def)
  qed
  show "step_ok (length data) l (st_chunk_data_done S l)" if p: "p_state l = s_chunk_data_done"
  proof -
    have o: "owner (p_state l) = None" by (simp add: p owner_def url_state_def)
    have call: "call_ok (UPDATE_STATE s_chunk_size_start (set_parser (\<lambda>pr. pr\<lparr>nread := 0\<rparr>) l))"
      using base st p by (simp add: call_ok_def state_ok_def base_errno)
    show ?thesis
      using st p fail_ok [OF r refl, of HPE_STRICT] notify_break_ok [OF r chunk_complete call] quiet [OF o] pos
      by (simp add: st_chunk_data_done_def state_ok_def)
  qed
qed

lemma leftover_ok:
  assumes r: "run_ok (length data) (Head l)" and pos: "pos l = length data" and data: "data \<noteq> []"
  shows "run_ok (length data) (leftover S data l)"
proof -
  have base: "base_ok l" and marks: "marks_ok (p_state l) l" using r by (simp_all add: base_ok_def)
  have tail: "tail_ok (length data) l"
    using r pos by (auto simp: tail_ok_def call_ok_def base_ok_def marks_ok_def)
  let ?l0 = "l\<lparr>pos := 0\<rparr>"
  have p0: "pos ?l0 < length data" using data by simp
  have "step_ok (length data) ?l0 (RETURN (length data) l')" if "tail_ok (length data) l'" for l'
    using that p0 by (auto simp: RETURN_def tail_ok_def call_ok_def returned_ok_def parser_ok_def
        intro!: step_return)
  then have "step_ok (length data) ?l0 (leftover S data l)"
    using marks_set_le [OF marks] p0 unfolding leftover_def Let_def pos
    by (auto intro!: tail tail_call header_field header_value url body status)
  then show ?thesis by (simp add: step_ok_def)
qed

lemma loop_head_ok:
  assumes r: "run_ok (length data) (Head l)" and data: "data \<noteq> []"
  shows "run_ok (length data) (loop_head S data l) \<and>
    weight (length data) (loop_head S data l) < weight (length data) (Head l)"
proof (cases "pos l < length data")
  case False
  then show ?thesis
    using r leftover_ok [OF r _ data] by (simp add: loop_head_def stopped_weight [OF leftover_stops])
next
  case pos: True
  let ?l = "l\<lparr>ch := data ! pos l\<rparr>" and ?c = "\<lambda>pr. pr\<lparr>nread := nread pr + 1\<rparr>"
  have sw: "run_ok (length data) (Switch l') \<Longrightarrow> pos l' = pos l \<Longrightarrow>
    run_ok (length data) (Switch l') \<and> weight (length data) (Switch l') < weight (length data) (Head l)" for l'
    by (simp add: rank_def)
  have "run_ok (length data) (Switch (set_parser ?c ?l))"
    if "nread (parser l) + 1 \<le> HTTP_MAX_HEADER_SIZE"
    using r that pos by (simp add: base_ok_def marks_ok_def)
  moreover have "run_ok (length data) (Switch ?l)" if "\<not> PARSING_HEADER (p_state l)"
    using r that pos by (auto simp: base_ok_def marks_ok_def PARSING_HEADER_def)
  moreover have "run_ok (length data) (fail HPE_HEADER_OVERFLOW (set_parser ?c ?l)) \<and>
      weight (length data) (fail HPE_HEADER_OVERFLOW (set_parser ?c ?l)) < weight (length data) (Head l)"
    using pos by (simp add: fail_Done returned_ok_def)
  ultimately show ?thesis
    using pos sw [of "set_parser ?c ?l"] sw [of ?l]
    by (auto simp: loop_head_def COUNT_HEADER_SIZE_def Let_def not_less)
qed

lemma exec_switch_ok:
  assumes r: "run_ok (length data) (Switch l)" and len: "length data < 2 ^ 64"
  shows "step_ok (length data) l (exec_switch S data l)"
proof -
  have o: "owner s = None" if "s \<in> {s_res_H, s_res_HT, s_res_HTT, s_res_HTTP, s_res_http_major, s_res_http_dot,
      s_res_http_minor, s_res_http_end, s_res_line_almost_done, s_req_http_H, s_req_http_HT, s_req_http_HTT,
      s_req_http_HTTP, s_req_http_major, s_req_http_dot, s_req_http_minor, s_req_line_almost_done,
      s_header_almost_done, s_header_value_discard_ws_almost_done, s_header_value_start}" for s
    using that by (auto simp: owner_def url_state_def)
  note plain_states = expect_ok [OF r] first_states_ok [OF r] status_code_ok [OF r] req_method_ok [OF r]
    spaces_before_url_ok [OF r] schema_ok [OF r] value_start_ok [OF r] discard_ws_ok [OF r]
    value_lws_ok [OF r] field_start_ok [OF r] chunk_states_ok [OF r]
  note callback_states = start_states_ok [OF r] status_ok [OF r] url_ok [OF r] header_field_ok [OF r]
    header_value_ok [OF r] discard_lws_ok [OF r] headers_almost_done_ok [OF r] headers_done_ok [OF r]
    message_done_ok [OF r] chunk_callbacks_ok [OF r] chunk_data_ok [OF r _ len]
    body_identity_eof_ok [OF r] body_identity_ok [OF r _ len]
  show ?thesis
    by (cases "p_state l")
      (simp_all add: exec_switch_def plain_states callback_states o plain_def url_state_def)
qed

lemma exec_step_ok:
  assumes "run_ok (length data) x" "running x" "data \<noteq> []" "length data < 2 ^ 64"
  shows "run_ok (length data) (exec_step S data x) \<and>
    weight (length data) (exec_step S data x) < weight (length data) x"
  using assms loop_head_ok exec_switch_ok by (cases x) (auto simp: step_ok_def)

end

lemma initial_marks_owner: "initial_marks s m = Some i \<Longrightarrow> i = 0 \<and> owner s = Some m"
  by (cases m) (auto simp: initial_marks_def owner_def url_state_def split: if_splits)

lemma exec_init_ok:
  "parser_ok pr \<Longrightarrow> http_errno pr = HPE_OK \<Longrightarrow> run_ok len (Head (exec_init pr))"
  using initial_marks_owner [of "state pr"]
  by (auto simp: exec_init_def parser_ok_def base_ok_def marks_ok_def)

lemma init_parser_ok: "parser_ok (http_parser_init d t)"
  by (simp add: parser_ok_def http_parser_init_def state_ok_def)

context http_callbacks
begin

theorem execute_returns:
  assumes "parser_ok pr" "http_errno pr = HPE_OK" "data \<noteq> []" "length data < 2 ^ 64"
  shows "http_parser_execute S data pr = Some Aborted \<or>
    (\<exists>n pr'. http_parser_execute S data pr = Some (Done n pr') \<and> returned_ok (length data) n pr')"
proof -
  let ?P = "run_ok (length data)" and ?x = "Head (exec_init pr)"
  have start: "?P ?x" by (rule exec_init_ok [OF assms(1,2)])
  have step: "?P (exec_step S data x) \<and> weight (length data) (exec_step S data x) < weight (length data) x"
    if "?P x" "running x" for x
    using exec_step_ok [OF that assms(3,4)] .
  obtain y where y: "while_option running (exec_step S data) ?x = Some y"
    using measure_while_option_Some [of ?P running "exec_step S data" "weight (length data)" ?x] step start by blast
  have "?P y" using while_option_rule [where P = ?P, OF _ y start] step by blast
  moreover have "\<not> running y" using while_option_stop [OF y] .
  ultimately show ?thesis
    using y assms(2,3) by (cases y) (auto simp: http_parser_execute_def)
qed

end

end
