(* ===== verification/Base_Strings.thy ===== *)
theory Base_Strings
  imports Adapter_Prelude
begin

text \<open>
  \<open>src/src/base/Ascii.cpp\<close> and the templates of \<open>src/src/base/String.h\<close> that the HTTP server uses, on
  \<open>std::string\<close> as a list of bytes. A \<open>char\<close> is signed: it reaches \<open>Ascii\<close> as the value \<open>sint\<close> of its
  byte. Strings are shorter than \<open>2^31\<close>, so that the casts of \<open>trim\<close> to \<open>int\<close> keep their value.
\<close>

section \<open>Character properties\<close>

definition ACP_CONTROL :: int where "ACP_CONTROL = 0x0001"
definition ACP_SPACE :: int where "ACP_SPACE = 0x0002"
definition ACP_PUNCT :: int where "ACP_PUNCT = 0x0004"
definition ACP_DIGIT :: int where "ACP_DIGIT = 0x0008"
definition ACP_HEXDIGIT :: int where "ACP_HEXDIGIT = 0x0010"
definition ACP_ALPHA :: int where "ACP_ALPHA = 0x0020"
definition ACP_LOWER :: int where "ACP_LOWER = 0x0040"
definition ACP_UPPER :: int where "ACP_UPPER = 0x0080"
definition ACP_GRAPH :: int where "ACP_GRAPH = 0x0100"
definition ACP_PRINT :: int where "ACP_PRINT = 0x0200"

lemmas acp_defs = ACP_CONTROL_def ACP_SPACE_def ACP_PUNCT_def ACP_DIGIT_def ACP_HEXDIGIT_def
  ACP_ALPHA_def ACP_LOWER_def ACP_UPPER_def ACP_GRAPH_def ACP_PRINT_def

definition CHARACTER_PROPERTIES :: "int list" where
  "CHARACTER_PROPERTIES =
     (let punct = ACP_PUNCT OR ACP_GRAPH OR ACP_PRINT;
          digit = ACP_DIGIT OR ACP_HEXDIGIT OR ACP_GRAPH OR ACP_PRINT;
          upper = ACP_ALPHA OR ACP_UPPER OR ACP_GRAPH OR ACP_PRINT;
          lower = ACP_ALPHA OR ACP_LOWER OR ACP_GRAPH OR ACP_PRINT
      in replicate 9 ACP_CONTROL @ replicate 5 (ACP_CONTROL OR ACP_SPACE) @ replicate 18 ACP_CONTROL @
         [ACP_SPACE OR ACP_PRINT] @ replicate 15 punct @ replicate 10 digit @ replicate 7 punct @
         replicate 6 (ACP_HEXDIGIT OR upper) @ replicate 20 upper @ replicate 6 punct @
         replicate 6 (ACP_HEXDIGIT OR lower) @ replicate 20 lower @ replicate 4 punct @ [ACP_CONTROL])"

definition isAscii :: "int \<Rightarrow> bool" where
  "isAscii c \<longleftrightarrow> (word_of_int c :: u32) AND 0xFFFFFF80 = 0"

definition properties :: "int \<Rightarrow> int" where
  "properties c = (if isAscii c then CHARACTER_PROPERTIES ! nat c else 0)"

definition hasProperties :: "int \<Rightarrow> int \<Rightarrow> bool" where
  "hasProperties c props \<longleftrightarrow> properties c AND props = props"

definition isSpace :: "u8 \<Rightarrow> bool" where "isSpace b \<longleftrightarrow> hasProperties (sint b) ACP_SPACE"

definition isUpper :: "int \<Rightarrow> bool" where "isUpper c \<longleftrightarrow> hasProperties c ACP_UPPER"

definition Ascii_toLower :: "int \<Rightarrow> int" where
  "Ascii_toLower c = (if isUpper c then c + 32 else c)"

definition lower_byte :: "u8 \<Rightarrow> u8" where
  "lower_byte b = word_of_int (Ascii_toLower (sint b))"

section \<open>Trimming, folding, splitting\<close>

definition toLower :: "bytes \<Rightarrow> bytes" where
  "toLower str = map lower_byte str"

text \<open>The two loops of \<open>trim\<close>; the second counts \<open>last + 1\<close> down.\<close>

function skip_front :: "bytes \<Rightarrow> nat \<Rightarrow> nat" where
  "skip_front str first = (if first < length str \<and> isSpace (str ! first) then skip_front str (Suc first) else first)"
  by pat_completeness auto
termination by (relation "measure (\<lambda>(str, first). length str - first)") auto

declare skip_front.simps [simp del]

fun skip_back :: "bytes \<Rightarrow> nat \<Rightarrow> nat \<Rightarrow> nat" where
  "skip_back str first 0 = 0"
| "skip_back str first (Suc m) =
     (if first \<le> m \<and> isSpace (str ! m) then skip_back str first m else Suc m)"

definition trim :: "bytes \<Rightarrow> bytes" where
  "trim str =
     (let first = skip_front str 0; n = skip_back str first (length str)
      in take (n - first) (drop first str))"

definition char_eq :: "u8 \<Rightarrow> u8 \<Rightarrow> bool" where
  "char_eq c d \<longleftrightarrow> Ascii_toLower (sint c) = Ascii_toLower (sint d)"

text \<open>\<open>std::search\<close> with \<open>i_char_traits::eq\<close>; \<open>None\<close> is \<open>npos\<close>.\<close>

definition isubstr :: "bytes \<Rightarrow> bytes \<Rightarrow> nat option" where
  "isubstr str sought =
     find (\<lambda>i. list_all2 char_eq (take (length sought) (drop i str)) sought) [0 ..< length str]"

text \<open>With an empty delimiter the loop of \<open>split\<close> does not end on a non-empty string.\<close>

partial_function (option) split_loop :: "bytes \<Rightarrow> bool \<Rightarrow> bytes \<Rightarrow> bytes list \<Rightarrow> bytes list option" where
  "split_loop delim keep str ret =
     (let pos = isubstr str delim;
          v = (case pos of Some i \<Rightarrow> take i str | None \<Rightarrow> str);
          ret' = (if v \<noteq> [] \<or> keep then ret @ [v] else ret)
      in case pos of
           None \<Rightarrow> Some ret'
         | Some i \<Rightarrow> split_loop delim keep (drop (i + length delim) str) ret')"

declare split_loop.simps [code]

definition split :: "bytes \<Rightarrow> bytes \<Rightarrow> bytes list option" where
  "split s delim = split_loop delim False s []"

section \<open>What they compute\<close>

lemma byte_cases: "(\<And>n. n < 256 \<Longrightarrow> P (word_of_nat n :: u8)) \<Longrightarrow> P b"
proof -
  assume "\<And>n. n < 256 \<Longrightarrow> P (word_of_nat n :: u8)"
  from this [OF u8_lt_256 [of b]] show ?thesis by simp
qed

lemma all_bytes: "list_all (\<lambda>n. P (word_of_nat n :: u8)) [0 ..< 256] \<Longrightarrow> P b"
  by (rule byte_cases) (simp add: list_all_iff)

lemma isAscii_byte: "isAscii (sint (b :: u8)) \<longleftrightarrow> b < 128"
  by (rule all_bytes [of "\<lambda>b. isAscii (sint b) = (b < 128)"]) code_simp

lemma sint_byte: "sint (b :: u8) = (if b < 128 then uint b else uint b - 256)"
  by (rule all_bytes [of "\<lambda>b. sint b = (if b < 128 then uint b else uint b - 256)"]) code_simp

lemma unat_byte_less: "b < 128 \<Longrightarrow> unat (b :: u8) < 128"
  by (simp add: word_less_nat_alt)

text \<open>The two columns of the table that are read.\<close>

lemma table_space:
  "n < 128 \<Longrightarrow> (CHARACTER_PROPERTIES ! n) AND ACP_SPACE = ACP_SPACE \<longleftrightarrow> n = 32 \<or> (9 \<le> n \<and> n \<le> 13)"
proof -
  have "list_all2 (\<lambda>x n. x AND ACP_SPACE = ACP_SPACE \<longleftrightarrow> n = 32 \<or> (9 \<le> n \<and> n \<le> 13))
      CHARACTER_PROPERTIES [0 ..< 128]" by code_simp
  then show "n < 128 \<Longrightarrow> ?thesis" using list_all2_nthD2 by fastforce
qed

lemma table_upper:
  "n < 128 \<Longrightarrow> (CHARACTER_PROPERTIES ! n) AND ACP_UPPER = ACP_UPPER \<longleftrightarrow> 65 \<le> n \<and> n \<le> 90"
proof -
  have "list_all2 (\<lambda>x n. x AND ACP_UPPER = ACP_UPPER \<longleftrightarrow> 65 \<le> n \<and> n \<le> 90)
      CHARACTER_PROPERTIES [0 ..< 128]" by code_simp
  then show "n < 128 \<Longrightarrow> ?thesis" using list_all2_nthD2 by fastforce
qed

lemma isSpace_iff: "isSpace b \<longleftrightarrow> b = 32 \<or> (9 \<le> b \<and> b \<le> 13)"
proof (cases "b < 128")
  case True
  then have "isSpace b \<longleftrightarrow> unat b = 32 \<or> (9 \<le> unat b \<and> unat b \<le> 13)"
    using table_space [OF unat_byte_less [OF True]]
    isAscii_byte [of b] sint_byte [of b] True
    by (simp add: isSpace_def hasProperties_def properties_def)
  also have "\<dots> \<longleftrightarrow> b = 32 \<or> (9 \<le> b \<and> b \<le> 13)"
    by (simp add: word_le_nat_alt word_unat_eq_iff)
  finally show ?thesis .
next
  case False
  then show ?thesis
    by (auto simp: isSpace_def hasProperties_def properties_def isAscii_byte acp_defs word_less_def word_le_def)
qed

lemma isUpper_iff: "isUpper (sint b) \<longleftrightarrow> 65 \<le> b \<and> b \<le> (90 :: u8)"
proof (cases "b < 128")
  case True
  then have "isUpper (sint b) \<longleftrightarrow> 65 \<le> unat b \<and> unat b \<le> 90"
    using table_upper [OF unat_byte_less [OF True]]
    isAscii_byte [of b] sint_byte [of b] True
    by (simp add: isUpper_def hasProperties_def properties_def)
  also have "\<dots> \<longleftrightarrow> 65 \<le> b \<and> b \<le> 90"
    by (simp add: word_le_nat_alt)
  finally show ?thesis .
next
  case False
  then show ?thesis
    by (auto simp: isUpper_def hasProperties_def properties_def isAscii_byte acp_defs word_less_def word_le_def)
qed

lemma lower_byte_eq: "lower_byte b = (if 65 \<le> b \<and> b \<le> 90 then b + 32 else b)"
  by (simp add: lower_byte_def Ascii_toLower_def isUpper_iff)

lemma lower_byte_int: "sint (lower_byte b) = Ascii_toLower (sint b)"
  unfolding Ascii_toLower_def isUpper_iff lower_byte_eq
  by (rule all_bytes [of "\<lambda>b. sint (if 65 \<le> b \<and> b \<le> 90 then b + 32 else b) =
      (if 65 \<le> b \<and> b \<le> 90 then sint b + 32 else sint b)"]) code_simp

lemma char_eq_iff: "char_eq c d \<longleftrightarrow> lower_byte c = lower_byte d"
  unfolding char_eq_def by (metis lower_byte_int signed_word_eqI)

lemma lower_byte_idem: "lower_byte (lower_byte b) = lower_byte b"
  unfolding lower_byte_eq
  by (rule all_bytes [of "\<lambda>b. (let l = \<lambda>b :: u8. if 65 \<le> b \<and> b \<le> 90 then b + 32 else b in l (l b) = l b)",
      unfolded Let_def]) code_simp

lemma toLower_idem [simp]: "toLower (toLower s) = toLower s"
  by (simp add: toLower_def lower_byte_idem)

subsection \<open>Trimming\<close>

lemma skip_front_eq: "i \<le> length s \<Longrightarrow> skip_front s i = i + length (takeWhile isSpace (drop i s))"
proof (induction s i rule: skip_front.induct)
  case (1 s i)
  show ?case
  proof (cases "i < length s")
    case True
    then show ?thesis using 1 by (subst skip_front.simps) (simp add: Cons_nth_drop_Suc [symmetric])
  qed (use 1(2) in \<open>subst skip_front.simps, simp\<close>)
qed

lemma skip_back_eq:
  "f \<le> n \<Longrightarrow> n \<le> length s \<Longrightarrow>
   skip_back s f n = f + length (dropWhile isSpace (rev (take (n - f) (drop f s))))"
proof (induction n)
  case (Suc n)
  show ?case
  proof (cases "f \<le> n")
    case True
    then have "take (Suc n - f) (drop f s) = take (n - f) (drop f s) @ [s ! n]"
      using Suc.prems by (simp add: Suc_diff_le take_Suc_conv_app_nth)
    then show ?thesis using True Suc by simp
  qed (use Suc.prems in simp)
qed simp

theorem trim_eq: "trim s = rev (dropWhile isSpace (rev (dropWhile isSpace s)))"
proof -
  let ?f = "length (takeWhile isSpace s)"
  have f: "skip_front s 0 = ?f" using skip_front_eq [of 0 s] by simp
  have le: "?f \<le> length s" by (rule length_takeWhile_le)
  have d: "drop ?f s = dropWhile isSpace s" by (rule dropWhile_eq_drop [symmetric])
  have l: "length s - ?f = length (dropWhile isSpace s)" using d by (metis length_drop)
  let ?r = "rev (dropWhile isSpace s)"
  have "skip_back s ?f (length s) = ?f + length (dropWhile isSpace ?r)"
    using skip_back_eq [OF le order_refl] d l by simp
  then have "trim s = take (length (dropWhile isSpace ?r)) (dropWhile isSpace s)"
    by (simp add: trim_def f d)
  also have "\<dots> = rev (dropWhile isSpace ?r)"
    by (metis dropWhile_eq_drop length_drop length_rev rev_drop rev_rev_ident)
  finally show ?thesis .
qed

subsection \<open>Splitting at a byte that has no case\<close>

definition caseless :: "u8 \<Rightarrow> bool" where
  "caseless c \<longleftrightarrow> \<not> (65 \<le> c \<and> c \<le> 90) \<and> \<not> (97 \<le> c \<and> c \<le> 122)"

lemma caseless_eq: "caseless c \<Longrightarrow> char_eq b c \<longleftrightarrow> b = c"
proof -
  assume c: "caseless c"
  have "97 \<le> b + 32 \<and> b + 32 \<le> 122" if "65 \<le> b" "b \<le> 90"
  proof -
    have "unat (b + 32) = unat b + 32"
      using that by (subst unat_add_lem [THEN iffD1]) (simp_all add: word_le_nat_alt)
    then show ?thesis using that by (simp add: word_le_nat_alt)
  qed
  then show ?thesis using c by (auto simp: char_eq_iff lower_byte_eq caseless_def)
qed

fun pieces :: "u8 \<Rightarrow> bytes \<Rightarrow> bytes list" where
  "pieces c [] = [[]]"
| "pieces c (b # s) = (if b = c then [] # pieces c s else (b # hd (pieces c s)) # tl (pieces c s))"

lemma pieces_nonempty [simp]: "pieces c s \<noteq> []"
  by (cases s) auto

lemma find_map_Suc: "find P (map Suc xs) = map_option Suc (find (\<lambda>i. P (Suc i)) xs)"
  by (induction xs) auto

lemma isubstr_byte:
  assumes "caseless c"
  shows "isubstr s [c] = (if c \<in> set s then Some (length (takeWhile (\<lambda>b. b \<noteq> c) s)) else None)"
proof -
  have one: "list_all2 char_eq (take (length [c]) (drop i s)) [c] \<longleftrightarrow> s ! i = c" if "i < length s" for i
    using that by (simp add: Cons_nth_drop_Suc [symmetric] caseless_eq [OF assms])
  have "isubstr s [c] = find (\<lambda>i. s ! i = c) [0 ..< length s]"
    unfolding isubstr_def by (rule find_cong) (use one in auto)
  also have "\<dots> = (if c \<in> set s then Some (length (takeWhile (\<lambda>b. b \<noteq> c) s)) else None)"
  proof (induction s)
    case (Cons b s)
    have "find (\<lambda>i. (b # s) ! i = c) [0 ..< length (b # s)] =
        (if b = c then Some 0 else map_option Suc (find (\<lambda>i. s ! i = c) [0 ..< length s]))"
      by (simp add: upt_conv_Cons map_Suc_upt [symmetric] find_map_Suc del: upt_Suc)
    then show ?case using Cons.IH by auto
  qed simp
  finally show ?thesis .
qed

lemma pieces_step:
  "c \<in> set s \<Longrightarrow> pieces c s =
     takeWhile (\<lambda>b. b \<noteq> c) s # pieces c (drop (length (takeWhile (\<lambda>b. b \<noteq> c) s) + 1) s)"
  by (induction s) auto

lemma pieces_none: "c \<notin> set s \<Longrightarrow> pieces c s = [s]"
  by (induction s) auto

lemma split_loop_byte:
  assumes c: "caseless c"
  shows "split_loop [c] False s ret = Some (ret @ filter (\<lambda>v. v \<noteq> []) (pieces c s))"
proof (induction "length s" arbitrary: s ret rule: less_induct)
  case less
  show ?case
  proof (cases "c \<in> set s")
    case True
    let ?i = "length (takeWhile (\<lambda>b. b \<noteq> c) s)"
    have "length (drop (?i + 1) s) < length s" using True by (cases s) auto
    note ih = less [OF this]
    have "take ?i s = takeWhile (\<lambda>b. b \<noteq> c) s" by (metis takeWhile_eq_take)
    then show ?thesis
      using True ih by (subst split_loop.simps)
        (simp add: isubstr_byte [OF c] Let_def pieces_step [OF True])
  next
    case False
    then show ?thesis
      by (subst split_loop.simps) (simp add: isubstr_byte [OF c] Let_def pieces_none)
  qed
qed

theorem split_byte: "caseless c \<Longrightarrow> split s [c] = Some (filter (\<lambda>v. v \<noteq> []) (pieces c s))"
  by (simp add: split_def split_loop_byte)

text \<open>Joining non-empty pieces is undone by \<open>split\<close>.\<close>

fun join :: "u8 \<Rightarrow> bytes list \<Rightarrow> bytes" where
  "join c [] = []"
| "join c [p] = p"
| "join c (p # q # ps) = p @ c # join c (q # ps)"

lemma pieces_append: "c \<notin> set p \<Longrightarrow> pieces c (p @ c # s) = p # pieces c s"
  by (induction p) auto

lemma pieces_join: "ps \<noteq> [] \<Longrightarrow> \<forall>p \<in> set ps. c \<notin> set p \<Longrightarrow> pieces c (join c ps) = ps"
  by (induction c ps rule: join.induct) (simp_all add: pieces_append pieces_none)

lemma split_join:
  assumes "caseless c" "\<forall>p \<in> set ps. c \<notin> set p \<and> p \<noteq> []"
  shows "split (join c ps) [c] = Some ps"
proof (cases "ps = []")
  case False
  then show ?thesis
    using assms by (simp add: split_byte pieces_join filter_True)
qed (use assms(1) in \<open>simp add: split_byte\<close>)

end
