(* ===== verification/Net_Buffer.thy ===== *)
theory Net_Buffer
  imports Adapter_Prelude
begin

text \<open>
  \<open>src/src/net/Buffer.h\<close> and \<open>src/src/base/ByteOrder.cpp\<close>: the input and output buffer of a connection.
  A vector holds a prependable area, the readable bytes between two indexes, and a writable area.

  A failed assertion and a copy outside the vector are \<open>None\<close>. Pointers into the buffer are offsets
  from \<open>peek()\<close>. The host is little endian. The interface that clients use is the locale \<open>byte_queue\<close>.
\<close>

section \<open>State\<close>

record buffer =
  bf_buffer :: bytes
  bf_readerIndex :: nat
  bf_writerIndex :: nat

definition kCheapPrepend :: nat where "kCheapPrepend = 8"
definition kInitialSize :: nat where "kInitialSize = 2048"

definition Buffer_new :: "nat \<Rightarrow> buffer" where
  "Buffer_new initialSize =
     \<lparr>bf_buffer = replicate (kCheapPrepend + initialSize) 0, bf_readerIndex = kCheapPrepend,
      bf_writerIndex = kCheapPrepend\<rparr>"

definition readableBytes :: "buffer \<Rightarrow> nat" where
  "readableBytes b = bf_writerIndex b - bf_readerIndex b"

definition writableBytes :: "buffer \<Rightarrow> nat" where
  "writableBytes b = length (bf_buffer b) - bf_writerIndex b"

definition prependableBytes :: "buffer \<Rightarrow> nat" where
  "prependableBytes b = bf_readerIndex b"

text \<open>The bytes from \<open>peek()\<close> on, \<open>readableBytes()\<close> of them.\<close>

definition readable :: "buffer \<Rightarrow> bytes" where
  "readable b = take (readableBytes b) (drop (bf_readerIndex b) (bf_buffer b))"

text \<open>\<open>std::copy(src.begin(), src.end(), dst + at)\<close>\<close>

definition copy_to :: "bytes \<Rightarrow> nat \<Rightarrow> bytes \<Rightarrow> bytes option" where
  "copy_to src at dst =
     (if at + length src \<le> length dst
      then Some (take at dst @ src @ drop (at + length src) dst) else None)"

section \<open>Reading\<close>

definition retrieveAll :: "buffer \<Rightarrow> buffer" where
  "retrieveAll b = b\<lparr>bf_readerIndex := kCheapPrepend, bf_writerIndex := kCheapPrepend\<rparr>"

definition retrieve :: "nat \<Rightarrow> buffer \<Rightarrow> buffer option" where
  "retrieve len b =
     (if \<not> len \<le> readableBytes b then None
      else if len < readableBytes b then Some (b\<lparr>bf_readerIndex := bf_readerIndex b + len\<rparr>)
      else Some (retrieveAll b))"

text \<open>The argument is the offset of \<open>end\<close> from \<open>peek()\<close>.\<close>

definition retrieveUntil :: "nat \<Rightarrow> buffer \<Rightarrow> buffer option" where
  "retrieveUntil e b = (if \<not> e \<le> readableBytes b then None else retrieve e b)"

definition retrieveAsString :: "nat \<Rightarrow> buffer \<Rightarrow> (bytes \<times> buffer) option" where
  "retrieveAsString len b =
     (if \<not> len \<le> readableBytes b then None
      else map_option (\<lambda>b'. (take len (readable b), b')) (retrieve len b))"

definition retrieveAllAsString :: "buffer \<Rightarrow> (bytes \<times> buffer) option" where
  "retrieveAllAsString b = retrieveAsString (readableBytes b) b"

definition kCRLF :: bytes where "kCRLF = [13, 10]"

text \<open>\<open>findCRLF\<close> and \<open>findEOL\<close> from \<open>start\<close>, an offset; \<open>None\<close> is \<open>NULL\<close>.\<close>

definition findCRLF :: "nat \<Rightarrow> buffer \<Rightarrow> nat option" where
  "findCRLF start b = find (\<lambda>i. take 2 (drop i (readable b)) = kCRLF) [start ..< readableBytes b]"

definition findEOL :: "nat \<Rightarrow> buffer \<Rightarrow> nat option" where
  "findEOL start b = find (\<lambda>i. readable b ! i = 10) [start ..< readableBytes b]"

section \<open>Writing\<close>

definition makeSpace :: "nat \<Rightarrow> buffer \<Rightarrow> buffer option" where
  "makeSpace len b =
     (let n = readableBytes b
      in if writableBytes b + prependableBytes b < len + kCheapPrepend then
           map_option (\<lambda>d. \<lparr>bf_buffer = d, bf_readerIndex = kCheapPrepend, bf_writerIndex = kCheapPrepend + n\<rparr>)
             (copy_to (readable b) kCheapPrepend (replicate (len + n + kCheapPrepend) 0))
         else if \<not> kCheapPrepend < bf_readerIndex b then None
         else
           map_option (\<lambda>d. \<lparr>bf_buffer = d, bf_readerIndex = kCheapPrepend, bf_writerIndex = kCheapPrepend + n\<rparr>)
             (copy_to (readable b) kCheapPrepend (bf_buffer b)))"

definition ensureWritableBytes :: "nat \<Rightarrow> buffer \<Rightarrow> buffer option" where
  "ensureWritableBytes len b =
     do {
       b' \<leftarrow> (if writableBytes b < len then makeSpace len b else Some b);
       if writableBytes b' \<ge> len then Some b' else None
     }"

definition hasWritten :: "nat \<Rightarrow> buffer \<Rightarrow> buffer option" where
  "hasWritten len b =
     (if \<not> len \<le> writableBytes b then None else Some (b\<lparr>bf_writerIndex := bf_writerIndex b + len\<rparr>))"

definition unwrite :: "nat \<Rightarrow> buffer \<Rightarrow> buffer option" where
  "unwrite len b =
     (if \<not> len \<le> readableBytes b then None else Some (b\<lparr>bf_writerIndex := bf_writerIndex b - len\<rparr>))"

definition buffer_append :: "bytes \<Rightarrow> buffer \<Rightarrow> buffer option" where
  "buffer_append data b =
     do {
       b' \<leftarrow> ensureWritableBytes (length data) b;
       d \<leftarrow> copy_to data (bf_writerIndex b') (bf_buffer b');
       hasWritten (length data) (b'\<lparr>bf_buffer := d\<rparr>)
     }"

definition prepend :: "bytes \<Rightarrow> buffer \<Rightarrow> buffer option" where
  "prepend data b =
     (if \<not> length data \<le> prependableBytes b then None
      else let r = bf_readerIndex b - length data
      in map_option (\<lambda>d. b\<lparr>bf_buffer := d, bf_readerIndex := r\<rparr>) (copy_to data r (bf_buffer b)))"

definition shrink :: "nat \<Rightarrow> buffer \<Rightarrow> buffer option" where
  "shrink reserve b =
     do {
       other \<leftarrow> ensureWritableBytes (readableBytes b + reserve) (Buffer_new kInitialSize);
       buffer_append (readable b) other
     }"

section \<open>Integers in network order\<close>

definition flipBytes16 :: "u16 \<Rightarrow> u16" where
  "flipBytes16 v = (drop_bit 8 v AND 0x00FF) OR (push_bit 8 v AND 0xFF00)"

definition flipBytes32 :: "u32 \<Rightarrow> u32" where
  "flipBytes32 v =
     (drop_bit 24 v AND 0x000000FF) OR (drop_bit 8 v AND 0x0000FF00) OR
     (push_bit 8 v AND 0x00FF0000) OR (push_bit 24 v AND 0xFF000000)"

definition flipBytes64 :: "u64 \<Rightarrow> u64" where
  "flipBytes64 v =
     (let hi = ucast (drop_bit 32 v) :: u32; lo = ucast (v AND 0xFFFFFFFF) :: u32
      in ucast (flipBytes32 hi) OR push_bit 32 (ucast (flipBytes32 lo)))"

text \<open>The object representation of an integer, and back (\<open>memcpy\<close>).\<close>

definition to_mem :: "nat \<Rightarrow> 'a::len word \<Rightarrow> bytes" where
  "to_mem n w = map (\<lambda>i. ucast (drop_bit (8 * i) w)) [0 ..< n]"

definition of_mem :: "bytes \<Rightarrow> 'a::len word" where
  "of_mem bs = foldr (\<lambda>b acc. ucast b OR push_bit 8 acc) bs 0"

definition appendInt64 :: "u64 \<Rightarrow> buffer \<Rightarrow> buffer option" where
  "appendInt64 x b = buffer_append (to_mem 8 (flipBytes64 x)) b"

definition appendInt32 :: "u32 \<Rightarrow> buffer \<Rightarrow> buffer option" where
  "appendInt32 x b = buffer_append (to_mem 4 (flipBytes32 x)) b"

definition appendInt16 :: "u16 \<Rightarrow> buffer \<Rightarrow> buffer option" where
  "appendInt16 x b = buffer_append (to_mem 2 (flipBytes16 x)) b"

definition appendInt8 :: "u8 \<Rightarrow> buffer \<Rightarrow> buffer option" where
  "appendInt8 x b = buffer_append (to_mem 1 x) b"

definition peekInt64 :: "buffer \<Rightarrow> u64 option" where
  "peekInt64 b = (if readableBytes b \<ge> 8 then Some (flipBytes64 (of_mem (take 8 (readable b)))) else None)"

definition peekInt32 :: "buffer \<Rightarrow> u32 option" where
  "peekInt32 b = (if readableBytes b \<ge> 4 then Some (flipBytes32 (of_mem (take 4 (readable b)))) else None)"

definition peekInt16 :: "buffer \<Rightarrow> u16 option" where
  "peekInt16 b = (if readableBytes b \<ge> 2 then Some (flipBytes16 (of_mem (take 2 (readable b)))) else None)"

definition peekInt8 :: "buffer \<Rightarrow> u8 option" where
  "peekInt8 b = (if readableBytes b \<ge> 1 then Some (hd (readable b)) else None)"

definition Buffer_readInt64 :: "buffer \<Rightarrow> (u64 \<times> buffer) option" where
  "Buffer_readInt64 b = do { x \<leftarrow> peekInt64 b; b' \<leftarrow> retrieve 8 b; Some (x, b') }"

definition Buffer_readInt32 :: "buffer \<Rightarrow> (u32 \<times> buffer) option" where
  "Buffer_readInt32 b = do { x \<leftarrow> peekInt32 b; b' \<leftarrow> retrieve 4 b; Some (x, b') }"

definition Buffer_readInt16 :: "buffer \<Rightarrow> (u16 \<times> buffer) option" where
  "Buffer_readInt16 b = do { x \<leftarrow> peekInt16 b; b' \<leftarrow> retrieve 2 b; Some (x, b') }"

definition Buffer_readInt8 :: "buffer \<Rightarrow> (u8 \<times> buffer) option" where
  "Buffer_readInt8 b = do { x \<leftarrow> peekInt8 b; b' \<leftarrow> retrieve 1 b; Some (x, b') }"

definition prependInt64 :: "u64 \<Rightarrow> buffer \<Rightarrow> buffer option" where
  "prependInt64 x b = prepend (to_mem 8 (flipBytes64 x)) b"

definition prependInt32 :: "u32 \<Rightarrow> buffer \<Rightarrow> buffer option" where
  "prependInt32 x b = prepend (to_mem 4 (flipBytes32 x)) b"

definition prependInt16 :: "u16 \<Rightarrow> buffer \<Rightarrow> buffer option" where
  "prependInt16 x b = prepend (to_mem 2 (flipBytes16 x)) b"

definition prependInt8 :: "u8 \<Rightarrow> buffer \<Rightarrow> buffer option" where
  "prependInt8 x b = prepend (to_mem 1 x) b"

section \<open>The buffer refines a byte queue\<close>

definition buffer_ok :: "buffer \<Rightarrow> bool" where
  "buffer_ok b \<longleftrightarrow> bf_readerIndex b \<le> bf_writerIndex b \<and> bf_writerIndex b \<le> length (bf_buffer b) \<and>
     kCheapPrepend \<le> length (bf_buffer b)"

lemma length_readable [simp]: "buffer_ok b \<Longrightarrow> length (readable b) = readableBytes b"
  by (auto simp: readable_def buffer_ok_def readableBytes_def)

lemma readable_fields [simp]:
  "readable \<lparr>bf_buffer = d, bf_readerIndex = r, bf_writerIndex = w\<rparr> = take (w - r) (drop r d)"
  by (simp add: readable_def readableBytes_def)

lemma Buffer_new_ok: "buffer_ok (Buffer_new n)" "readable (Buffer_new n) = []"
  by (simp_all add: buffer_ok_def Buffer_new_def readable_def readableBytes_def)

lemma retrieveAll_ok: "buffer_ok b \<Longrightarrow> buffer_ok (retrieveAll b)" "readable (retrieveAll b) = []"
  by (simp_all add: retrieveAll_def buffer_ok_def readable_def readableBytes_def)

lemma retrieve_ok:
  assumes "buffer_ok b" "n \<le> readableBytes b"
  shows "\<exists>b'. retrieve n b = Some b' \<and> buffer_ok b' \<and> readable b' = drop n (readable b)"
proof (cases "n < readableBytes b")
  case True
  then have "retrieve n b = Some (b\<lparr>bf_readerIndex := bf_readerIndex b + n\<rparr>)" by (simp add: retrieve_def)
  moreover have "readable (b\<lparr>bf_readerIndex := bf_readerIndex b + n\<rparr>) = drop n (readable b)"
    by (simp add: readable_def readableBytes_def drop_take add.commute)
  ultimately show ?thesis using assms(1) True by (simp add: buffer_ok_def readableBytes_def)
next
  case False
  then show ?thesis using assms retrieveAll_ok [of b] by (simp add: retrieve_def)
qed

lemma copy_to_Some: "at + length src \<le> length dst \<Longrightarrow>
   \<exists>d. copy_to src at dst = Some d \<and> length d = length dst \<and> take (length src) (drop at d) = src \<and>
     take at d = take at dst"
  by (simp add: copy_to_def)

lemma makeSpace_ok:
  assumes b: "buffer_ok b" and len: "writableBytes b < len"
  shows "\<exists>b'. makeSpace len b = Some b' \<and> buffer_ok b' \<and> readable b' = readable b \<and> len \<le> writableBytes b'"
proof (cases "writableBytes b + prependableBytes b < len + kCheapPrepend")
  case True
  let ?n = "readableBytes b"
  have n: "length (readable b) = ?n" using b by simp
  obtain d where d: "copy_to (readable b) kCheapPrepend (replicate (len + ?n + kCheapPrepend) 0) = Some d"
    "length d = len + ?n + kCheapPrepend" "take ?n (drop kCheapPrepend d) = readable b"
    using copy_to_Some [of kCheapPrepend "readable b" "replicate (len + ?n + kCheapPrepend) 0"] n by auto
  then show ?thesis
    using True by (simp add: makeSpace_def Let_def buffer_ok_def readableBytes_def writableBytes_def)
next
  case False
  let ?n = "readableBytes b"
  have n: "length (readable b) = ?n" using b by simp
  have r: "kCheapPrepend < bf_readerIndex b" using False len by (simp add: prependableBytes_def)
  then have fits: "kCheapPrepend + length (readable b) \<le> length (bf_buffer b)"
    using b by (auto simp: n readableBytes_def buffer_ok_def)
  obtain d where d: "copy_to (readable b) kCheapPrepend (bf_buffer b) = Some d"
    "length d = length (bf_buffer b)" "take ?n (drop kCheapPrepend d) = readable b"
    using copy_to_Some [OF fits] n by auto
  then show ?thesis
    using False r fits b by (auto simp: makeSpace_def Let_def buffer_ok_def readableBytes_def writableBytes_def
        prependableBytes_def)
qed

lemma ensureWritableBytes_ok:
  assumes "buffer_ok b"
  shows "\<exists>b'. ensureWritableBytes len b = Some b' \<and> buffer_ok b' \<and> readable b' = readable b \<and>
    len \<le> writableBytes b'"
  using makeSpace_ok [OF assms, of len] assms
  by (cases "writableBytes b < len") (auto simp: ensureWritableBytes_def)

lemma append_ok:
  assumes b: "buffer_ok b"
  shows "\<exists>b'. buffer_append data b = Some b' \<and> buffer_ok b' \<and> readable b' = readable b @ data"
proof -
  obtain b1 where b1: "ensureWritableBytes (length data) b = Some b1" "buffer_ok b1" "readable b1 = readable b"
    "length data \<le> writableBytes b1"
    using ensureWritableBytes_ok [OF b] by blast
  let ?w = "bf_writerIndex b1" and ?r = "bf_readerIndex b1"
  have fits: "?w + length data \<le> length (bf_buffer b1)"
    using b1(2,4) by (auto simp: writableBytes_def buffer_ok_def)
  obtain d where d: "copy_to data ?w (bf_buffer b1) = Some d" "length d = length (bf_buffer b1)"
    "take (length data) (drop ?w d) = data" "take ?w d = take ?w (bf_buffer b1)"
    using copy_to_Some [OF fits] by blast
  let ?b = "b1\<lparr>bf_buffer := d, bf_writerIndex := ?w + length data\<rparr>"
  have "readable ?b = drop ?r (take (?w + length data) d)"
    by (simp add: readable_def readableBytes_def drop_take)
  also have "\<dots> = drop ?r (take ?w d @ data)" using d(3) by (simp add: take_add)
  also have "\<dots> = readable b1 @ data"
    using b1(2) d(4) by (simp add: readable_def readableBytes_def drop_take buffer_ok_def)
  finally have "readable ?b = readable b @ data" using b1(3) by simp
  moreover have "buffer_ok ?b" using b1(2) fits d(2) by (simp add: buffer_ok_def)
  moreover have "buffer_append data b = Some ?b"
    using b1(1,4) d by (simp add: buffer_append_def hasWritten_def writableBytes_def)
  ultimately show ?thesis by blast
qed

lemma prepend_ok:
  assumes b: "buffer_ok b" and n: "length data \<le> prependableBytes b"
  shows "\<exists>b'. prepend data b = Some b' \<and> buffer_ok b' \<and> readable b' = data @ readable b"
proof -
  let ?r = "bf_readerIndex b" and ?w = "bf_writerIndex b" and ?k = "bf_readerIndex b - length data"
  have le: "length data \<le> ?r" using n by (simp add: prependableBytes_def)
  have fits: "?k + length data \<le> length (bf_buffer b)" using b le by (simp add: buffer_ok_def)
  define d where "d = take ?k (bf_buffer b) @ data @ drop ?r (bf_buffer b)"
  have d: "copy_to data ?k (bf_buffer b) = Some d" using fits le by (simp add: copy_to_def d_def)
  have k: "min (length (bf_buffer b)) ?k = ?k" using fits by simp
  have "readable (b\<lparr>bf_buffer := d, bf_readerIndex := ?k\<rparr>) = take (?w - ?k) (data @ drop ?r (bf_buffer b))"
    by (simp add: readable_def readableBytes_def d_def k)
  also have "\<dots> = data @ readable b"
  proof -
    have "?w - ?k - length data = ?w - ?r" "length data \<le> ?w - ?k"
      using le b by (auto simp: buffer_ok_def)
    then show ?thesis by (simp add: readable_def readableBytes_def)
  qed
  finally have "readable (b\<lparr>bf_buffer := d, bf_readerIndex := ?k\<rparr>) = data @ readable b" .
  moreover have "buffer_ok (b\<lparr>bf_buffer := d, bf_readerIndex := ?k\<rparr>)"
    using b le k by (auto simp: buffer_ok_def d_def)
  moreover have "prepend data b = Some (b\<lparr>bf_buffer := d, bf_readerIndex := ?k\<rparr>)"
    using n d by (simp add: prepend_def Let_def)
  ultimately show ?thesis by blast
qed

lemma unwrite_ok:
  assumes "buffer_ok b" "n \<le> readableBytes b"
  shows "\<exists>b'. unwrite n b = Some b' \<and> buffer_ok b' \<and>
    readable b' = take (readableBytes b - n) (readable b)"
  using assms by (auto simp: unwrite_def buffer_ok_def readable_def readableBytes_def min_def add.commute)

lemma shrink_ok:
  assumes "buffer_ok b"
  shows "\<exists>b'. shrink reserve b = Some b' \<and> buffer_ok b' \<and> readable b' = readable b"
proof -
  obtain b1 where "ensureWritableBytes (readableBytes b + reserve) (Buffer_new kInitialSize) = Some b1"
    "buffer_ok b1" "readable b1 = []"
    using ensureWritableBytes_ok [OF Buffer_new_ok(1)] Buffer_new_ok(2) by metis
  then show ?thesis using append_ok [of b1 "readable b"] by (simp add: shrink_def)
qed

section \<open>The interface of a byte queue\<close>

text \<open>What a connection promises its message callback, and what a client can derive from it alone.\<close>

locale byte_queue =
  fixes ok :: "'q \<Rightarrow> bool" and contents :: "'q \<Rightarrow> bytes"
    and put :: "bytes \<Rightarrow> 'q \<Rightarrow> 'q option" and discard :: "nat \<Rightarrow> 'q \<Rightarrow> 'q option"
  assumes put_ok: "ok q \<Longrightarrow> \<exists>q'. put data q = Some q' \<and> ok q' \<and> contents q' = contents q @ data"
    and discard_ok: "ok q \<Longrightarrow> n \<le> length (contents q) \<Longrightarrow>
      \<exists>q'. discard n q = Some q' \<and> ok q' \<and> contents q' = drop n (contents q)"
begin

fun put_all :: "bytes list \<Rightarrow> 'q \<Rightarrow> 'q option" where
  "put_all [] q = Some q"
| "put_all (c # cs) q = do { q' \<leftarrow> put c q; put_all cs q' }"

lemma put_all_ok: "ok q \<Longrightarrow> \<exists>q'. put_all cs q = Some q' \<and> ok q' \<and> contents q' = contents q @ concat cs"
proof (induction cs arbitrary: q)
  case (Cons c cs)
  obtain q1 where "put c q = Some q1" "ok q1" "contents q1 = contents q @ c" using put_ok [OF Cons.prems] by blast
  with Cons.IH [of q1] show ?case by auto
qed simp

text \<open>First in, first out: behind a prefix that was queued as a whole lies the rest.\<close>

lemma put_discard:
  assumes "ok q" "contents q = []"
  shows "\<exists>q1 q2. put_all (cs @ ds) q = Some q1 \<and> discard (length (concat cs)) q1 = Some q2 \<and> ok q2 \<and>
    contents q2 = concat ds"
proof -
  obtain q1 where q1: "put_all (cs @ ds) q = Some q1" "ok q1" "contents q1 = concat cs @ concat ds"
    using put_all_ok [OF assms(1), of "cs @ ds"] assms(2) by auto
  with discard_ok [OF q1(2), of "length (concat cs)"] show ?thesis by auto
qed

end

interpretation nb: byte_queue buffer_ok readable buffer_append retrieve
proof unfold_locales
  show "\<exists>q'. buffer_append data q = Some q' \<and> buffer_ok q' \<and> readable q' = readable q @ data"
    if "buffer_ok q" for q data
    by (rule append_ok [OF that])
  show "\<exists>q'. retrieve n q = Some q' \<and> buffer_ok q' \<and> readable q' = drop n (readable q)"
    if "buffer_ok q" "n \<le> length (readable q)" for q n
    using retrieve_ok that by simp
qed

section \<open>Integers survive the byte order\<close>

lemma length_to_mem [simp]: "length (to_mem n w) = n"
  by (simp add: to_mem_def)

lemma bit_of_mem:
  "bit (of_mem bs :: 'a::len word) i \<longleftrightarrow> i < LENGTH('a) \<and> i div 8 < length bs \<and> bit (bs ! (i div 8)) (i mod 8)"
proof (induction bs arbitrary: i)
  case (Cons b bs)
  show ?case
  proof (cases "i < 8")
    case True
    then show ?thesis by (auto simp: of_mem_def bit_simps)
  next
    case False
    then have "i div 8 = Suc ((i - 8) div 8)" "i mod 8 = (i - 8) mod 8" by (simp_all add: le_div_geq le_mod_geq)
    moreover have "\<not> bit b i" using False by (simp add: bit_word.rep_eq)
    ultimately show ?thesis
      using False Cons.IH [of "i - 8"] by (auto simp: of_mem_def bit_simps)
  qed
qed (simp add: of_mem_def)

lemma of_mem_to_mem:
  assumes "LENGTH('a) = 8 * n"
  shows "of_mem (to_mem n w) = (w :: 'a::len word)"
proof (rule bit_word_eqI)
  fix i assume "i < LENGTH('a)"
  then show "bit (of_mem (to_mem n w) :: 'a word) i = bit w i"
    using assms by (auto simp: bit_of_mem to_mem_def bit_simps)
qed

lemma flip16_bits: "i < 16 \<Longrightarrow> bit (flipBytes16 v) i \<longleftrightarrow> bit v (if i < 8 then i + 8 else i - 8)"
proof -
  have "\<forall>i \<in> {0 ..< 16}. bit (flipBytes16 v) i \<longleftrightarrow> bit v (if i < 8 then i + 8 else i - 8)"
    by (simp add: flipBytes16_def bit_simps atLeastLessThan_nat_numeral)
  then show "i < 16 \<Longrightarrow> ?thesis" by simp
qed

lemma flip32_bits:
  "i < 32 \<Longrightarrow> bit (flipBytes32 v) i \<longleftrightarrow> bit v (if i < 8 then i + 24 else if i < 16 then i + 8
     else if i < 24 then i - 8 else i - 24)"
proof -
  have "\<forall>i \<in> {0 ..< 32}. bit (flipBytes32 v) i \<longleftrightarrow> bit v (if i < 8 then i + 24 else if i < 16 then i + 8
     else if i < 24 then i - 8 else i - 24)"
    by (simp add: flipBytes32_def bit_simps atLeastLessThan_nat_numeral)
  then show "i < 32 \<Longrightarrow> ?thesis" by simp
qed

lemma flip16_flip16 [simp]: "flipBytes16 (flipBytes16 v) = v"
  by (rule bit_word_eqI) (auto simp: flip16_bits)

lemma flip32_flip32 [simp]: "flipBytes32 (flipBytes32 v) = v"
  by (rule bit_word_eqI) (auto simp: flip32_bits)

text \<open>A 64-bit word as its halves.\<close>

lemma halves:
  "ucast (drop_bit 32 (ucast a OR push_bit 32 (ucast b) :: u64)) = (b :: u32)"
  "ucast ((ucast a OR push_bit 32 (ucast b) :: u64) AND 0xFFFFFFFF) = (a :: u32)"
  "ucast (ucast (v AND 0xFFFFFFFF) :: u32) OR push_bit 32 (ucast (ucast (drop_bit 32 v) :: u32)) = (v :: u64)"
proof -
  have mask: "(0xFFFFFFFF :: u64) = mask 32" by (simp add: mask_eq_exp_minus_1)
  show "ucast (drop_bit 32 (ucast a OR push_bit 32 (ucast b) :: u64)) = b"
    by (rule bit_word_eqI) (auto simp: bit_simps dest: bit_imp_le_length)
  show "ucast ((ucast a OR push_bit 32 (ucast b) :: u64) AND 0xFFFFFFFF) = a"
    unfolding mask by (rule bit_word_eqI) (auto simp: bit_simps)
  show "ucast (ucast (v AND 0xFFFFFFFF) :: u32) OR push_bit 32 (ucast (ucast (drop_bit 32 v) :: u32)) = v"
    unfolding mask by (rule bit_word_eqI) (auto simp: bit_simps)
qed

lemma flip64_flip64 [simp]: "flipBytes64 (flipBytes64 v) = v"
  by (simp only: flipBytes64_def Let_def halves flip32_flip32)

text \<open>What was appended to an empty buffer is read back.\<close>

lemma of_mem_flip:
  "flipBytes64 (of_mem (to_mem 8 (flipBytes64 x))) = x" "flipBytes32 (of_mem (to_mem 4 (flipBytes32 y))) = y"
  "flipBytes16 (of_mem (to_mem 2 (flipBytes16 z))) = z"
  by (simp_all add: of_mem_to_mem)

lemma read_prefix:
  assumes "buffer_ok b" "readable b = bs @ rest"
  shows "readableBytes b = length bs + length rest" "take (length bs) (readable b) = bs"
    "\<exists>b'. retrieve (length bs) b = Some b' \<and> buffer_ok b' \<and> readable b' = rest"
  using assms retrieve_ok [OF assms(1), of "length bs"] length_readable [OF assms(1)] by auto

lemma readInt_ok:
  assumes b: "buffer_ok b"
  shows "readable b = to_mem 8 (flipBytes64 x) @ rest \<Longrightarrow>
      \<exists>b'. Buffer_readInt64 b = Some (x, b') \<and> buffer_ok b' \<and> readable b' = rest"
    and "readable b = to_mem 4 (flipBytes32 y) @ rest \<Longrightarrow>
      \<exists>b'. Buffer_readInt32 b = Some (y, b') \<and> buffer_ok b' \<and> readable b' = rest"
    and "readable b = to_mem 2 (flipBytes16 z) @ rest \<Longrightarrow>
      \<exists>b'. Buffer_readInt16 b = Some (z, b') \<and> buffer_ok b' \<and> readable b' = rest"
  using read_prefix [OF b, of "to_mem 8 (flipBytes64 x)" rest] read_prefix [OF b, of "to_mem 4 (flipBytes32 y)" rest]
    read_prefix [OF b, of "to_mem 2 (flipBytes16 z)" rest]
  by (auto simp: Buffer_readInt64_def Buffer_readInt32_def Buffer_readInt16_def peekInt64_def peekInt32_def
      peekInt16_def of_mem_flip)

end
