(* ===== verification/Http_Client.thy ===== *)
theory Http_Client
  imports Http_Safety Base_Strings Net_Buffer C_Strings
begin

text \<open>
  \<open>src/src/net/http/HttpParser.cpp\<close>: the client of \<open>http_parser\<close> that collects a request. The private
  fields of the class are the record \<open>request_state\<close>, which the parser carries as its user data.

  A callback that does not return normally, at a failed assertion of \<open>UrlDecode\<close>, is \<open>None\<close>.
\<close>

section \<open>State\<close>

datatype parser_status = PARSERING | PARSERED | PARSERERROR

record request_state =
  parserStatus :: parser_status
  fild :: int
  hp_head :: bytes
  hp_method :: bytes
  hp_version :: bytes
  hp_url :: bytes
  hp_body :: bytes
  hp_sessionid :: bytes
  hp_contextlength :: int
  hp_params :: "bytes \<Rightarrow> bytes option"
  hp_heads :: "bytes \<Rightarrow> bytes option"
  hp_cookie :: "(bytes \<times> bytes) list"

definition bstr :: "string \<Rightarrow> bytes" where "bstr s = map of_char s"

definition request_state_new :: request_state where
  "request_state_new =
     \<lparr>parserStatus = PARSERING, fild = 0, hp_head = [], hp_method = [], hp_version = [], hp_url = [],
      hp_body = [], hp_sessionid = [], hp_contextlength = 0, hp_params = (\<lambda>_. None),
      hp_heads = (\<lambda>_. None), hp_cookie = []\<rparr>"

section \<open>URL encoding\<close>

definition ToHex :: "u8 \<Rightarrow> u8" where
  "ToHex x = (if x > 9 then x + 55 else x + 48)"

definition FromHex :: "u8 \<Rightarrow> u8 option" where
  "FromHex x =
     (if x \<ge> byte CHR ''A'' \<and> x \<le> byte CHR ''Z'' then Some (x - byte CHR ''A'' + 10)
      else if x \<ge> byte CHR ''a'' \<and> x \<le> byte CHR ''z'' then Some (x - byte CHR ''a'' + 10)
      else if x \<ge> byte CHR ''0'' \<and> x \<le> byte CHR ''9'' then Some (x - byte CHR ''0'')
      else None)"

definition isalnum :: "u8 \<Rightarrow> bool" where
  "isalnum c \<longleftrightarrow> byte CHR ''0'' \<le> c \<and> c \<le> byte CHR ''9'' \<or> byte CHR ''A'' \<le> c \<and> c \<le> byte CHR ''Z''
     \<or> byte CHR ''a'' \<le> c \<and> c \<le> byte CHR ''z''"

definition encode_byte :: "u8 \<Rightarrow> bytes" where
  "encode_byte c =
     (if isalnum c \<or> c = byte CHR ''-'' \<or> c = byte CHR ''_'' \<or> c = byte CHR ''.'' \<or> c = byte CHR ''~'' then [c]
      else if c = SP then [byte CHR ''+'']
      else [byte CHR ''%'', ToHex (drop_bit 4 c), ToHex (c mod 16)])"

primrec UrlEncode :: "bytes \<Rightarrow> bytes" where
  "UrlEncode [] = []"
| "UrlEncode (c # str) = encode_byte c @ UrlEncode str"

fun UrlDecode :: "bytes \<Rightarrow> bytes option" where
  "UrlDecode [] = Some []"
| "UrlDecode (c # str) =
     (if c = byte CHR ''+'' then map_option (Cons SP) (UrlDecode str)
      else if c = byte CHR ''%'' then
        (case str of
           x # y # rest \<Rightarrow>
             do { high \<leftarrow> FromHex x; low \<leftarrow> FromHex y; map_option (Cons (high * 16 + low)) (UrlDecode rest) }
         | _ \<Rightarrow> None)
      else map_option (Cons c) (UrlDecode str))"

section \<open>Callbacks\<close>

definition set_status :: "parser_status \<Rightarrow> request_state \<Rightarrow> request_state" where
  "set_status v r = r\<lparr>parserStatus := v\<rparr>"

text \<open>The loop over \<open>key=value\<close> pieces, of the query and of a POST body.\<close>

fun add_params :: "bytes list \<Rightarrow> request_state \<Rightarrow> request_state option" where
  "add_params [] r = Some r"
| "add_params (it # its) r =
     do {
       param \<leftarrow> split it (bstr ''='');
       if param = [] \<or> length param > 2 then Some (set_status PARSERERROR r)
       else do {
         k \<leftarrow> UrlDecode (param ! 0);
         v \<leftarrow> (if length param = 2 then map_option trim (UrlDecode (param ! 1)) else Some []);
         add_params its (r\<lparr>hp_params := (hp_params r)(toLower (trim k) \<mapsto> v)\<rparr>)
       }
     }"

definition on_url_line :: "bytes \<Rightarrow> request_state \<Rightarrow> request_state option" where
  "on_url_line line r =
     do {
       lines \<leftarrow> split line (bstr ''?'');
       if length lines = 0 \<or> length lines > 2 then Some (set_status PARSERERROR r)
       else do {
         u \<leftarrow> UrlDecode (lines ! 0);
         let r1 = r\<lparr>hp_url := u\<rparr>;
         if length lines = 2
         then do { params \<leftarrow> split (lines ! 1) (bstr ''&''); add_params params r1 }
         else Some r1
       }
     }"

definition on_header_name :: "bytes \<Rightarrow> request_state \<Rightarrow> request_state" where
  "on_header_name name r =
     (if fild r = 1 then set_status PARSERERROR r else r\<lparr>fild := 1, hp_head := name\<rparr>)"

fun add_cookies :: "bytes list \<Rightarrow> request_state \<Rightarrow> request_state option" where
  "add_cookies [] r = Some r"
| "add_cookies (it # its) r =
     do {
       param \<leftarrow> split it (bstr ''='');
       if length param = 0 then add_cookies its r
       else
         let k = toLower (trim (param ! 0));
             v = (if length param \<ge> 2 then toLower (trim (param ! 1)) else []);
             r1 = (if length param \<ge> 2 \<and> k = bstr ''amid'' then r\<lparr>hp_sessionid := v\<rparr> else r)
         in add_cookies its (r1\<lparr>hp_cookie := hp_cookie r1 @ [(k, v)]\<rparr>)
     }"

text \<open>\<open>atoi(value.c_str())\<close>\<close>

definition atoi_bytes :: "bytes \<Rightarrow> int" where
  "atoi_bytes v = atoi (map (\<lambda>b. char_of (unat b)) (takeWhile (\<lambda>b. b \<noteq> 0) v))"

definition on_header_data :: "bytes \<Rightarrow> request_state \<Rightarrow> request_state option" where
  "on_header_data data r =
     (if fild r \<noteq> 1 then Some (set_status PARSERERROR r)
      else
        let key = toLower (trim (hp_head r)); v = toLower (trim data);
            r1 = r\<lparr>fild := 2, hp_heads := (hp_heads r)(key \<mapsto> v)\<rparr>
        in if key = bstr ''cookie'' then do { lines \<leftarrow> split v (bstr '';''); add_cookies lines r1 }
           else if key = bstr ''content-length'' then Some (r1\<lparr>hp_contextlength := atoi_bytes v\<rparr>)
           else Some r1)"

text \<open>\<open>snprintf(buf, 11, "HTTP/%d.%d", ...)\<close> keeps ten characters.\<close>

definition on_headers_end :: "http_method \<Rightarrow> u16 \<Rightarrow> u16 \<Rightarrow> request_state \<Rightarrow> request_state" where
  "on_headers_end m major minor r =
     r\<lparr>hp_method := bstr (method_strings m),
       hp_version := bstr (take 10 (''HTTP/'' @ to_string (unat major) @ ''.'' @ to_string (unat minor)))\<rparr>"

text \<open>\<open>size_t >= int\<close> converts the right-hand side to \<open>size_t\<close>.\<close>

definition on_message_end :: "request_state \<Rightarrow> request_state option" where
  "on_message_end r =
     (if parserStatus r \<noteq> PARSERERROR \<and> length (hp_body r) \<ge> unat (word_of_int (hp_contextlength r) :: u64) then
        let r1 = set_status PARSERED r
        in if hp_method r1 = bstr ''POST''
           then do { params \<leftarrow> split (hp_body r1) (bstr ''&''); add_params params r1 }
           else Some r1
      else Some r)"

text \<open>The static callbacks: they change \<open>*(HttpParser*)parser->data\<close> and return 0.\<close>

definition callback :: "(request_state \<Rightarrow> request_state option) \<Rightarrow> request_state http_parser \<Rightarrow>
  (int \<times> request_state http_parser) option" where
  "callback f pr = map_option (\<lambda>r. (0, pr\<lparr>user_data := r\<rparr>)) (f (user_data pr))"

definition onStatus :: "request_state http_data_cb" where
  "onStatus pr at = Some (0, pr)"

definition OnMessageBeginCallback :: "request_state http_cb" where
  "OnMessageBeginCallback pr = Some (0, pr)"

definition OnUrlCallback :: "request_state http_data_cb" where
  "OnUrlCallback pr at = callback (on_url_line at) pr"

definition OnHeaderFieldCallback :: "request_state http_data_cb" where
  "OnHeaderFieldCallback pr at = callback (\<lambda>r. Some (on_header_name at r)) pr"

definition OnHeaderValueCallback :: "request_state http_data_cb" where
  "OnHeaderValueCallback pr at = callback (on_header_data at) pr"

definition OnHeadersCompleteCallback :: "request_state http_cb" where
  "OnHeadersCompleteCallback pr =
     callback (\<lambda>r. Some (on_headers_end (meth pr) (http_major pr) (http_minor pr) r)) pr"

definition OnBodyCallback :: "request_state http_data_cb" where
  "OnBodyCallback pr at = callback (\<lambda>r. Some (r\<lparr>hp_body := hp_body r @ at\<rparr>)) pr"

definition OnMessageCompleteCallback :: "request_state http_cb" where
  "OnMessageCompleteCallback pr = callback on_message_end pr"

section \<open>The class\<close>

definition HttpParser_settings :: "request_state http_parser_settings" where
  "HttpParser_settings =
     \<lparr>on_message_begin = Some OnMessageBeginCallback, on_url = Some OnUrlCallback,
      on_status = Some onStatus, on_header_field = Some OnHeaderFieldCallback,
      on_header_value = Some OnHeaderValueCallback,
      on_headers_complete = Some OnHeadersCompleteCallback, on_body = Some OnBodyCallback,
      on_message_complete = Some OnMessageCompleteCallback, on_chunk_header = None,
      on_chunk_complete = None\<rparr>"

definition HttpParser_new :: "request_state http_parser" where
  "HttpParser_new = http_parser_init request_state_new HTTP_REQUEST"

text \<open>\<open>parser(buf)\<close>: its result, the object and the buffer; \<open>None\<close> when it does not return.\<close>

definition HttpParser_parser ::
  "buffer \<Rightarrow> request_state http_parser \<Rightarrow> (parser_status \<times> request_state http_parser \<times> buffer) option" where
  "HttpParser_parser buf pr =
     (case http_parser_execute HttpParser_settings (readable buf) pr of
        Some (Done n pr') \<Rightarrow>
          (let len = int32_of (int n)
           in if http_errno pr' \<noteq> HPE_OK then Some (PARSERERROR, pr', buf)
              else map_option (\<lambda>b. (parserStatus (user_data pr'), pr', b))
                     (retrieve (unat (word_of_int len :: u64)) buf))
      | _ \<Rightarrow> None)"

section \<open>The callbacks keep the parser's interface\<close>

lemma callback_keeps:
  "callback f pr = Some (c, pr') \<Longrightarrow> http_errno pr = HPE_OK \<Longrightarrow> keeps_parser pr pr'"
  by (cases pr) (auto simp: callback_def keeps_parser_def)

lemma same_keeps: "http_errno pr = HPE_OK \<Longrightarrow> keeps_parser pr pr"
  by (cases pr) (auto simp: keeps_parser_def)

interpretation hp: http_callbacks HttpParser_settings
  by unfold_locales
    (auto simp: HttpParser_settings_def notify_ok_def data_ok_def onStatus_def OnMessageBeginCallback_def
      OnUrlCallback_def OnHeaderFieldCallback_def OnHeaderValueCallback_def OnHeadersCompleteCallback_def
      OnBodyCallback_def OnMessageCompleteCallback_def intro: callback_keeps same_keeps)

section \<open>URL encoding round trip\<close>

lemma ToHex_digit: "x < 16 \<Longrightarrow> FromHex (ToHex x) = Some x \<and> isalnum (ToHex x)"
proof -
  have "list_all (\<lambda>n. FromHex (ToHex (word_of_nat n)) = Some (word_of_nat n) \<and> isalnum (ToHex (word_of_nat n)))
      [0 ..< 16]" by code_simp
  then have "\<forall>n < 16. FromHex (ToHex (word_of_nat n)) = Some (word_of_nat n) \<and> isalnum (ToHex (word_of_nat n))"
    by (simp add: list_all_iff)
  moreover assume "x < 16"
  then have "unat x < 16" by (simp add: word_less_nat_alt)
  ultimately have "FromHex (ToHex (word_of_nat (unat x))) = Some (word_of_nat (unat x)) \<and>
      isalnum (ToHex (word_of_nat (unat x)))" by blast
  then show ?thesis by simp
qed

lemma nibbles: "drop_bit 4 c < (16 :: u8)" "c mod 16 < 16" "drop_bit 4 c * 16 + c mod 16 = c"
proof -
  have d: "drop_bit 4 c = c div 16" by (simp add: drop_bit_eq_div)
  show "drop_bit 4 c * 16 + c mod 16 = c" unfolding d by (rule div_mult_mod_eq)
  show "c mod 16 < 16" by (simp add: word_mod_less_divisor)
  have "unat c div 16 < 16" using u8_lt_256 [of c] by (intro less_mult_imp_div_less) simp
  then show "drop_bit 4 c < 16" unfolding d by (simp add: word_less_nat_alt unat_div)
qed

lemma UrlDecode_encode_byte: "UrlDecode (encode_byte c @ s) = map_option (Cons c) (UrlDecode s)"
proof (cases "isalnum c \<or> c = byte CHR ''-'' \<or> c = byte CHR ''_'' \<or> c = byte CHR ''.'' \<or> c = byte CHR ''~''")
  case True
  moreover have "c \<noteq> byte CHR ''+''" "c \<noteq> byte CHR ''%''" using True by (auto simp: isalnum_def)
  ultimately show ?thesis by (simp add: encode_byte_def)
next
  case False
  then show ?thesis
    using ToHex_digit [OF nibbles(1)] ToHex_digit [OF nibbles(2)] nibbles(3)
    by (simp add: encode_byte_def)
qed

lemma UrlDecode_UrlEncode: "UrlDecode (UrlEncode s @ t) = map_option ((@) s) (UrlDecode t)"
  by (induction s) (simp_all add: UrlDecode_encode_byte option.map_comp comp_def option.map_ident)

text \<open>No byte of an encoded text is one of the delimiters of a query.\<close>

lemma encode_byte_safe:
  assumes "b \<in> set (encode_byte c)"
  shows "b \<noteq> byte CHR ''='' \<and> b \<noteq> byte CHR ''&'' \<and> b \<noteq> byte CHR ''?''"
proof -
  have "isalnum b \<or> b \<in> {byte CHR ''-'', byte CHR ''_'', byte CHR ''.'', byte CHR ''~'', byte CHR ''+'', byte CHR ''%''}"
    using assms ToHex_digit [OF nibbles(1)] ToHex_digit [OF nibbles(2)]
    by (auto simp: encode_byte_def split: if_splits)
  then show ?thesis by (auto simp: isalnum_def)
qed

lemma UrlEncode_safe:
  "byte CHR ''='' \<notin> set (UrlEncode s)" "byte CHR ''&'' \<notin> set (UrlEncode s)" "byte CHR ''?'' \<notin> set (UrlEncode s)"
  by (induction s) (use encode_byte_safe in force)+

lemma UrlEncode_nonempty: "UrlEncode s = [] \<longleftrightarrow> s = []"
  by (cases s) (auto simp: encode_byte_def)

section \<open>Query strings\<close>

definition form_pair :: "bytes \<times> bytes \<Rightarrow> bytes" where
  "form_pair kv = UrlEncode (fst kv) @ byte CHR ''='' # UrlEncode (snd kv)"

definition form_param :: "(bytes \<Rightarrow> bytes option) \<Rightarrow> bytes \<times> bytes \<Rightarrow> bytes \<Rightarrow> bytes option" where
  "form_param m kv = m(toLower (trim (fst kv)) \<mapsto> trim (snd kv))"

lemma delimiters:
  "bstr ''='' = [61]" "bstr ''&'' = [38]" "bstr ''?'' = [63]" "bstr '';'' = [59]"
  "caseless 61" "caseless 38" "caseless 63" "caseless 59"
  by (simp_all add: bstr_def caseless_def)

lemma trim_Nil [simp]: "trim [] = []"
  by (simp add: trim_eq)

lemma UrlEncode_decode [simp]: "UrlDecode (UrlEncode s) = Some s"
  using UrlDecode_UrlEncode [of s "[]"] by simp

lemma split_form_pair:
  assumes "k \<noteq> []"
  shows "split (form_pair (k, v)) (bstr ''='') =
    Some (if v = [] then [UrlEncode k] else [UrlEncode k, UrlEncode v])"
proof -
  have "form_pair (k, v) = UrlEncode k @ 61 # UrlEncode v" by (simp add: form_pair_def)
  moreover have "(61 :: u8) \<notin> set (UrlEncode s)" for s using UrlEncode_safe(1) [of s] by simp
  ultimately show ?thesis
    using assms by (simp add: delimiters split_byte pieces_append pieces_none UrlEncode_nonempty)
qed

lemma add_params_form:
  assumes "\<forall>kv \<in> set kvs. fst kv \<noteq> []"
  shows "add_params (map form_pair kvs) r = Some (r\<lparr>hp_params := foldl form_param (hp_params r) kvs\<rparr>)"
  using assms
proof (induction kvs arbitrary: r)
  case (Cons kv kvs)
  obtain k v where kv: "kv = (k, v)" by (cases kv)
  have k: "k \<noteq> []" using Cons.prems kv by simp
  have m: "(hp_params r)(toLower (trim k) \<mapsto> trim v) = form_param (hp_params r) kv"
    by (simp add: form_param_def kv)
  have "add_params (map form_pair (kv # kvs)) r = add_params (map form_pair kvs)
      (r\<lparr>hp_params := form_param (hp_params r) kv\<rparr>)"
    unfolding m [symmetric] by (cases "v = []") (simp_all add: kv split_form_pair [OF k])
  then show ?case using Cons by simp
qed simp

lemma on_url_form:
  assumes "UrlDecode u = Some path" "u \<noteq> []" "byte CHR ''?'' \<notin> set u"
    and "kvs \<noteq> []" "\<forall>kv \<in> set kvs. fst kv \<noteq> []"
  shows "on_url_line (u @ byte CHR ''?'' # join (byte CHR ''&'') (map form_pair kvs)) r =
    Some (r\<lparr>hp_url := path, hp_params := foldl form_param (hp_params r) kvs\<rparr>)"
proof -
  let ?q = "join 38 (map form_pair kvs)"
  have amp: "(38 :: u8) \<notin> set (form_pair kv)" and qm: "(63 :: u8) \<notin> set (form_pair kv)" for kv
    using UrlEncode_safe(2,3) [of "fst kv"] UrlEncode_safe(2,3) [of "snd kv"] by (simp_all add: form_pair_def)
  have ne: "form_pair kv \<noteq> []" for kv by (simp add: form_pair_def)
  have "(63 :: u8) \<notin> set (join 38 ps)" if "\<forall>p \<in> set ps. 63 \<notin> set p" for ps
    using that by (induction "38 :: u8" ps rule: join.induct) auto
  then have q63: "63 \<notin> set ?q" using qm by auto
  have qne: "?q \<noteq> []" using assms(4) ne by (cases kvs; cases "tl kvs") auto
  have "split (u @ 63 # ?q) (bstr ''?'') = Some [u, ?q]"
    using assms(2,3) q63 qne by (simp add: delimiters split_byte pieces_append pieces_none)
  moreover have "split ?q (bstr ''&'') = Some (map form_pair kvs)"
    unfolding delimiters by (rule split_join) (use amp ne in \<open>auto simp: delimiters\<close>)
  ultimately show ?thesis
    using assms(1) add_params_form [OF assms(5)] by (simp add: on_url_line_def)
qed

section \<open>One call\<close>

lemma parser_returns:
  assumes pr: "parser_ok pr" "http_errno pr = HPE_OK" and buf: "buffer_ok buf" "readable buf \<noteq> []"
    and len: "readableBytes buf < 2 ^ 31"
  shows "http_parser_execute HttpParser_settings (readable buf) pr = Some Aborted \<or>
    (\<exists>st pr' buf'. HttpParser_parser buf pr = Some (st, pr', buf') \<and> buffer_ok buf' \<and>
       (http_errno pr' = HPE_OK \<longrightarrow> parser_ok pr' \<and> st = parserStatus (user_data pr') \<and>
          (readable buf' = [] \<or> upgrade pr')) \<and>
       (http_errno pr' \<noteq> HPE_OK \<longrightarrow> st = PARSERERROR \<and> buf' = buf))"
proof (cases "http_parser_execute HttpParser_settings (readable buf) pr = Some Aborted")
  case False
  have l: "length (readable buf) = readableBytes buf" using buf(1) by simp
  then have "length (readable buf) < 2 ^ 64" using len by simp
  from hp.execute_returns [OF pr buf(2) this] False obtain n pr' where
    run: "http_parser_execute HttpParser_settings (readable buf) pr = Some (Done n pr')"
    and ok: "returned_ok (readableBytes buf) n pr'" by (auto simp: l)
  have n: "n \<le> readableBytes buf" using ok by (simp add: returned_ok_def)
  then have "int32_of (int n) = int n" using len by (intro int32_of_small) simp_all
  moreover have "n < 2 ^ 64" using n len by simp
  ultimately have i: "unat (word_of_int (int32_of (int n)) :: u64) = n" by (simp add: unat_of_nat_small)
  obtain b where b: "retrieve n buf = Some b" "buffer_ok b" "readable b = drop n (readable buf)"
    using retrieve_ok [OF buf(1) n] by blast
  show ?thesis
    using run ok b i buf(1) l by (auto simp: HttpParser_parser_def Let_def returned_ok_def)
qed simp

end
