(* ===== verification/Http_Delivery.thy ===== *)
theory Http_Delivery
  imports Http_Client
begin

text \<open>
  What \<open>http_parser\<close> and \<open>HttpParser\<close> deliver together: sequences of calls, the bytes of a body, and two
  places where the division of a request into calls changes what the client sees.
\<close>

section \<open>Sequences of calls\<close>

text \<open>The calls on the chunks of a stream, as long as each consumes its chunk without an error.\<close>

fun execute_all :: "'u http_parser_settings \<Rightarrow> bytes list \<Rightarrow> 'u http_parser \<Rightarrow> 'u run option" where
  "execute_all S [] pr = Some (Done 0 pr)"
| "execute_all S (c # cs) pr =
     (case http_parser_execute S c pr of
        Some (Done n pr') \<Rightarrow>
          if http_errno pr' = HPE_OK \<and> n = length c \<and> cs \<noteq> [] then execute_all S cs pr'
          else Some (Done n pr')
      | r \<Rightarrow> r)"

lemma execute_all_returns:
  assumes S: "http_callbacks S"
  shows "parser_ok pr \<Longrightarrow> http_errno pr = HPE_OK \<Longrightarrow> \<forall>c \<in> set cs. c \<noteq> [] \<and> length c < 2 ^ 64 \<Longrightarrow>
    execute_all S cs pr = Some Aborted \<or>
    (\<exists>n pr'. execute_all S cs pr = Some (Done n pr') \<and>
       (http_errno pr' = HPE_OK \<longrightarrow> parser_ok pr' \<and> nread pr' \<le> HTTP_MAX_HEADER_SIZE))"
proof (induction cs arbitrary: pr)
  case Nil
  then show ?case by (simp add: parser_ok_def)
next
  case (Cons c cs)
  have c: "c \<noteq> []" "length c < 2 ^ 64" using Cons.prems(3) by simp_all
  consider "http_parser_execute S c pr = Some Aborted"
    | n pr' where "http_parser_execute S c pr = Some (Done n pr')" "returned_ok (length c) n pr'"
    using http_callbacks.execute_returns [OF S Cons.prems(1,2) c] by blast
  then show ?case
  proof cases
    case (2 n pr')
    show ?thesis
    proof (cases "http_errno pr' = HPE_OK \<and> n = length c \<and> cs \<noteq> []")
      case True
      then show ?thesis
        using 2 Cons.IH [of pr'] Cons.prems(3) by (simp add: returned_ok_def)
    next
      case False
      have "parser_ok pr' \<and> nread pr' \<le> HTTP_MAX_HEADER_SIZE" if "http_errno pr' = HPE_OK"
        using 2(2) that by (simp add: returned_ok_def parser_ok_def)
      then show ?thesis using 2(1) False by auto
    qed
  qed simp
qed

section \<open>The body\<close>

text \<open>The parser after a piece of the body.\<close>

definition body_taken :: "bytes \<Rightarrow> request_state http_parser \<Rightarrow> request_state http_parser" where
  "body_taken bs pr =
     pr\<lparr>content_length := content_length pr - word_of_nat (length bs),
        user_data := (user_data pr)\<lparr>hp_body := hp_body (user_data pr) @ bs\<rparr>\<rparr>"

lemma to_read_all:
  assumes "length data \<le> unat (content_length (parser l))" "pos l = 0"
  shows "to_read data l = word_of_nat (length data)" "unat (to_read data l) = length data"
proof -
  have small: "length data < 2 ^ 64"
    using assms(1) unsigned_less [of "content_length (parser l)", where 'a = nat] by simp
  have "word_of_nat (length data) \<le> content_length (parser l)"
    using assms(1) small by (simp add: word_le_nat_alt unat_of_nat_small)
  then show "to_read data l = word_of_nat (length data)" "unat (to_read data l) = length data"
    using assms(2) small by (simp_all add: to_read_def min_def unat_of_nat_small)
qed

lemma CALLBACK_DATA_none:
  "http_errno (parser l) = HPE_OK \<Longrightarrow> marks l m = None \<Longrightarrow> CALLBACK_DATA cb e m till er data l k = k l"
  by (simp add: CALLBACK_DATA_def)

text \<open>The client's record of the body, seen from the local variables.\<close>

definition body_called :: "bytes \<Rightarrow> request_state exec \<Rightarrow> request_state exec" where
  "body_called bs l =
     l\<lparr>parser := (parser l)\<lparr>state := p_state l,
         user_data := (user_data (parser l))\<lparr>hp_body := hp_body (user_data (parser l)) @ bs\<rparr>\<rparr>,
       marks := (marks l)(body_mark := None)\<rparr>"

lemma CALLBACK_DATA_body:
  assumes "http_errno (parser l) = HPE_OK" "marks l body_mark = Some 0" "till \<le> length data"
  shows "CALLBACK_DATA (on_body HttpParser_settings) e body_mark till er data l k =
    k (body_called (take till data) l)"
  using assms by (simp add: CALLBACK_DATA_def HttpParser_settings_def after_callback_def OnBodyCallback_def
      callback_def body_called_def Let_def)

text \<open>The first two turns of a call in \<open>s_body_identity\<close>.\<close>

lemma body_first_turn:
  assumes st: "state pr = s_body_identity" and data: "data \<noteq> []"
  shows "exec_step S data (Head (exec_init pr)) = Switch ((exec_init pr)\<lparr>ch := data ! 0\<rparr>)"
  using data st by (simp add: loop_head_def exec_init_def PARSING_HEADER_def Let_def)

lemma take_body_all:
  assumes st: "state pr = s_body_identity" and len: "length data \<le> unat (content_length pr)" "data \<noteq> []"
  defines "l \<equiv> take_body data ((exec_init pr)\<lparr>ch := data ! 0\<rparr>)"
  shows "pos l = length data - 1" "p_state l = s_body_identity"
    "parser l = pr\<lparr>content_length := content_length pr - word_of_nat (length data)\<rparr>"
    "marks l = (\<lambda>_. None)(body_mark \<mapsto> 0)"
proof -
  have m: "initial_marks s_body_identity = (\<lambda>_. None)"
    by (auto simp: initial_marks_def url_state_def split: mark.split)
  note n = to_read_all [of data "(exec_init pr)\<lparr>ch := data ! 0\<rparr>"]
  show "pos l = length data - 1" "p_state l = s_body_identity"
    "parser l = pr\<lparr>content_length := content_length pr - word_of_nat (length data)\<rparr>"
    "marks l = (\<lambda>_. None)(body_mark \<mapsto> 0)"
    using n len st m by (simp_all add: l_def take_body_def Let_def exec_init_def MARK_def)
qed

lemma body_left:
  assumes "unat (content_length pr) = length data + k"
  shows "content_length pr - word_of_nat (length data) = (word_of_nat k :: u64)"
proof -
  have "content_length pr = word_of_nat (unat (content_length pr))" by simp
  then have "content_length pr = word_of_nat (length data + k)" using assms by simp
  then show ?thesis by simp
qed

lemma execute_body_part:
  assumes st: "state pr = s_body_identity" "http_errno pr = HPE_OK" and data: "data \<noteq> []"
    and len: "length data < unat (content_length pr)" and c: "content_length pr \<noteq> ULLONG_MAX"
  shows "http_parser_execute HttpParser_settings data pr = Some (Done (length data) (body_taken data pr))"
proof -
  let ?l = "(exec_init pr)\<lparr>ch := data ! 0\<rparr>" and ?S = HttpParser_settings
  let ?b = "(take_body data ?l)\<lparr>pos := length data\<rparr>"
  note b = take_body_all [OF st(1) less_imp_le [OF len] data]
  have nz: "content_length pr \<noteq> 0" "content_length pr - word_of_nat (length data) \<noteq> 0"
    using len to_read_all(2) [of data ?l] to_read_all(1) [of data ?l] by (auto simp: exec_init_def)
  have s2: "exec_step ?S data (Switch ?l) = Head ?b"
    using st c nz b data
    by (simp add: exec_switch_def st_body_identity_def Let_def break_out_def exec_init_def)
  have e: "http_errno (parser ?b) = HPE_OK" using b st by simp
  have "exec_step ?S data (Head ?b) = leftover ?S data ?b" by (simp add: loop_head_def)
  also have "\<dots> = RETURN (length data) (body_called data ?b)"
    using b e by (simp add: leftover_def marks_set_def Let_def CALLBACK_DATA_none CALLBACK_DATA_body
        body_called_def)
  also have "\<dots> = Done (length data) (body_taken data pr)"
    using b st by (simp add: RETURN_def body_called_def body_taken_def)
  finally have s3: "exec_step ?S data (Head ?b) = Done (length data) (body_taken data pr)" .
  have "while_option running (exec_step ?S data) (Head (exec_init pr)) =
      Some (Done (length data) (body_taken data pr))"
    by (subst while_option_unfold, simp only: running.simps if_True body_first_turn [OF st(1) data],
      subst while_option_unfold, simp only: running.simps if_True s2,
      subst while_option_unfold, simp only: running.simps if_True s3,
      subst while_option_unfold, simp)
  then show ?thesis using st(2) data by (simp add: http_parser_execute_def)
qed

text \<open>The parser behind a message whose last bytes were just read.\<close>

definition message_over :: "request_state \<Rightarrow> request_state http_parser \<Rightarrow> request_state http_parser" where
  "message_over r pr =
     pr\<lparr>content_length := 0, state := NEW_MESSAGE (pr\<lparr>content_length := 0\<rparr>), user_data := r\<rparr>"

lemma NEW_MESSAGE_frame [simp]:
  "NEW_MESSAGE (pr\<lparr>state := s\<rparr>) = NEW_MESSAGE pr" "NEW_MESSAGE (pr\<lparr>user_data := d\<rparr>) = NEW_MESSAGE pr"
  "NEW_MESSAGE (pr\<lparr>user_data := d, content_length := n\<rparr>) = NEW_MESSAGE (pr\<lparr>content_length := n\<rparr>)"
  by (simp_all add: NEW_MESSAGE_def http_should_keep_alive_def http_message_needs_eof_def start_state_def flag_def)

lemma execute_body_end:
  assumes st: "state pr = s_body_identity" "http_errno pr = HPE_OK" and data: "data \<noteq> []"
    and len: "unat (content_length pr) = length data" and c: "content_length pr \<noteq> ULLONG_MAX"
    and r: "on_message_end ((user_data pr)\<lparr>hp_body := hp_body (user_data pr) @ data\<rparr>) = Some r"
  shows "http_parser_execute HttpParser_settings data pr = Some (Done (length data) (message_over r pr))"
proof -
  let ?l = "(exec_init pr)\<lparr>ch := data ! 0\<rparr>" and ?S = HttpParser_settings
  let ?b = "UPDATE_STATE s_message_done (take_body data ?l)"
  let ?m = "body_called data ?b"
  note b = take_body_all [OF st(1) eq_refl [OF len [symmetric]] data]
  have z: "content_length pr - word_of_nat (length data) = 0" using body_left [of pr data 0] len by simp
  have nz: "content_length pr \<noteq> 0" using len data by auto
  have n: "Suc (length data - 1) = length data" using data by (cases data) simp_all
  have s2: "exec_step ?S data (Switch ?l) = Switch ?m"
    using st c nz z b n
    by (simp add: exec_switch_def st_body_identity_def Let_def exec_init_def CALLBACK_DATA_body)
  have pm: "parser ?m = pr\<lparr>content_length := 0, state := s_message_done,
      user_data := (user_data pr)\<lparr>hp_body := hp_body (user_data pr) @ data\<rparr>\<rparr>"
    "pos ?m = length data - 1" "p_state ?m = s_message_done" "marks ?m = (\<lambda>_. None)"
    using b z by (simp_all add: body_called_def)
  define l3 where "l3 = ?m\<lparr>parser := message_over r pr, p_state := state (message_over r pr)\<rparr>"
  have s3: "exec_step ?S data (Switch ?m) =
      (if upgrade pr then Done (length data) (message_over r pr) else Head (l3\<lparr>pos := length data\<rparr>))"
    using st r pm n
    by (simp add: exec_switch_def st_message_done_def message_complete_def CALLBACK_NOTIFY_def
        HttpParser_settings_def after_callback_def OnMessageCompleteCallback_def callback_def Let_def
        RETURN_def break_out_def message_over_def l3_def)
  have s4: "exec_step ?S data (Head (l3\<lparr>pos := length data\<rparr>)) = Done (length data) (message_over r pr)"
    using pm st by (simp add: l3_def loop_head_def leftover_def marks_set_def CALLBACK_DATA_none Let_def
        RETURN_def message_over_def)
  have stop: "while_option running (exec_step ?S data) (Done n p) = Some (Done n p)" for n p
    by (subst while_option_unfold) simp
  have tail: "while_option running (exec_step ?S data) (Head (l3\<lparr>pos := length data\<rparr>)) =
      Some (Done (length data) (message_over r pr))"
    by (subst while_option_unfold) (simp only: running.simps if_True s4 stop)
  have "while_option running (exec_step ?S data) (Head (exec_init pr)) =
      Some (Done (length data) (message_over r pr))"
    by (subst while_option_unfold, simp only: running.simps if_True body_first_turn [OF st(1) data],
      subst while_option_unfold, simp only: running.simps if_True s2,
      subst while_option_unfold, simp only: running.simps if_True s3)
     (simp add: stop tail)
  then show ?thesis using st(2) data by (simp add: http_parser_execute_def)
qed

text \<open>A body cut into any non-empty pieces.\<close>

lemma execute_body:
  "state pr = s_body_identity \<Longrightarrow> http_errno pr = HPE_OK \<Longrightarrow> content_length pr \<noteq> ULLONG_MAX \<Longrightarrow>
   cs \<noteq> [] \<Longrightarrow> \<forall>c \<in> set cs. c \<noteq> [] \<Longrightarrow> unat (content_length pr) = length (concat cs) \<Longrightarrow>
   on_message_end ((user_data pr)\<lparr>hp_body := hp_body (user_data pr) @ concat cs\<rparr>) = Some r \<Longrightarrow>
   execute_all HttpParser_settings cs pr = Some (Done (length (last cs)) (message_over r pr))"
proof (induction cs arbitrary: pr)
  case (Cons c cs)
  show ?case
  proof (cases "cs = []")
    case True
    then show ?thesis using Cons.prems execute_body_end [of pr c r] by simp
  next
    case False
    let ?p = "body_taken c pr"
    have k: "0 < length (concat cs)" using False Cons.prems(5) by (cases cs) auto
    have len: "unat (content_length pr) = length c + length (concat cs)" using Cons.prems(6) by simp
    have part: "http_parser_execute HttpParser_settings c pr = Some (Done (length c) ?p)"
      by (rule execute_body_part) (use Cons.prems len k in simp_all)
    have cl: "content_length ?p = word_of_nat (length (concat cs))"
      using body_left [OF len] by (simp add: body_taken_def)
    have small: "length (concat cs) < 2 ^ 64 - 1"
      using len unsigned_less [of "content_length pr", where 'a = nat] Cons.prems(5) by (cases c) auto
    have u: "unat (content_length ?p) = length (concat cs)"
      using small by (simp add: cl unat_of_nat_small)
    have "content_length ?p \<noteq> ULLONG_MAX"
      using u small by (auto simp: ULLONG_MAX_def unsigned_minus_1_eq_mask mask_eq_exp_minus_1)
    moreover have "message_over r ?p = message_over r pr"
      by (simp add: message_over_def body_taken_def)
    ultimately have "execute_all HttpParser_settings cs ?p = Some (Done (length (last cs)) (message_over r pr))"
      using Cons.IH [of ?p] Cons.prems False u by (simp add: body_taken_def)
    then show ?thesis using part False Cons.prems(2) by (simp add: body_taken_def)
  qed
qed simp

end
