(* ===== verification/Http_Properties.thy ===== *)
theory Http_Properties
  imports Http_Delivery Http_Url
begin

text \<open>
  Properties of the HTTP side: the request parser and its callbacks, URLs, the network buffer and the
  string helpers they use.
\<close>

section \<open>The parser\<close>

text \<open>
  C18: Whatever bytes arrive in whatever calls, \<open>http_parser_execute\<close> returns: it never reads outside the
  chunk or its tables, never reaches an assertion of its own and never loops; while it reports no error
  it keeps its invariant and has counted at most \<open>HTTP_MAX_HEADER_SIZE\<close> header bytes. This holds for all
  callbacks that leave the parser's fields alone; an abort inside a callback is the only other outcome.
\<close>

theorem http_execute_total:
  assumes "http_callbacks S" "\<forall>c \<in> set cs. c \<noteq> [] \<and> length c < 2 ^ 64"
  shows "execute_all S cs (http_parser_init d t) = Some Aborted \<or>
    (\<exists>n pr'. execute_all S cs (http_parser_init d t) = Some (Done n pr') \<and>
       (http_errno pr' = HPE_OK \<longrightarrow> parser_ok pr' \<and> nread pr' \<le> HTTP_MAX_HEADER_SIZE))"
  by (rule execute_all_returns [OF assms(1) init_parser_ok _ assms(2)]) (simp add: http_parser_init_def)

theorem http_execute_total_witness:
  "execute_all HttpParser_settings [[1, 2], [3]] (http_parser_init request_state_new HTTP_REQUEST) = Some Aborted \<or>
    (\<exists>n pr'. execute_all HttpParser_settings [[1, 2], [3]] (http_parser_init request_state_new HTTP_REQUEST) =
       Some (Done n pr'))"
  using http_execute_total [OF hp.http_callbacks_axioms, of "[[1, 2], [3]]" request_state_new HTTP_REQUEST] by auto

text \<open>
  C19: A body of known length reaches the client exactly, however it is cut into calls: after the last
  piece the collected body is the concatenation of the pieces, the message-complete callback has run once
  on it, and the parser is ready for the next message.
\<close>

theorem http_body_delivered:
  assumes "state pr = s_body_identity" "http_errno pr = HPE_OK" "content_length pr \<noteq> ULLONG_MAX"
    and "cs \<noteq> []" "\<forall>c \<in> set cs. c \<noteq> []" "unat (content_length pr) = length (concat cs)"
    and "on_message_end ((user_data pr)\<lparr>hp_body := hp_body (user_data pr) @ concat cs\<rparr>) = Some r"
  shows "execute_all HttpParser_settings cs pr = Some (Done (length (last cs)) (message_over r pr))"
  by (rule execute_body [OF assms])

definition example_body_parser :: "request_state http_parser" where
  "example_body_parser = HttpParser_new\<lparr>state := s_body_identity, content_length := 3, flags := F_CONTENTLENGTH\<rparr>"

theorem http_body_delivered_witness:
  "\<exists>r. execute_all HttpParser_settings [[65], [66, 67]] example_body_parser =
     Some (Done 2 (message_over r example_body_parser))"
proof -
  have "\<exists>r. on_message_end ((user_data example_body_parser)\<lparr>hp_body := hp_body (user_data example_body_parser) @
      concat [[65], [66, 67]]\<rparr>) = Some r"
    by (simp add: example_body_parser_def HttpParser_new_def http_parser_init_def request_state_new_def
        on_message_end_def set_status_def bstr_def)
  then obtain r where r: "on_message_end ((user_data example_body_parser)\<lparr>hp_body := hp_body (user_data example_body_parser) @
      concat [[65], [66, 67]]\<rparr>) = Some r" ..
  have "execute_all HttpParser_settings [[65], [66, 67]] example_body_parser =
      Some (Done (length (last [[65], [66, 67 :: u8]])) (message_over r example_body_parser))"
    by (rule http_body_delivered [OF _ _ _ _ _ _ r])
       (simp_all add: example_body_parser_def HttpParser_new_def http_parser_init_def ULLONG_MAX_def)
  then show ?thesis by auto
qed

section \<open>URLs\<close>

text \<open>
  URL parsing is total and memory safe: for every buffer, with and without CONNECT, from any previous
  contents of the result, every field that is reported lies inside the buffer.
\<close>

theorem parse_url_fields_inside:
  "\<exists>r u'. http_parser_parse_url buf conn u = Some (r, u') \<and> fields_end UNIV (length buf) u'"
  by (rule parse_url_ok)

text \<open>
  C20: Printing and parsing a URL are inverse: the schema, host, port digits, path and query of a printed
  URL are found again as the fields of the result, no other field is set, and the port number is the
  decimal value of its digits.
\<close>

theorem parse_url_roundtrip:
  assumes "url_ok sch host ds path query" "decimal 0 ds \<le> 65535"
  shows "\<exists>u'. http_parser_parse_url (print_url sch host ds path query) False u = Some (False, u') \<and>
    url_parts (print_url sch host ds path query) u' sch host ds path query \<and>
    unat (Http_Url.port u') = decimal 0 ds"
  by (rule parse_url_print [OF assms])

theorem parse_url_roundtrip_witness:
  "\<exists>u'. http_parser_parse_url (print_url (bstr ''http'') (bstr ''a.b'') (bstr ''80'') (bstr ''x/y'') (bstr ''q=1'')) False
       http_parser_url_init = Some (False, u') \<and> unat (Http_Url.port u') = 80"
proof -
  have ok: "url_ok (bstr ''http'') (bstr ''a.b'') (bstr ''80'') (bstr ''x/y'') (bstr ''q=1'')"
    by (simp add: url_ok_def print_url_def bstr_def) code_simp
  have d: "decimal 0 (bstr ''80'') = 80" by (simp add: bstr_def)
  then have "decimal 0 (bstr ''80'') \<le> 65535" by simp
  from parse_url_roundtrip [OF ok this, of http_parser_url_init] d show ?thesis by auto
qed

text \<open>
  C21: URL decoding undoes URL encoding, for every byte string and whatever follows it.
\<close>

theorem url_coding_roundtrip: "UrlDecode (UrlEncode s @ t) = map_option ((@) s) (UrlDecode t)"
  by (rule UrlDecode_UrlEncode)

text \<open>
  The parameters of a query string are recovered: for a path and any list of parameters with
  non-empty keys, encoded and joined as a query, the request has the decoded path and, for each key
  trimmed and in lower case, the trimmed value of its last occurrence.
\<close>

theorem query_parameters:
  assumes "UrlDecode u = Some path" "u \<noteq> []" "byte CHR ''?'' \<notin> set u"
    and "kvs \<noteq> []" "\<forall>kv \<in> set kvs. fst kv \<noteq> []"
  shows "on_url_line (u @ byte CHR ''?'' # join (byte CHR ''&'') (map form_pair kvs)) r =
    Some (r\<lparr>hp_url := path, hp_params := foldl form_param (hp_params r) kvs\<rparr>)"
  by (rule on_url_form [OF assms])

theorem query_parameters_witness:
  "\<exists>r. on_url_line (bstr ''/a'' @ byte CHR ''?'' # join (byte CHR ''&'') (map form_pair [(bstr ''X'', bstr ''a&b'')]))
     request_state_new = Some r \<and> hp_params r (bstr ''x'') = Some (bstr ''a&b'')"
proof -
  have "UrlDecode (bstr ''/a'') = Some (bstr ''/a'')" "bstr ''/a'' \<noteq> []" "byte CHR ''?'' \<notin> set (bstr ''/a'')"
    "[(bstr ''X'', bstr ''a&b'')] \<noteq> []" "\<forall>kv \<in> set [(bstr ''X'', bstr ''a&b'')]. fst kv \<noteq> []"
    by code_simp+
  from query_parameters [OF this, of request_state_new]
  have "on_url_line (bstr ''/a'' @ byte CHR ''?'' # join (byte CHR ''&'') (map form_pair [(bstr ''X'', bstr ''a&b'')]))
      request_state_new = Some (request_state_new\<lparr>hp_url := bstr ''/a'',
        hp_params := form_param (hp_params request_state_new) (bstr ''X'', bstr ''a&b'')\<rparr>)" by simp
  moreover have "form_param (hp_params request_state_new) (bstr ''X'', bstr ''a&b'') (bstr ''x'') = Some (bstr ''a&b'')"
    by code_simp
  ultimately show ?thesis by auto
qed

section \<open>The request parser of the server\<close>

text \<open>
  C22: A call of \<open>HttpParser::parser\<close> on a non-empty buffer returns unless a callback aborts: without an
  error the status is the one of the request, all bytes are consumed unless the connection is upgraded,
  and the parser keeps its invariant; with an error the status says so and the buffer is untouched.
\<close>

theorem request_parser_returns:
  assumes "parser_ok pr" "http_errno pr = HPE_OK" "buffer_ok buf" "readable buf \<noteq> []" "readableBytes buf < 2 ^ 31"
  shows "http_parser_execute HttpParser_settings (readable buf) pr = Some Aborted \<or>
    (\<exists>st pr' buf'. HttpParser_parser buf pr = Some (st, pr', buf') \<and> buffer_ok buf' \<and>
       (http_errno pr' = HPE_OK \<longrightarrow> parser_ok pr' \<and> st = parserStatus (user_data pr') \<and>
          (readable buf' = [] \<or> upgrade pr')) \<and>
       (http_errno pr' \<noteq> HPE_OK \<longrightarrow> st = PARSERERROR \<and> buf' = buf))"
  by (rule parser_returns [OF assms])

theorem request_parser_returns_witness:
  "\<exists>buf. buffer_append [71] (Buffer_new 16) = Some buf \<and>
     (http_parser_execute HttpParser_settings (readable buf) HttpParser_new = Some Aborted \<or>
      (\<exists>st pr' buf'. HttpParser_parser buf HttpParser_new = Some (st, pr', buf') \<and> buffer_ok buf'))"
proof -
  obtain buf where buf: "buffer_append [71] (Buffer_new 16) = Some buf" "buffer_ok buf" "readable buf = [71]"
    using append_ok [OF Buffer_new_ok(1), of "[71]" 16] by (auto simp: Buffer_new_ok)
  have "readableBytes buf = 1" using length_readable [OF buf(2)] by (simp add: buf(3))
  then have "readable buf \<noteq> []" "readableBytes buf < 2 ^ 31" by (simp_all add: buf(3))
  moreover have "parser_ok HttpParser_new" by (simp only: HttpParser_new_def init_parser_ok)
  moreover have "http_errno HttpParser_new = HPE_OK" by (simp add: HttpParser_new_def http_parser_init_def)
  ultimately show ?thesis using request_parser_returns [OF _ _ buf(2), of HttpParser_new] buf(1) by blast
qed

definition seen :: "bytes list \<Rightarrow> (parser_status \<times> bytes) option" where
  "seen cs =
     (case execute_all HttpParser_settings cs HttpParser_new of
        Some (Done n pr) \<Rightarrow> Some (parserStatus (user_data pr), hp_url (user_data pr))
      | _ \<Rightarrow> None)"

definition example_request :: bytes where
  "example_request = bstr ''GET /a?x=1 HTTP/1.1'' @ [13, 10] @ bstr ''Host: b'' @ [13, 10, 13, 10]"

text \<open>
  Where a request is cut decides whether it is understood. The same request is accepted in one call
  and when cut after the request line, is refused when cut inside a header name, and loses its path and
  its parameter when cut inside the URL: \<open>OnHeaderFieldCallback\<close> and \<open>OnUrlCallback\<close> take each callback for a whole
  token although \<open>http_parser\<close> may deliver a token in several pieces.
\<close>

theorem request_division_matters:
  "seen [example_request] = Some (PARSERED, bstr ''/a'') \<and>
   seen [take 21 example_request, drop 21 example_request] = Some (PARSERED, bstr ''/a'') \<and>
   seen [take 24 example_request, drop 24 example_request] = Some (PARSERERROR, bstr ''/a'') \<and>
   seen [take 6 example_request, drop 6 example_request] = Some (PARSERED, bstr ''x=1'')"
proof (intro conjI)
  show "seen [example_request] = Some (PARSERED, bstr ''/a'')" by code_simp
  show "seen [take 21 example_request, drop 21 example_request] = Some (PARSERED, bstr ''/a'')" by code_simp
  show "seen [take 24 example_request, drop 24 example_request] = Some (PARSERERROR, bstr ''/a'')" by code_simp
  show "seen [take 6 example_request, drop 6 example_request] = Some (PARSERED, bstr ''x=1'')" by code_simp
qed

text \<open>
  A chunk size may start with any byte from 0x80 on: the parser reads it as the digit zero, because
  the table of hexadecimal digits is only initialised for the first half of the byte values.
\<close>

definition chunked_parser :: "unit http_parser" where
  "chunked_parser = (http_parser_init () HTTP_REQUEST)\<lparr>state := s_chunk_size_start, flags := F_CHUNKED, nread := 0\<rparr>"

theorem chunk_size_high_byte:
  "(case http_parser_execute http_parser_settings_init [0x80] chunked_parser of
      Some (Done n pr) \<Rightarrow> n = 1 \<and> http_errno pr = HPE_OK \<and> state pr = s_chunk_size \<and> content_length pr = 0
    | _ \<Rightarrow> False) \<and>
   (case http_parser_execute http_parser_settings_init [0x67] chunked_parser of
      Some (Done n pr) \<Rightarrow> http_errno pr = HPE_INVALID_CHUNK_SIZE | _ \<Rightarrow> False)"
proof
  show "case http_parser_execute http_parser_settings_init [0x80] chunked_parser of
      Some (Done n pr) \<Rightarrow> n = 1 \<and> http_errno pr = HPE_OK \<and> state pr = s_chunk_size \<and> content_length pr = 0
    | _ \<Rightarrow> False" by code_simp
  show "case http_parser_execute http_parser_settings_init [0x67] chunked_parser of
      Some (Done n pr) \<Rightarrow> http_errno pr = HPE_INVALID_CHUNK_SIZE | _ \<Rightarrow> False" by code_simp
qed

section \<open>Buffer and strings\<close>


text \<open>Integers written to the buffer are read back through the byte-order conversions of both sides.\<close>

lemma buffer_integers:
  assumes "buffer_ok b" "readable b = []"
  shows "\<exists>b1 b2 b3 b4 b5 b6. appendInt64 x b = Some b1 \<and> appendInt32 y b1 = Some b2 \<and> appendInt16 z b2 = Some b3 \<and>
    Buffer_readInt64 b3 = Some (x, b4) \<and> Buffer_readInt32 b4 = Some (y, b5) \<and> Buffer_readInt16 b5 = Some (z, b6) \<and>
    readable b6 = []"
proof -
  obtain b1 where b1: "appendInt64 x b = Some b1" "buffer_ok b1" "readable b1 = to_mem 8 (flipBytes64 x)"
    using append_ok [OF assms(1)] assms(2) unfolding appendInt64_def by fastforce
  obtain b2 where b2: "appendInt32 y b1 = Some b2" "buffer_ok b2"
    "readable b2 = to_mem 8 (flipBytes64 x) @ to_mem 4 (flipBytes32 y)"
    using append_ok [OF b1(2)] b1(3) unfolding appendInt32_def by fastforce
  obtain b3 where b3: "appendInt16 z b2 = Some b3" "buffer_ok b3"
    "readable b3 = to_mem 8 (flipBytes64 x) @ to_mem 4 (flipBytes32 y) @ to_mem 2 (flipBytes16 z)"
    using append_ok [OF b2(2)] b2(3) unfolding appendInt16_def by fastforce
  obtain b4 where b4: "Buffer_readInt64 b3 = Some (x, b4)" "buffer_ok b4"
    "readable b4 = to_mem 4 (flipBytes32 y) @ to_mem 2 (flipBytes16 z)"
    using readInt_ok(1) [OF b3(2,3)] by blast
  obtain b5 where b5: "Buffer_readInt32 b4 = Some (y, b5)" "buffer_ok b5" "readable b5 = to_mem 2 (flipBytes16 z) @ []"
    using readInt_ok(2) [OF b4(2,3)] by auto
  obtain b6 where "Buffer_readInt16 b5 = Some (z, b6)" "readable b6 = []"
    using readInt_ok(3) [OF b5(2,3)] by blast
  with b1 b2 b3 b4 b5 show ?thesis by blast
qed

end
