(* ===== verification/Http_Ingest.thy ===== *)
theory Http_Ingest
  imports Config_Index Pipeline C_Double
begin

text \<open>
  The HTTP server for slow device data (\<open>src/src/adapter/HttpIngest.cpp\<close>): the flat JSON parser, the header
  parser, and the callbacks that collect a request per connection, turn it into one row and answer it.
  Text is a list of characters (bytes). A connection pointer is a number; sent responses are kept in a log,
  each followed by \<open>shutdown\<close>. The value \<open>llround\<close> gives outside its range is unspecified: it is the argument \<open>u\<close>.
\<close>

section \<open>Flat JSON\<close>

definition json_space :: "char \<Rightarrow> bool" where
  "json_space c \<longleftrightarrow> c = CHR 0x20 \<or> c = CHR 0x09 \<or> c = CHR 0x0D \<or> c = CHR 0x0A"

function skipWs :: "string \<Rightarrow> nat \<Rightarrow> nat" where
  "skipWs body i = (if i < length body \<and> json_space (body ! i) then skipWs body (Suc i) else i)"
  by pat_completeness auto
termination by (relation "measure (\<lambda>(body, i). length body - i)") auto

declare skipWs.simps [simp del]

definition unescape :: "char \<Rightarrow> char" where
  "unescape e =
     (if e = CHR ''n'' then CHR 0x0A else if e = CHR ''t'' then CHR 0x09 else if e = CHR ''r'' then CHR 0x0D else e)"

text \<open>The loop of \<open>parseString\<close> behind the opening quote.\<close>

function string_loop :: "string \<Rightarrow> nat \<Rightarrow> string \<Rightarrow> (string \<times> nat) option" where
  "string_loop body i out =
     (if i < length body then
        if body ! i = CHR 0x5C then
          (if Suc i < length body then string_loop body (Suc (Suc i)) (out @ [unescape (body ! Suc i)]) else None)
        else if body ! i = CHR 0x22 then Some (out, Suc i)
        else string_loop body (Suc i) (out @ [body ! i])
      else None)"
  by pat_completeness auto
termination by (relation "measure (\<lambda>(body, i, out). length body - i)") auto

declare string_loop.simps [simp del]

definition parseString :: "string \<Rightarrow> nat \<Rightarrow> (string \<times> nat) option" where
  "parseString body i =
     (if i < length body \<and> body ! i = CHR 0x22 then string_loop body (Suc i) [] else None)"

datatype json_value = JString | JNull | JNum double

definition literal_at :: "string \<Rightarrow> string \<Rightarrow> nat \<Rightarrow> bool" where
  "literal_at lit body i \<longleftrightarrow> take (length lit) (drop i body) = lit"

definition parse_value :: "string \<Rightarrow> nat \<Rightarrow> (json_value \<times> nat) option" where
  "parse_value body i =
     (if i < length body \<and> body ! i = CHR 0x22 then map_option (\<lambda>(ignored, j). (JString, j)) (parseString body i)
      else if literal_at ''null'' body i then Some (JNull, i + 4)
      else if literal_at ''true'' body i then Some (JNum 0x3FF0000000000000, i + 4)
      else if literal_at ''false'' body i then Some (JNum 0, i + 5)
      else map_option (\<lambda>(num, n). (JNum num, i + n)) (strtod (takeWhile (\<lambda>c. c \<noteq> CHR 0x00) (drop i body))))"

definition field_index :: "field_desc list \<Rightarrow> string \<Rightarrow> nat option" where
  "field_index fs key = find (\<lambda>k. fd_name (fs ! k) = key) [0 ..< length fs]"

definition store_cell :: "i64 \<Rightarrow> field_desc \<Rightarrow> json_value \<Rightarrow> cell \<Rightarrow> cell" where
  "store_cell u f v c =
     (case v of
        JNum num \<Rightarrow>
          \<lparr>cell_v = (if fd_asDouble f then num
                     else if fd_kind f = Bool then (if f64_is_zero num then 0 else 1)
                     else (case llround num of Some x \<Rightarrow> word_of_int x | None \<Rightarrow> u)),
           cell_isNull = 0\<rparr>
      | _ \<Rightarrow> c\<lparr>cell_isNull := 1\<rparr>)"

text \<open>Key, colon and value of one member.\<close>

definition json_member :: "string \<Rightarrow> nat \<Rightarrow> (string \<times> json_value \<times> nat) option" where
  "json_member body i =
     do {
       (key, i2) \<leftarrow> parseString body (skipWs body i);
       let i3 = skipWs body i2;
       if i3 < length body \<and> body ! i3 = CHR '':'' then
         do {
           (v, i4) \<leftarrow> parse_value body (skipWs body (Suc i3));
           Some (key, v, i4)
         }
       else None
     }"

definition assign_member ::
  "i64 \<Rightarrow> frame_spec \<Rightarrow> string \<Rightarrow> json_value \<Rightarrow> int \<times> cell list \<Rightarrow> (int \<times> cell list) option"
where
  "assign_member u spec key v mc =
     (case field_index (fs_fields spec) key of
        None \<Rightarrow> Some mc
      | Some k \<Rightarrow>
          if k < length (snd mc)
          then Some (fst mc + 1, (snd mc)[k := store_cell u (fs_fields spec ! k) v (snd mc ! k)]) else None)"

lemma skipWs_ge: "i \<le> skipWs body i"
proof (induction body i rule: skipWs.induct)
  case (1 body i)
  then show ?case by (subst skipWs.simps) auto
qed

lemma string_loop_end: "string_loop body i out = Some (s, j) \<Longrightarrow> i < j \<and> j \<le> length body"
proof (induction body i out rule: string_loop.induct)
  case (1 body i out)
  have i: "i < length body" using "1.prems" by (subst (asm) string_loop.simps) (auto split: if_splits)
  from "1.prems" show ?case
    by (subst (asm) string_loop.simps) (use i in \<open>auto split: if_splits dest!: "1.IH" [OF i]\<close>)
qed

lemma parseString_end: "parseString body i = Some (s, j) \<Longrightarrow> i < j \<and> j \<le> length body"
  by (auto simp: parseString_def split: if_splits dest!: string_loop_end)

lemma parse_value_ge: "parse_value body i = Some (v, j) \<Longrightarrow> i \<le> j"
  by (auto simp: parse_value_def split: if_splits dest!: parseString_end)

lemma json_member_gt: "json_member body i = Some (key, v, j) \<Longrightarrow> i < j"
proof -
  assume "json_member body i = Some (key, v, j)"
  then obtain i2 where k: "parseString body (skipWs body i) = Some (key, i2)"
    and v: "parse_value body (skipWs body (Suc (skipWs body i2))) = Some (v, j)"
    by (auto simp: json_member_def bind_Some_iff Let_def split: if_splits)
  have "i \<le> skipWs body i" "skipWs body i < i2" "i2 \<le> skipWs body i2"
    "Suc (skipWs body i2) \<le> skipWs body (Suc (skipWs body i2))" "skipWs body (Suc (skipWs body i2)) \<le> j"
    using skipWs_ge parseString_end [OF k] parse_value_ge [OF v] by blast+
  then show "i < j" by linarith
qed

lemma json_loop_progress:
  assumes "json_member body i = Some (key, v, j)" "skipWs body j < length body"
  shows "length body - Suc (skipWs body j) < length body - i"
proof -
  have "i < j" "j \<le> skipWs body j" using json_member_gt [OF assms(1)] skipWs_ge by blast+
  with assms(2) show ?thesis by linarith
qed

text \<open>The \<open>for\<close> loop; \<open>-1\<close> is a syntax error.\<close>

function json_loop :: "i64 \<Rightarrow> frame_spec \<Rightarrow> string \<Rightarrow> nat \<Rightarrow> int \<times> cell list \<Rightarrow> (int \<times> cell list) option" where
  "json_loop u spec body i mc =
     (case json_member body i of
        None \<Rightarrow> Some (- 1, snd mc)
      | Some (key, v, i4) \<Rightarrow>
          (case assign_member u spec key v mc of
             None \<Rightarrow> None
           | Some mc' \<Rightarrow>
               let i5 = skipWs body i4
               in if i5 < length body \<and> body ! i5 = CHR '','' then json_loop u spec body (Suc i5) mc'
                  else if i5 < length body \<and> body ! i5 = CHR ''}'' then Some mc'
                  else Some (- 1, snd mc')))"
  by pat_completeness auto
termination
  by (relation "measure (\<lambda>(u, spec, body, i, mc). length body - i)")
     (auto dest!: json_loop_progress)

declare json_loop.simps [simp del]

definition parseJsonFields :: "i64 \<Rightarrow> string \<Rightarrow> frame_spec \<Rightarrow> cell list \<Rightarrow> (int \<times> cell list) option" where
  "parseJsonFields u body spec cells =
     (let i = skipWs body 0
      in if \<not> (i < length body \<and> body ! i = CHR ''{'') then Some (- 1, cells)
         else let j = skipWs body (Suc i)
         in if j < length body \<and> body ! j = CHR ''}'' then Some (0, cells)
            else json_loop u spec body j (0, cells))"

section \<open>The header block\<close>

definition CRLF :: string where "CRLF = [CHR 0x0D, CHR 0x0A]"

text \<open>\<open>std::string::find\<close>\<close>

definition find_sub :: "string \<Rightarrow> string \<Rightarrow> nat \<Rightarrow> nat option" where
  "find_sub pat s from = find (\<lambda>i. literal_at pat s i) [from ..< Suc (length s) - length pat]"

definition strtoul10 :: "string \<Rightarrow> nat" where
  "strtoul10 t =
     (let (neg, s) = strip_sign (dropWhile isspace t)
      in case scan_number (10, s) of
           None \<Rightarrow> 0
         | Some v \<Rightarrow> if 2 ^ 64 \<le> v then 2 ^ 64 - 1 else if neg \<and> v \<noteq> 0 then 2 ^ 64 - v else v)"

definition kCL :: string where "kCL = ''content-length:''"

lemma find_sub_ge: "find_sub pat s from = Some e \<Longrightarrow> from \<le> e"
  by (auto simp: find_sub_def find_Some_iff)

function header_loop :: "string \<Rightarrow> nat \<Rightarrow> nat \<Rightarrow> nat" where
  "header_loop head pos contentLen =
     (if pos < length head then
        let e = (case find_sub CRLF head pos of Some e \<Rightarrow> e | None \<Rightarrow> length head);
            h = take (e - pos) (drop pos head)
        in header_loop head (e + 2) (if has_prefix kCL h then strtoul10 (drop (length kCL) h) else contentLen)
      else contentLen)"
  by pat_completeness auto
termination
  by (relation "measure (\<lambda>(head, pos, n). length head - pos)") (auto split: option.splits dest: find_sub_ge)

declare header_loop.simps [simp del]

definition parseHeaderBlock :: "string \<Rightarrow> (nat \<times> string) option" where
  "parseHeaderBlock head =
     (case find_sub CRLF head 0 of
        None \<Rightarrow> None
      | Some lineEnd \<Rightarrow>
          let line = take lineEnd head;
              method = (case find_char CHR '' '' 0 line of None \<Rightarrow> line | Some sp \<Rightarrow> take sp line)
          in Some (header_loop head (lineEnd + 2) 0, method))"

definition statusText :: "int \<Rightarrow> string" where
  "statusText status =
     (if status = 200 then ''200 OK''
      else if status = 400 then ''400 Bad Request''
      else if status = 404 then ''404 Not Found''
      else if status = 405 then ''405 Method Not Allowed''
      else if status = 413 then ''413 Payload Too Large''
      else ''500 Internal Server Error'')"

section \<open>The server\<close>

definition kMaxRequest :: nat where "kMaxRequest = 1024 * 1024"

record conn_state =
  cs_buf :: string
  cs_headerParsed :: bool
  cs_contentLen :: nat

definition conn_state_new :: conn_state where
  "conn_state_new = \<lparr>cs_buf = [], cs_headerParsed = False, cs_contentLen = 0\<rparr>"

record http_ingest =
  hi_port :: u16
  hi_conns :: "nat \<Rightarrow> conn_state option"
  hi_write :: "row_batch list"
  hi_stats :: adapter_stats
  hi_sent :: "(nat \<times> string) list"

definition http_ingest_new :: "adapter_stats \<Rightarrow> http_ingest" where
  "http_ingest_new stats =
     \<lparr>hi_port = 0, hi_conns = (\<lambda>_. None), hi_write = [], hi_stats = stats, hi_sent = []\<rparr>"

text \<open>\<open>start\<close>: the configured port, else the first http port of the devices; without one nothing is started.\<close>

definition http_start :: "config_db \<Rightarrow> u16 \<Rightarrow> http_ingest \<Rightarrow> http_ingest" where
  "http_start db cfgPort s =
     (if cfgPort \<noteq> 0 then s\<lparr>hi_port := cfgPort\<rparr>
      else case cdb_httpListenPorts db of [] \<Rightarrow> s | p # ps \<Rightarrow> s\<lparr>hi_port := p\<rparr>)"

definition http_stop :: "http_ingest \<Rightarrow> http_ingest" where
  "http_stop s = s\<lparr>hi_conns := (\<lambda>_. None)\<rparr>"

definition http_onConnection :: "nat \<Rightarrow> bool \<Rightarrow> http_ingest \<Rightarrow> http_ingest" where
  "http_onConnection conn connected s =
     s\<lparr>hi_conns := (hi_conns s)(conn := (if connected then Some conn_state_new else None))\<rparr>"

definition response_text :: "int \<Rightarrow> string \<Rightarrow> string" where
  "response_text status body =
     ''HTTP/1.1 '' @ statusText status @ CRLF @ ''Content-Type: application/json'' @ CRLF @ ''Content-Length: '' @
     to_string (length body) @ CRLF @ ''Connection: close'' @ CRLF @ CRLF @ body"

definition sendResponse :: "nat \<Rightarrow> int \<Rightarrow> string \<Rightarrow> http_ingest \<Rightarrow> http_ingest" where
  "sendResponse conn status body s = s\<lparr>hi_sent := hi_sent s @ [(conn, response_text status body)]\<rparr>"

definition http_error :: "nat \<Rightarrow> int \<Rightarrow> string \<Rightarrow> http_ingest \<Rightarrow> http_ingest" where
  "http_error conn status body s =
     sendResponse conn status body
       (s\<lparr>hi_stats := (hi_stats s)\<lparr>as_httpErrors := as_httpErrors (hi_stats s) + 1\<rparr>\<rparr>)"

text \<open>The JSON texts of the answers, with \<open>`\<close> for the quote.\<close>

definition json_text :: "string \<Rightarrow> string" where
  "json_text t = map (\<lambda>c. if c = CHR 0x60 then CHR 0x22 else c) t"

definition to_ms :: "i64 \<Rightarrow> i64" where
  "to_ms us = word_of_int (if sint us < 0 then - (- sint us div 1000) else sint us div 1000)"

definition http_batch :: "device_desc \<Rightarrow> i64 \<Rightarrow> row_batch" where
  "http_batch dev us =
     \<lparr>rb_dev = Some dev, rb_ts = [to_ms us],
      rb_cells = replicate (fieldCount dev) (cell_default\<lparr>cell_isNull := 1\<rparr>)\<rparr>"

definition accept_row :: "nat \<Rightarrow> device_desc \<Rightarrow> row_batch \<Rightarrow> int \<Rightarrow> http_ingest \<Rightarrow> http_ingest" where
  "accept_row conn dev batch matched s =
     sendResponse conn 200
       (json_text ''{`ok`:true,`device`:`'' @ dd_deviceId dev @ json_text ''`,`matched`:'' @ to_string_int matched @ ''}'')
       (s\<lparr>hi_write := hi_write s @ [batch],
          hi_stats := (hi_stats s)\<lparr>as_httpRequests := as_httpRequests (hi_stats s) + 1,
                                   as_httpRows := as_httpRows (hi_stats s) + 1\<rparr>\<rparr>)"

definition handleRequest ::
  "i64 \<Rightarrow> config_db \<Rightarrow> nat \<Rightarrow> string \<Rightarrow> u16 \<Rightarrow> string \<Rightarrow> i64 \<Rightarrow> http_ingest \<Rightarrow> http_ingest option"
where
  "handleRequest u db conn ip port body us s =
     (case matchHttpDevice db ip port (hi_port s) of
        None \<Rightarrow> Some (http_error conn 404 (json_text ''{`ok`:false,`error`:`unknown device`}'') s)
      | Some dev \<Rightarrow>
          if fs_fields (dd_spec dev) = []
          then Some (http_error conn 400 (json_text ''{`ok`:false,`error`:`no field layout`}'') s)
          else do {
            let batch = http_batch dev us;
            (matched, cells) \<leftarrow> parseJsonFields u body (dd_spec dev) (rb_cells batch);
            if matched < 0 then Some (http_error conn 400 (json_text ''{`ok`:false,`error`:`json`}'') s)
            else Some (accept_row conn dev (batch\<lparr>rb_cells := cells\<rparr>) matched s)
          })"

definition put_conn :: "nat \<Rightarrow> conn_state \<Rightarrow> http_ingest \<Rightarrow> http_ingest" where
  "put_conn conn st s = s\<lparr>hi_conns := (hi_conns s)(conn \<mapsto> st)\<rparr>"

definition http_onMessage ::
  "i64 \<Rightarrow> config_db \<Rightarrow> nat \<Rightarrow> string \<Rightarrow> u16 \<Rightarrow> string \<Rightarrow> i64 \<Rightarrow> http_ingest \<Rightarrow> http_ingest option"
where
  "http_onMessage u db conn ip port data us s =
     (if data = [] then Some s
      else
        let s1 = s\<lparr>hi_stats := (hi_stats s)\<lparr>as_bytesIn := as_bytesIn (hi_stats s) + word_of_nat (length data)\<rparr>\<rparr>;
            st0 = (case hi_conns s conn of Some st \<Rightarrow> st | None \<Rightarrow> conn_state_new);
            st = st0\<lparr>cs_buf := cs_buf st0 @ data\<rparr>;
            body_of = (\<lambda>st2. if length (cs_buf st2) < cs_contentLen st2 then Some (put_conn conn st2 s1)
                             else handleRequest u db conn ip port (take (cs_contentLen st2) (cs_buf st2)) us
                                    (put_conn conn st2 s1))
        in if kMaxRequest < length (cs_buf st)
           then Some (http_error conn 413 (json_text ''{`ok`:false}'') (put_conn conn st s1))
           else if cs_headerParsed st then body_of st
           else case find_sub (CRLF @ CRLF) (cs_buf st) 0 of
             None \<Rightarrow> Some (put_conn conn st s1)
           | Some hdrEnd \<Rightarrow>
               (case parseHeaderBlock (take hdrEnd (cs_buf st)) of
                  None \<Rightarrow> Some (http_error conn 400 (json_text ''{`ok`:false,`error`:`header`}'') (put_conn conn st s1))
                | Some (contentLen, method) \<Rightarrow>
                    if method \<noteq> ''POST''
                    then Some (http_error conn 405 (json_text ''{`ok`:false,`error`:`only POST`}'') (put_conn conn st s1))
                    else body_of (st\<lparr>cs_headerParsed := True, cs_contentLen := contentLen,
                                     cs_buf := drop (hdrEnd + 4) (cs_buf st)\<rparr>)))"

end
