(* ===== verification/Http_Rows.thy ===== *)
theory Http_Rows
  imports Http_Ingest EtherDB_Writer
begin

text \<open>
  What \<open>HttpIngest\<close> makes of its input: JSON parsing stays inside its memory, a printed object is read back
  into the cells of the row, a request is handled once when its last byte arrives however it is divided,
  and, after that, again with every further message.
\<close>

section \<open>Memory\<close>

lemma field_index_bound: "field_index fs key = Some k \<Longrightarrow> k < length fs"
  by (auto simp: field_index_def find_Some_iff)

lemma assign_member_ok:
  assumes "length (fs_fields spec) \<le> length (snd mc)"
  shows "\<exists>m cells. assign_member u spec key v mc = Some (m, cells) \<and> length cells = length (snd mc) \<and>
    fst mc \<le> m \<and> m \<le> fst mc + 1"
  using assms field_index_bound [of "fs_fields spec" key]
  by (cases mc) (fastforce simp: assign_member_def split: option.split)

lemma json_loop_ok:
  "length (fs_fields spec) \<le> length (snd mc) \<Longrightarrow> - 1 \<le> fst mc \<Longrightarrow>
   \<exists>m cells. json_loop u spec body i mc = Some (m, cells) \<and> length cells = length (snd mc) \<and> - 1 \<le> m"
proof (induction u spec body i mc rule: json_loop.induct)
  case (1 u spec body i mc)
  show ?case
  proof (cases "json_member body i")
    case None
    then show ?thesis by (subst json_loop.simps) simp
  next
    case (Some r)
    obtain key v j where r: "r = (key, v, j)" by (cases r)
    obtain m cells where a: "assign_member u spec key v mc = Some (m, cells)" "length cells = length (snd mc)" "fst mc \<le> m"
      using assign_member_ok [OF "1.prems"(1)] by blast
    have "\<exists>m' cells'. json_loop u spec body (Suc (skipWs body j)) (m, cells) = Some (m', cells') \<and>
        length cells' = length (snd mc) \<and> - 1 \<le> m'"
      if "skipWs body j < length body \<and> body ! skipWs body j = CHR '',''"
      using "1.IH" [OF _ refl refl a(1) refl that] Some r a "1.prems" by simp
    with Some r a "1.prems"(2) show ?thesis by (subst json_loop.simps) (auto simp: Let_def)
  qed
qed

lemma parseJsonFields_ok:
  "length (fs_fields spec) \<le> length cells \<Longrightarrow>
   \<exists>m cells'. parseJsonFields u body spec cells = Some (m, cells') \<and> length cells' = length cells \<and> - 1 \<le> m"
  using json_loop_ok [of spec "(0, cells)"] by (simp add: parseJsonFields_def Let_def)

section \<open>Printed objects\<close>

definition json_key_value :: "string \<times> int \<Rightarrow> string" where
  "json_key_value kv = CHR 0x22 # fst kv @ CHR 0x22 # CHR '':'' # to_string_int (snd kv)"

fun json_members :: "(string \<times> int) list \<Rightarrow> string" where
  "json_members [] = []"
| "json_members [kv] = json_key_value kv"
| "json_members (kv # kv' # kvs) = json_key_value kv @ CHR '','' # json_members (kv' # kvs)"

definition json_object :: "(string \<times> int) list \<Rightarrow> string" where
  "json_object kvs = CHR ''{'' # json_members kvs @ ''}''"

definition plain_key :: "string \<Rightarrow> bool" where
  "plain_key k \<longleftrightarrow> CHR 0x22 \<notin> set k \<and> CHR 0x5C \<notin> set k"

definition member_cell :: "field_desc \<Rightarrow> int \<Rightarrow> cell" where
  "member_cell f v =
     \<lparr>cell_v = (if fd_asDouble f then int_f64 v else if fd_kind f = Bool then (if v = 0 then 0 else 1) else word_of_int v),
      cell_isNull = 0\<rparr>"

definition store_member :: "frame_spec \<Rightarrow> cell list \<Rightarrow> string \<times> int \<Rightarrow> cell list" where
  "store_member spec cells kv =
     (case field_index (fs_fields spec) (fst kv) of
        None \<Rightarrow> cells
      | Some j \<Rightarrow> cells[j := member_cell (fs_fields spec ! j) (snd kv)])"

definition known_member :: "frame_spec \<Rightarrow> string \<times> int \<Rightarrow> bool" where
  "known_member spec kv \<longleftrightarrow> field_index (fs_fields spec) (fst kv) \<noteq> None"

lemma drop_Cons_nth: "drop i s = c # r \<Longrightarrow> i < length s \<and> s ! i = c \<and> drop (Suc i) s = r"
  by (metis drop_eq_Nil list.distinct(1) not_less Cons_nth_drop_Suc list.inject)

lemma drop_append_shift: "drop i s = a @ r \<Longrightarrow> drop (i + length a) s = r"
  by (metis add.commute append_eq_conv_conj drop_drop)

lemma skipWs_none: "drop i s = c # r \<Longrightarrow> \<not> json_space c \<Longrightarrow> skipWs s i = i"
  using drop_Cons_nth [of i s c r] by (subst skipWs.simps) auto

lemma string_loop_key:
  "drop i s = k @ CHR 0x22 # r \<Longrightarrow> plain_key k \<Longrightarrow> string_loop s i out = Some (out @ k, i + length k + 1)"
proof (induction k arbitrary: i out)
  case Nil
  then show ?case using drop_Cons_nth [of i s "CHR 0x22" r] by (subst string_loop.simps) simp
next
  case (Cons c k)
  have c: "i < length s" "s ! i = c" "drop (Suc i) s = k @ CHR 0x22 # r"
    using drop_Cons_nth [of i s c "k @ CHR 0x22 # r"] Cons.prems(1) by auto
  have "plain_key k" "c \<noteq> CHR 0x22" "c \<noteq> CHR 0x5C" using Cons.prems(2) by (auto simp: plain_key_def)
  then show ?case using c Cons.IH [OF c(3)] by (subst string_loop.simps) simp
qed

lemma parseString_key:
  "drop i s = CHR 0x22 # k @ CHR 0x22 # r \<Longrightarrow> plain_key k \<Longrightarrow> parseString s i = Some (k, i + length k + 2)"
  using drop_Cons_nth [of i s "CHR 0x22" "k @ CHR 0x22 # r"] string_loop_key [of "Suc i" s k r "[]"]
  by (simp add: parseString_def)

lemma to_string_int_head:
  obtains c r where "to_string_int v = c # r" "isdigit c \<or> c = CHR ''-''"
proof (cases "v < 0")
  case True
  then show ?thesis by (intro that [of "CHR ''-''"]) (simp_all add: to_string_int_def)
next
  case False
  obtain c r where t: "to_string (nat v) = c # r" by (cases "to_string (nat v)") auto
  then have "isdigit c" using to_string_digits [of c "nat v"] by simp
  with False t show ?thesis by (intro that [of c r]) (simp_all add: to_string_int_def)
qed

lemma no_nul_number: "CHR 0x00 \<notin> set (to_string_int v)"
  using to_string_digits by (fastforce simp: to_string_int_def isdigit_def code_def split: if_splits)

lemma parse_value_number:
  assumes d: "drop i s = to_string_int v @ r" and v: "\<bar>v\<bar> < 2 ^ 53" "ends_number r"
  shows "parse_value s i = Some (JNum (int_f64 v), i + length (to_string_int v))"
proof -
  obtain c t where t: "to_string_int v = c # t" "isdigit c \<or> c = CHR ''-''" by (rule to_string_int_head)
  have i: "i < length s" "s ! i = c" using drop_Cons_nth [of i s c "t @ r"] d t(1) by auto
  have c: "c \<noteq> CHR 0x22" "c \<noteq> CHR ''n''" "c \<noteq> CHR ''t''" "c \<noteq> CHR ''f''"
    using t(2) by (auto simp: isdigit_def code_def)
  then have lit: "\<not> literal_at ''null'' s i" "\<not> literal_at ''true'' s i" "\<not> literal_at ''false'' s i"
    using d t(1) by (simp_all add: literal_at_def)
  have "takeWhile (\<lambda>c. c \<noteq> CHR 0x00) (to_string_int v @ r) = to_string_int v @ takeWhile (\<lambda>c. c \<noteq> CHR 0x00) r"
    using no_nul_number [of v] by (intro takeWhile_append2) metis
  moreover have "ends_number (takeWhile (\<lambda>c. c \<noteq> CHR 0x00) r)"
    using v(2) by (auto simp: ends_number_def split: list.splits)
  ultimately have "strtod (takeWhile (\<lambda>c. c \<noteq> CHR 0x00) (drop i s)) = Some (int_f64 v, length (to_string_int v))"
    using strtod_to_string [OF v(1)] d by simp
  then show ?thesis using i c lit by (simp add: parse_value_def)
qed

lemma json_member_printed:
  assumes d: "drop i s = json_key_value kv @ r" and k: "plain_key (fst kv)" "\<bar>snd kv\<bar> < 2 ^ 53" "ends_number r"
  shows "json_member s i = Some (fst kv, JNum (int_f64 (snd kv)), i + length (json_key_value kv))"
proof -
  let ?n = "to_string_int (snd kv)"
  obtain c t where t: "?n = c # t" "isdigit c \<or> c = CHR ''-''" by (rule to_string_int_head)
  have d1: "drop i s = CHR 0x22 # fst kv @ CHR 0x22 # (CHR '':'' # ?n @ r)" using d by (simp add: json_key_value_def)
  have d2: "drop (i + length (fst kv) + 2) s = CHR '':'' # ?n @ r"
    using drop_append_shift [of i s "CHR 0x22 # fst kv @ [CHR 0x22]" "CHR '':'' # ?n @ r"] d1 by (simp add: algebra_simps)
  have d3: "drop (Suc (i + length (fst kv) + 2)) s = ?n @ r" using drop_Cons_nth [OF d2] by simp
  have sp: "\<not> json_space (CHR 0x22)" "\<not> json_space (CHR '':'')" "\<not> json_space c"
    using t(2) by (auto simp: json_space_def isdigit_def code_def)
  have w: "skipWs s i = i" "skipWs s (i + length (fst kv) + 2) = i + length (fst kv) + 2"
    "skipWs s (Suc (i + length (fst kv) + 2)) = Suc (i + length (fst kv) + 2)"
    using skipWs_none [OF d1 sp(1)] skipWs_none [OF d2 sp(2)] d3 t(1) skipWs_none [of _ s c "t @ r", OF _ sp(3)] by auto
  have colon: "i + length (fst kv) + 2 < length s" "s ! (i + length (fst kv) + 2) = CHR '':''"
    using drop_Cons_nth [OF d2] by simp_all
  have "json_member s i = Some (fst kv, JNum (int_f64 (snd kv)), Suc (i + length (fst kv) + 2) + length ?n)"
    by (simp only: json_member_def w parseString_key [OF d1 k(1)] bind.bind_lunit prod.case Let_def colon
        parse_value_number [OF d3 k(2,3)] simp_thms if_True)
  then show ?thesis by (simp add: json_key_value_def)
qed

lemma assign_member_number:
  assumes "\<bar>snd kv\<bar> < 2 ^ 53" "length (fs_fields spec) \<le> length cells"
  shows "assign_member u spec (fst kv) (JNum (int_f64 (snd kv))) (m, cells) =
    Some (m + (if known_member spec kv then 1 else 0), store_member spec cells kv)"
proof -
  have "store_cell u f (JNum (int_f64 (snd kv))) c = member_cell f (snd kv)" for f c
    using llround_int [OF assms(1)] by (simp add: store_cell_def member_cell_def)
  then show ?thesis
    using assms(2) field_index_bound [of "fs_fields spec" "fst kv"]
    by (auto simp: assign_member_def store_member_def known_member_def split: option.split)
qed

lemma length_store_member [simp]: "length (store_member spec cells kv) = length cells"
  by (simp add: store_member_def split: option.split)

lemma json_loop_printed:
  "drop i s = json_members kvs @ CHR ''}'' # r \<Longrightarrow> kvs \<noteq> [] \<Longrightarrow>
   \<forall>kv \<in> set kvs. plain_key (fst kv) \<and> \<bar>snd kv\<bar> < 2 ^ 53 \<Longrightarrow> length (fs_fields spec) \<le> length cells \<Longrightarrow>
   json_loop u spec s i (m, cells) =
     Some (m + int (length (filter (known_member spec) kvs)), foldl (store_member spec) cells kvs)"
proof (induction kvs arbitrary: i m cells)
  case (Cons kv kvs)
  have kv: "plain_key (fst kv)" "\<bar>snd kv\<bar> < 2 ^ 53" using Cons.prems(3) by auto
  define t where "t = (if kvs = [] then CHR ''}'' # r else CHR '','' # json_members kvs @ CHR ''}'' # r)"
  have d: "drop i s = json_key_value kv @ t" using Cons.prems(1) by (cases kvs) (simp_all add: t_def)
  have e: "ends_number t" by (simp add: t_def ends_number_def)
  let ?j = "i + length (json_key_value kv)"
  have dj: "drop ?j s = t" by (rule drop_append_shift [OF d])
  have sp: "\<not> json_space (CHR ''}'')" "\<not> json_space (CHR '','')" by (simp_all add: json_space_def)
  have w: "skipWs s ?j = ?j" using skipWs_none [of ?j s] dj sp by (cases "kvs = []") (simp_all add: t_def)
  note step = json_member_printed [OF d kv e] assign_member_number [OF kv(2) Cons.prems(4), of u m]
  show ?case
  proof (cases "kvs = []")
    case True
    then have "?j < length s" "s ! ?j = CHR ''}''" using drop_Cons_nth [of ?j s "CHR ''}''" r] dj by (simp_all add: t_def)
    then show ?thesis using True by (subst json_loop.simps) (simp add: step w Let_def)
  next
    case False
    then have j: "?j < length s" "s ! ?j = CHR '',''" "drop (Suc ?j) s = json_members kvs @ CHR ''}'' # r"
      using drop_Cons_nth [of ?j s "CHR '',''"] dj by (simp_all add: t_def)
    show ?thesis
      using Cons.IH [OF j(3) False, of "store_member spec cells kv"] Cons.prems(3,4) j(1,2)
      by (subst json_loop.simps) (simp add: step w Let_def)
  qed
qed simp

lemma json_object_row:
  assumes "\<forall>kv \<in> set kvs. plain_key (fst kv) \<and> \<bar>snd kv\<bar> < 2 ^ 53" "length (fs_fields spec) \<le> length cells"
  shows "parseJsonFields u (json_object kvs) spec cells =
    Some (int (length (filter (known_member spec) kvs)), foldl (store_member spec) cells kvs)"
proof -
  let ?s = "json_object kvs"
  have d0: "drop 0 ?s = CHR ''{'' # json_members kvs @ ''}''" by (simp add: json_object_def)
  have d1: "drop (Suc 0) ?s = json_members kvs @ CHR ''}'' # []" by (simp add: json_object_def)
  have w0: "skipWs ?s 0 = 0" by (rule skipWs_none [OF d0]) (simp add: json_space_def)
  show ?thesis
  proof (cases kvs)
    case Nil
    have "skipWs ?s (Suc 0) = Suc 0"
      by (rule skipWs_none [of _ _ "CHR ''}''" "[]"]) (simp_all add: json_object_def Nil json_space_def)
    then show ?thesis using Nil w0 by (simp add: parseJsonFields_def json_object_def)
  next
    case (Cons kv rest)
    obtain x where x: "json_members kvs = CHR 0x22 # x" using Cons by (cases rest) (simp_all add: json_key_value_def)
    have "skipWs ?s (Suc 0) = Suc 0"
      by (rule skipWs_none [of _ _ "CHR 0x22"]) (simp_all add: d1 x json_space_def)
    moreover have "?s ! Suc 0 = CHR 0x22" by (simp add: json_object_def x)
    ultimately show ?thesis
      using json_loop_printed [OF d1 _ assms, of u 0] Cons w0 by (simp add: parseJsonFields_def json_object_def)
  qed
qed

section \<open>Requests\<close>

lemma handleRequest_cases:
  obtains (refused) status msg where "handleRequest u db conn ip port body us s = Some (http_error conn status msg s)"
    | (accepted) dev cells matched where "matchHttpDevice db ip port (hi_port s) = Some dev" "length cells = fieldCount dev"
        "parseJsonFields u body (dd_spec dev) (rb_cells (http_batch dev us)) = Some (matched, cells)"
        "handleRequest u db conn ip port body us s =
           Some (accept_row conn dev ((http_batch dev us)\<lparr>rb_cells := cells\<rparr>) matched s)"
proof (cases "matchHttpDevice db ip port (hi_port s)")
  case None
  then show ?thesis by (intro refused) (simp add: handleRequest_def)
next
  case (Some dev)
  obtain m cells where p: "parseJsonFields u body (dd_spec dev) (rb_cells (http_batch dev us)) = Some (m, cells)"
    "length cells = fieldCount dev"
    using parseJsonFields_ok [of "dd_spec dev" "rb_cells (http_batch dev us)" u body]
    by (auto simp: http_batch_def fieldCount_def)
  consider "fs_fields (dd_spec dev) = []" | "fs_fields (dd_spec dev) \<noteq> []" "m < 0" | "fs_fields (dd_spec dev) \<noteq> []" "\<not> m < 0"
    by blast
  then show ?thesis
  proof cases
    case 1
    with Some show ?thesis by (intro refused) (simp add: handleRequest_def)
  next
    case 2
    with Some p show ?thesis by (intro refused) (simp add: handleRequest_def)
  next
    case 3
    with Some p show ?thesis by (intro accepted [OF Some p(2,1)]) (simp add: handleRequest_def)
  qed
qed

lemma find_sub_Some:
  "find_sub pat s from = Some h \<longleftrightarrow>
     from \<le> h \<and> h + length pat \<le> length s \<and> literal_at pat s h \<and> (\<forall>j. from \<le> j \<and> j < h \<longrightarrow> \<not> literal_at pat s j)"
proof
  assume "find_sub pat s from = Some h"
  then obtain k where k: "k < Suc (length s) - length pat - from" "h = from + k" "literal_at pat s h"
    "\<forall>j < k. \<not> literal_at pat s (from + j)"
    by (auto simp: find_sub_def find_Some_iff)
  moreover have "\<not> literal_at pat s j" if "from \<le> j" "j < h" for j
    using k(4) [rule_format, of "j - from"] that k(2) by auto
  ultimately show "from \<le> h \<and> h + length pat \<le> length s \<and> literal_at pat s h \<and>
      (\<forall>j. from \<le> j \<and> j < h \<longrightarrow> \<not> literal_at pat s j)" by auto
next
  assume "from \<le> h \<and> h + length pat \<le> length s \<and> literal_at pat s h \<and> (\<forall>j. from \<le> j \<and> j < h \<longrightarrow> \<not> literal_at pat s j)"
  then show "find_sub pat s from = Some h"
    unfolding find_sub_def find_Some_iff by (intro exI [of _ "h - from"]) auto
qed

lemma find_sub_None:
  "pat \<noteq> [] \<Longrightarrow> (\<And>j. from \<le> j \<Longrightarrow> j + length pat \<le> length s \<Longrightarrow> \<not> literal_at pat s j) \<Longrightarrow> find_sub pat s from = None"
  by (auto simp: find_sub_def find_None_iff)

lemma literal_at_take: "j + length pat \<le> k \<Longrightarrow> literal_at pat (take k s) j \<longleftrightarrow> literal_at pat s j"
  by (simp add: literal_at_def drop_take min_def)

text \<open>A pattern is found in a prefix as soon as the prefix contains all of it.\<close>

lemma find_sub_prefix:
  assumes "find_sub pat s 0 = Some h" "pat \<noteq> []" "k \<le> length s"
  shows "find_sub pat (take k s) 0 = (if h + length pat \<le> k then Some h else None)"
proof (cases "h + length pat \<le> k")
  case True
  then have "literal_at pat (take k s) h" "\<forall>j < h. \<not> literal_at pat (take k s) j"
    using assms(1) literal_at_take [of _ pat k s] by (auto simp: find_sub_Some)
  with True assms(3) show ?thesis by (simp add: find_sub_Some)
next
  case False
  have "find_sub pat (take k s) 0 = None"
  proof (rule find_sub_None [OF assms(2)])
    fix j assume "j + length pat \<le> length (take k s)"
    then have "j + length pat \<le> k" by simp
    with False literal_at_take [OF this] assms(1) show "\<not> literal_at pat (take k s) j" by (auto simp: find_sub_Some)
  qed
  with False show ?thesis by simp
qed

text \<open>A complete request: its header block ends at \<open>h\<close> and announces the \<open>n\<close> bytes behind it.\<close>

definition complete_request :: "string \<Rightarrow> nat \<Rightarrow> nat \<Rightarrow> bool" where
  "complete_request req h n \<longleftrightarrow>
     find_sub (CRLF @ CRLF) req 0 = Some h \<and> parseHeaderBlock (take h req) = Some (n, ''POST'') \<and>
     length req = h + 4 + n \<and> length req \<le> kMaxRequest"

text \<open>The state of a connection that has received the first \<open>k\<close> bytes.\<close>

definition collected :: "string \<Rightarrow> nat \<Rightarrow> nat \<Rightarrow> nat \<Rightarrow> conn_state" where
  "collected req h n k =
     (if k < h + 4 then \<lparr>cs_buf = take k req, cs_headerParsed = False, cs_contentLen = 0\<rparr>
      else \<lparr>cs_buf = drop (h + 4) (take k req), cs_headerParsed = True, cs_contentLen = n\<rparr>)"

definition counted :: "nat \<Rightarrow> http_ingest \<Rightarrow> http_ingest" where
  "counted n s = s\<lparr>hi_stats := (hi_stats s)\<lparr>as_bytesIn := as_bytesIn (hi_stats s) + word_of_nat n\<rparr>\<rparr>"

lemma onMessage_piece:
  assumes req: "complete_request req h n" and st: "hi_conns s conn = Some (collected req h n k)" "k < length req"
    and data: "data \<noteq> []" "take (k + length data) req = take k req @ data" "k + length data \<le> length req"
  shows "http_onMessage u db conn ip port data us s =
    (let s' = put_conn conn (collected req h n (k + length data)) (counted (length data) s)
     in if k + length data < length req then Some s'
        else handleRequest u db conn ip port (drop (h + 4) req) us s')"
proof -
  let ?k = "k + length data"
  note c = req [unfolded complete_request_def]
  have four: "length (CRLF @ CRLF) = 4" "CRLF @ CRLF \<noteq> []" by (simp_all add: CRLF_def)
  have hd: "find_sub (CRLF @ CRLF) (take ?k req) 0 = (if h + 4 \<le> ?k then Some h else None)"
    using find_sub_prefix [of "CRLF @ CRLF" req h ?k] c data(3) four by simp
  have th: "take h (take ?k req) = take h req" if "h + 4 \<le> ?k" using that by (simp add: min_def)
  have small: "length (cs_buf (collected req h n k)) + length data \<le> kMaxRequest"
    using c data(3) by (auto simp: collected_def)
  show ?thesis
  proof (cases "k < h + 4")
    case True
    then have s0: "collected req h n k = \<lparr>cs_buf = take k req, cs_headerParsed = False, cs_contentLen = 0\<rparr>"
      by (simp add: collected_def)
    show ?thesis
    proof (cases "h + 4 \<le> ?k")
      case True
      have len: "length (drop (h + 4) (take ?k req)) < n \<longleftrightarrow> ?k < length req" using c data(3) True by auto
      have all: "take n (drop (h + 4) (take ?k req)) = drop (h + 4) req" if "\<not> ?k < length req"
        using that c by (simp add: min_def)
      show ?thesis
        using st(1) data(1) small hd True th len all c
        by (auto simp: http_onMessage_def s0 data(2) [symmetric] Let_def counted_def collected_def [of req h n ?k])
    next
      case False
      then have "?k < length req" using c by simp
      with False st(1) data(1) small hd True show ?thesis
        by (auto simp: http_onMessage_def s0 data(2) [symmetric] Let_def counted_def collected_def [of req h n ?k])
    qed
  next
    case False
    then have s0: "collected req h n k = \<lparr>cs_buf = drop (h + 4) (take k req), cs_headerParsed = True, cs_contentLen = n\<rparr>"
      by (simp add: collected_def)
    have buf: "drop (h + 4) (take k req) @ data = drop (h + 4) (take ?k req)"
      using False st(2) by (simp add: data(2))
    have len: "length (drop (h + 4) (take ?k req)) < n \<longleftrightarrow> ?k < length req" using c data(3) False by auto
    have all: "take n (drop (h + 4) (take ?k req)) = drop (h + 4) req" if "\<not> ?k < length req"
      using that c by (simp add: min_def)
    show ?thesis
      using st(1) data(1) small False len all
      by (auto simp: http_onMessage_def s0 buf Let_def counted_def collected_def [of req h n ?k])
  qed
qed

fun http_messages :: "i64 \<Rightarrow> config_db \<Rightarrow> nat \<Rightarrow> string \<Rightarrow> u16 \<Rightarrow> (string \<times> i64) list \<Rightarrow> http_ingest \<Rightarrow> http_ingest option"
where
  "http_messages u db conn ip port [] s = Some s"
| "http_messages u db conn ip port (m # ms) s =
     do { s' \<leftarrow> http_onMessage u db conn ip port (fst m) (snd m) s; http_messages u db conn ip port ms s' }"

text \<open>Everything but the connection states and the byte counter.\<close>

definition same_output :: "http_ingest \<Rightarrow> http_ingest \<Rightarrow> bool" where
  "same_output s s' \<longleftrightarrow> hi_write s' = hi_write s \<and> hi_sent s' = hi_sent s \<and> hi_port s' = hi_port s"

lemma http_messages_request:
  assumes req: "complete_request req h n"
  shows "hi_conns s conn = Some (collected req h n k) \<Longrightarrow> k \<le> length req \<Longrightarrow> ms \<noteq> [] \<Longrightarrow>
    \<forall>m \<in> set ms. fst m \<noteq> [] \<Longrightarrow> concat (map fst ms) = drop k req \<Longrightarrow>
    \<exists>s'. same_output s s' \<and> hi_conns s' conn = Some (collected req h n (length req)) \<and>
      http_messages u db conn ip port ms s = handleRequest u db conn ip port (drop (h + 4) req) (snd (last ms)) s'"
proof (induction ms arbitrary: s k)
  case (Cons m ms)
  obtain data us where m: "m = (data, us)" by (cases m)
  let ?k = "k + length data"
  have split: "drop k req = data @ concat (map fst ms)" using Cons.prems(5) m by simp
  have ne: "data \<noteq> []" using Cons.prems(4) m by simp
  then have "0 < length data" "length req - k = length data + length (concat (map fst ms))"
    using arg_cong [OF split, of length] by (simp_all del: length_concat)
  then have d: "data \<noteq> []" "?k \<le> length req" "k < length req" "drop ?k req = concat (map fst ms)"
    using ne Cons.prems(2) drop_append_shift [OF split] by linarith+
  have t: "take ?k req = take k req @ data" using split by (simp add: take_add)
  define s' where "s' = put_conn conn (collected req h n ?k) (counted (length data) s)"
  have s': "same_output s s'" "hi_conns s' conn = Some (collected req h n ?k)"
    by (simp_all add: s'_def put_conn_def counted_def same_output_def)
  note piece = onMessage_piece [OF req Cons.prems(1) d(3) d(1) t d(2), of u db ip port us, folded s'_def, unfolded Let_def]
  show ?case
  proof (cases "ms = []")
    case True
    then have "?k = length req" using d(2,4) by simp
    with True piece s' m show ?thesis
      by (intro exI [of _ s']) (simp del: last.simps add: last_ConsL split: bind_splits)
  next
    case False
    then have "concat (map fst ms) \<noteq> []" using Cons.prems(4) by (cases ms) auto
    then have "?k < length req" using d(4) by (metis drop_eq_Nil not_less)
    then have "http_messages u db conn ip port (m # ms) s = http_messages u db conn ip port ms s'"
      using piece m by simp
    moreover obtain s2 where "same_output s' s2" "hi_conns s2 conn = Some (collected req h n (length req))"
      "http_messages u db conn ip port ms s' = handleRequest u db conn ip port (drop (h + 4) req) (snd (last ms)) s2"
      using Cons.IH [OF s'(2) d(2) False] Cons.prems(4) d(4) by auto
    ultimately show ?thesis using s'(1) False by (auto simp: same_output_def)
  qed
qed simp

section \<open>A posted object\<close>

definition post_line :: string where "post_line = ''POST / HTTP/1.1''"

definition length_header :: "nat \<Rightarrow> string" where
  "length_header n = ''Content-Length: '' @ to_string n"

definition http_post :: "string \<Rightarrow> string" where
  "http_post body = post_line @ CRLF @ length_header (length body) @ CRLF @ CRLF @ body"

lemma find_sub_Cons:
  assumes "pat \<noteq> []"
  shows "find_sub pat (c # s) 0 = (if literal_at pat (c # s) 0 then Some 0 else map_option Suc (find_sub pat s 0))"
proof (cases "literal_at pat (c # s) 0")
  case True
  then have "length pat \<le> length (c # s)" unfolding literal_at_def by (metis drop0 length_take min.cobounded1)
  with True show ?thesis by (simp add: find_sub_Some)
next
  case False
  have shift: "literal_at pat (c # s) (Suc j) \<longleftrightarrow> literal_at pat s j" for j by (simp add: literal_at_def)
  show ?thesis
  proof (cases "find_sub pat s 0")
    case None
    then have "\<not> literal_at pat s j" if "j + length pat \<le> length s" for j
      using that assms by (auto simp: find_sub_def find_None_iff)
    then have "find_sub pat (c # s) 0 = None"
      using False shift by (intro find_sub_None [OF assms]) (metis Suc_le_mono add_Suc length_Cons not0_implies_Suc)
    with None False show ?thesis by simp
  next
    case (Some h)
    then have "find_sub pat (c # s) 0 = Some (Suc h)"
      using False shift by (auto simp: find_sub_Some less_Suc_eq_0_disj)
    with Some False show ?thesis by simp
  qed
qed

lemma find_sub_skip:
  "c \<notin> set a \<Longrightarrow> find_sub (c # pat) (a @ s) 0 = map_option (\<lambda>h. length a + h) (find_sub (c # pat) s 0)"
proof (induction a)
  case Nil
  then show ?case by (simp add: option.map_ident)
next
  case (Cons x a)
  then have "\<not> literal_at (c # pat) (x # a @ s) 0" by (auto simp: literal_at_def)
  with Cons show ?case by (simp add: find_sub_Cons option.map_comp comp_def)
qed

lemma no_cr_header: "CHR 0x0D \<notin> set (length_header n)" "CHR 0x0D \<notin> set post_line"
  using to_string_digits [of "CHR 0x0D" n] by (auto simp: length_header_def post_line_def isdigit_def code_def)

lemma strtoul10_to_string: "n < 2 ^ 64 \<Longrightarrow> strtoul10 (CHR '' '' # to_string n) = n"
proof -
  assume n: "n < 2 ^ 64"
  obtain c r where cr: "to_string n = c # r" by (cases "to_string n") auto
  then have c: "isdigit c" by (metis list.set_intros(1) to_string_digits)
  have sp: "isspace (CHR '' '')" by (simp add: isspace_def code_def)
  have "strip_sign (dropWhile isspace (CHR '' '' # to_string n)) = (False, to_string n)"
    using c isdigit_not_sign [OF c] by (simp add: sp cr strip_sign_def isdigit_not_space)
  moreover have "scan_number (10, to_string n) = Some n"
    using to_string_digits [of _ n] by (simp add: scan_number_def takeWhile_digits)
  ultimately show ?thesis using n by (simp add: strtoul10_def)
qed

lemma header_loop_length:
  assumes n: "n < 2 ^ 64"
  shows "header_loop (a @ length_header n) (length a) m = n"
proof -
  let ?s = "a @ length_header n"
  have ne: "length a < length ?s" by (simp add: length_header_def)
  have "find_sub CRLF ?s (length a) = None"
  proof (rule find_sub_None)
    fix j assume j: "length a \<le> j" "j + length CRLF \<le> length ?s"
    then have "?s ! j \<in> set (length_header n)" by (simp add: nth_append_right CRLF_def)
    moreover have "?s ! j = hd (drop j ?s)" using j by (subst hd_drop_conv_nth) (simp_all add: CRLF_def)
    ultimately show "\<not> literal_at CRLF ?s j"
      using no_cr_header(1) [of n] by (cases "drop j ?s") (auto simp: literal_at_def CRLF_def)
  qed (simp add: CRLF_def)
  moreover have "has_prefix kCL (length_header n)"
  proof -
    have "map lower_char ''Content-Length:'' = kCL" by code_simp
    moreover have "take (length kCL) (length_header n) = ''Content-Length:''" by (simp add: kCL_def length_header_def)
    ultimately show ?thesis by (simp only: has_prefix_def)
  qed
  moreover have "drop (length kCL) (length_header n) = CHR '' '' # to_string n"
    by (simp add: kCL_def length_header_def)
  moreover have "header_loop ?s (length ?s + 2) n = n" by (subst header_loop.simps) simp
  ultimately show ?thesis
    using ne strtoul10_to_string [OF n] by (subst header_loop.simps) (simp add: Let_def)
qed

lemma http_post_complete:
  assumes "length (http_post body) \<le> kMaxRequest"
  shows "complete_request (http_post body) (length (http_post body) - length body - 4) (length body)"
proof -
  let ?n = "length body" let ?l = "length_header ?n"
  let ?h = "length (http_post body) - length body - 4"
  have h: "?h = 17 + length ?l" by (simp add: http_post_def post_line_def CRLF_def)
  have n: "?n < 2 ^ 64" using assms by (simp add: http_post_def kMaxRequest_def)
  have "find_sub (CRLF @ CRLF) (http_post body) 0 = Some ?h"
  proof -
    have "find_sub (CRLF @ CRLF) (http_post body) 0 =
        map_option (\<lambda>h. length post_line + h) (find_sub (CRLF @ CRLF) (CRLF @ ?l @ CRLF @ CRLF @ body) 0)"
      using find_sub_skip [OF no_cr_header(2)] by (simp add: http_post_def CRLF_def)
    also have "find_sub (CRLF @ CRLF) (CRLF @ ?l @ CRLF @ CRLF @ body) 0 =
        map_option (\<lambda>h. Suc (Suc h)) (find_sub (CRLF @ CRLF) (?l @ CRLF @ CRLF @ body) 0)"
      by (simp add: CRLF_def find_sub_Cons literal_at_def length_header_def option.map_comp comp_def)
    also have "find_sub (CRLF @ CRLF) (?l @ CRLF @ CRLF @ body) 0 =
        map_option (\<lambda>h. length ?l + h) (find_sub (CRLF @ CRLF) (CRLF @ CRLF @ body) 0)"
      using find_sub_skip [OF no_cr_header(1)] by (simp add: CRLF_def)
    also have "find_sub (CRLF @ CRLF) (CRLF @ CRLF @ body) 0 = Some 0"
      by (simp add: CRLF_def find_sub_Cons literal_at_def)
    finally show ?thesis unfolding h by (simp add: post_line_def)
  qed
  moreover have "parseHeaderBlock (take ?h (http_post body)) = Some (?n, ''POST'')"
  proof -
    have head: "take ?h (http_post body) = post_line @ CRLF @ ?l"
      by (simp add: http_post_def CRLF_def)
    have "find_sub CRLF (post_line @ CRLF @ ?l) 0 = Some 15"
      using find_sub_skip [OF no_cr_header(2), of "[CHR 0x0A]" "CRLF @ ?l"]
      by (simp add: CRLF_def find_sub_Cons literal_at_def post_line_def)
    moreover have "find_char CHR '' '' 0 post_line = Some 4" by code_simp
    moreover have "header_loop (post_line @ CRLF @ ?l) 17 0 = ?n"
    proof -
      have "length (post_line @ CRLF) = 17" by (simp add: post_line_def CRLF_def)
      then show ?thesis using header_loop_length [OF n, of "post_line @ CRLF" 0] by (simp only: append_assoc)
    qed
    ultimately show ?thesis
      unfolding head parseHeaderBlock_def by (simp add: Let_def) (simp add: post_line_def)
  qed
  ultimately show ?thesis using assms by (simp add: complete_request_def http_post_def CRLF_def)
qed

lemma http_post_body: "drop (length (http_post body) - length body - 4 + 4) (http_post body) = body"
proof -
  have "length (http_post body) - length body - 4 + 4 =
      length (post_line @ CRLF @ length_header (length body) @ CRLF @ CRLF)"
    by (simp add: http_post_def CRLF_def)
  moreover have "http_post body = (post_line @ CRLF @ length_header (length body) @ CRLF @ CRLF) @ body"
    by (simp add: http_post_def)
  ultimately show ?thesis by (metis append_eq_conv_conj)
qed

section \<open>What a message does\<close>

text \<open>The row that a printed object gives.\<close>

definition object_batch :: "device_desc \<Rightarrow> (string \<times> int) list \<Rightarrow> i64 \<Rightarrow> row_batch" where
  "object_batch dev kvs us =
     (http_batch dev us)\<lparr>rb_cells := foldl (store_member (dd_spec dev)) (rb_cells (http_batch dev us)) kvs\<rparr>"

definition printable_object :: "(string \<times> int) list \<Rightarrow> bool" where
  "printable_object kvs \<longleftrightarrow> list_all (\<lambda>kv. plain_key (fst kv) \<and> \<bar>snd kv\<bar> < 2 ^ 53) kvs"

lemma handleRequest_object:
  assumes "matchHttpDevice db ip port (hi_port s) = Some dev" "fs_fields (dd_spec dev) \<noteq> []" "printable_object kvs"
  shows "handleRequest u db conn ip port (json_object kvs) us s =
    Some (accept_row conn dev (object_batch dev kvs us) (int (length (filter (known_member (dd_spec dev)) kvs))) s)"
proof -
  have "parseJsonFields u (json_object kvs) (dd_spec dev) (rb_cells (http_batch dev us)) =
      Some (int (length (filter (known_member (dd_spec dev)) kvs)),
        foldl (store_member (dd_spec dev)) (rb_cells (http_batch dev us)) kvs)"
    using assms(3) by (intro json_object_row) (auto simp: printable_object_def list_all_iff http_batch_def fieldCount_def)
  with assms(1,2) show ?thesis by (simp add: handleRequest_def object_batch_def Let_def)
qed

text \<open>At most one answer, on the connection of the message, and at most one row.\<close>

definition one_reply :: "nat \<Rightarrow> http_ingest \<Rightarrow> http_ingest \<Rightarrow> bool" where
  "one_reply conn s s' \<longleftrightarrow>
     (\<exists>r. hi_sent s' = hi_sent s @ [(conn, r)]) \<and>
     (hi_write s' = hi_write s \<or> (\<exists>b. hi_write s' = hi_write s @ [b] \<and> batch_ok b \<and> rowCount b = 1))"

definition silent :: "http_ingest \<Rightarrow> http_ingest \<Rightarrow> bool" where
  "silent s s' \<longleftrightarrow> hi_sent s' = hi_sent s \<and> hi_write s' = hi_write s"

lemma one_reply_error: "hi_sent s1 = hi_sent s \<Longrightarrow> hi_write s1 = hi_write s \<Longrightarrow> one_reply conn s (http_error conn st msg s1)"
  by (simp add: one_reply_def http_error_def sendResponse_def)

lemma handleRequest_replies:
  assumes "hi_sent s1 = hi_sent s" "hi_write s1 = hi_write s"
  shows "\<exists>s'. handleRequest u db conn ip port body us s1 = Some s' \<and> one_reply conn s s'"
proof (cases rule: handleRequest_cases [of u db conn ip port body us s1])
  case (refused status msg)
  then show ?thesis using one_reply_error [OF assms] by auto
next
  case (accepted dev cells matched)
  have "batch_ok ((http_batch dev us)\<lparr>rb_cells := cells\<rparr>)" "rowCount ((http_batch dev us)\<lparr>rb_cells := cells\<rparr>) = 1"
    using accepted(2) by (simp_all add: batch_ok_def rowCount_def http_batch_def)
  then have "one_reply conn s (accept_row conn dev ((http_batch dev us)\<lparr>rb_cells := cells\<rparr>) matched s1)"
    using assms by (auto simp: one_reply_def accept_row_def sendResponse_def)
  with accepted(4) show ?thesis by blast
qed

lemma http_onMessage_replies:
  "\<exists>s'. http_onMessage u db conn ip port data us s = Some s' \<and> (silent s s' \<or> one_reply conn s s')"
proof (cases "data = []")
  case True
  then show ?thesis by (simp add: http_onMessage_def silent_def)
next
  case False
  let ?s1 = "counted (length data) s"
  define replies where "replies r \<longleftrightarrow> (\<exists>s'. r = Some s' \<and> (silent s s' \<or> one_reply conn s s'))" for r
  have keep: "hi_sent (put_conn conn st ?s1) = hi_sent s" "hi_write (put_conn conn st ?s1) = hi_write s" for st
    by (simp_all add: put_conn_def counted_def)
  have wait: "replies (Some (put_conn conn st ?s1))" for st using keep by (simp add: replies_def silent_def)
  have err: "replies (Some (http_error conn status msg (put_conn conn st ?s1)))" for status msg st
    using one_reply_error [OF keep] by (simp add: replies_def)
  have handled: "replies (handleRequest u db conn ip port body us (put_conn conn st ?s1))" for body st
    using handleRequest_replies [OF keep [of st], of u db conn ip port body us] by (auto simp: replies_def)
  have "replies (http_onMessage u db conn ip port data us s)"
    unfolding http_onMessage_def Let_def counted_def [symmetric] if_not_P [OF False]
    by (simp add: wait err handled split: option.split prod.split)
  then show ?thesis by (simp add: replies_def)
qed

text \<open>Nothing of the connection's state is reset after an answer: the next bytes lead to the same request again.\<close>

lemma onMessage_after:
  assumes "complete_request req h n" "hi_conns s conn = Some (collected req h n (length req))"
    and "data \<noteq> []" "n + length data \<le> kMaxRequest"
  shows "\<exists>s'. same_output s s' \<and>
    http_onMessage u db conn ip port data us s = handleRequest u db conn ip port (drop (h + 4) req) us s'"
proof -
  note c = assms(1) [unfolded complete_request_def]
  have st: "collected req h n (length req) = \<lparr>cs_buf = drop (h + 4) req, cs_headerParsed = True, cs_contentLen = n\<rparr>"
    using c by (simp add: collected_def)
  have len: "length (drop (h + 4) req) = n" using c by simp
  let ?s' = "put_conn conn \<lparr>cs_buf = drop (h + 4) req @ data, cs_headerParsed = True, cs_contentLen = n\<rparr>
    (counted (length data) s)"
  have "http_onMessage u db conn ip port data us s = handleRequest u db conn ip port (drop (h + 4) req) us ?s'"
    using assms(2-4) len by (simp add: http_onMessage_def st Let_def counted_def)
  moreover have "same_output s ?s'" by (simp add: same_output_def put_conn_def counted_def)
  ultimately show ?thesis by blast
qed

lemma http_messages_append:
  "http_messages u db conn ip port (ms @ ms') s =
     do { s' \<leftarrow> http_messages u db conn ip port ms s; http_messages u db conn ip port ms' s' }"
  by (induction ms arbitrary: s) (auto split: bind_splits)

lemma http_messages_one: "http_messages u db conn ip port [m] s = http_onMessage u db conn ip port (fst m) (snd m) s"
  by (simp split: bind_splits)

text \<open>A posted object in any division.\<close>

lemma http_messages_posted:
  assumes "hi_conns s conn = Some conn_state_new" "matchHttpDevice db ip port (hi_port s) = Some dev"
    and "fs_fields (dd_spec dev) \<noteq> []" "printable_object kvs" "length (http_post (json_object kvs)) \<le> kMaxRequest"
    and "list_all (\<lambda>m. fst m \<noteq> []) ms" "concat (map fst ms) = http_post (json_object kvs)"
  shows "\<exists>s'. same_output s s' \<and>
    hi_conns s' conn = Some (collected (http_post (json_object kvs))
      (length (http_post (json_object kvs)) - length (json_object kvs) - 4) (length (json_object kvs))
      (length (http_post (json_object kvs)))) \<and>
    http_messages u db conn ip port ms s = Some (accept_row conn dev (object_batch dev kvs (snd (last ms)))
      (int (length (filter (known_member (dd_spec dev)) kvs))) s')"
proof -
  let ?b = "json_object kvs" let ?req = "http_post ?b" let ?h = "length ?req - length ?b - 4"
  have "hi_conns s conn = Some (collected ?req ?h (length ?b) 0)"
    using assms(1) by (simp add: collected_def conn_state_new_def)
  moreover have "ms \<noteq> []" using assms(7) by (auto simp: http_post_def post_line_def)
  ultimately obtain s' where s': "same_output s s'"
    "hi_conns s' conn = Some (collected ?req ?h (length ?b) (length ?req))"
    "http_messages u db conn ip port ms s = handleRequest u db conn ip port (drop (?h + 4) ?req) (snd (last ms)) s'"
    using http_messages_request [OF http_post_complete [OF assms(5)], of s conn 0 ms u db ip port] assms(6,7)
    by (auto simp: list_all_iff)
  then show ?thesis
    using handleRequest_object [OF _ assms(3,4), of db ip port s' u conn] assms(2) http_post_body [of ?b]
    by (auto simp: same_output_def)
qed

section \<open>From JSON text to SQL text\<close>

text \<open>How a posted number is written into the statement.\<close>

definition value_text :: "field_desc \<Rightarrow> int \<Rightarrow> string" where
  "value_text f v = (if \<not> fd_asDouble f \<and> fd_kind f = Bool then (if v = 0 then ''0'' else ''1'') else to_string_int v)"

lemma sql_cell_member:
  assumes "\<bar>v\<bar> < 10 ^ 10"
  shows "sql_cell f (member_cell f v) = value_text f v"
proof -
  have "sint (word_of_int v :: i64) = v" using assms by (simp add: signed_of_int signed_take_bit_int_eq_self)
  then show ?thesis using formatDouble_int [OF assms] by (simp add: sql_cell_def member_cell_def value_text_def)
qed

lemma sql_cell_null: "sql_cell f (c\<lparr>cell_isNull := 1\<rparr>) = ''NULL''"
  by (simp add: sql_cell_def)

lemma field_index_iff:
  assumes "distinct (map fd_name fs)"
  shows "field_index fs key = Some j \<longleftrightarrow> j < length fs \<and> fd_name (fs ! j) = key"
proof
  assume "field_index fs key = Some j"
  then show "j < length fs \<and> fd_name (fs ! j) = key" by (auto simp: field_index_def find_Some_iff)
next
  assume j: "j < length fs \<and> fd_name (fs ! j) = key"
  have "fd_name (fs ! i) \<noteq> key" if "i < j" for i
    using that j nth_eq_iff_index_eq [OF assms, of i j] by simp
  with j show "field_index fs key = Some j" unfolding field_index_def find_Some_iff by (intro exI [of _ j]) auto
qed

lemma stored_cell:
  assumes d: "distinct (map fd_name (fs_fields spec))" and j: "j < length (fs_fields spec)"
    and n: "length (fs_fields spec) \<le> length cells"
  shows "foldl (store_member spec) cells kvs ! j =
    (case map_of (rev kvs) (fd_name (fs_fields spec ! j)) of
       None \<Rightarrow> cells ! j | Some v \<Rightarrow> member_cell (fs_fields spec ! j) v)"
proof (induction kvs rule: rev_induct)
  case (snoc kv kvs)
  have len: "length (foldl (store_member spec) cells kvs) = length cells"
    by (induction kvs arbitrary: cells) simp_all
  let ?cs = "foldl (store_member spec) cells kvs" and ?f = "fs_fields spec ! j"
  have "store_member spec ?cs kv ! j = (if fd_name ?f = fst kv then member_cell ?f (snd kv) else ?cs ! j)"
  proof (cases "fd_name ?f = fst kv")
    case True
    then have "field_index (fs_fields spec) (fst kv) = Some j" using field_index_iff [OF d] j by blast
    with True j n len show ?thesis by (simp add: store_member_def)
  next
    case False
    then have "field_index (fs_fields spec) (fst kv) \<noteq> Some j" using field_index_iff [OF d] by blast
    with False show ?thesis by (cases "field_index (fs_fields spec) (fst kv)") (auto simp: store_member_def)
  qed
  then show ?case using snoc.IH by (cases kv) simp
qed simp

lemma object_row_text:
  assumes d: "distinct (map fd_name (fs_fields (dd_spec dev)))" and v: "\<And>kv. kv \<in> set kvs \<Longrightarrow> \<bar>snd kv\<bar> < 10 ^ 10"
  shows "sql_row_text dev (object_batch dev kvs us) 0 =
    ''('' @ to_string_int (sint (to_ms us)) @
    concat (map (\<lambda>f. '','' @ (case map_of (rev kvs) (fd_name f) of None \<Rightarrow> ''NULL'' | Some v \<Rightarrow> value_text f v))
      (fs_fields (dd_spec dev))) @ '')''"
proof -
  let ?fs = "fs_fields (dd_spec dev)" and ?b = "object_batch dev kvs us"
  have "sql_cell (?fs ! j) (rb_cells ?b ! j) =
      (case map_of (rev kvs) (fd_name (?fs ! j)) of None \<Rightarrow> ''NULL'' | Some v \<Rightarrow> value_text (?fs ! j) v)"
    if "j < length ?fs" for j
  proof -
    have "rb_cells ?b ! j = (case map_of (rev kvs) (fd_name (?fs ! j)) of
        None \<Rightarrow> rb_cells (http_batch dev us) ! j | Some v \<Rightarrow> member_cell (?fs ! j) v)"
      using stored_cell [OF d that, of "rb_cells (http_batch dev us)" kvs]
      by (simp add: object_batch_def http_batch_def fieldCount_def)
    moreover have "\<bar>v\<bar> < 10 ^ 10" if "map_of (rev kvs) k = Some v" for k v
      using assms(2) [of "(k, v)"] map_of_SomeD [OF that] by simp
    moreover have "rb_cells (http_batch dev us) ! j = cell_default\<lparr>cell_isNull := 1\<rparr>"
      using that by (simp add: http_batch_def fieldCount_def)
    ultimately show ?thesis
      by (cases "map_of (rev kvs) (fd_name (?fs ! j))") (simp_all add: sql_cell_member sql_cell_null)
  qed
  then have "map (\<lambda>k. '','' @ sql_cell (?fs ! k) (rb_cells ?b ! k)) [0 ..< length ?fs] =
      map (\<lambda>f. '','' @ (case map_of (rev kvs) (fd_name f) of None \<Rightarrow> ''NULL'' | Some v \<Rightarrow> value_text f v)) ?fs"
    by (intro nth_equalityI) simp_all
  then show ?thesis by (simp add: sql_row_text_def fieldCount_def object_batch_def http_batch_def)
qed

end
