(* ===== verification/Ingest_Properties.thy ===== *)
theory Ingest_Properties
  imports Http_Rows
begin

text \<open>
  Properties of the HTTP server for slow device data: JSON objects and rows, requests and answers, and what
  happens behind the end of a request.
\<close>

section \<open>An http device\<close>

definition web_field :: "string \<Rightarrow> bool \<Rightarrow> field_desc" where
  "web_field nm dbl =
     \<lparr>fd_name = nm, fd_unit = [], fd_kind = IntSigned, fd_size = 2, fd_byteOffset = 0, fd_bitOffset = 0,
      fd_bitLen = 0, fd_precision = 0, fd_outSize = 0, fd_bindType = 0, fd_colType = [], fd_asDouble = dbl\<rparr>"

definition web_dev :: device_desc where
  "web_dev =
     \<lparr>dd_addr = 0, dd_deviceId = ''web'', dd_deviceName = [], dd_ip = ''10.0.0.3'', dd_devicePort = 0,
      dd_connProto = CONN_HTTP, dd_localServerPort = 8080, dd_dataProtoId = 1, dd_endian = 0,
      dd_spec = frame_spec_default\<lparr>fs_fields := [web_field ''item1'' False, web_field ''item2'' True]\<rparr>,
      dd_group = Some 0, dd_isEvent = False, dd_eventType = 0, dd_immediateFlush = True\<rparr>"

definition web_db :: config_db where
  "web_db = config_db_empty\<lparr>cdb_devices := [web_dev], cdb_httpListenPorts := [8080], cdb_httpByPort := [8080 \<mapsto> 0]\<rparr>"

definition web_server :: http_ingest where
  "web_server = http_onConnection 7 True (http_start web_db 0 (http_ingest_new adapter_stats_zero))"

definition web_object :: "(string \<times> int) list" where
  "web_object = [(''item2'', - 7), (''other'', 1), (''item1'', 42)]"

lemma web_server_simps:
  "hi_port web_server = 8080" "hi_conns web_server 7 = Some conn_state_new" "hi_write web_server = []"
  "hi_sent web_server = []"
  by (simp_all add: web_server_def http_onConnection_def http_start_def web_db_def http_ingest_new_def)

lemma web_match: "matchHttpDevice web_db ''10.0.0.3'' 40000 (hi_port web_server) = Some web_dev"
  by (simp add: web_server_simps matchHttpDevice_def matchDevice_def matchGroup_def matchGroupIndex_def web_db_def
      config_db_empty_def)

lemma web_object_printable: "printable_object web_object"
  by (simp add: printable_object_def web_object_def plain_key_def)

lemma web_fields: "fs_fields (dd_spec web_dev) \<noteq> []"
  by (simp add: web_dev_def)

section \<open>Rows\<close>

text \<open>
  C24: A printed flat JSON object with keys free of quotes and backslashes and integers below \<open>2 ^ 53\<close> is read
  back exactly: every member whose key is a field name is stored in that field's cell, as a double, a truth value or
  an integer as the field asks; the other members are skipped; later members overwrite earlier ones; the
  result is the number of members that matched.
\<close>

theorem json_object_read:
  assumes "printable_object kvs" "length (fs_fields spec) \<le> length cells"
  shows "parseJsonFields u (json_object kvs) spec cells =
    Some (int (length (filter (known_member spec) kvs)), foldl (store_member spec) cells kvs)"
  using assms by (intro json_object_row) (simp_all add: printable_object_def list_all_iff)

theorem json_object_read_witness:
  "parseJsonFields 0 (json_object web_object) (dd_spec web_dev) [cell_default, cell_default] =
     Some (2, [\<lparr>cell_v = 42, cell_isNull = 0\<rparr>, \<lparr>cell_v = int_f64 (- 7), cell_isNull = 0\<rparr>])"
proof -
  have n: "length (fs_fields (dd_spec web_dev)) \<le> length [cell_default, cell_default]" by (simp add: web_dev_def)
  have "int (length (filter (known_member (dd_spec web_dev)) web_object)) = 2"
    "foldl (store_member (dd_spec web_dev)) [cell_default, cell_default] web_object =
       [\<lparr>cell_v = 42, cell_isNull = 0\<rparr>, \<lparr>cell_v = int_f64 (- 7), cell_isNull = 0\<rparr>]"
    by (simp_all add: known_member_def field_index_def web_object_def web_dev_def web_field_def store_member_def
        member_cell_def)
  then show ?thesis using json_object_read [OF web_object_printable n, of 0] by simp
qed

section \<open>Requests\<close>

text \<open>
  C25: A posted object becomes exactly one row of the device of its peer, stamped with the time of the last
  piece, and is answered once with the number of matched members, however the transport divides the request.
\<close>

theorem http_post_stored:
  assumes "hi_conns s conn = Some conn_state_new" "matchHttpDevice db ip port (hi_port s) = Some dev"
    and "fs_fields (dd_spec dev) \<noteq> []" "printable_object kvs" "length (http_post (json_object kvs)) \<le> kMaxRequest"
    and "list_all (\<lambda>m. fst m \<noteq> []) ms" "concat (map fst ms) = http_post (json_object kvs)"
  shows "\<exists>s'. http_messages u db conn ip port ms s = Some s' \<and>
    hi_write s' = hi_write s @ [object_batch dev kvs (snd (last ms))] \<and>
    hi_sent s' = hi_sent s @ [(conn, response_text 200
      (json_text ''{`ok`:true,`device`:`'' @ dd_deviceId dev @ json_text ''`,`matched`:'' @
       to_string_int (int (length (filter (known_member (dd_spec dev)) kvs))) @ ''}''))]"
  using http_messages_posted [OF assms, of u] by (auto simp: same_output_def accept_row_def sendResponse_def)

theorem http_post_stored_witness:
  "\<exists>s'. http_messages 0 web_db 7 ''10.0.0.3'' 40000
       [(take 5 (http_post (json_object web_object)), 100), (drop 5 (http_post (json_object web_object)), 2000)]
       web_server = Some s' \<and>
     hi_write s' = [object_batch web_dev web_object 2000]"
proof -
  let ?ms = "[(take 5 (http_post (json_object web_object)), 100), (drop 5 (http_post (json_object web_object)), 2000)]"
  have "length (http_post (json_object web_object)) \<le> kMaxRequest" "list_all (\<lambda>m. fst m \<noteq> []) ?ms"
    by (simp_all add: http_post_def post_line_def kMaxRequest_def json_object_def web_object_def json_key_value_def
        length_header_def to_string_int_def to_string.simps CRLF_def)
  then show ?thesis
    using http_post_stored [OF web_server_simps(2) web_match web_fields web_object_printable, of ?ms 0]
    by (auto simp: web_server_simps)
qed

text \<open>
  C27: Whatever bytes arrive in whatever state, a message is processed without leaving memory, and either nothing is
  answered and nothing stored, or exactly one answer is sent on its connection and at most one row is enqueued,
  with as many cells as its device has fields.
\<close>

theorem http_message_answered:
  "\<exists>s'. http_onMessage u db conn ip port data us s = Some s' \<and> (silent s s' \<or> one_reply conn s s')"
  by (rule http_onMessage_replies)

text \<open>
  After a request is answered nothing of the connection is reset: further bytes on it, whatever they
  are, store the row of the finished request a second time.
\<close>

theorem http_trailing_bytes_duplicate:
  assumes "hi_conns s conn = Some conn_state_new" "matchHttpDevice db ip port (hi_port s) = Some dev"
    and "fs_fields (dd_spec dev) \<noteq> []" "printable_object kvs" "length (http_post (json_object kvs)) \<le> kMaxRequest"
    and "extra \<noteq> []" "length (json_object kvs) + length extra \<le> kMaxRequest"
  shows "\<exists>s'. http_messages u db conn ip port [(http_post (json_object kvs), t1), (extra, t2)] s = Some s' \<and>
    hi_write s' = hi_write s @ [object_batch dev kvs t1, object_batch dev kvs t2]"
proof -
  let ?b = "json_object kvs" let ?req = "http_post ?b" let ?h = "length ?req - length ?b - 4"
  have "list_all (\<lambda>m. fst m \<noteq> []) [(?req, t1)]" by (simp add: http_post_def post_line_def)
  then obtain s1 where s1: "same_output s s1" "hi_conns s1 conn = Some (collected ?req ?h (length ?b) (length ?req))"
    "http_messages u db conn ip port [(?req, t1)] s = Some (accept_row conn dev (object_batch dev kvs t1)
       (int (length (filter (known_member (dd_spec dev)) kvs))) s1)" (is "_ = Some ?s2")
    using http_messages_posted [OF assms(1-5), of "[(?req, t1)]" u] by auto
  have "hi_conns ?s2 conn = Some (collected ?req ?h (length ?b) (length ?req))"
    using s1(2) by (simp add: accept_row_def sendResponse_def)
  then obtain s3 where s3: "same_output ?s2 s3"
    "http_onMessage u db conn ip port extra t2 ?s2 = handleRequest u db conn ip port ?b t2 s3"
    using onMessage_after [OF http_post_complete [OF assms(5)] _ assms(6,7)] http_post_body [of ?b] by metis
  have port: "hi_port s3 = hi_port s"
    using s1(1) s3(1) by (simp add: same_output_def accept_row_def sendResponse_def)
  have "http_messages u db conn ip port [(?req, t1), (extra, t2)] s = http_onMessage u db conn ip port extra t2 ?s2"
    using http_messages_append [of u db conn ip port "[(?req, t1)]" "[(extra, t2)]" s] s1(3)
    by (simp only: append.simps bind.bind_lunit http_messages_one fst_conv snd_conv)
  then show ?thesis
    using handleRequest_object [OF _ assms(3,4), of db ip port s3] assms(2) s3 port s1(1)
    by (simp add: same_output_def accept_row_def sendResponse_def)
qed

theorem http_trailing_bytes_duplicate_witness:
  "\<exists>s'. http_messages 0 web_db 7 ''10.0.0.3'' 40000
       [(http_post (json_object web_object), 100), (CRLF, 2000)] web_server = Some s' \<and>
     hi_write s' = [object_batch web_dev web_object 100, object_batch web_dev web_object 2000]"
proof -
  have "length (http_post (json_object web_object)) \<le> kMaxRequest" "CRLF \<noteq> []"
    "length (json_object web_object) + length CRLF \<le> kMaxRequest"
    by (simp_all add: http_post_def post_line_def kMaxRequest_def json_object_def web_object_def json_key_value_def
        length_header_def to_string_int_def to_string.simps CRLF_def)
  then show ?thesis
    using http_trailing_bytes_duplicate [OF web_server_simps(2) web_match web_fields web_object_printable, of CRLF 0 100 2000]
    by (auto simp: web_server_simps)
qed

section \<open>From JSON text to SQL text\<close>

text \<open>
  C26: The numbers of a posted object stand in the INSERT statement as they were posted: the row text of its batch
  is the receive time in milliseconds and, for every field, the digits of the last member with the field's
  name, 0 or 1 for a truth value, or NULL when the object has no such member; this holds for columns of
  floating-point type as well, up to ten digits.
\<close>

theorem posted_values_in_sql:
  assumes "distinct (map fd_name (fs_fields (dd_spec dev)))" "list_all (\<lambda>kv. \<bar>snd kv\<bar> < 10 ^ 10) kvs"
  shows "sql_row_text dev (object_batch dev kvs us) 0 =
    ''('' @ to_string_int (sint (to_ms us)) @
    concat (map (\<lambda>f. '','' @ (case map_of (rev kvs) (fd_name f) of None \<Rightarrow> ''NULL'' | Some v \<Rightarrow> value_text f v))
      (fs_fields (dd_spec dev))) @ '')''"
  using assms by (intro object_row_text) (auto simp: list_all_iff)

theorem posted_values_in_sql_witness:
  "sql_row_text web_dev (object_batch web_dev web_object 5000) 0 = ''(5,42,-7)''"
proof -
  have d: "distinct (map fd_name (fs_fields (dd_spec web_dev)))" "list_all (\<lambda>kv. \<bar>snd kv\<bar> < 10 ^ 10) web_object"
    by (simp_all add: web_dev_def web_field_def web_object_def)
  have "to_string_int (sint (to_ms 5000)) = ''5''" "to_string_int 42 = ''42''" "to_string_int (- 7) = ''-7''"
    by code_simp+
  then show ?thesis
    using posted_values_in_sql [OF d, of 5000]
    by (simp add: web_dev_def web_field_def web_object_def value_text_def)
qed

end
