(* ===== verification/Tcp_Connection.thy ===== *)
theory Tcp_Connection
  imports Net_Buffer
begin

text \<open>
  A connection of the network library on POSIX systems: \<open>src/src/net/TcpConnection.cpp\<close> with the event dispatch of
  \<open>src/src/net/Channel.cpp\<close>. A failed assertion is \<open>None\<close>.

  The socket is a log of the bytes it took (\<open>tc_wire\<close>) and whether its sending side is shut down; what the kernel
  answers to a call is an argument. \<open>::send\<close> takes at most as many bytes as it has room for, and fails with
  \<open>EPIPE\<close> after \<open>shutdown\<close>. Callbacks are calls in a log; the functions the connection queues in its loop are kept
  in order. \<open>tc_sent\<close> collects the messages that \<open>sendInLoop\<close> takes over. Messages are shorter than \<open>2 ^ 31\<close> bytes.
\<close>

section \<open>Channel\<close>

definition POLLIN :: u32 where "POLLIN = 0x001"
definition POLLPRI :: u32 where "POLLPRI = 0x002"
definition POLLOUT :: u32 where "POLLOUT = 0x004"
definition POLLERR :: u32 where "POLLERR = 0x008"
definition POLLHUP :: u32 where "POLLHUP = 0x010"
definition POLLNVAL :: u32 where "POLLNVAL = 0x020"
definition POLLRDHUP :: u32 where "POLLRDHUP = 0x2000"

lemmas poll_defs = POLLIN_def POLLPRI_def POLLOUT_def POLLERR_def POLLHUP_def POLLNVAL_def POLLRDHUP_def

definition kNoneEvent :: u32 where "kNoneEvent = 0"
definition kReadEvent :: u32 where "kReadEvent = POLLIN OR POLLPRI"
definition kWriteEvent :: u32 where "kWriteEvent = POLLOUT"

record channel =
  ch_events :: u32
  ch_tied :: bool
  ch_addedToLoop :: bool

definition Channel_new :: channel where
  "Channel_new = \<lparr>ch_events = 0, ch_tied = False, ch_addedToLoop = False\<rparr>"

definition channel_update :: "u32 \<Rightarrow> channel \<Rightarrow> channel" where
  "channel_update ev ch = ch\<lparr>ch_events := ev, ch_addedToLoop := True\<rparr>"

definition enableReading :: "channel \<Rightarrow> channel" where
  "enableReading ch = channel_update (ch_events ch OR kReadEvent) ch"

definition disableReading :: "channel \<Rightarrow> channel" where
  "disableReading ch = channel_update (ch_events ch AND NOT kReadEvent) ch"

definition enableWriting :: "channel \<Rightarrow> channel" where
  "enableWriting ch = channel_update (ch_events ch OR kWriteEvent) ch"

definition disableWriting :: "channel \<Rightarrow> channel" where
  "disableWriting ch = channel_update (ch_events ch AND NOT kWriteEvent) ch"

definition disableAll :: "channel \<Rightarrow> channel" where
  "disableAll ch = channel_update kNoneEvent ch"

definition isNoneEvent :: "channel \<Rightarrow> bool" where
  "isNoneEvent ch \<longleftrightarrow> ch_events ch = kNoneEvent"

definition isWriting :: "channel \<Rightarrow> bool" where
  "isWriting ch \<longleftrightarrow> ch_events ch AND kWriteEvent \<noteq> 0"

definition isReading :: "channel \<Rightarrow> bool" where
  "isReading ch \<longleftrightarrow> ch_events ch AND kReadEvent \<noteq> 0"

definition channel_tie :: "channel \<Rightarrow> channel" where
  "channel_tie ch = ch\<lparr>ch_tied := True\<rparr>"

definition channel_remove :: "channel \<Rightarrow> channel option" where
  "channel_remove ch = (if \<not> isNoneEvent ch then None else Some (ch\<lparr>ch_addedToLoop := False\<rparr>))"

section \<open>Connection\<close>

datatype conn_st = kDisconnected | kConnecting | kConnected | kDisconnecting

datatype loop_fn = WriteComplete | HighWaterMark nat | SendInLoop bytes | ShutdownInLoop | ForceCloseInLoop

datatype conn_call = ConnectionCallback bool | MessageCallback bytes | CloseCallback

record tcp_connection =
  tc_state :: conn_st
  tc_channel :: channel
  tc_hasWriteComplete :: bool
  tc_hasHighWaterMark :: bool
  tc_highWaterMark :: nat
  tc_rdlen :: nat
  tc_inputBuffer :: buffer
  tc_outputBuffer :: buffer
  tc_wire :: bytes
  tc_shutWr :: bool
  tc_pending :: "loop_fn list"
  tc_calls :: "conn_call list"
  tc_sent :: bytes

definition TcpConnection_new :: "bool \<Rightarrow> bool \<Rightarrow> tcp_connection" where
  "TcpConnection_new wc hw =
     \<lparr>tc_state = kConnecting, tc_channel = Channel_new, tc_hasWriteComplete = wc, tc_hasHighWaterMark = hw,
      tc_highWaterMark = 64 * 1024 * 1024, tc_rdlen = 2048, tc_inputBuffer = Buffer_new kInitialSize,
      tc_outputBuffer = Buffer_new kInitialSize, tc_wire = [], tc_shutWr = False, tc_pending = [], tc_calls = [],
      tc_sent = []\<rparr>"

text \<open>The answers of the kernel.\<close>

datatype errno = EWOULDBLOCK | EPIPE | ECONNRESET | OtherErrno

datatype room = Room nat | SendError errno

datatype recv = Received bytes | Eof | RecvError

definition sys_send :: "room \<Rightarrow> nat \<Rightarrow> tcp_connection \<Rightarrow> room" where
  "sys_send k len c =
     (if tc_shutWr c then SendError EPIPE else case k of Room n \<Rightarrow> Room (min n len) | SendError e \<Rightarrow> SendError e)"

definition on_channel :: "(channel \<Rightarrow> channel) \<Rightarrow> tcp_connection \<Rightarrow> tcp_connection" where
  "on_channel f c = c\<lparr>tc_channel := f (tc_channel c)\<rparr>"

definition set_conn :: "conn_st \<Rightarrow> tcp_connection \<Rightarrow> tcp_connection" where
  "set_conn st c = c\<lparr>tc_state := st\<rparr>"

definition queueInLoop :: "loop_fn \<Rightarrow> tcp_connection \<Rightarrow> tcp_connection" where
  "queueInLoop f c = c\<lparr>tc_pending := tc_pending c @ [f]\<rparr>"

definition call :: "conn_call \<Rightarrow> tcp_connection \<Rightarrow> tcp_connection" where
  "call k c = c\<lparr>tc_calls := tc_calls c @ [k]\<rparr>"

definition connected :: "tcp_connection \<Rightarrow> bool" where
  "connected c \<longleftrightarrow> tc_state c = kConnected"

definition took :: "bytes \<Rightarrow> tcp_connection \<Rightarrow> tcp_connection" where
  "took bs c = c\<lparr>tc_wire := tc_wire c @ bs\<rparr>"

definition notify_complete :: "tcp_connection \<Rightarrow> tcp_connection" where
  "notify_complete c = (if tc_hasWriteComplete c then queueInLoop WriteComplete c else c)"

definition connectEstablished :: "tcp_connection \<Rightarrow> tcp_connection option" where
  "connectEstablished c =
     (if tc_state c \<noteq> kConnecting then None
      else Some (call (ConnectionCallback True) (on_channel (enableReading o channel_tie) (set_conn kConnected c))))"

definition connectDestroyed :: "tcp_connection \<Rightarrow> tcp_connection option" where
  "connectDestroyed c =
     (let c1 = (if tc_state c = kConnected
                then call (ConnectionCallback False) (on_channel disableAll (set_conn kDisconnected c)) else c)
      in map_option (\<lambda>ch. c1\<lparr>tc_channel := ch\<rparr>) (channel_remove (tc_channel c1)))"

text \<open>The direct write of \<open>sendInLoop\<close>: how many bytes were written, and whether the connection is broken.\<close>

definition write_now :: "room \<Rightarrow> bytes \<Rightarrow> tcp_connection \<Rightarrow> nat \<times> bool \<times> tcp_connection" where
  "write_now k msg c =
     (if \<not> isWriting (tc_channel c) \<and> readableBytes (tc_outputBuffer c) = 0 then
        (case sys_send k (length msg) c of
           Room n \<Rightarrow> (n, False, if length msg - n = 0 then notify_complete (took (take n msg) c) else took (take n msg) c)
         | SendError e \<Rightarrow> (0, e = EPIPE \<or> e = ECONNRESET, c))
      else (0, False, c))"

definition sendInLoop :: "room \<Rightarrow> bytes \<Rightarrow> tcp_connection \<Rightarrow> tcp_connection option" where
  "sendInLoop k msg c =
     (if tc_state c = kDisconnected then Some c
      else
        let (nwrote, faultError, c1) = write_now k msg c; remaining = length msg - nwrote
        in if \<not> nwrote \<le> length msg then None
           else if faultError then Some c1
           else if 0 < remaining then
             let oldLen = readableBytes (tc_outputBuffer c1);
                 c2 = (if tc_highWaterMark c1 \<le> oldLen + remaining \<and> oldLen < tc_highWaterMark c1 \<and> tc_hasHighWaterMark c1
                       then queueInLoop (HighWaterMark (oldLen + remaining)) c1 else c1)
             in map_option (\<lambda>b.
                  let c3 = c2\<lparr>tc_outputBuffer := b, tc_sent := tc_sent c2 @ msg\<rparr>
                  in if isWriting (tc_channel c3) then c3 else on_channel enableWriting c3)
                (buffer_append (drop nwrote msg) (tc_outputBuffer c2))
           else Some (c1\<lparr>tc_sent := tc_sent c1 @ msg\<rparr>))"

definition handleClose :: "tcp_connection \<Rightarrow> tcp_connection option" where
  "handleClose c =
     (if \<not> (tc_state c = kConnected \<or> tc_state c = kDisconnecting) then None
      else Some (call CloseCallback (call (ConnectionCallback False) (on_channel disableAll (set_conn kDisconnected c)))))"

definition handleError :: "tcp_connection \<Rightarrow> tcp_connection option" where
  "handleError c = (if tc_state c = kConnected \<or> tc_state c = kDisconnecting then handleClose c else Some c)"

text \<open>\<open>::recv\<close> fills at most the writable area. The message callback retrieves \<open>used\<close> of the readable bytes.\<close>

definition handleRead :: "recv \<Rightarrow> nat \<Rightarrow> tcp_connection \<Rightarrow> tcp_connection option" where
  "handleRead r used c =
     do {
       b \<leftarrow> ensureWritableBytes (tc_rdlen c) (tc_inputBuffer c);
       let c1 = c\<lparr>tc_inputBuffer := b\<rparr>;
       (case r of
          Received data \<Rightarrow>
            do {
              let got = take (writableBytes b) data;
              d \<leftarrow> copy_to got (bf_writerIndex b) (bf_buffer b);
              b2 \<leftarrow> hasWritten (length got) (b\<lparr>bf_buffer := d\<rparr>);
              let c2 = call (MessageCallback (readable b2)) (c1\<lparr>tc_inputBuffer := b2\<rparr>);
              b3 \<leftarrow> retrieve (min used (readableBytes b2)) b2;
              Some (c2\<lparr>tc_inputBuffer := b3\<rparr>)
            }
        | Eof \<Rightarrow> handleClose c1
        | RecvError \<Rightarrow> handleError c1)
     }"

definition shutdownInLoop :: "tcp_connection \<Rightarrow> tcp_connection" where
  "shutdownInLoop c = (if \<not> isWriting (tc_channel c) then c\<lparr>tc_shutWr := True\<rparr> else c)"

definition handleWrite :: "room \<Rightarrow> tcp_connection \<Rightarrow> tcp_connection option" where
  "handleWrite k c =
     (if \<not> isWriting (tc_channel c) then Some c
      else
        case sys_send k (readableBytes (tc_outputBuffer c)) c of
          SendError e \<Rightarrow> Some c
        | Room n \<Rightarrow>
            if n = 0 then Some c
            else do {
              b \<leftarrow> retrieve n (tc_outputBuffer c);
              let c1 = (took (take n (readable (tc_outputBuffer c))) c)\<lparr>tc_outputBuffer := b\<rparr>;
              if readableBytes b \<noteq> 0 then Some c1
              else
                let c2 = notify_complete (on_channel disableWriting c1)
                in Some (if tc_state c2 = kDisconnecting then shutdownInLoop c2 else c2)
            })"

definition forceCloseInLoop :: "tcp_connection \<Rightarrow> tcp_connection option" where
  "forceCloseInLoop c = (if tc_state c = kConnected \<or> tc_state c = kDisconnecting then handleClose c else Some c)"

text \<open>The calls any thread may make; the flag says whether the caller is the loop's own thread.\<close>

definition tcp_send :: "bool \<Rightarrow> room \<Rightarrow> bytes \<Rightarrow> tcp_connection \<Rightarrow> tcp_connection option" where
  "tcp_send inLoop k msg c =
     (if tc_state c \<noteq> kConnected then Some c
      else if inLoop then sendInLoop k msg c else Some (queueInLoop (SendInLoop msg) c))"

definition tcp_send_buffer :: "bool \<Rightarrow> room \<Rightarrow> buffer \<Rightarrow> tcp_connection \<Rightarrow> (buffer \<times> tcp_connection) option" where
  "tcp_send_buffer inLoop k buf c =
     (if tc_state c \<noteq> kConnected then Some (buf, c)
      else if inLoop then map_option (Pair (retrieveAll buf)) (sendInLoop k (readable buf) c)
      else do { (msg, buf') \<leftarrow> retrieveAllAsString buf; Some (buf', queueInLoop (SendInLoop msg) c) })"

definition tcp_shutdown :: "bool \<Rightarrow> tcp_connection \<Rightarrow> tcp_connection" where
  "tcp_shutdown inLoop c =
     (if tc_state c \<noteq> kConnected then c
      else if inLoop then shutdownInLoop (set_conn kDisconnecting c)
      else queueInLoop ShutdownInLoop (set_conn kDisconnecting c))"

definition forceClose :: "tcp_connection \<Rightarrow> tcp_connection" where
  "forceClose c =
     (if tc_state c = kConnected \<or> tc_state c = kDisconnecting
      then queueInLoop ForceCloseInLoop (set_conn kDisconnecting c) else c)"

section \<open>Dispatch\<close>

text \<open>\<open>Channel::handleEventWithGuard\<close> with the callbacks the connection installs.\<close>

definition handleEvent :: "u32 \<Rightarrow> recv \<Rightarrow> nat \<Rightarrow> room \<Rightarrow> tcp_connection \<Rightarrow> tcp_connection option" where
  "handleEvent revents r used k c =
     do {
       c1 \<leftarrow> (if revents AND POLLHUP \<noteq> 0 \<and> revents AND POLLIN = 0 then handleClose c else Some c);
       c2 \<leftarrow> (if revents AND (POLLERR OR POLLNVAL) \<noteq> 0 then handleError c1 else Some c1);
       c3 \<leftarrow> (if revents AND (POLLIN OR POLLPRI OR POLLRDHUP) \<noteq> 0 then handleRead r used c2 else Some c2);
       (if revents AND POLLOUT \<noteq> 0 then handleWrite k c3 else Some c3)
     }"

text \<open>One function of the loop's queue.\<close>

definition run_fn :: "room \<Rightarrow> loop_fn \<Rightarrow> tcp_connection \<Rightarrow> tcp_connection option" where
  "run_fn k f c =
     (case f of
        SendInLoop msg \<Rightarrow> sendInLoop k msg c
      | ShutdownInLoop \<Rightarrow> Some (shutdownInLoop c)
      | ForceCloseInLoop \<Rightarrow> forceCloseInLoop c
      | WriteComplete \<Rightarrow> Some c
      | HighWaterMark n \<Rightarrow> Some c)"

fun run_fns :: "room list \<Rightarrow> loop_fn list \<Rightarrow> tcp_connection \<Rightarrow> tcp_connection option" where
  "run_fns ks [] c = Some c"
| "run_fns ks (f # fs) c =
     do { c' \<leftarrow> run_fn (case ks of [] \<Rightarrow> Room 0 | k # _ \<Rightarrow> k) f c; run_fns (tl ks) fs c' }"

text \<open>The queue is swapped out first: what the functions queue runs in the next turn.\<close>

definition doPendingFunctors :: "room list \<Rightarrow> tcp_connection \<Rightarrow> tcp_connection option" where
  "doPendingFunctors ks c = run_fns ks (tc_pending c) (c\<lparr>tc_pending := []\<rparr>)"

datatype tcp_event =
    Send bool room bytes
  | Shutdown bool
  | ForceClose
  | Poll u32 recv nat room
  | RunPending "room list"

fun tcp_step :: "tcp_event \<Rightarrow> tcp_connection \<Rightarrow> tcp_connection option" where
  "tcp_step (Send inLoop k msg) c = tcp_send inLoop k msg c"
| "tcp_step (Shutdown inLoop) c = Some (tcp_shutdown inLoop c)"
| "tcp_step ForceClose c = Some (forceClose c)"
| "tcp_step (Poll revents r used k) c =
     (if isNoneEvent (tc_channel c) then Some c else handleEvent revents r used k c)"
| "tcp_step (RunPending ks) c = doPendingFunctors ks c"

fun tcp_run :: "tcp_event list \<Rightarrow> tcp_connection \<Rightarrow> tcp_connection option" where
  "tcp_run [] c = Some c"
| "tcp_run (e # es) c = do { c' \<leftarrow> tcp_step e c; tcp_run es c' }"

end
