(* ===== verification/Tcp_Delivery.thy ===== *)
theory Tcp_Delivery
  imports Tcp_Connection
begin

text \<open>
  What a connection does with the bytes it is given: the invariant that ties the socket, the output buffer and the
  channel, that every operation keeps it, and how a shutdown waits for the last byte.
\<close>

section \<open>Invariant\<close>

definition active :: "tcp_connection \<Rightarrow> bool" where
  "active c \<longleftrightarrow> tc_state c = kConnected \<or> tc_state c = kDisconnecting"

text \<open>
  The socket has taken a prefix of what was sent and the output buffer holds the rest; while the connection is up, the
  channel waits for writability exactly when something is left, and the sending side is shut down only when nothing is.
\<close>

definition tcp_ok :: "tcp_connection \<Rightarrow> bool" where
  "tcp_ok c \<longleftrightarrow>
     buffer_ok (tc_inputBuffer c) \<and> buffer_ok (tc_outputBuffer c) \<and>
     tc_wire c @ readable (tc_outputBuffer c) = tc_sent c \<and>
     (if active c
      then ch_events (tc_channel c) = (if readable (tc_outputBuffer c) = [] then 3 else 7) \<and>
           (tc_shutWr c \<longrightarrow> readable (tc_outputBuffer c) = [])
      else tc_state c = kDisconnected \<and> ch_events (tc_channel c) = 0)"

lemmas channel_defs = enableReading_def enableWriting_def disableWriting_def disableAll_def isNoneEvent_def
  isWriting_def isReading_def channel_tie_def channel_update_def kNoneEvent_def kReadEvent_def kWriteEvent_def poll_defs

lemmas conn_ops = on_channel_def set_conn_def queueInLoop_def call_def took_def notify_complete_def

lemma readableBytes_Nil: "buffer_ok b \<Longrightarrow> readableBytes b = 0 \<longleftrightarrow> readable b = []"
  using length_readable [of b] by (metis length_0_conv)

lemma tcp_ok_buffers: "tcp_ok c \<Longrightarrow> buffer_ok (tc_inputBuffer c) \<and> buffer_ok (tc_outputBuffer c)"
  by (simp add: tcp_ok_def)

lemma tcp_ok_writing: "tcp_ok c \<Longrightarrow> isWriting (tc_channel c) \<longleftrightarrow> active c \<and> readable (tc_outputBuffer c) \<noteq> []"
  by (auto simp: tcp_ok_def isWriting_def kWriteEvent_def POLLOUT_def split: if_splits)

lemma tcp_ok_frame [simp]:
  "tcp_ok (c\<lparr>tc_pending := p\<rparr>) \<longleftrightarrow> tcp_ok c" "tcp_ok (c\<lparr>tc_calls := l\<rparr>) \<longleftrightarrow> tcp_ok c"
  "tcp_ok (queueInLoop f c) \<longleftrightarrow> tcp_ok c" "tcp_ok (call k c) \<longleftrightarrow> tcp_ok c" "tcp_ok (notify_complete c) \<longleftrightarrow> tcp_ok c"
  by (simp_all add: tcp_ok_def active_def conn_ops)

lemma tcp_ok_input: "tcp_ok c \<Longrightarrow> buffer_ok b \<Longrightarrow> tcp_ok (c\<lparr>tc_inputBuffer := b\<rparr>)"
  by (simp add: tcp_ok_def active_def)

lemma established_ok:
  "\<exists>c. connectEstablished (TcpConnection_new wc hw) = Some c \<and> tcp_ok c \<and> tc_state c = kConnected \<and>
     tc_wire c = [] \<and> readable (tc_outputBuffer c) = [] \<and> \<not> tc_shutWr c"
  using Buffer_new_ok [of kInitialSize]
  by (simp add: connectEstablished_def TcpConnection_new_def tcp_ok_def active_def conn_ops channel_defs Channel_new_def)

section \<open>Operations\<close>

lemma handleClose_ok:
  assumes "tcp_ok c" "active c"
  shows "\<exists>c'. handleClose c = Some c' \<and> tcp_ok c'"
  using assms by (simp add: handleClose_def active_def tcp_ok_def conn_ops disableAll_def channel_update_def kNoneEvent_def)

lemma handleError_ok: "tcp_ok c \<Longrightarrow> \<exists>c'. handleError c = Some c' \<and> tcp_ok c'"
  using handleClose_ok [of c] by (auto simp: handleError_def active_def)

lemma forceCloseInLoop_ok: "tcp_ok c \<Longrightarrow> \<exists>c'. forceCloseInLoop c = Some c' \<and> tcp_ok c'"
  using handleClose_ok [of c] by (auto simp: forceCloseInLoop_def active_def)

lemma shutdownInLoop_ok: "tcp_ok c \<Longrightarrow> tcp_ok (shutdownInLoop c)"
  using tcp_ok_writing [of c] by (auto simp: shutdownInLoop_def tcp_ok_def active_def)

text \<open>A message is given up, or it stands behind everything sent before.\<close>

definition lost :: "room \<Rightarrow> tcp_connection \<Rightarrow> bool" where
  "lost k c \<longleftrightarrow> readable (tc_outputBuffer c) = [] \<and>
     (tc_shutWr c \<or> k = SendError EPIPE \<or> k = SendError ECONNRESET)"

lemma write_now_cases:
  assumes "tcp_ok c" "active c"
  obtains (lost) "lost k c" "write_now k msg c = (0, True, c)"
    | (written) n c1 where "\<not> lost k c" "readable (tc_outputBuffer c) = []" "n \<le> length msg" "write_now k msg c = (n, False, c1)"
        "c1 = took (take n msg) c \<or> c1 = notify_complete (took (take n msg) c)"
    | (queued) "\<not> lost k c" "readable (tc_outputBuffer c) \<noteq> []" "write_now k msg c = (0, False, c)"
proof (cases "readable (tc_outputBuffer c) = []")
  case True
  have direct: "\<not> isWriting (tc_channel c) \<and> readableBytes (tc_outputBuffer c) = 0"
    using assms True tcp_ok_writing [OF assms(1)] readableBytes_Nil tcp_ok_buffers [OF assms(1)] by auto
  show ?thesis
  proof (cases "sys_send k (length msg) c")
    case (Room n)
    then have "n \<le> length msg" "\<not> lost k c" by (auto simp: sys_send_def lost_def split: room.splits if_splits)
    with Room direct show ?thesis by (intro written [OF _ True]) (auto simp: write_now_def)
  next
    case (SendError e)
    show ?thesis
    proof (cases "lost k c")
      case True
      with SendError have "e = EPIPE \<or> e = ECONNRESET"
        by (auto simp: lost_def sys_send_def split: room.splits if_splits)
      with direct SendError True show ?thesis by (intro lost) (simp_all add: write_now_def)
    next
      case False
      then have "\<not> (e = EPIPE \<or> e = ECONNRESET)"
        using SendError True by (auto simp: lost_def sys_send_def split: room.splits if_splits)
      with direct SendError False show ?thesis
        by (intro written [OF False True, of 0 c]) (auto simp: write_now_def took_def)
    qed
  qed
next
  case False
  then have "isWriting (tc_channel c)" using assms tcp_ok_writing by blast
  with False show ?thesis by (intro queued) (simp_all add: write_now_def lost_def)
qed

lemma took_form:
  "c1 = took bs c \<or> c1 = notify_complete (took bs c) \<Longrightarrow> \<exists>p. c1 = c\<lparr>tc_wire := tc_wire c @ bs, tc_pending := p\<rparr>"
  "c = c\<lparr>tc_wire := tc_wire c @ [], tc_pending := tc_pending c\<rparr>"
  by (cases c; auto simp: conn_ops)+

text \<open>The bytes that were not written go to the output buffer.\<close>

lemma buffer_rest:
  assumes c: "tcp_ok c" "active c" "\<not> tc_shutWr c"
    and n: "n \<le> length msg" "n = 0 \<or> readable (tc_outputBuffer c) = []" "n < length msg"
    and b: "buffer_append (drop n msg) (tc_outputBuffer c) = Some b"
    and c3: "c3 = c\<lparr>tc_wire := tc_wire c @ take n msg, tc_pending := p, tc_outputBuffer := b, tc_sent := tc_sent c @ msg\<rparr>"
  shows "isWriting (tc_channel c) \<Longrightarrow> tcp_ok c3"
    "\<not> isWriting (tc_channel c) \<Longrightarrow> tcp_ok (c3\<lparr>tc_channel := enableWriting (tc_channel c)\<rparr>)"
proof -
  have out: "buffer_ok b" "readable b = readable (tc_outputBuffer c) @ drop n msg"
    using append_ok [of "tc_outputBuffer c" "drop n msg"] tcp_ok_buffers [OF c(1)] b by auto
  have "tc_wire c @ take n msg @ readable (tc_outputBuffer c) @ drop n msg = tc_sent c @ msg"
    using n(2) c(1) by (auto simp: tcp_ok_def)
  moreover have "readable b \<noteq> []" using out(2) n(3) by simp
  ultimately show "isWriting (tc_channel c) \<Longrightarrow> tcp_ok c3"
    "\<not> isWriting (tc_channel c) \<Longrightarrow> tcp_ok (c3\<lparr>tc_channel := enableWriting (tc_channel c)\<rparr>)"
    using c out tcp_ok_writing [OF c(1)]
    by (auto simp: tcp_ok_def active_def c3 channel_defs)
qed

lemma sendInLoop_ok:
  assumes c: "tcp_ok c"
  shows "\<exists>c'. sendInLoop k msg c = Some c' \<and> tcp_ok c' \<and> tc_state c' = tc_state c \<and> tc_shutWr c' = tc_shutWr c \<and>
    length (tc_wire c) \<le> length (tc_wire c') \<and>
    tc_sent c' = (if \<not> active c \<or> lost k c then tc_sent c else tc_sent c @ msg)"
proof (cases "active c")
  case False
  with c have "tc_state c = kDisconnected" by (simp add: tcp_ok_def)
  with False c show ?thesis by (simp add: sendInLoop_def)
next
  case True
  then have st: "tc_state c \<noteq> kDisconnected" by (auto simp: active_def)
  have out: "buffer_ok (tc_outputBuffer c)" using tcp_ok_buffers [OF c] by simp
  have rest: "\<exists>c'. sendInLoop k msg c = Some c' \<and> tcp_ok c' \<and> tc_state c' = tc_state c \<and> tc_shutWr c' = tc_shutWr c \<and>
      length (tc_wire c) \<le> length (tc_wire c') \<and> tc_sent c' = tc_sent c @ msg"
    if w: "write_now k msg c = (n, False, c1)" and n: "n \<le> length msg" "n = 0 \<or> readable (tc_outputBuffer c) = []"
      and c1: "c1 = c\<lparr>tc_wire := tc_wire c @ take n msg, tc_pending := p\<rparr>" and shut: "\<not> tc_shutWr c" for n c1 p
  proof (cases "n < length msg")
    case True
    obtain b where b: "buffer_append (drop n msg) (tc_outputBuffer c) = Some b" using append_ok [OF out] by blast
    note ok = buffer_rest [OF c \<open>active c\<close> shut n True b]
    show ?thesis using st w n(1) True b ok [OF refl] by (simp add: sendInLoop_def Let_def c1 queueInLoop_def on_channel_def)
  next
    case False
    with n have m: "n = length msg" by simp
    have "readable (tc_outputBuffer c) = [] \<or> msg = []" using n(2) m by auto
    then have "tcp_ok (c1\<lparr>tc_sent := tc_sent c1 @ msg\<rparr>)" using c by (auto simp: c1 m tcp_ok_def active_def)
    with st w m show ?thesis by (simp add: sendInLoop_def c1)
  qed
  show ?thesis
  proof (cases rule: write_now_cases [OF c True, of k msg, case_names lost written queued])
    case lost
    with st c show ?thesis by (simp add: sendInLoop_def)
  next
    case (written n c1)
    then obtain p where form: "c1 = c\<lparr>tc_wire := tc_wire c @ take n msg, tc_pending := p\<rparr>"
      using took_form(1) by blast
    have "\<not> tc_shutWr c" using written(1,2) by (simp add: lost_def)
    from rest [OF written(4,3) disjI2 [OF written(2)] form this] written(1) True show ?thesis by simp
  next
    case queued
    have shut: "\<not> tc_shutWr c" using c True queued(2) by (auto simp: tcp_ok_def)
    have form: "c = c\<lparr>tc_wire := tc_wire c @ take 0 msg, tc_pending := tc_pending c\<rparr>"
      using took_form(2) [of c] by (simp only: take_0)
    from rest [OF queued(3) _ disjI1 [OF refl] form shut] queued(1) True show ?thesis by simp
  qed
qed

lemma handleWrite_ok:
  assumes c: "tcp_ok c"
  shows "\<exists>c'. handleWrite k c = Some c' \<and> tcp_ok c' \<and> tc_state c' = tc_state c \<and> tc_sent c' = tc_sent c \<and>
    readable (tc_outputBuffer c') =
      (case k of Room n \<Rightarrow> if active c then drop n (readable (tc_outputBuffer c)) else readable (tc_outputBuffer c)
       | SendError e \<Rightarrow> readable (tc_outputBuffer c)) \<and>
    (tc_state c = kDisconnecting \<and> (tc_shutWr c \<longleftrightarrow> readable (tc_outputBuffer c) = []) \<longrightarrow>
       (tc_shutWr c' \<longleftrightarrow> readable (tc_outputBuffer c') = []))"
proof (cases "isWriting (tc_channel c)")
  case False
  then have "\<not> active c \<or> readable (tc_outputBuffer c) = []" using tcp_ok_writing [OF c] by simp
  with False c show ?thesis by (auto simp: handleWrite_def split: room.split)
next
  case True
  then have a: "active c" "readable (tc_outputBuffer c) \<noteq> []" using tcp_ok_writing [OF c] by simp_all
  have out: "buffer_ok (tc_outputBuffer c)" using tcp_ok_buffers [OF c] by simp
  have shut: "\<not> tc_shutWr c" using c a by (auto simp: tcp_ok_def)
  show ?thesis
  proof (cases k)
    case (SendError e)
    with True c a shut show ?thesis by (simp add: handleWrite_def sys_send_def)
  next
    case (Room m)
    define n where "n = min m (length (readable (tc_outputBuffer c)))"
    have n: "drop m (readable (tc_outputBuffer c)) = drop n (readable (tc_outputBuffer c))" by (simp add: n_def min_def)
    have sys: "sys_send k (readableBytes (tc_outputBuffer c)) c = Room n"
      using shut Room out by (simp add: sys_send_def n_def)
    show ?thesis
    proof (cases "n = 0")
      case True
      with \<open>isWriting (tc_channel c)\<close> c a shut sys Room n show ?thesis by (simp add: handleWrite_def)
    next
      case False
      obtain b where b: "retrieve n (tc_outputBuffer c) = Some b" "buffer_ok b"
        "readable b = drop n (readable (tc_outputBuffer c))"
        using nb.discard_ok [OF out, of n] by (auto simp: n_def)
      let ?c1 = "(took (take n (readable (tc_outputBuffer c))) c)\<lparr>tc_outputBuffer := b\<rparr>"
      show ?thesis
      proof (cases "readable b = []")
        case True
        let ?c2 = "notify_complete (on_channel disableWriting ?c1)"
        have c2: "tcp_ok ?c2" "tc_state ?c2 = tc_state c" "tc_sent ?c2 = tc_sent c" "tc_outputBuffer ?c2 = b"
          "\<not> isWriting (tc_channel ?c2)" "tc_shutWr ?c2 = tc_shutWr c"
          using c a b True
          by (auto simp: tcp_ok_def active_def conn_ops disableWriting_def channel_update_def kWriteEvent_def POLLOUT_def
              isWriting_def)
        have "handleWrite k c = Some (if tc_state ?c2 = kDisconnecting then shutdownInLoop ?c2 else ?c2)"
          using \<open>isWriting (tc_channel c)\<close> sys False b readableBytes_Nil [OF b(2)] True by (simp add: handleWrite_def Let_def)
        then show ?thesis
          using c2 shutdownInLoop_ok [OF c2(1)] True Room a(1) n b(3) by (simp add: shutdownInLoop_def)
      next
        case False
        have "tcp_ok ?c1" using c a b False shut
          by (auto simp: tcp_ok_def active_def took_def)
        moreover have "handleWrite k c = Some ?c1"
          using \<open>isWriting (tc_channel c)\<close> sys \<open>n \<noteq> 0\<close> b readableBytes_Nil [OF b(2)] False by (simp add: handleWrite_def Let_def)
        ultimately show ?thesis using Room a(1) n b(3) False shut by (simp add: took_def)
      qed
    qed
  qed
qed

lemma handleRead_ok:
  assumes c: "tcp_ok c" and eof: "active c \<or> r \<noteq> Eof"
  shows "\<exists>c'. handleRead r used c = Some c' \<and> tcp_ok c'"
proof -
  obtain b where b: "ensureWritableBytes (tc_rdlen c) (tc_inputBuffer c) = Some b" "buffer_ok b"
    using ensureWritableBytes_ok tcp_ok_buffers [OF c] by blast
  let ?c1 = "c\<lparr>tc_inputBuffer := b\<rparr>"
  have c1: "tcp_ok ?c1" "active ?c1 = active c" using tcp_ok_input [OF c b(2)] by (simp_all add: active_def)
  show ?thesis
  proof (cases r)
    case (Received data)
    let ?got = "take (writableBytes b) data"
    have fits: "bf_writerIndex b + length ?got \<le> length (bf_buffer b)"
      using b(2) by (auto simp: writableBytes_def buffer_ok_def)
    obtain d where d: "copy_to ?got (bf_writerIndex b) (bf_buffer b) = Some d" "length d = length (bf_buffer b)"
      using copy_to_Some [OF fits] by blast
    let ?b2 = "b\<lparr>bf_buffer := d, bf_writerIndex := bf_writerIndex b + length ?got\<rparr>"
    have b2: "hasWritten (length ?got) (b\<lparr>bf_buffer := d\<rparr>) = Some ?b2" "buffer_ok ?b2"
      using d b(2) fits by (auto simp: hasWritten_def writableBytes_def buffer_ok_def)
    obtain b3 where b3: "retrieve (min used (readableBytes ?b2)) ?b2 = Some b3" "buffer_ok b3"
      using retrieve_ok [OF b2(2), of "min used (readableBytes ?b2)"] by auto
    show ?thesis using Received b(1) d(1) b2(1) b3(1) tcp_ok_input [OF _ b3(2)] c
      by (simp add: handleRead_def Let_def call_def)
  next
    case Eof
    then show ?thesis using handleClose_ok [OF c1(1)] c1(2) eof b(1) by (simp add: handleRead_def)
  next
    case RecvError
    then show ?thesis using handleError_ok [OF c1(1)] b(1) by (simp add: handleRead_def)
  qed
qed

section \<open>Events\<close>

definition closing :: "u32 \<Rightarrow> bool" where
  "closing revents \<longleftrightarrow>
     (revents AND POLLHUP \<noteq> 0 \<and> revents AND POLLIN = 0) \<or> revents AND (POLLERR OR POLLNVAL) \<noteq> 0"

definition reading :: "u32 \<Rightarrow> bool" where
  "reading revents \<longleftrightarrow> revents AND (POLLIN OR POLLPRI OR POLLRDHUP) \<noteq> 0"

text \<open>No poll reports an error or hang-up together with an end of file to be read.\<close>

fun calm :: "tcp_event \<Rightarrow> bool" where
  "calm (Poll revents r used k) \<longleftrightarrow> \<not> (closing revents \<and> reading revents \<and> r = Eof)"
| "calm _ \<longleftrightarrow> True"

lemma handleEvent_ok:
  assumes c: "tcp_ok c" "active c" and calm: "\<not> (closing revents \<and> reading revents \<and> r = Eof)"
  shows "\<exists>c'. handleEvent revents r used k c = Some c' \<and> tcp_ok c'"
proof -
  obtain c1 where c1: "(if revents AND POLLHUP \<noteq> 0 \<and> revents AND POLLIN = 0 then handleClose c else Some c) = Some c1"
    "tcp_ok c1" "\<not> (revents AND POLLHUP \<noteq> 0 \<and> revents AND POLLIN = 0) \<longrightarrow> c1 = c"
    using handleClose_ok [OF c] c(1) by (cases "revents AND POLLHUP \<noteq> 0 \<and> revents AND POLLIN = 0") auto
  obtain c2 where c2: "(if revents AND (POLLERR OR POLLNVAL) \<noteq> 0 then handleError c1 else Some c1) = Some c2"
    "tcp_ok c2" "\<not> revents AND (POLLERR OR POLLNVAL) \<noteq> 0 \<longrightarrow> c2 = c1"
    using handleError_ok [OF c1(2)] c1(2) by (cases "revents AND (POLLERR OR POLLNVAL) \<noteq> 0") auto
  have "active c2 \<or> r \<noteq> Eof" if "reading revents"
    using that calm c(2) c1(3) c2(3) by (auto simp: closing_def)
  then obtain c3 where c3: "(if revents AND (POLLIN OR POLLPRI OR POLLRDHUP) \<noteq> 0 then handleRead r used c2 else Some c2) = Some c3"
    "tcp_ok c3"
    using handleRead_ok [OF c2(2), of r used] c2(2) by (cases "reading revents") (auto simp: reading_def)
  show ?thesis
    unfolding handleEvent_def c1(1) c2(1) c3(1) bind.bind_lunit
    using handleWrite_ok [OF c3(2), of k] c3(2) by (cases "revents AND POLLOUT \<noteq> 0") auto
qed

lemma run_fn_ok: "tcp_ok c \<Longrightarrow> \<exists>c'. run_fn k f c = Some c' \<and> tcp_ok c'"
  using sendInLoop_ok [of c k] shutdownInLoop_ok [of c] forceCloseInLoop_ok [of c]
  by (cases f) (auto simp: run_fn_def)

lemma run_fns_ok: "tcp_ok c \<Longrightarrow> \<exists>c'. run_fns ks fs c = Some c' \<and> tcp_ok c'"
proof (induction ks fs c rule: run_fns.induct)
  case (2 ks f fs c)
  obtain c1 where c1: "run_fn (case ks of [] \<Rightarrow> Room 0 | k # _ \<Rightarrow> k) f c = Some c1" "tcp_ok c1"
    using run_fn_ok [OF "2.prems"] by blast
  from "2.IH" [OF c1] c1(1) show ?case by simp
qed simp

lemma set_disconnecting_ok: "tcp_ok c \<Longrightarrow> active c \<Longrightarrow> tcp_ok (set_conn kDisconnecting c)"
  by (simp add: tcp_ok_def active_def set_conn_def)

lemma tcp_step_ok: "tcp_ok c \<Longrightarrow> calm e \<Longrightarrow> \<exists>c'. tcp_step e c = Some c' \<and> tcp_ok c'"
proof (cases e)
  case (Send inLoop k msg)
  assume "tcp_ok c"
  with Send show ?thesis using sendInLoop_ok [of c k msg] by (auto simp: tcp_send_def)
next
  case (Shutdown inLoop)
  assume "tcp_ok c"
  with Shutdown show ?thesis
    using set_disconnecting_ok [of c] shutdownInLoop_ok by (auto simp: tcp_shutdown_def active_def)
next
  case ForceClose
  assume "tcp_ok c"
  with ForceClose show ?thesis using set_disconnecting_ok [of c] by (auto simp: forceClose_def active_def)
next
  case (Poll revents r used k)
  assume "tcp_ok c" "calm e"
  with Poll show ?thesis
    using handleEvent_ok [of c revents r used k] by (auto simp: isNoneEvent_def tcp_ok_def kNoneEvent_def split: if_splits)
next
  case (RunPending ks)
  assume "tcp_ok c"
  with RunPending show ?thesis using run_fns_ok [of "c\<lparr>tc_pending := []\<rparr>" ks "tc_pending c"] by (simp add: doPendingFunctors_def)
qed

lemma tcp_run_ok: "tcp_ok c \<Longrightarrow> list_all calm es \<Longrightarrow> \<exists>c'. tcp_run es c = Some c' \<and> tcp_ok c'"
proof (induction es arbitrary: c)
  case (Cons e es)
  then obtain c1 where "tcp_step e c = Some c1" "tcp_ok c1" using tcp_step_ok [of c e] by auto
  with Cons.IH [of c1] Cons.prems(2) show ?case by auto
qed simp

lemma tcp_run_append: "tcp_run (es @ fs) c = do { c' \<leftarrow> tcp_run es c; tcp_run fs c' }"
  by (induction es arbitrary: c) (auto split: bind_splits)

section \<open>Shutdown\<close>

text \<open>A connection that only waits for its last bytes.\<close>

definition draining :: "bytes \<Rightarrow> tcp_connection \<Rightarrow> bool" where
  "draining bs c \<longleftrightarrow> tcp_ok c \<and> tc_state c = kDisconnecting \<and> tc_sent c = bs \<and>
     (tc_shutWr c \<longleftrightarrow> readable (tc_outputBuffer c) = [])"

definition writable :: "nat \<Rightarrow> tcp_event" where
  "writable n = Poll POLLOUT RecvError 0 (Room n)"

lemma writable_draining:
  assumes "draining bs c"
  shows "\<exists>c'. tcp_step (writable n) c = Some c' \<and> draining bs c' \<and>
    readable (tc_outputBuffer c') = drop n (readable (tc_outputBuffer c))"
proof -
  have c: "tcp_ok c" "active c" using assms by (simp_all add: draining_def active_def)
  have "tcp_step (writable n) c = handleWrite (Room n) c"
    using c by (simp add: writable_def handleEvent_def poll_defs isNoneEvent_def kNoneEvent_def tcp_ok_def)
  with handleWrite_ok [OF c(1), of "Room n"] c(2) assms show ?thesis by (auto simp: draining_def)
qed

lemma drained:
  "draining bs c \<Longrightarrow> \<exists>c'. tcp_run (map writable ns) c = Some c' \<and> draining bs c' \<and>
     readable (tc_outputBuffer c') = drop (sum_list ns) (readable (tc_outputBuffer c))"
proof (induction ns arbitrary: c)
  case (Cons n ns)
  obtain c1 where c1: "tcp_step (writable n) c = Some c1" "draining bs c1"
    "readable (tc_outputBuffer c1) = drop n (readable (tc_outputBuffer c))"
    using writable_draining [OF Cons.prems] by blast
  with Cons.IH [OF c1(2)] show ?case by (auto simp: add.commute)
qed simp

lemma send_shutdown_draining:
  assumes c: "tcp_ok c" "tc_state c = kConnected" "\<not> tc_shutWr c" and k: "\<not> lost k c"
  shows "\<exists>c'. tcp_run [Send True k msg, Shutdown True] c = Some c' \<and> draining (tc_sent c @ msg) c' \<and>
    length (readable (tc_outputBuffer c')) \<le> length (readable (tc_outputBuffer c)) + length msg"
proof -
  obtain c1 where c1: "sendInLoop k msg c = Some c1" "tcp_ok c1" "tc_state c1 = kConnected" "\<not> tc_shutWr c1"
    "tc_sent c1 = tc_sent c @ msg" "length (tc_wire c) \<le> length (tc_wire c1)"
    using sendInLoop_ok [OF c(1), of k msg] c k by (auto simp: active_def)
  have "tc_wire c1 @ readable (tc_outputBuffer c1) = tc_wire c @ readable (tc_outputBuffer c) @ msg"
    using c(1) c1(2,5) by (simp add: tcp_ok_def)
  then have len: "length (readable (tc_outputBuffer c1)) \<le> length (readable (tc_outputBuffer c)) + length msg"
    using c1(6) by (auto dest: arg_cong [of _ _ length])
  have a: "active c1" using c1(3) by (simp add: active_def)
  let ?c2 = "set_conn kDisconnecting c1"
  have w: "isWriting (tc_channel ?c2) \<longleftrightarrow> readable (tc_outputBuffer c1) \<noteq> []"
    using tcp_ok_writing [OF c1(2)] a by (simp add: set_conn_def)
  have "tcp_ok (shutdownInLoop ?c2)" using shutdownInLoop_ok set_disconnecting_ok [OF c1(2) a] by simp
  then have "draining (tc_sent c @ msg) (shutdownInLoop ?c2)"
    using w c1(4,5) by (auto simp: draining_def shutdownInLoop_def set_conn_def)
  moreover have "tc_outputBuffer (shutdownInLoop ?c2) = tc_outputBuffer c1" by (simp add: shutdownInLoop_def set_conn_def)
  ultimately show ?thesis using c1 c(2) len by (simp add: tcp_send_def tcp_shutdown_def)
qed

end
