(* ===== verification/Net_Properties.thy ===== *)
theory Net_Properties
  imports Tcp_Delivery
begin

text \<open>Properties of a connection: its byte stream, its shutdown, and the order of its callbacks after an error.\<close>

definition example_message :: bytes where "example_message = [72, 105, 33]"

lemma reachable_ok:
  assumes "connectEstablished (TcpConnection_new wc hw) = Some c0" "list_all calm es" "tcp_run es c0 = Some c"
  shows "tcp_ok c"
  using established_ok [of wc hw] tcp_run_ok [of c0 es] assms by auto



text \<open>
  C29: A message sent before \<open>shutdown\<close> is not cut: while the kernel takes the rest piece by piece, the sending side
  is shut down exactly when the last byte is on the wire, behind everything that was sent before, and that
  happens once the kernel has made room for all of it.
\<close>

theorem tcp_graceful_shutdown:
  assumes "connectEstablished (TcpConnection_new wc hw) = Some c0" "list_all calm es" "tcp_run es c0 = Some c"
    and "tc_state c = kConnected" "\<not> tc_shutWr c" "k \<notin> {SendError EPIPE, SendError ECONNRESET}"
  shows "\<exists>c'. tcp_run (Send True k msg # Shutdown True # map writable ns) c = Some c' \<and>
    tc_wire c' @ readable (tc_outputBuffer c') = tc_wire c @ readable (tc_outputBuffer c) @ msg \<and>
    (tc_shutWr c' \<longleftrightarrow> tc_wire c' = tc_wire c @ readable (tc_outputBuffer c) @ msg) \<and>
    (length (readable (tc_outputBuffer c)) + length msg \<le> sum_list ns \<longrightarrow> tc_shutWr c')"
proof -
  have ok: "tcp_ok c" by (rule reachable_ok [OF assms(1-3)])
  have "\<not> lost k c" using assms(5,6) by (auto simp: lost_def)
  then obtain c1 where c1: "tcp_run [Send True k msg, Shutdown True] c = Some c1" "draining (tc_sent c @ msg) c1"
    "length (readable (tc_outputBuffer c1)) \<le> length (readable (tc_outputBuffer c)) + length msg"
    using send_shutdown_draining [OF ok assms(4,5)] by blast
  obtain c' where c': "tcp_run (map writable ns) c1 = Some c'" "draining (tc_sent c @ msg) c'"
    "readable (tc_outputBuffer c') = drop (sum_list ns) (readable (tc_outputBuffer c1))"
    using drained [OF c1(2)] by blast
  have run: "tcp_run (Send True k msg # Shutdown True # map writable ns) c = Some c'"
    using tcp_run_append [of "[Send True k msg, Shutdown True]" "map writable ns" c]
    by (simp only: c1(1) c'(1) bind.bind_lunit append.simps)
  have sent: "tc_sent c = tc_wire c @ readable (tc_outputBuffer c)" using ok by (simp add: tcp_ok_def)
  have all: "tc_wire c' @ readable (tc_outputBuffer c') = tc_sent c @ msg" and shut: "tc_shutWr c' \<longleftrightarrow> readable (tc_outputBuffer c') = []"
    using c'(2) by (simp_all add: draining_def tcp_ok_def)
  have "tc_shutWr c' \<longleftrightarrow> tc_wire c' = tc_sent c @ msg" unfolding shut all [symmetric] by simp
  moreover have "length (readable (tc_outputBuffer c)) + length msg \<le> sum_list ns \<longrightarrow> tc_shutWr c'"
    using c1(3) c'(3) shut by simp
  ultimately show ?thesis using run all by (simp add: sent)
qed

theorem tcp_graceful_shutdown_witness:
  "\<exists>c0 c'. connectEstablished (TcpConnection_new False False) = Some c0 \<and>
     tcp_run (Send True (Room 1) example_message # Shutdown True # map writable [1, 0, 2]) c0 = Some c' \<and>
     tc_wire c' = example_message \<and> tc_shutWr c'"
proof -
  obtain c0 where c0: "connectEstablished (TcpConnection_new False False) = Some c0" "tc_state c0 = kConnected"
    "tc_wire c0 = []" "readable (tc_outputBuffer c0) = []" "\<not> tc_shutWr c0"
    using established_ok by blast
  obtain c' where "tcp_run (Send True (Room 1) example_message # Shutdown True # map writable [1, 0, 2]) c0 = Some c'"
    "tc_wire c' = example_message" "tc_shutWr c'"
    using tcp_graceful_shutdown [OF c0(1), of "[]" c0 "Room 1" example_message "[1, 0, 2]"] c0
    by (auto simp: example_message_def)
  with c0(1) show ?thesis by blast
qed

text \<open>
  When a poll reports an error together with input, the connection is closed first and read afterwards: if
  the input is the end of file, the assertion of \<open>handleClose\<close> fails; if it is data, the message callback runs after
  the disconnection and close callbacks.
\<close>

theorem tcp_error_with_input:
  assumes "connectEstablished (TcpConnection_new wc hw) = Some c0" "list_all calm es" "tcp_run es c0 = Some c"
    and "tc_state c = kConnected"
  shows "tcp_step (Poll (POLLERR OR POLLIN) Eof used k) c = None \<and>
    (\<exists>c' m. tcp_step (Poll (POLLERR OR POLLIN) (Received data) used k) c = Some c' \<and>
       tc_calls c' = tc_calls c @ [ConnectionCallback False, CloseCallback, MessageCallback m])"
proof -
  have ok: "tcp_ok c" by (rule reachable_ok [OF assms(1-3)])
  then have ev: "\<not> isNoneEvent (tc_channel c)" using assms(4) by (auto simp: tcp_ok_def active_def isNoneEvent_def kNoneEvent_def)
  obtain c1 where c1: "handleError c = Some c1" "tc_state c1 = kDisconnected" "tcp_ok c1"
    "tc_calls c1 = tc_calls c @ [ConnectionCallback False, CloseCallback]"
    using handleError_ok [OF ok] assms(4) by (auto simp: handleError_def handleClose_def conn_ops)
  have step: "tcp_step (Poll (POLLERR OR POLLIN) r used k) c = handleRead r used c1" for r
    using ev c1(1) by (simp add: handleEvent_def poll_defs)
  have "handleRead Eof used c1 = None"
    using c1(2) by (simp add: handleRead_def handleClose_def split: bind_splits)
  moreover obtain c' where c': "handleRead (Received data) used c1 = Some c'"
    using handleRead_ok [OF c1(3), of "Received data" used] by auto
  moreover obtain m where "tc_calls c' = tc_calls c1 @ [MessageCallback m]"
    using c' by (auto simp: handleRead_def Let_def call_def bind_Some_iff)
  ultimately show ?thesis unfolding step using c1(4) by auto
qed

theorem tcp_error_with_input_witness:
  "\<exists>c0. connectEstablished (TcpConnection_new False False) = Some c0 \<and>
     tcp_step (Poll (POLLERR OR POLLIN) Eof 0 (Room 0)) c0 = None"
proof -
  obtain c0 where c0: "connectEstablished (TcpConnection_new False False) = Some c0" "tc_state c0 = kConnected"
    using established_ok by blast
  with tcp_error_with_input [OF c0(1), of "[]" c0 0 "Room 0"] show ?thesis by auto
qed

end
