(* ===== verification/Sha256_Correct.thy ===== *)
theory Sha256_Correct
  imports Sha256
begin

text \<open>
  The code of \<open>base/Sha256.h\<close> against FIPS 180-4: the compression function with the table \<open>K\<close> of
  the code, the streaming interface, the constants, and the consequence of the one constant that
  differs, and what the password helpers accept.
\<close>

section \<open>Compression\<close>

lemma rotr_word_rotr: "n < 32 \<Longrightarrow> rotr x n = word_rotr n x"
proof (rule bit_eqI)
  fix i assume "n < 32" "possible_bit TYPE(u32) i"
  then have *: "i < 32" "n < 32" by (simp_all add: possible_bit_word)
  have "(i + n) mod 32 = (if i + n < 32 then i + n else i + n - 32)"
    using * by (simp add: mod_if)
  then show "bit (rotr x n) i = bit (word_rotr n x) i"
    using * bit_imp_le_length [of x "n + i"]
    by (auto simp: rotr_def bit_or_iff bit_drop_bit_eq bit_push_bit_iff bit_word_rotr_iff ac_simps)
qed

lemma or_add_u32: "(\<And>n. \<not> bit (a :: u32) n \<or> \<not> bit b n) \<Longrightarrow> a OR b = a + b"
  by (simp add: disjunctive_add)

lemma load_w_fips: "load_w M t = fips_word M t"
proof -
  let ?a = "ucast (M ! (t * 4)) :: u32" and ?b = "ucast (M ! (t * 4 + 1)) :: u32"
    and ?c = "ucast (M ! (t * 4 + 2)) :: u32" and ?d = "ucast (M ! (t * 4 + 3)) :: u32"
  have sum4: "(\<Sum>k<4. f k) = f 0 + f 1 + f 2 + f 3" for f :: "nat \<Rightarrow> u32"
    by (simp add: eval_nat_numeral lessThan_Suc ac_simps)
  have bits: "bit (ucast x :: u32) i \<longleftrightarrow> i < 8 \<and> bit x i" for x :: u8 and i
    using bit_imp_le_length [of x i] by (auto simp: bit_ucast_iff)
  have "load_w M t = push_bit 24 ?a + (push_bit 16 ?b + (push_bit 8 ?c + ?d))"
    by (simp only: load_w_def or.assoc)
      (subst or_add_u32; (auto simp: bit_push_bit_iff bits bit_or_iff)?)+
  then show ?thesis
    unfolding fips_word_def sum4 by (simp add: push_bit_eq_mult ac_simps)
qed

lemma sha_round_fips: "sha_round w v i = fips_round (sha_K ! i) (w ! i) v"
  by (cases "(w, v, i)" rule: sha_round.cases)
    (simp add: sha_Ch_def sha_Maj_def ep0_def ep1_def rotr_word_rotr Let_def)

lemma schedule_w_prefix:
  "(extend_w ^^ n) (map (load_w M) [0..<16]) = map (fips_W M) [0..<16 + n]"
proof (induction n)
  case 0
  show ?case by (auto simp: fips_W.simps load_w_fips)
next
  case (Suc n)
  have "[0..<17 + n] = [0..<16 + n] @ [16 + n]"
    using upt_Suc_append [of 0 "16 + n"] by simp
  then have "extend_w (map (fips_W M) [0..<16 + n]) = map (fips_W M) [0..<16 + Suc n]"
    by (simp add: extend_w_def Let_def sig0_def sig1_def rotr_word_rotr fips_W.simps [of M "16 + n"])
  with Suc show ?case by simp
qed

lemma schedule_w_nth: "t < 64 \<Longrightarrow> schedule_w M ! t = fips_W M t"
  by (simp add: schedule_w_def schedule_w_prefix)

lemma sha_transform_fips:
  assumes "length h = 8"
  shows "sha_transform M h = fips_block sha_K h M"
proof -
  have "foldl (sha_round (schedule_w M)) v [0..<64]
      = foldl (\<lambda>v t. fips_round (sha_K ! t) (fips_W M t) v) v [0..<64]" for v
    by (rule foldl_cong) (simp_all add: sha_round_fips schedule_w_nth)
  moreover obtain a b c d e f g h2 where "h = [a, b, c, d, e, f, g, h2]"
    using assms by (auto simp: eval_nat_numeral length_Suc_conv)
  ultimately show ?thesis
    by (simp add: sha_transform_def fips_block_def Let_def split: prod.split)
qed

lemma length_fips_block [simp]: "length (fips_block K h M) = min (length h) 8"
proof -
  have "length (work_list v) = 8" for v by (cases v rule: work_list.cases) simp
  then show ?thesis by (simp add: fips_block_def)
qed

section \<open>Streaming\<close>

lemma length_full_blocks [simp]: "length (full_blocks m) = length m div 64"
  by (simp add: full_blocks_def)

lemma full_blocks_Nil [simp]: "full_blocks [] = []"
  by (simp add: full_blocks_def)

lemma full_blocks_append:
  assumes "length b = 64"
  shows "full_blocks (b @ m) = b # full_blocks m"
proof -
  have "[0..<Suc (length m div 64)] = 0 # map Suc [0..<length m div 64]"
    by (simp add: map_Suc_upt upt_conv_Cons del: upt_Suc)
  then show ?thesis
    using assms by (simp add: full_blocks_def comp_def del: upt_Suc)
qed

lemma full_blocks_dvd:
  assumes "64 dvd length p"
  shows "full_blocks (p @ m) = full_blocks p @ full_blocks m"
  using assms
proof (induction "length p div 64" arbitrary: p)
  case 0
  then have "p = []" by auto
  then show ?case by simp
next
  case (Suc n)
  then have "64 \<le> length p" by (auto elim!: dvdE)
  then have p: "p = take 64 p @ drop 64 p" and l: "length (take 64 p) = 64" by simp_all
  have d: "64 dvd length (drop 64 p)" "n = length (drop 64 p) div 64"
    using Suc.prems Suc.hyps(2) \<open>64 \<le> length p\<close> by (auto simp: dvd_minus_self le_div_geq)
  show ?case
    using Suc.hyps(1) [OF d(2,1)] full_blocks_append [OF l]
    by (metis p append_assoc append_Cons)
qed

lemma full_blocks_one: "length b = 64 \<Longrightarrow> full_blocks b = [b]"
  using full_blocks_append [of b "[]"] by simp

text \<open>
  A run of writes into the block buffer that fits, and the zero loops as such runs.
\<close>

definition put_state :: "bytes \<Rightarrow> sha256 \<Rightarrow> sha256" where
  "put_state bs s =
     s\<lparr>s_data := take (unat (s_len s)) (s_data s) @ bs @ drop (unat (s_len s) + length bs) (s_data s),
       s_len := s_len s + word_of_nat (length bs)\<rparr>"

lemma put_state_simps [simp]:
  "s_h (put_state bs s) = s_h s" "s_totLen (put_state bs s) = s_totLen s"
  "s_len (put_state bs s) = s_len s + word_of_nat (length bs)"
  by (simp_all add: put_state_def)

lemma put_state_Nil [simp]: "put_state [] s = s"
  by (simp add: put_state_def)

lemma unat_s_len_put:
  "unat (s_len s) + length bs \<le> 64 \<Longrightarrow> unat (s_len (put_state bs s)) = unat (s_len s) + length bs"
  by (simp add: unat_word_ariths(1) unat_of_nat_small)

lemma length_put_state:
  "unat (s_len s) + length bs \<le> length (s_data s) \<Longrightarrow> length (s_data (put_state bs s)) = length (s_data s)"
  by (simp add: put_state_def)

lemma sha_put_state:
  assumes "length (s_data s) = 64" "unat (s_len s) < 64"
  shows "sha_put b s = Some (put_state [b] s)"
  using assms by (simp add: sha_put_def wr_at_def put_state_def upd_conv_take_nth_drop)

lemma put_state_put_state:
  assumes "length (s_data s) = 64" "unat (s_len s) + length as + length bs \<le> 64"
  shows "put_state bs (put_state as s) = put_state (as @ bs) s"
proof -
  have u: "unat (s_len s + word_of_nat (length as)) = unat (s_len s) + length as"
    using unat_s_len_put [of s as] assms by simp
  show ?thesis
    using assms u by (simp add: put_state_def ac_simps)
qed

lemma sha_puts_state:
  assumes "length (s_data s) = 64" "unat (s_len s) + length bs \<le> 64"
  shows "sha_puts bs s = Some (put_state bs s)"
  using assms
proof (induction bs arbitrary: s)
  case (Cons b bs)
  have "sha_puts bs (put_state [b] s) = Some (put_state bs (put_state [b] s))"
    using Cons.prems by (intro Cons.IH) (simp_all add: length_put_state unat_s_len_put del: put_state_simps)
  then show ?case
    using Cons.prems put_state_put_state [of s "[b]" bs] by (simp add: sha_put_state)
qed simp

lemma sha_zeros_state:
  assumes "length (s_data s) = 64" "unat (s_len s) \<le> unat n" "unat n \<le> 64"
  shows "sha_zeros n s = Some (put_state (replicate (unat n - unat (s_len s)) 0) s)"
  using assms
proof (induction "unat n - unat (s_len s)" arbitrary: s)
  case 0
  then show ?case by (simp add: sha_zeros.simps [of n s] word_less_nat_alt)
next
  case (Suc k)
  then have lt: "unat (s_len s) < unat n" by linarith
  let ?t = "put_state [0] s"
  have u: "unat (s_len ?t) = Suc (unat (s_len s))"
    using lt Suc.prems(3) unat_s_len_put [of s "[0]"] by simp
  have "sha_zeros n ?t = Some (put_state (replicate (unat n - unat (s_len ?t)) 0) ?t)"
    using Suc.prems lt u Suc.hyps(2) by (intro Suc.hyps(1)) (auto simp: length_put_state)
  moreover have "put_state (replicate k 0) ?t = put_state (0 # replicate k 0) s"
    using put_state_put_state [of s "[0]" "replicate k 0"] Suc.prems Suc.hyps(2) by simp
  moreover have "unat n - unat (s_len ?t) = k" "unat n - unat (s_len s) = Suc k"
    using u Suc.hyps(2) by simp_all
  ultimately show ?case
    using lt Suc.prems by (simp add: sha_zeros.simps [of n s] word_less_nat_alt sha_put_state)
qed

lemma s_data_put_full:
  assumes "length (s_data s) = 64" "unat (s_len s) + length bs = 64"
  shows "s_data (put_state bs s) = take (unat (s_len s)) (s_data s) @ bs"
  using assms by (simp add: put_state_def)

lemma take_put_state:
  assumes "length (s_data s) = 64" "unat (s_len s) + length bs \<le> 64"
  shows "take (unat (s_len s) + length bs) (s_data (put_state bs s))
       = take (unat (s_len s)) (s_data s) @ bs"
  using assms by (simp add: put_state_def)

text \<open>
  The object after the bytes \<open>p @ r\<close>: whole blocks \<open>p\<close> are compressed, the rest \<open>r\<close> is in the buffer.
\<close>

definition sha_buf :: "bytes \<Rightarrow> bytes \<Rightarrow> sha256 \<Rightarrow> bool" where
  "sha_buf p r s \<longleftrightarrow>
     length (s_data s) = 64 \<and> 64 dvd length p \<and> length r < 64 \<and> unat (s_len s) = length r
     \<and> take (length r) (s_data s) = r
     \<and> s_h s = foldl (fips_block sha_K) sha_H0 (full_blocks p)"

definition sha_inv :: "bytes \<Rightarrow> bytes \<Rightarrow> sha256 \<Rightarrow> bool" where
  "sha_inv p r s \<longleftrightarrow> sha_buf p r s \<and> s_totLen s = word_of_nat (8 * length p)"

lemma sha_bufD:
  assumes "sha_buf p r s"
  shows "length (s_data s) = 64" "unat (s_len s) = length r" "length r < 64" "64 dvd length p"
    "take (length r) (s_data s) = r" "s_h s = foldl (fips_block sha_K) sha_H0 (full_blocks p)"
  using assms by (simp_all add: sha_buf_def)

lemma length_foldl_fips: "length h = 8 \<Longrightarrow> length (foldl (fips_block K) h bs) = 8"
  by (induction bs arbitrary: h) auto

lemma length_sha_H0 [simp]: "length sha_H0 = 8"
  by (simp add: sha_H0_def)

text \<open>Writes that fill the buffer, and the compression that follows them.\<close>

lemma sha_block_full:
  assumes "sha_buf p r s" "length r + length bs = 64"
  shows "s_h (sha_block (put_state bs s)) = foldl (fips_block sha_K) sha_H0 (full_blocks (p @ r @ bs))"
    "sha_buf (p @ r @ bs) [] ((sha_block (put_state bs s))\<lparr>s_len := 0\<rparr>)"
proof -
  note s = sha_bufD [OF assms(1)]
  have d: "s_data (put_state bs s) = r @ bs"
    using s assms(2) by (simp add: s_data_put_full)
  have "length (s_h s) = 8"
    by (simp add: s(6) length_foldl_fips)
  then show h: "s_h (sha_block (put_state bs s))
      = foldl (fips_block sha_K) sha_H0 (full_blocks (p @ r @ bs))"
    using s assms(2) d by (simp add: sha_block_def sha_transform_fips full_blocks_dvd full_blocks_one)
  show "sha_buf (p @ r @ bs) [] ((sha_block (put_state bs s))\<lparr>s_len := 0\<rparr>)"
    using s assms(2) d h by (simp add: sha_buf_def) (simp add: sha_block_def)
qed

lemma sha_inv_reset: "length (s_data s) = 64 \<Longrightarrow> sha_inv [] [] (sha_reset s)"
  by (simp add: sha_inv_def sha_buf_def sha_reset_def)

lemma sha_update_byte_inv:
  assumes "sha_inv p r s"
  shows "\<exists>s' p' r'. sha_update_byte b s = Some s' \<and> sha_inv p' r' s' \<and> p' @ r' = p @ r @ [b]"
proof -
  have buf: "sha_buf p r s" and tot: "s_totLen s = word_of_nat (8 * length p)"
    using assms by (simp_all add: sha_inv_def)
  note s = sha_bufD [OF buf]
  let ?t = "put_state [b] s"
  have put: "sha_put b s = Some ?t"
    using s by (simp add: sha_put_state)
  have u: "unat (s_len ?t) = Suc (length r)"
    using s unat_s_len_put [of s "[b]"] by simp
  have full: "s_len ?t = 64 \<longleftrightarrow> length r = 63"
    using u by (simp add: word_unat_eq_iff del: put_state_simps)
  show ?thesis
  proof (cases "length r = 63")
    case False
    have "sha_inv p (r @ [b]) ?t"
      using False s u tot take_put_state [of s "[b]"]
      by (simp add: sha_inv_def sha_buf_def length_put_state)
    moreover have "sha_update_byte b s = Some ?t"
      using False full by (simp add: sha_update_byte_def put del: put_state_simps)
    ultimately show ?thesis by (metis append_assoc)
  next
    case True
    let ?s' = "(sha_block ?t)\<lparr>s_totLen := s_totLen ?t + 512, s_len := 0\<rparr>"
    have "sha_buf (p @ r @ [b]) [] ?s'"
      using sha_block_full(2) [OF buf, of "[b]"] True by (simp add: sha_buf_def)
    then have "sha_inv (p @ r @ [b]) [] ?s'"
      using tot True by (simp add: sha_inv_def)
    moreover have "sha_update_byte b s = Some ?s'"
      using True full by (simp add: sha_update_byte_def put del: put_state_simps)
    ultimately show ?thesis by (metis append_Nil2)
  qed
qed

lemma sha_update_inv:
  assumes "sha_inv p r s"
  shows "\<exists>s' p' r'. sha_update bs s = Some s' \<and> sha_inv p' r' s' \<and> p' @ r' = p @ r @ bs"
  using assms
proof (induction bs arbitrary: p r s)
  case (Cons b bs)
  obtain s1 p1 r1 where 1: "sha_update_byte b s = Some s1" "sha_inv p1 r1 s1" "p1 @ r1 = p @ r @ [b]"
    using sha_update_byte_inv [OF Cons.prems, of b] by blast
  from Cons.IH [OF 1(2)] obtain s2 p2 r2
    where "sha_update bs s1 = Some s2" "sha_inv p2 r2 s2" "p2 @ r2 = p1 @ r1 @ bs"
    by blast
  then show ?case using 1
    by (metis append.assoc append_Cons append_Nil sha_update.simps(2) Option.bind.bind_lunit)
qed auto

text \<open>The big-endian bytes of the code are the base-256 digits of the standard.\<close>

lemma div_256_power: "(n :: nat) div 256 ^ i = drop_bit (i * 8) n"
  using power_mult [of "2 :: nat" 8 i] by (simp add: drop_bit_eq_div mult.commute)

lemma and_0xff: "(x :: 'a::len word) AND 0xff = take_bit 8 x"
  by (simp add: take_bit_eq_mask mask_eq_exp_minus_1)

lemma be64_bytes_digits:
  "be64_bytes (word_of_nat n) = map (\<lambda>i. word_of_nat (n div 256 ^ (7 - i))) [0..<8]"
proof -
  have "(ucast (drop_bit (i * 8) (word_of_nat n :: u64) AND 0xff) :: u8) = word_of_nat (n div 256 ^ i)"
    if "i < 8" for i
    using that
    by (intro bit_eqI) (simp add: possible_bit_word div_256_power bit_ucast_iff and_0xff
        bit_take_bit_iff bit_drop_bit_eq bit_of_nat_iff)
  moreover have "rev [0..<8] = map (\<lambda>i. 7 - i) [0..<8 :: nat]"
    by code_simp
  ultimately show ?thesis
    by (simp add: be64_bytes_def comp_def)
qed

lemma be32_bytes_digits: "be32_bytes x = map (\<lambda>i. word_of_nat (unat x div 256 ^ (3 - i))) [0..<4]"
proof -
  have "(ucast (drop_bit (i * 8) x AND 0xff) :: u8) = word_of_nat (unat x div 256 ^ i)"
    if "i < 4" for i
    using that
    by (intro bit_eqI) (auto simp: possible_bit_word div_256_power bit_ucast_iff and_0xff
        bit_take_bit_iff bit_drop_bit_eq bit_of_nat_iff bit_unsigned_iff)
  from this [of 3] this [of 2] this [of 1] this [of 0]
  have "be32_bytes x = map (\<lambda>i. word_of_nat (unat x div 256 ^ (3 - i))) [0, 1, 2, 3]"
    by (simp add: be32_bytes_def)
  moreover have "[0..<4] = [0, 1, 2, 3 :: nat]"
    by code_simp
  ultimately show ?thesis by simp
qed

lemma fips_pad_split:
  assumes "64 dvd length p" "length r < 64"
  shows "fips_pad (p @ r) = p @ r @ [0x80] @ replicate ((119 - length r) mod 64) 0
     @ be64_bytes (word_of_nat (8 * length (p @ r)))"
proof -
  have "length (p @ r) mod 64 = length r"
    using assms by (auto elim!: dvdE)
  then show ?thesis
    by (simp only: fips_pad_def be64_bytes_digits append_assoc)
qed

lemma length_be64_bytes [simp]: "length (be64_bytes x) = 8"
  by (simp add: be64_bytes_def)

lemma total_bits:
  assumes "sha_inv p r s"
  shows "s_totLen s + ucast (s_len s * 8) = word_of_nat (8 * length (p @ r))"
proof -
  have u: "unat (s_len s) = length r" "length r < 64" and tot: "s_totLen s = word_of_nat (8 * length p)"
    using assms by (simp_all add: sha_inv_def sha_buf_def)
  have "unat (s_len s * 8) = 8 * length r"
    using u by (simp add: unat_word_ariths(2))
  then have "(ucast (s_len s * 8) :: u64) = word_of_nat (8 * length r)"
    by (metis of_nat_unat)
  then show ?thesis
    by (simp add: tot)
qed

text \<open>What \<open>finalize\<close> compresses: one more block when the rest leaves nine bytes, otherwise two.\<close>

lemma sha_finalize_inv:
  assumes "sha_inv p r s"
  shows "\<exists>s'. sha_finalize s
     = Some (concat (map be32_bytes (foldl (fips_block sha_K) sha_H0 (full_blocks (fips_pad (p @ r))))), s')"
proof -
  have buf: "sha_buf p r s"
    using assms by (simp add: sha_inv_def)
  note s = sha_bufD [OF buf]
  define lb where "lb = be64_bytes (word_of_nat (8 * length (p @ r)))"
  have lb: "be64_bytes (s_totLen s + ucast (s_len s * 8)) = lb" and l8: "length lb = 8"
    by (simp_all add: lb_def total_bits [OF assms])
  let ?t = "put_state [0x80] s"
  have put: "sha_put 0x80 s = Some ?t"
    using s by (simp add: sha_put_state)
  have u: "unat (s_len ?t) = Suc (length r)"
    using s unat_s_len_put [of s "[0x80]"] by simp
  have l: "length (s_data ?t) = 64"
    using s by (simp add: length_put_state)
  have zeros: "sha_zeros n ?t = Some (put_state (0x80 # replicate (unat n - Suc (length r)) 0) s)"
    if "Suc (length r) \<le> unat n" "unat n \<le> 64" for n
    using that s u l sha_zeros_state [of ?t n]
      put_state_put_state [of s "[0x80]" "replicate (unat n - Suc (length r)) 0"] by simp
  show ?thesis
  proof (cases "length r \<le> 55")
    case True
    let ?bs = "0x80 # replicate (55 - length r) 0"
    have "\<not> 56 < s_len ?t"
      using True u by (simp add: word_less_nat_alt del: put_state_simps)
    moreover have "sha_zeros 56 ?t = Some (put_state ?bs s)"
      using zeros [of 56] True by simp
    moreover have "sha_puts lb (put_state ?bs s) = Some (put_state (?bs @ lb) s)"
      using s True l8 sha_puts_state [of "put_state ?bs s" lb] put_state_put_state [of s ?bs lb]
      by (simp add: length_put_state unat_s_len_put del: put_state_simps)
    moreover have "fips_pad (p @ r) = p @ r @ ?bs @ lb"
      using s True mod_if [of "119 - length r" 64] by (simp add: fips_pad_split lb_def)
    ultimately show ?thesis
      using sha_block_full(1) [OF buf, of "?bs @ lb"] True l8
      by (simp add: sha_finalize_def put lb Let_def del: put_state_simps)
  next
    case False
    let ?bs = "0x80 # replicate (63 - length r) 0" and ?cs = "replicate 56 0 @ lb"
    let ?v = "(sha_block (put_state ?bs s))\<lparr>s_len := 0\<rparr>"
    have "56 < s_len ?t"
      using False u by (simp add: word_less_nat_alt del: put_state_simps)
    moreover have "sha_zeros 64 ?t = Some (put_state ?bs s)"
      using zeros [of 64] s by simp
    moreover have v: "sha_buf (p @ r @ ?bs) [] ?v"
      using s by (intro sha_block_full(2) [OF buf]) simp
    moreover have "sha_zeros 56 ?v = Some (put_state (replicate 56 0) ?v)"
      using sha_zeros_state [of ?v 56] sha_bufD [OF v] by simp
    moreover have "sha_puts lb (put_state (replicate 56 0) ?v) = Some (put_state ?cs ?v)"
      using sha_bufD [OF v] l8 sha_puts_state [of "put_state (replicate 56 0) ?v" lb]
        put_state_put_state [of ?v "replicate 56 0" lb]
      by (simp add: length_put_state unat_s_len_put del: put_state_simps)
    moreover have "fips_pad (p @ r) = (p @ r @ ?bs) @ [] @ ?cs"
      using s False by (simp add: fips_pad_split lb_def replicate_add [symmetric])
    ultimately show ?thesis
      using sha_block_full(1) [OF v, of ?cs] l8
      by (simp add: sha_finalize_def put lb Let_def del: put_state_simps)
  qed
qed

section \<open>The constants\<close>

lemma floor_root:
  assumes "0 < k" "0 \<le> n" "n ^ k \<le> int p * 2 ^ (32 * k)" "int p * 2 ^ (32 * k) < (n + 1) ^ k"
  shows "\<lfloor>2 ^ 32 * root k (real p)\<rfloor> = n"
proof -
  define x where "x = 2 ^ 32 * root k (real p)"
  have xk: "x ^ k = real p * 2 ^ (32 * k)"
    using assms(1) by (simp add: x_def power_mult_distrib real_root_pow_pos2 power_mult)
  have x0: "0 \<le> x" by (simp add: x_def real_root_ge_zero)
  have "real_of_int (n ^ k) \<le> real_of_int (int p * 2 ^ (32 * k))"
       "real_of_int (int p * 2 ^ (32 * k)) < real_of_int ((n + 1) ^ k)"
    using assms(3,4) by (simp_all only: of_int_le_iff of_int_less_iff)
  then have "of_int n ^ k \<le> x ^ k" "x ^ k < of_int (n + 1) ^ k"
    by (simp_all only: xk of_int_power of_int_mult of_int_of_nat_eq of_int_numeral)
  then have "of_int n \<le> x" "x < of_int (n + 1)"
    using x0 assms(1,2) by (auto intro: power_less_imp_less_base simp: power_mono_iff)
  then show ?thesis unfolding x_def [symmetric] by (intro floor_unique) simp_all
qed

definition is_root :: "nat \<Rightarrow> nat \<Rightarrow> int \<Rightarrow> bool" where
  "is_root k p n \<longleftrightarrow> 0 \<le> n \<and> n ^ k \<le> int p * 2 ^ (32 * k) \<and> int p * 2 ^ (32 * k) < (n + 1) ^ k"

lemma floor_roots:
  assumes "0 < k" "list_all2 (is_root k) ps ns"
  shows "map (\<lambda>p. \<lfloor>2 ^ 32 * root k (real p)\<rfloor>) ps = ns"
  using assms(2)
  by (induction rule: list_all2_induct) (auto simp only: list.map floor_root [OF assms(1)] is_root_def)

text \<open>The roots with their integer parts: the table of the standard is their last eight digits.\<close>

lemma cube_roots:
  "list_all2 (is_root 3) first_primes
    [0x1428a2f98, 0x171374491, 0x1b5c0fbcf, 0x1e9b5dba5, 0x23956c25b, 0x259f111f1, 0x2923f82a4, 0x2ab1c5ed5,
     0x2d807aa98, 0x312835b01, 0x3243185be, 0x3550c7dc3, 0x372be5d74, 0x380deb1fe, 0x39bdc06a7, 0x3c19bf174,
     0x3e49b69c1, 0x3efbe4786, 0x40fc19dc6, 0x4240ca1cc, 0x42de92c6f, 0x44a7484aa, 0x45cb0a9dc, 0x476f988da,
     0x4983e5152, 0x4a831c66d, 0x4b00327c8, 0x4bf597fc7, 0x4c6e00bf3, 0x4d5a79147, 0x506ca6351, 0x514292967,
     0x527b70a85, 0x52e1b2138, 0x54d2c6dfc, 0x553380d13, 0x5650a7354, 0x5766a0abb, 0x581c2c92e, 0x592722c85,
     0x5a2bfe8a1, 0x5a81a664b, 0x5c24b8b70, 0x5c76c51a3, 0x5d192e819, 0x5d6990624, 0x5f40e3585, 0x6106aa070,
     0x619a4c116, 0x61e376c08, 0x62748774c, 0x634b0bcb5, 0x6391c0cb3, 0x64ed8aa4a, 0x65b9cca4f, 0x6682e6ff3,
     0x6748f82ee, 0x678a5636f, 0x684c87814, 0x68cc70208, 0x690befffa, 0x6a4506ceb, 0x6bef9a3f7, 0x6c67178f2]"
  by (simp add: first_primes_def is_root_def)

lemma square_roots:
  "list_all2 (is_root 2) (take 8 first_primes)
    [0x16a09e667, 0x1bb67ae85, 0x23c6ef372, 0x2a54ff53a, 0x3510e527f, 0x39b05688c, 0x41f83d9ab, 0x45be0cd19]"
  by (simp add: first_primes_def is_root_def)

lemma fips_K_table: "fips_K = sha_K[42 := 0xc24b8b70]"
proof -
  have "fips_K = map word_of_int (map (\<lambda>p. \<lfloor>2 ^ 32 * root 3 (real p)\<rfloor>) first_primes)"
    by (simp add: fips_K_def)
  also note floor_roots [OF zero_less_numeral cube_roots]
  finally show ?thesis
    by (rule trans) (simp add: sha_K_def)
qed

lemma fips_H_table: "fips_H = sha_H0"
proof -
  have "fips_H = map word_of_int (map (\<lambda>p. \<lfloor>2 ^ 32 * root 2 (real p)\<rfloor>) (take 8 first_primes))"
    by (simp add: fips_H_def sqrt_def)
  also note floor_roots [OF zero_less_numeral square_roots]
  finally show ?thesis
    by (rule trans) (simp add: sha_H0_def)
qed

section \<open>One wrong constant\<close>

text \<open>A round is a permutation of the working variables, and depends on its constant injectively.\<close>

lemma fips_round_inj: "fips_round k w v = fips_round k w v' \<Longrightarrow> v = v'"
  by (cases "(k, w, v)" rule: fips_round.cases; cases "(k, w, v')" rule: fips_round.cases)
    (auto simp: Let_def)

lemma fips_round_const: "fips_round k w v = fips_round k' w v \<Longrightarrow> k = k'"
  by (cases "(k, w, v)" rule: fips_round.cases) (auto simp: Let_def)

lemma foldl_round_inj:
  "foldl (\<lambda>v t. fips_round (K t) (W t) v) v ts = foldl (\<lambda>v t. fips_round (K t) (W t) v) v' ts \<Longrightarrow> v = v'"
proof (induction ts arbitrary: v v')
  case (Cons t ts)
  from Cons.prems have "fips_round (K t) (W t) v = fips_round (K t) (W t) v'"
    by (simp only: foldl_Cons) (rule Cons.IH)
  then show ?case by (rule fips_round_inj)
qed simp

lemma fips_block_differs:
  assumes "length h = 8"
  shows "fips_block sha_K h M \<noteq> fips_block fips_K h M"
proof
  let ?run = "\<lambda>K. foldl (\<lambda>v t. fips_round (K ! t) (fips_W M t) v)"
  assume eq: "fips_block sha_K h M = fips_block fips_K h M"
  obtain a b c d e f g h2 where h: "h = [a, b, c, d, e, f, g, h2]"
    using assms by (auto simp: eval_nat_numeral length_Suc_conv)
  have add_inj: "map2 (+) h (work_list v) = map2 (+) h (work_list v') \<Longrightarrow> v = v'" for v v'
    by (cases v rule: work_list.cases; cases v' rule: work_list.cases) (simp add: h)
  have split: "[0..<64] = [0..<42] @ 42 # [43..<64 :: nat]"
    by code_simp
  have same: "?run fips_K v ts = ?run sha_K v ts" if "42 \<notin> set ts" for v ts
  proof (rule foldl_cong)
    show "fips_round (fips_K ! t) (fips_W M t) v = fips_round (sha_K ! t) (fips_W M t) v"
      if "t \<in> set ts" for v t
      using that \<open>42 \<notin> set ts\<close> by (cases "t = 42") (simp_all only: fips_K_table nth_list_update_neq)
  qed simp_all
  have "?run sha_K (list_work h) [0..<64] = ?run fips_K (list_work h) [0..<64]"
    using eq add_inj by (simp only: fips_block_def)
  then have "?run sha_K (fips_round (sha_K ! 42) (fips_W M 42) (?run sha_K (list_work h) [0..<42])) [43..<64]
      = ?run sha_K (fips_round (fips_K ! 42) (fips_W M 42) (?run sha_K (list_work h) [0..<42])) [43..<64]"
    using same [of "[0..<42]"] same [of "[43..<64]"] by (simp add: split)
  from foldl_round_inj [OF this] have "sha_K ! 42 = fips_K ! 42"
    by (rule fips_round_const)
  then show False
    by (simp add: fips_K_table sha_K_def)
qed

lemma be32_bytes_inj: "be32_bytes x = be32_bytes y \<Longrightarrow> x = y"
proof (rule bit_eqI)
  fix n assume eq: "be32_bytes x = be32_bytes y" and "possible_bit TYPE(u32) n"
  then have "n < 32" by (simp add: possible_bit_word)
  then have "n div 8 = 0 \<or> n div 8 = 1 \<or> n div 8 = 2 \<or> n div 8 = 3" by linarith
  moreover have "(ucast (take_bit 8 (drop_bit 24 x)) :: u8) = ucast (take_bit 8 (drop_bit 24 y))"
    "(ucast (take_bit 8 (drop_bit 16 x)) :: u8) = ucast (take_bit 8 (drop_bit 16 y))"
    "(ucast (take_bit 8 (drop_bit 8 x)) :: u8) = ucast (take_bit 8 (drop_bit 8 y))"
    "(ucast (take_bit 8 (drop_bit 0 x)) :: u8) = ucast (take_bit 8 (drop_bit 0 y))"
    using eq by (simp_all add: be32_bytes_def and_0xff)
  ultimately have "(ucast (take_bit 8 (drop_bit (8 * (n div 8)) x)) :: u8)
      = ucast (take_bit 8 (drop_bit (8 * (n div 8)) y))"
    by (elim disjE) (simp_all only: mult_0_right, simp_all)
  then have "bit (ucast (take_bit 8 (drop_bit (8 * (n div 8)) x)) :: u8) (n mod 8)
      = bit (ucast (take_bit 8 (drop_bit (8 * (n div 8)) y)) :: u8) (n mod 8)"
    by (rule arg_cong)
  then show "bit x n = bit y n"
    using \<open>n < 32\<close> by (simp add: bit_ucast_iff bit_take_bit_iff bit_drop_bit_eq)
qed

lemma concat_map_inj:
  assumes "\<And>x. length (f x) = k" "\<And>x y. f x = f y \<Longrightarrow> x = y"
    "concat (map f xs) = concat (map f ys)" "length xs = length ys"
  shows "xs = ys"
proof -
  have "map f xs = map f ys"
    using assms(3,4)
  proof (induction xs ys rule: list_induct2')
    case (4 x xs y ys)
    have "f x = f y \<and> concat (map f xs) = concat (map f ys)"
      using 4 assms(1) by (intro iffD1 [OF append_eq_append_conv]) simp_all
    then show ?case using 4 by simp
  qed simp_all
  moreover have "inj f"
    using assms(2) by (rule injI)
  ultimately show ?thesis by (rule inj_map_eq_map [THEN iffD1, rotated])
qed

lemma hex_digit_inj:
  assumes "hex_digit a = hex_digit b" "a < 16" "b < 16"
  shows "a = b"
proof -
  define num :: "nat \<Rightarrow> nat" where "num d = (if d < 10 then 48 + d else 87 + d)" for d
  have h: "hex_digit d = char_of (num d)" for d
    by (simp add: hex_digit_def num_def)
  have "num a mod 256 = num b mod 256"
    using arg_cong [OF assms(1), of "of_char :: char \<Rightarrow> nat"] by (simp only: h of_char_of)
  moreover have "num a < 256" "num b < 256"
    using assms(2,3) by (simp_all add: num_def)
  ultimately show ?thesis
    by (simp add: num_def split: if_splits)
qed

lemma hex2_inj: "hex2 a = hex2 b \<Longrightarrow> a = b"
proof -
  assume "hex2 a = hex2 b"
  then have "unat a div 16 = unat b div 16" "unat a mod 16 = unat b mod 16"
    using u8_lt_256 [of a] u8_lt_256 [of b]
    by (simp_all add: hex2_def hex_digit_inj less_mult_imp_div_less)
  then show "a = b"
    by (metis div_mult_mod_eq word_unat_eq_iff)
qed

section \<open>The digest\<close>

text \<open>Calls of \<open>update\<close> with the pieces of the input, one after the other.\<close>

fun sha_updates :: "bytes list \<Rightarrow> sha256 \<Rightarrow> sha256 option" where
  "sha_updates [] s = Some s"
| "sha_updates (b # bs) s = Option.bind (sha_update b s) (sha_updates bs)"

lemma sha_updates_inv:
  assumes "sha_inv p r s"
  shows "\<exists>s' p' r'. sha_updates bs s = Some s' \<and> sha_inv p' r' s' \<and> p' @ r' = p @ r @ concat bs"
  using assms
proof (induction bs arbitrary: p r s)
  case (Cons b bs)
  obtain s1 p1 r1 where 1: "sha_update b s = Some s1" "sha_inv p1 r1 s1" "p1 @ r1 = p @ r @ b"
    using sha_update_inv [OF Cons.prems, of b] by blast
  from Cons.IH [OF 1(2)] obtain s2 p2 r2
    where 2: "sha_updates bs s1 = Some s2" "sha_inv p2 r2 s2" "p2 @ r2 = p1 @ r1 @ concat bs"
    by blast
  have "p2 @ r2 = p @ r @ concat (b # bs)"
    using 1(3) 2(3) by (metis append_assoc concat.simps(2))
  moreover have "sha_updates (b # bs) s = Some s2"
    using 1(1) 2(1) by simp
  ultimately show ?case using 2(2) by blast
qed auto

lemma code_digest:
  "concat (map be32_bytes (foldl (fips_block sha_K) sha_H0 (full_blocks (fips_pad m)))) = fips_digest sha_K m"
  by (simp add: fips_digest_def fips_H_table be32_bytes_digits [abs_def])

lemma sha_stream_digest:
  assumes "length (s_data junk) = 64"
  shows "\<exists>s s'. sha_updates bs (Sha256_new junk) = Some s
     \<and> sha_finalize s = Some (fips_digest sha_K (concat bs), s')"
proof -
  have "sha_inv [] [] (Sha256_new junk)"
    using assms by (simp add: Sha256_new_def sha_inv_reset)
  from sha_updates_inv [OF this, of bs] obtain s p r
    where s: "sha_updates bs (Sha256_new junk) = Some s" "sha_inv p r s" "p @ r = concat bs"
    by auto
  with sha_finalize_inv [OF s(2)] show ?thesis
    by (auto simp: code_digest)
qed

lemma sha_hex_digest:
  assumes "length (s_data junk) = 64"
  shows "sha_hex junk m = Some (concat (map hex2 (fips_digest sha_K (sha_bytes m))))"
  using sha_stream_digest [OF assms, of "[sha_bytes m]"] by (auto simp: sha_hex_def bind_Some_iff)

lemma length_fips_digest: "length (fips_digest K m) = 32"
  by (simp add: fips_digest_def length_concat comp_def fips_H_table length_foldl_fips
      sum_list_triv map_replicate_const [symmetric] del: upt.simps)

lemma fips_digest_differs:
  assumes "length m \<le> 55"
  shows "fips_digest sha_K m \<noteq> fips_digest fips_K m"
proof
  assume eq: "fips_digest sha_K m = fips_digest fips_K m"
  have "(119 - length m) mod 64 = 55 - length m"
    using assms by (simp add: mod_if)
  then have "length (fips_pad m) = 64"
    using assms by (simp add: fips_pad_def)
  then have d: "fips_digest K m = concat (map be32_bytes (fips_block K sha_H0 (fips_pad m)))" for K
    by (simp add: fips_digest_def full_blocks_one fips_H_table be32_bytes_digits [abs_def])
  have "fips_block sha_K sha_H0 (fips_pad m) = fips_block fips_K sha_H0 (fips_pad m)"
    using eq by (intro concat_map_inj [of be32_bytes 4]) (simp_all add: d be32_bytes_def be32_bytes_inj)
  then show False
    using fips_block_differs [OF length_sha_H0] by blast
qed

section \<open>Passwords\<close>

lemma unat_of_char_u8: "unat (of_char c :: u8) = of_char c"
proof -
  have "(of_char c :: u8) = word_of_nat (of_char c)" by (simp add: of_nat_of_char)
  moreover have "(of_char c :: nat) = of_char c mod 256"
    by (metis of_char_of char_of_char)
  then have "(of_char c :: nat) < 2 ^ LENGTH(8)"
    using mod_less_divisor [of 256 "of_char c"] by simp
  ultimately show ?thesis by (simp only: unat_of_nat_small)
qed

lemma char_int_inj: "char_int c = char_int d \<longleftrightarrow> c = d"
proof -
  have "a = b" if eq: "(scast (a :: u8) :: u32) = scast b" for a b
  proof (rule bit_eqI)
    fix n assume "possible_bit TYPE(u8) n"
    then have "n < 8" "min 7 n = n" by (auto simp: possible_bit_word)
    then show "bit a n = bit b n"
      using arg_cong [OF eq, of "\<lambda>w. bit w n"] by (simp add: bit_signed_iff)
  qed
  then have "char_int c = char_int d \<Longrightarrow> (of_char c :: nat) = of_char d"
    by (metis char_int_def unat_of_char_u8)
  then show ?thesis by auto
qed

lemma xor_zero: "(a :: 32 word) XOR b = 0 \<longleftrightarrow> a = b"
proof
  assume "a XOR b = 0"
  then have "(a XOR b) XOR b = b" by simp
  then show "a = b" by (simp add: xor.assoc)
qed simp

lemma diff_loop_zero:
  "length xs = length ys \<Longrightarrow> diff_loop v xs ys = 0 \<longleftrightarrow> v = 0 \<and> xs = ys"
  by (induction v xs ys rule: diff_loop.induct) (auto simp: or_eq_0_iff xor_zero char_int_inj)

lemma length_hex_digest [simp]: "length (concat (map hex2 (fips_digest K m))) = 64"
  by (simp add: length_concat comp_def hex2_def sum_list_triv length_fips_digest)

lemma takeWhile_not: "x \<notin> set xs \<Longrightarrow> takeWhile (\<lambda>c. c \<noteq> x) (xs @ x # ys) = xs"
  by (induction xs) auto

lemma verifyPassword_iff:
  assumes junk: "length (s_data junk) = 64"
  shows "\<exists>ok. verifyPassword junk pw st = Some ok \<and>
    (ok \<longleftrightarrow> (\<exists>salt h. CHR ''$'' \<notin> set salt \<and> st = ''$'' @ salt @ ''$'' @ h \<and> sha_hex junk (salt @ pw) = Some h))"
    (is "\<exists>ok. _ \<and> (ok \<longleftrightarrow> ?fmt)")
proof -
  note hex = sha_hex_digest [OF junk]
  show ?thesis
  proof (cases "\<exists>salt h. CHR ''$'' \<notin> set salt \<and> st = ''$'' @ salt @ ''$'' @ h \<and> 34 \<le> length st")
    case True
    then obtain salt h where st: "CHR ''$'' \<notin> set salt" "st = ''$'' @ salt @ ''$'' @ h" "34 \<le> length st"
      by blast
    have unique: "salt' = salt \<and> h' = h"
      if "CHR ''$'' \<notin> set salt'" "st = ''$'' @ salt' @ ''$'' @ h'" for salt' h'
      using that st takeWhile_not [of "CHR ''$''" salt h] takeWhile_not [of "CHR ''$''" salt' h'] by auto
    have "verifyPassword junk pw st = Some (sha_hex junk (salt @ pw) = Some h)"
      using st takeWhile_not [OF st(1), of h] by (auto simp: verifyPassword_def Let_def hex diff_loop_zero)
    then show ?thesis using unique st by blast
  next
    case False
    have no: "\<not> ?fmt"
    proof
      assume ?fmt
      then obtain salt h where s: "CHR ''$'' \<notin> set salt" "st = ''$'' @ salt @ ''$'' @ h"
          "sha_hex junk (salt @ pw) = Some h"
        by blast
      then have "34 \<le> length st" by (auto simp: hex)
      with s False show False by blast
    qed
    have "verifyPassword junk pw st = Some False"
    proof (cases "length st < 34 \<or> st ! 0 \<noteq> CHR ''$''")
      case nf: False
      then obtain c r where r: "st = CHR ''$'' # r"
        by (cases st) auto
      then have "CHR ''$'' \<notin> set r"
        using False nf split_list_first [of "CHR ''$''" r] by fastforce
      then show ?thesis by (simp add: verifyPassword_def r)
    qed (simp add: verifyPassword_def)
    then show ?thesis using no by simp
  qed
qed

lemma hex_digit_not_dollar:
  assumes "d < 16"
  shows "hex_digit d \<noteq> CHR ''$''"
proof
  assume "hex_digit d = CHR ''$''"
  then have "(of_char (hex_digit d) :: nat) = 36" by simp
  moreover have "(of_char (hex_digit d) :: nat) = (if d < 10 then 48 + d else 87 + d)"
    using assms by (simp add: hex_digit_def)
  ultimately show False by (simp split: if_splits)
qed

lemma hex16_no_dollar: "CHR ''$'' \<notin> set (hex16 x)"
proof -
  have f: "y AND 0xf = take_bit 4 y" for y :: u64
    by (simp add: take_bit_eq_mask mask_eq_exp_minus_1)
  have "unat (y AND 0xf) < 16" for y :: u64
    using take_bit_nat_less_exp [of 4 "unat y"] by (simp only: f unsigned_take_bit_eq) simp
  then show ?thesis
    using hex_digit_not_dollar by (fastforce simp: hex16_def simp del: upt.simps)
qed

lemma dollar_unique:
  "CHR ''$'' \<notin> set a \<Longrightarrow> CHR ''$'' \<notin> set b \<Longrightarrow> a @ CHR ''$'' # x = b @ CHR ''$'' # y \<Longrightarrow> a = b \<and> x = y"
  using takeWhile_not [of "CHR ''$''" a x] takeWhile_not [of "CHR ''$''" b y] by simp

lemma length_hex2 [simp]: "length (hex2 b) = 2"
  by (simp add: hex2_def)

end
