(* ===== verification/Timer_Queue.thy ===== *)
theory Timer_Queue
  imports Double_Print "HOL-Library.Product_Lexorder"
begin

text \<open>
  \<open>net/TimerQueue.cpp\<close> (the POSIX half), \<open>net/Timer.h\<close> and the time arithmetic of
  \<open>base/Timestamp.h\<close> it uses. A \<open>Timer*\<close> is an address of an explicit heap, so that a use of a deleted
  timer is visible: it gives \<open>None\<close>, as does a failing \<open>assert\<close>. The \<open>std::set\<close> of entries is the
  sorted list of its elements. The \<open>timerfd\<close> is its pending alarm (the clock when it was set and the
  relative time) and whether it is readable; \<open>timerfd_settime\<close> makes it unreadable again.
\<close>

section \<open>Times\<close>

text \<open>\<open>seconds * kMicroSecondsPerSecond\<close> and the cast to \<open>int64_t\<close>, undefined outside its range.\<close>

definition f64_times_million :: "double \<Rightarrow> double" where
  "f64_times_million w =
     (if f64_exp w = 2047 then w
      else let (n, d) = f64_ratio w in rat_to_f64 (f64_sign w) (n * 1000000) d)"

definition in_i64 :: "int \<Rightarrow> bool" where
  "in_i64 v \<longleftrightarrow> - (2 ^ 63) \<le> v \<and> v < 2 ^ 63"

definition f64_int64 :: "double \<Rightarrow> int option" where
  "f64_int64 w =
     (if f64_exp w = 2047 then None
      else
        let (n, d) = f64_ratio w; v = (if f64_sign w = 0 then int (n div d) else - int (n div d))
        in if in_i64 v then Some v else None)"

definition addTime :: "int \<Rightarrow> double \<Rightarrow> int option" where
  "addTime timestamp seconds =
     Option.bind (f64_int64 (f64_times_million seconds))
       (\<lambda>delta. if in_i64 (timestamp + delta) then Some (timestamp + delta) else None)"

definition f64_positive :: "double \<Rightarrow> bool" where
  "f64_positive w \<longleftrightarrow> f64_sign w = 0 \<and> \<not> f64_is_zero w \<and> \<not> (f64_exp w = 2047 \<and> f64_frac w \<noteq> 0)"

definition ts_valid :: "int \<Rightarrow> bool" where
  "ts_valid ts \<longleftrightarrow> 0 < ts"

text \<open>A \<open>timespec\<close>: seconds and nanoseconds.\<close>

definition howMuchTimeFromNow :: "int \<Rightarrow> int \<Rightarrow> int \<times> int" where
  "howMuchTimeFromNow expiration now =
     (let microseconds = expiration - now;
          microseconds = (if microseconds < 100 then 100 else microseconds)
      in (microseconds div 1000000, microseconds mod 1000000 * 1000))"

section \<open>Timers\<close>

type_synonym addr = nat
type_synonym tentry = "int \<times> addr"
type_synonym tactive = "addr \<times> i64"

record 'cb timer =
  tm_callback :: 'cb
  tm_expiration :: int
  tm_interval :: double
  tm_repeat :: bool
  tm_sequence :: i64

definition tm_restart :: "int \<Rightarrow> 'cb timer \<Rightarrow> 'cb timer option" where
  "tm_restart now t =
     (if tm_repeat t then map_option (\<lambda>e. t\<lparr>tm_expiration := e\<rparr>) (addTime now (tm_interval t))
      else Some (t\<lparr>tm_expiration := 0\<rparr>))"

text \<open>
  The queue, with the heap of its timers, the counter \<open>_s_numCreated\<close>, the timers that exist but whose
  \<open>addTimerInLoop\<close> the event loop has not called yet, and the timer descriptor.
\<close>

record 'cb tqueue =
  tq_heap :: "addr \<rightharpoonup> 'cb timer"
  tq_created :: i64
  tq_pending :: "addr list"
  tq_timers :: "tentry list"
  tq_active :: "tactive set"
  tq_calling :: bool
  tq_canceling :: "tactive set"
  tq_armed :: "(int \<times> int \<times> int) option"
  tq_ready :: bool

definition tq_init :: "'cb tqueue" where
  "tq_init = \<lparr>tq_heap = Map.empty, tq_created = 0, tq_pending = [], tq_timers = [], tq_active = {},
     tq_calling = False, tq_canceling = {}, tq_armed = None, tq_ready = False\<rparr>"

definition ensure :: "bool \<Rightarrow> unit option" where
  "ensure b = (if b then Some () else None)"

definition UINTPTR_MAX :: nat where
  "UINTPTR_MAX = 2 ^ 64 - 1"

definition resetTimerfd :: "int \<Rightarrow> int \<Rightarrow> 'cb tqueue \<Rightarrow> 'cb tqueue" where
  "resetTimerfd expiration now q =
     q\<lparr>tq_armed := Some (now, howMuchTimeFromNow expiration now), tq_ready := False\<rparr>"

section \<open>Operations\<close>

text \<open>\<open>new Timer(cb, when, interval)\<close> at the address \<open>a\<close>, whose insertion is handed to the loop.\<close>

definition Timer_new :: "addr \<Rightarrow> 'cb \<Rightarrow> int \<Rightarrow> double \<Rightarrow> 'cb tqueue \<Rightarrow> 'cb tqueue" where
  "Timer_new a cb when interval q =
     q\<lparr>tq_created := tq_created q + 1, tq_pending := a # tq_pending q,
       tq_heap := (tq_heap q)(a \<mapsto> \<lparr>tm_callback = cb, tm_expiration = when, tm_interval = interval,
         tm_repeat = f64_positive interval, tm_sequence = tq_created q + 1\<rparr>)\<rparr>"

definition tq_insert :: "addr \<Rightarrow> 'cb tqueue \<Rightarrow> (bool \<times> 'cb tqueue) option" where
  "tq_insert a q = do {
     ensure (length (tq_timers q) = card (tq_active q));
     t \<leftarrow> tq_heap q a;
     let when = tm_expiration t;
     let earliestChanged = (tq_timers q = [] \<or> when < fst (hd (tq_timers q)));
     ensure ((when, a) \<notin> set (tq_timers q));
     let q = q\<lparr>tq_timers := insort (when, a) (tq_timers q)\<rparr>;
     ensure ((a, tm_sequence t) \<notin> tq_active q);
     let q = q\<lparr>tq_active := insert (a, tm_sequence t) (tq_active q)\<rparr>;
     ensure (length (tq_timers q) = card (tq_active q));
     Some (earliestChanged, q)
   }"

definition addTimerInLoop :: "addr \<Rightarrow> int \<Rightarrow> 'cb tqueue \<Rightarrow> 'cb tqueue option" where
  "addTimerInLoop a now q = do {
     (earliestChanged, q) \<leftarrow> tq_insert a q;
     if earliestChanged then do {
       t \<leftarrow> tq_heap q a;
       Some (resetTimerfd (tm_expiration t) now q)
     }
     else Some q
   }"

definition tq_delete :: "addr \<Rightarrow> 'cb tqueue \<Rightarrow> 'cb tqueue option" where
  "tq_delete a q = (if tq_heap q a = None then None else Some (q\<lparr>tq_heap := (tq_heap q)(a := None)\<rparr>))"

definition cancelInLoop :: "addr \<Rightarrow> i64 \<Rightarrow> 'cb tqueue \<Rightarrow> 'cb tqueue option" where
  "cancelInLoop a sq q = do {
     ensure (length (tq_timers q) = card (tq_active q));
     if (a, sq) \<in> tq_active q then do {
       t \<leftarrow> tq_heap q a;
       ensure ((tm_expiration t, a) \<in> set (tq_timers q));
       let q = q\<lparr>tq_timers := remove1 (tm_expiration t, a) (tq_timers q)\<rparr>;
       q \<leftarrow> tq_delete a q;
       Some (q\<lparr>tq_active := tq_active q - {(a, sq)}\<rparr>)
     }
     else if tq_calling q then Some (q\<lparr>tq_canceling := insert (a, sq) (tq_canceling q)\<rparr>)
     else Some q
   }"

fun erase_active :: "tentry list \<Rightarrow> 'cb tqueue \<Rightarrow> 'cb tqueue option" where
  "erase_active [] q = Some q"
| "erase_active (e # es) q = do {
     t \<leftarrow> tq_heap q (snd e);
     ensure ((snd e, tm_sequence t) \<in> tq_active q);
     erase_active es (q\<lparr>tq_active := tq_active q - {(snd e, tm_sequence t)}\<rparr>)
   }"

definition getExpired :: "int \<Rightarrow> 'cb tqueue \<Rightarrow> (tentry list \<times> 'cb tqueue) option" where
  "getExpired now q = do {
     ensure (length (tq_timers q) = card (tq_active q));
     let sentry = (now, UINTPTR_MAX);
     let expired = takeWhile (\<lambda>e. e < sentry) (tq_timers q);
     let rest = dropWhile (\<lambda>e. e < sentry) (tq_timers q);
     ensure (rest = [] \<or> now < fst (hd rest));
     q \<leftarrow> erase_active expired (q\<lparr>tq_timers := rest\<rparr>);
     ensure (length (tq_timers q) = card (tq_active q));
     Some (expired, q)
   }"

fun reset_loop :: "int \<Rightarrow> tentry list \<Rightarrow> 'cb tqueue \<Rightarrow> 'cb tqueue option" where
  "reset_loop now [] q = Some q"
| "reset_loop now (e # es) q = do {
     t \<leftarrow> tq_heap q (snd e);
     q \<leftarrow> (if tm_repeat t \<and> (snd e, tm_sequence t) \<notin> tq_canceling q then do {
              t \<leftarrow> tm_restart now t;
              map_option snd (tq_insert (snd e) (q\<lparr>tq_heap := (tq_heap q)(snd e \<mapsto> t)\<rparr>))
            }
            else tq_delete (snd e) q);
     reset_loop now es q
   }"

text \<open>\<open>clock\<close> is what \<open>Timestamp::now()\<close> returns inside \<open>resetTimerfd\<close>.\<close>

definition tq_reset :: "tentry list \<Rightarrow> int \<Rightarrow> int \<Rightarrow> 'cb tqueue \<Rightarrow> 'cb tqueue option" where
  "tq_reset expired now clock q = do {
     q \<leftarrow> reset_loop now expired q;
     nextExpire \<leftarrow> (if tq_timers q = [] then Some 0
                   else map_option tm_expiration (tq_heap q (snd (hd (tq_timers q)))));
     Some (if ts_valid nextExpire then resetTimerfd nextExpire clock q else q)
   }"

text \<open>
  What happens around the queue in the loop thread, also from a callback: a timer comes into
  existence, its insertion runs, a timer is cancelled. An address that is taken or is no address, and
  an insertion that was not handed to the loop, are not possible and are skipped.
\<close>

datatype 'cb tq_op =
    NewTimer addr 'cb int double
  | InsertTimer addr int
  | CancelTimer addr i64

fun do_op :: "'cb tq_op \<Rightarrow> 'cb tqueue \<Rightarrow> 'cb tqueue option" where
  "do_op (NewTimer a cb when interval) q =
     Some (if tq_heap q a = None \<and> a < UINTPTR_MAX then Timer_new a cb when interval q else q)"
| "do_op (InsertTimer a now) q =
     (if a \<in> set (tq_pending q) then addTimerInLoop a now (q\<lparr>tq_pending := remove1 a (tq_pending q)\<rparr>)
      else Some q)"
| "do_op (CancelTimer a sq) q = cancelInLoop a sq q"

fun tq_ops :: "'cb tq_op list \<Rightarrow> 'cb tqueue \<Rightarrow> 'cb tqueue option" where
  "tq_ops [] q = Some q"
| "tq_ops (p # ps) q = Option.bind (do_op p q) (tq_ops ps)"

text \<open>
  The loop over the expired timers; \<open>script\<close> is what the callback of a timer does to the queue. The
  callbacks that ran are returned.
\<close>

fun run_expired :: "(addr \<Rightarrow> 'cb tq_op list) \<Rightarrow> tentry list \<Rightarrow> 'cb tqueue \<Rightarrow> ('cb list \<times> 'cb tqueue) option" where
  "run_expired script [] q = Some ([], q)"
| "run_expired script (e # es) q = do {
     t \<leftarrow> tq_heap q (snd e);
     q \<leftarrow> tq_ops (script (snd e)) q;
     (cbs, q) \<leftarrow> run_expired script es q;
     Some (tm_callback t # cbs, q)
   }"

definition handleInLoop ::
    "int \<Rightarrow> (addr \<Rightarrow> 'cb tq_op list) \<Rightarrow> int \<Rightarrow> 'cb tqueue \<Rightarrow> ('cb list \<times> 'cb tqueue) option" where
  "handleInLoop now script clock q = do {
     (expired, q) \<leftarrow> getExpired now q;
     let q = q\<lparr>tq_calling := True, tq_canceling := {}\<rparr>;
     (cbs, q) \<leftarrow> run_expired script expired q;
     let q = q\<lparr>tq_calling := False\<rparr>;
     q \<leftarrow> tq_reset expired now clock q;
     Some (cbs, q)
   }"

text \<open>
  The events of a loop with a timer queue: operations, the alarm of the kernel, and the poller
  reporting the readable descriptor.
\<close>

datatype 'cb tq_event =
    OpEvent "'cb tq_op"
  | AlarmEvent
  | PollEvent int "addr \<Rightarrow> 'cb tq_op list" int

fun do_event :: "'cb tq_event \<Rightarrow> 'cb tqueue \<Rightarrow> 'cb tqueue option" where
  "do_event (OpEvent p) q = do_op p q"
| "do_event AlarmEvent q = Some (if tq_armed q = None then q else q\<lparr>tq_armed := None, tq_ready := True\<rparr>)"
| "do_event (PollEvent now script clock) q =
     (if tq_ready q then map_option snd (handleInLoop now script clock q) else Some q)"

fun tq_run :: "'cb tq_event list \<Rightarrow> 'cb tqueue \<Rightarrow> 'cb tqueue option" where
  "tq_run [] q = Some q"
| "tq_run (v # vs) q = Option.bind (do_event v q) (tq_run vs)"

end
