(* ===== verification/Timer_Invariant.thy ===== *)
theory Timer_Invariant
  imports Timer_Queue
begin

text \<open>
  The invariant of the timer queue: both containers describe the same live timers, and no timer is in
  two places. Every operation keeps it, so no assertion fails and no deleted timer is used.
\<close>

section \<open>The invariant\<close>

definition interval_ok :: "double \<Rightarrow> bool" where
  "interval_ok interval \<longleftrightarrow>
     (f64_positive interval \<longrightarrow>
       (case f64_int64 (f64_times_million interval) of
          None \<Rightarrow> False | Some delta \<Rightarrow> 0 \<le> delta \<and> delta \<le> 2 ^ 62))"

fun op_ok :: "'cb tq_op \<Rightarrow> bool" where
  "op_ok (NewTimer a cb when interval) \<longleftrightarrow> interval_ok interval"
| "op_ok (InsertTimer a now) \<longleftrightarrow> True"
| "op_ok (CancelTimer a sq) \<longleftrightarrow> True"

definition now_ok :: "int \<Rightarrow> bool" where
  "now_ok now \<longleftrightarrow> 0 < now \<and> now < 2 ^ 62"

fun tq_event_ok :: "'cb tq_event \<Rightarrow> bool" where
  "tq_event_ok (OpEvent p) \<longleftrightarrow> op_ok p"
| "tq_event_ok AlarmEvent \<longleftrightarrow> True"
| "tq_event_ok (PollEvent now script clock) \<longleftrightarrow> now_ok now \<and> (\<forall>a. list_all op_ok (script a))"

definition active_of :: "(addr \<rightharpoonup> 'cb timer) \<Rightarrow> tentry set \<Rightarrow> tactive set" where
  "active_of h es = (\<lambda>e. (snd e, tm_sequence (the (h (snd e))))) ` es"

definition heap_ok :: "(addr \<rightharpoonup> 'cb timer) \<Rightarrow> bool" where
  "heap_ok h \<longleftrightarrow>
     (\<forall>a t. h a = Some t \<longrightarrow> tm_repeat t = f64_positive (tm_interval t) \<and> interval_ok (tm_interval t))"

lemma heap_ok_simps [simp]:
  "heap_ok Map.empty" "heap_ok h \<Longrightarrow> heap_ok (h(a := None))"
  "heap_ok h \<Longrightarrow> tm_repeat t = f64_positive (tm_interval t) \<Longrightarrow> interval_ok (tm_interval t) \<Longrightarrow> heap_ok (h(a \<mapsto> t))"
  by (simp_all add: heap_ok_def)

text \<open>\<open>held\<close> are the addresses of timers that \<open>handleInLoop\<close> has taken out and still uses.\<close>

definition tq_inv :: "addr list \<Rightarrow> 'cb tqueue \<Rightarrow> bool" where
  "tq_inv held q \<longleftrightarrow>
     sorted (tq_timers q) \<and> distinct (map snd (tq_timers q) @ tq_pending q @ held)
     \<and> set (map snd (tq_timers q) @ tq_pending q @ held) \<subseteq> dom (tq_heap q)
     \<and> dom (tq_heap q) \<subseteq> {..<UINTPTR_MAX}
     \<and> (\<forall>e \<in> set (tq_timers q). tm_expiration (the (tq_heap q (snd e))) = fst e)
     \<and> tq_active q = active_of (tq_heap q) (set (tq_timers q))
     \<and> heap_ok (tq_heap q)"

lemma tq_inv_init: "tq_inv [] tq_init"
  by (simp add: tq_inv_def tq_init_def active_of_def)

lemma tq_invD:
  assumes "tq_inv held q"
  shows "sorted (tq_timers q)" "distinct (map snd (tq_timers q) @ tq_pending q @ held)"
    "set (map snd (tq_timers q) @ tq_pending q @ held) \<subseteq> dom (tq_heap q)"
    "dom (tq_heap q) \<subseteq> {..<UINTPTR_MAX}"
    "\<And>e. e \<in> set (tq_timers q) \<Longrightarrow> tm_expiration (the (tq_heap q (snd e))) = fst e"
    "tq_active q = active_of (tq_heap q) (set (tq_timers q))"
    "heap_ok (tq_heap q)"
  using assms unfolding tq_inv_def by blast+

lemma ensure_simps [simp]: "ensure True = Some ()" "ensure b = Some u \<longleftrightarrow> b"
  by (simp_all add: ensure_def)

lemma card_active_of:
  assumes "distinct (map snd es)"
  shows "card (active_of h (set es)) = length es"
proof -
  have inj: "inj_on snd (set es)" and d: "distinct es"
    using assms by (simp_all add: distinct_map)
  then have "inj_on (\<lambda>e. (snd e, tm_sequence (the (h (snd e))))) (set es)"
    by (auto simp: inj_on_def)
  then show ?thesis
    using d by (simp add: active_of_def card_image distinct_card)
qed

lemma tq_inv_sizes:
  assumes "tq_inv held q"
  shows "length (tq_timers q) = card (tq_active q)"
  using tq_invD [OF assms] card_active_of [of "tq_timers q" "tq_heap q"] by simp

lemma active_of_cong:
  "(\<And>e. e \<in> es \<Longrightarrow> h (snd e) = h' (snd e)) \<Longrightarrow> active_of h es = active_of h' es"
  unfolding active_of_def by (rule image_cong) auto

lemma active_of_simps [simp]:
  "active_of h {} = {}"
  "active_of h (insert e es) = insert (snd e, tm_sequence (the (h (snd e)))) (active_of h es)"
  by (simp_all add: active_of_def)

lemma active_of_iff:
  "(a, sq) \<in> active_of h es \<longleftrightarrow> (\<exists>e \<in> es. snd e = a \<and> sq = tm_sequence (the (h a)))"
  by (auto simp: active_of_def)

section \<open>Creation and insertion\<close>

lemma Timer_new_inv:
  assumes inv: "tq_inv held q" and a: "tq_heap q a = None" "a < UINTPTR_MAX" and ok: "interval_ok interval"
  shows "tq_inv held (Timer_new a cb when interval q)"
proof -
  note I = tq_invD [OF inv]
  have fresh: "a \<notin> set (map snd (tq_timers q) @ tq_pending q @ held)"
    using I(3) a(1) by (auto simp: dom_def)
  have "active_of (tq_heap q) (set (tq_timers q)) = active_of (tq_heap (Timer_new a cb when interval q)) (set (tq_timers q))"
    using fresh by (intro active_of_cong) (auto simp: Timer_new_def)
  then show ?thesis
    using I fresh a ok unfolding tq_inv_def by (auto simp: Timer_new_def)
qed

lemma pending_held:
  assumes "tq_inv held q" "a \<in> set (tq_pending q)"
  shows "tq_inv (a # held) (q\<lparr>tq_pending := remove1 a (tq_pending q)\<rparr>)"
proof -
  have "distinct (tq_pending q)"
    using tq_invD(2) [OF assms(1)] by simp
  then show ?thesis
    using assms by (auto simp: tq_inv_def set_remove1_eq)
qed

lemma tq_insert_inv:
  assumes inv: "tq_inv (a # held) q"
  obtains t where "tq_heap q a = Some t"
    "tq_insert a q = Some (tq_timers q = [] \<or> tm_expiration t < fst (hd (tq_timers q)),
       q\<lparr>tq_timers := insort (tm_expiration t, a) (tq_timers q),
         tq_active := insert (a, tm_sequence t) (tq_active q)\<rparr>)"
    "tq_inv held (q\<lparr>tq_timers := insort (tm_expiration t, a) (tq_timers q),
         tq_active := insert (a, tm_sequence t) (tq_active q)\<rparr>)"
proof -
  note I = tq_invD [OF inv]
  obtain t where t: "tq_heap q a = Some t"
    using I(3) by auto
  let ?q = "q\<lparr>tq_timers := insort (tm_expiration t, a) (tq_timers q),
         tq_active := insert (a, tm_sequence t) (tq_active q)\<rparr>"
  have new: "a \<notin> snd ` set (tq_timers q)"
    using I(2) by auto
  have notin: "(tm_expiration t, a) \<notin> set (tq_timers q)" "(a, tm_sequence t) \<notin> tq_active q"
    using new I(6) by (force simp: active_of_iff)+
  have i: "tq_inv held ?q"
    using I t new notin(1) unfolding tq_inv_def
    by (auto simp: sorted_insort set_insort_key distinct_map distinct_insort inj_on_insert)
  from notin have "tq_insert a q = Some (tq_timers q = [] \<or> tm_expiration t < fst (hd (tq_timers q)), ?q)"
    using tq_inv_sizes [OF inv] tq_inv_sizes [OF i] t by (simp add: tq_insert_def Let_def)
  then show thesis using that t i by blast
qed

lemma addTimerInLoop_inv:
  assumes inv: "tq_inv (a # held) q"
  obtains t where "tq_heap q a = Some t"
    "addTimerInLoop a now q = Some (let q' = q\<lparr>tq_timers := insort (tm_expiration t, a) (tq_timers q),
         tq_active := insert (a, tm_sequence t) (tq_active q)\<rparr>
       in if tq_timers q = [] \<or> tm_expiration t < fst (hd (tq_timers q))
          then resetTimerfd (tm_expiration t) now q' else q')"
    "tq_inv held (the (addTimerInLoop a now q))"
proof -
  from tq_insert_inv [OF inv] obtain t where t: "tq_heap q a = Some t"
      "tq_insert a q = Some (tq_timers q = [] \<or> tm_expiration t < fst (hd (tq_timers q)),
       q\<lparr>tq_timers := insort (tm_expiration t, a) (tq_timers q),
         tq_active := insert (a, tm_sequence t) (tq_active q)\<rparr>)"
      "tq_inv held (q\<lparr>tq_timers := insort (tm_expiration t, a) (tq_timers q),
         tq_active := insert (a, tm_sequence t) (tq_active q)\<rparr>)" .
  show thesis
    using t by (intro that [OF t(1)]) (auto simp: addTimerInLoop_def Let_def resetTimerfd_def tq_inv_def)
qed

section \<open>Cancellation\<close>

lemma active_of_diff:
  assumes "inj_on snd es" "e \<in> es"
  shows "active_of h (es - {e}) = active_of h es - {(snd e, tm_sequence (the (h (snd e))))}"
proof -
  have "inj_on (\<lambda>e. (snd e, tm_sequence (the (h (snd e))))) es"
    using assms(1) by (auto simp: inj_on_def)
  from inj_on_image_set_diff [OF this, of es "{e}"] show ?thesis
    using assms(2) by (simp add: active_of_def)
qed

lemma cancel_active:
  assumes inv: "tq_inv held q" and act: "(a, sq) \<in> tq_active q"
  obtains w where "(w, a) \<in> set (tq_timers q)"
    "cancelInLoop a sq q = Some (q\<lparr>tq_timers := remove1 (w, a) (tq_timers q),
       tq_heap := (tq_heap q)(a := None), tq_active := tq_active q - {(a, sq)}\<rparr>)"
    "tq_inv held (q\<lparr>tq_timers := remove1 (w, a) (tq_timers q),
       tq_heap := (tq_heap q)(a := None), tq_active := tq_active q - {(a, sq)}\<rparr>)"
proof -
  note I = tq_invD [OF inv]
  obtain w where w: "(w, a) \<in> set (tq_timers q)" and sq: "sq = tm_sequence (the (tq_heap q a))"
    using act I(6) by (auto simp: active_of_iff)
  obtain t where t: "tq_heap q a = Some t"
    using w I(3) by fastforce
  have e: "tm_expiration t = w"
    using I(5) [OF w] t by simp
  have d: "distinct (tq_timers q)" and inj: "inj_on snd (set (tq_timers q))"
    using I(2) by (simp_all add: distinct_map)
  have rest: "set (remove1 (w, a) (tq_timers q)) = set (tq_timers q) - {(w, a)}"
    using d by (simp add: set_remove1_eq)
  have gone: "a \<notin> snd ` (set (tq_timers q) - {(w, a)})"
    using inj_on_image_mem_iff [OF inj w, of "set (tq_timers q) - {(w, a)}"] by simp
  let ?q = "q\<lparr>tq_timers := remove1 (w, a) (tq_timers q),
       tq_heap := (tq_heap q)(a := None), tq_active := tq_active q - {(a, sq)}\<rparr>"
  have "active_of (tq_heap q) (set (tq_timers q) - {(w, a)})
      = active_of ((tq_heap q)(a := None)) (set (tq_timers q) - {(w, a)})"
    using gone by (intro active_of_cong) (auto simp: image_iff)
  then have act': "tq_active q - {(a, sq)} = active_of ((tq_heap q)(a := None)) (set (tq_timers q) - {(w, a)})"
    using I(6) active_of_diff [OF inj w, of "tq_heap q"] sq by simp
  have dist: "distinct (map snd (remove1 (w, a) (tq_timers q)))"
    using d inj rest by (simp add: distinct_map inj_on_diff)
  have "tq_inv held ?q"
    unfolding tq_inv_def
  proof (intro conjI)
    show "distinct (map snd (tq_timers ?q) @ tq_pending ?q @ held)"
      using I(2) dist rest by auto
    have "a \<notin> set (tq_pending q @ held)"
      using I(2) w by force
    then show "set (map snd (tq_timers ?q) @ tq_pending ?q @ held) \<subseteq> dom (tq_heap ?q)"
      using I(3) gone rest by auto
    show "\<forall>e \<in> set (tq_timers ?q). tm_expiration (the (tq_heap ?q (snd e))) = fst e"
      using I(5) gone rest by auto
  qed (use I rest act' in \<open>auto simp: sorted_remove1\<close>)
  moreover have "cancelInLoop a sq q = Some ?q"
    using tq_inv_sizes [OF inv] act t e w by (simp add: cancelInLoop_def tq_delete_def Let_def)
  ultimately show thesis using that w by blast
qed

lemma cancelInLoop_inv:
  assumes inv: "tq_inv held q"
  shows "\<exists>q'. cancelInLoop a sq q = Some q' \<and> tq_inv held q' \<and> (\<forall>b \<in> set held. tq_heap q' b = tq_heap q b)
    \<and> tq_calling q' = tq_calling q \<and> tq_armed q' = tq_armed q \<and> tq_ready q' = tq_ready q
    \<and> set (tq_timers q') \<subseteq> set (tq_timers q)
    \<and> tq_canceling q' = tq_canceling q \<union> (if tq_calling q \<and> (a, sq) \<notin> tq_active q then {(a, sq)} else {})"
proof (cases "(a, sq) \<in> tq_active q")
  case True
  obtain w where w: "(w, a) \<in> set (tq_timers q)"
    "cancelInLoop a sq q = Some (q\<lparr>tq_timers := remove1 (w, a) (tq_timers q),
       tq_heap := (tq_heap q)(a := None), tq_active := tq_active q - {(a, sq)}\<rparr>)"
    "tq_inv held (q\<lparr>tq_timers := remove1 (w, a) (tq_timers q),
       tq_heap := (tq_heap q)(a := None), tq_active := tq_active q - {(a, sq)}\<rparr>)"
    using cancel_active [OF inv True] .
  moreover have "a \<notin> set held"
    using w(1) tq_invD(2) [OF inv] by auto
  ultimately show ?thesis
    using True set_remove1_subset [of "(w, a)" "tq_timers q"] by auto
next
  case False
  then show ?thesis
    using inv tq_inv_sizes [OF inv] by (auto simp: cancelInLoop_def tq_inv_def)
qed

section \<open>Expired timers\<close>

lemma erase_active_inv:
  assumes "set (map snd es) \<subseteq> dom (tq_heap q)" "distinct (map snd es)" "active_of (tq_heap q) (set es) \<subseteq> tq_active q"
  shows "erase_active es q = Some (q\<lparr>tq_active := tq_active q - active_of (tq_heap q) (set es)\<rparr>)"
  using assms
proof (induction es arbitrary: q)
  case (Cons e es)
  then obtain t where t: "tq_heap q (snd e) = Some t" by auto
  let ?q = "q\<lparr>tq_active := tq_active q - {(snd e, tm_sequence t)}\<rparr>"
  have "(snd e, tm_sequence t) \<notin> active_of (tq_heap q) (set es)"
    using Cons.prems(2) by (auto simp: active_of_iff image_iff)
  then have "erase_active es ?q = Some (?q\<lparr>tq_active := tq_active ?q - active_of (tq_heap ?q) (set es)\<rparr>)"
    using Cons.prems t by (intro Cons.IH) auto
  then show ?case
    using Cons.prems t by (simp add: Diff_insert2 [symmetric])
qed simp

text \<open>The due entries are those up to \<open>now\<close>: no timer is at the address \<open>UINTPTR_MAX\<close>.\<close>

definition due :: "int \<Rightarrow> tentry list \<Rightarrow> tentry list" where
  "due now es = filter (\<lambda>e. fst e \<le> now) es"

lemma takeWhile_due:
  assumes "sorted es" "\<And>e. e \<in> set es \<Longrightarrow> snd e < UINTPTR_MAX"
  shows "takeWhile (\<lambda>e. e < (now, UINTPTR_MAX)) es = due now es"
    "dropWhile (\<lambda>e. e < (now, UINTPTR_MAX)) es = filter (\<lambda>e. now < fst e) es"
proof -
  have less: "e < (now, UINTPTR_MAX) \<longleftrightarrow> fst e \<le> now" if "e \<in> set es" for e
    using assms(2) [OF that] by (cases e) auto
  have eq: "takeWhile (\<lambda>e. fst e \<le> now) es = due now es \<and> dropWhile (\<lambda>e. fst e \<le> now) es = filter (\<lambda>e. now < fst e) es"
    using assms(1)
  proof (induction es)
    case (Cons e es)
    show ?case
    proof (cases "fst e \<le> now")
      case False
      then have "\<forall>x \<in> set es. now < fst x"
        using Cons.prems by (fastforce simp: less_eq_prod_def less_prod_def split: prod.splits)
      then have "filter (\<lambda>e. fst e \<le> now) es = []" "filter (\<lambda>e. now < fst e) es = es"
        by (auto simp: filter_empty_conv filter_id_conv)
      then show ?thesis using False by (simp add: due_def)
    qed (use Cons in \<open>simp add: due_def\<close>)
  qed (simp add: due_def)
  show "takeWhile (\<lambda>e. e < (now, UINTPTR_MAX)) es = due now es"
    using eq takeWhile_cong [of es es "\<lambda>e. e < (now, UINTPTR_MAX)" "\<lambda>e. fst e \<le> now"] less by simp
  show "dropWhile (\<lambda>e. e < (now, UINTPTR_MAX)) es = filter (\<lambda>e. now < fst e) es"
    using eq dropWhile_cong [of es es "\<lambda>e. e < (now, UINTPTR_MAX)" "\<lambda>e. fst e \<le> now"] less by simp
qed

lemma getExpired_inv:
  assumes inv: "tq_inv [] q"
  shows "getExpired now q = Some (due now (tq_timers q),
      q\<lparr>tq_timers := filter (\<lambda>e. now < fst e) (tq_timers q),
        tq_active := tq_active q - active_of (tq_heap q) (set (due now (tq_timers q)))\<rparr>)"
    "tq_inv (map snd (due now (tq_timers q)))
      (q\<lparr>tq_timers := filter (\<lambda>e. now < fst e) (tq_timers q),
         tq_active := tq_active q - active_of (tq_heap q) (set (due now (tq_timers q)))\<rparr>)"
proof -
  note I = tq_invD [OF inv]
  let ?d = "due now (tq_timers q)" and ?r = "filter (\<lambda>e. now < fst e) (tq_timers q)"
  let ?q = "q\<lparr>tq_timers := ?r, tq_active := tq_active q - active_of (tq_heap q) (set ?d)\<rparr>"
  have lt: "snd e < UINTPTR_MAX" if "e \<in> set (tq_timers q)" for e
    using I(3,4) that by fastforce
  have d: "distinct (tq_timers q)" and inj: "inj_on snd (set (tq_timers q))"
    using I(2) by (simp_all add: distinct_map)
  have sub: "set ?d \<union> set ?r = set (tq_timers q)" "set ?d \<inter> set ?r = {}"
    by (auto simp: due_def)
  have "active_of (tq_heap q) (set ?d) \<inter> active_of (tq_heap q) (set ?r) = {}"
    using inj by (fastforce simp: active_of_def due_def inj_on_def)
  moreover have "tq_active q = active_of (tq_heap q) (set ?d) \<union> active_of (tq_heap q) (set ?r)"
    unfolding I(6) sub(1) [symmetric] by (simp only: active_of_def image_Un)
  ultimately have act: "tq_active ?q = active_of (tq_heap q) (set ?r)" "active_of (tq_heap q) (set ?d) \<subseteq> tq_active q"
    by auto
  have dist: "distinct (map snd ?r)" "distinct (map snd ?d)"
    using I(2) by (simp_all add: distinct_map_filter due_def)
  have disj: "snd ` set ?r \<inter> snd ` set ?d = {}"
    using inj by (fastforce simp: due_def inj_on_def)
  show i: "tq_inv (map snd ?d) ?q"
    using I dist disj act sub(1) sorted_filter [of "\<lambda>x. x" "tq_timers q"] unfolding tq_inv_def
    by (auto simp: due_def)
  have "set (map snd ?d) \<subseteq> dom (tq_heap q)"
    using I(3) by (auto simp: due_def)
  then have e: "erase_active ?d (q\<lparr>tq_timers := ?r\<rparr>) = Some ?q"
    using erase_active_inv [of ?d "q\<lparr>tq_timers := ?r\<rparr>"] dist act by simp
  have "?r = [] \<or> now < fst (hd ?r)"
    using hd_in_set [of ?r] by fastforce
  then show "getExpired now q = Some (?d, ?q)"
    using tq_inv_sizes [OF inv] tq_inv_sizes [OF i] e
    by (simp add: getExpired_def Let_def takeWhile_due [OF I(1) lt] del: dropWhile_eq_Nil_conv)
qed

section \<open>Callbacks\<close>

text \<open>What the operations of a callback leave alone.\<close>

definition frame :: "addr list \<Rightarrow> 'cb tqueue \<Rightarrow> 'cb tqueue \<Rightarrow> bool" where
  "frame held q q' \<longleftrightarrow> (\<forall>b \<in> set held. tq_heap q' b = tq_heap q b) \<and> tq_calling q' = tq_calling q"

lemma frame_refl [simp]: "frame held q q"
  by (simp add: frame_def)

lemma frame_trans: "frame held q q' \<Longrightarrow> frame held q' q'' \<Longrightarrow> frame held q q''"
  by (simp add: frame_def)

lemma do_op_inv:
  assumes inv: "tq_inv held q" and ok: "op_ok p"
  shows "\<exists>q'. do_op p q = Some q' \<and> tq_inv held q' \<and> frame held q q'"
proof (cases p)
  case (NewTimer a cb w interval)
  show ?thesis
  proof (cases "tq_heap q a = None \<and> a < UINTPTR_MAX")
    case True
    then have "a \<notin> set held" using tq_invD(3) [OF inv] by auto
    then show ?thesis
      using NewTimer True ok Timer_new_inv [OF inv] by (auto simp: frame_def Timer_new_def)
  qed (use NewTimer inv in auto)
next
  case (InsertTimer a now)
  show ?thesis
  proof (cases "a \<in> set (tq_pending q)")
    case True
    from pending_held [OF inv True] obtain q' where
      "addTimerInLoop a now (q\<lparr>tq_pending := remove1 a (tq_pending q)\<rparr>) = Some q'" "tq_inv held q'"
      "tq_heap q' = tq_heap q" "tq_calling q' = tq_calling q"
      by (rule addTimerInLoop_inv [of _ _ _ now]) (auto simp: Let_def resetTimerfd_def)
    then show ?thesis using InsertTimer True by (auto simp: frame_def)
  qed (use InsertTimer inv in auto)
next
  case (CancelTimer a sq)
  then show ?thesis
    using cancelInLoop_inv [OF inv, of a sq] by (auto simp: frame_def)
qed

lemma do_ops_inv:
  assumes "tq_inv held q" "list_all op_ok ps"
  shows "\<exists>q'. tq_ops ps q = Some q' \<and> tq_inv held q' \<and> frame held q q'"
  using assms
proof (induction ps arbitrary: q)
  case (Cons p ps)
  obtain q1 where 1: "do_op p q = Some q1" "tq_inv held q1" "frame held q q1"
    using do_op_inv [OF Cons.prems(1), of p] Cons.prems(2) by auto
  obtain q2 where "tq_ops ps q1 = Some q2" "tq_inv held q2" "frame held q1 q2"
    using Cons.IH [OF 1(2)] Cons.prems(2) by auto
  then show ?case using 1 frame_trans by auto
qed simp

lemma run_expired_inv:
  assumes "tq_inv held q" "set (map snd es) \<subseteq> set held" "\<forall>a. list_all op_ok (script a)"
  shows "\<exists>q'. run_expired script es q = Some (map (\<lambda>e. tm_callback (the (tq_heap q (snd e)))) es, q')
    \<and> tq_inv held q' \<and> frame held q q'"
  using assms(1,2)
proof (induction es arbitrary: q)
  case (Cons e es)
  have h: "snd e \<in> set held" "set (map snd es) \<subseteq> set held" using Cons.prems(2) by auto
  then obtain t where t: "tq_heap q (snd e) = Some t"
    using tq_invD(3) [OF Cons.prems(1)] by fastforce
  obtain q1 where 1: "tq_ops (script (snd e)) q = Some q1" "tq_inv held q1" "frame held q q1"
    using do_ops_inv [OF Cons.prems(1) assms(3) [rule_format]] by blast
  obtain q2 where 2: "run_expired script es q1 = Some (map (\<lambda>e. tm_callback (the (tq_heap q1 (snd e)))) es, q2)"
      "tq_inv held q2" "frame held q1 q2"
    using Cons.IH [OF 1(2) h(2)] by blast
  have "map (\<lambda>e. tm_callback (the (tq_heap q1 (snd e)))) es = map (\<lambda>e. tm_callback (the (tq_heap q (snd e)))) es"
    using 1(3) h(2) by (auto simp: frame_def)
  then show ?case
    using t 1 2 frame_trans [OF 1(3) 2(3)] by simp
qed simp

text \<open>
  A timer that is held is not active, so a callback that cancels it is recorded, and nothing else
  records it.
\<close>

lemma held_not_active: "tq_inv held q \<Longrightarrow> b \<in> set held \<Longrightarrow> (b, sq) \<notin> tq_active q"
  by (auto simp: tq_inv_def active_of_iff)

lemma do_op_canceling:
  assumes inv: "tq_inv held q" and b: "b \<in> set held" and "tq_calling q" "do_op p q = Some q'"
  shows "(b, sq) \<in> tq_canceling q' \<longleftrightarrow> (b, sq) \<in> tq_canceling q \<or> p = CancelTimer b sq"
proof (cases p)
  case (NewTimer a cb w interval)
  then show ?thesis using assms(4) by (auto simp: Timer_new_def split: if_splits)
next
  case (InsertTimer a now)
  show ?thesis
  proof (cases "a \<in> set (tq_pending q)")
    case True
    from pending_held [OF inv True] obtain q2 where
      "addTimerInLoop a now (q\<lparr>tq_pending := remove1 a (tq_pending q)\<rparr>) = Some q2"
      "tq_canceling q2 = tq_canceling q"
      by (rule addTimerInLoop_inv [of _ _ _ now]) (auto simp: Let_def resetTimerfd_def)
    then show ?thesis using assms(4) InsertTimer True by auto
  qed (use InsertTimer assms(4) in auto)
next
  case (CancelTimer a s)
  then show ?thesis
    using cancelInLoop_inv [OF inv, of a s] assms(3,4) held_not_active [OF inv b] by auto
qed

lemma do_ops_canceling:
  assumes "tq_inv held q" "b \<in> set held" "tq_calling q" "list_all op_ok ps" "tq_ops ps q = Some q'"
  shows "(b, sq) \<in> tq_canceling q' \<longleftrightarrow> (b, sq) \<in> tq_canceling q \<or> CancelTimer b sq \<in> set ps"
  using assms
proof (induction ps arbitrary: q)
  case (Cons p ps)
  obtain q1 where 1: "do_op p q = Some q1" "tq_inv held q1" "frame held q q1"
    using do_op_inv [OF Cons.prems(1), of p] Cons.prems(4) by auto
  then show ?case
    using Cons.IH [OF 1(2)] Cons.prems do_op_canceling [OF Cons.prems(1-3) 1(1), of sq]
    by (auto simp: frame_def)
qed simp

lemma run_expired_canceling:
  assumes "tq_inv held q" "b \<in> set held" "tq_calling q" "set (map snd es) \<subseteq> set held"
    "\<forall>a. list_all op_ok (script a)" "run_expired script es q = Some (cbs, q')"
  shows "(b, sq) \<in> tq_canceling q' \<longleftrightarrow>
     (b, sq) \<in> tq_canceling q \<or> (\<exists>e \<in> set es. CancelTimer b sq \<in> set (script (snd e)))"
  using assms(1-4,6)
proof (induction es arbitrary: q cbs)
  case (Cons e es)
  obtain q1 where 1: "tq_ops (script (snd e)) q = Some q1" "tq_inv held q1" "frame held q q1"
    using do_ops_inv [OF Cons.prems(1) assms(5) [rule_format]] by blast
  have c: "tq_calling q1" using 1(3) Cons.prems(3) by (simp add: frame_def)
  obtain cbs' where "run_expired script es q1 = Some (cbs', q')"
    using Cons.prems(5) 1(1) by (auto simp: bind_Some_iff)
  from Cons.IH [OF 1(2) Cons.prems(2) c _ this]
  show ?case
    using do_ops_canceling [OF Cons.prems(1-3) assms(5) [rule_format] 1(1), of sq] Cons.prems(4) by auto
qed simp

section \<open>Repeating timers\<close>

lemma addTime_ok:
  assumes "interval_ok i" "f64_positive i" "now_ok now"
  obtains x where "addTime now i = Some x" "now \<le> x"
proof -
  obtain d where "f64_int64 (f64_times_million i) = Some d" "0 \<le> d" "d \<le> 2 ^ 62"
    using assms by (auto simp: interval_ok_def split: option.splits)
  then show thesis
    using assms(3) by (intro that [of "now + d"]) (auto simp: addTime_def in_i64_def now_ok_def)
qed

text \<open>What is left of the timer at \<open>b\<close> after its run.\<close>

definition rerun :: "int \<Rightarrow> (tactive \<Rightarrow> bool) \<Rightarrow> (addr \<rightharpoonup> 'cb timer) \<Rightarrow> addr \<Rightarrow> 'cb timer option" where
  "rerun now cancelled h b =
     Option.bind (h b) (\<lambda>t. if tm_repeat t \<and> \<not> cancelled (b, tm_sequence t) then tm_restart now t else None)"

lemma held_change:
  assumes "tq_inv (a # held) q" "tm_repeat t = f64_positive (tm_interval t)" "interval_ok (tm_interval t)"
  shows "tq_inv (a # held) (q\<lparr>tq_heap := (tq_heap q)(a \<mapsto> t)\<rparr>)"
proof -
  note I = tq_invD [OF assms(1)]
  have new: "a \<notin> snd ` set (tq_timers q)" using I(2) by auto
  have "active_of (tq_heap q) (set (tq_timers q)) = active_of ((tq_heap q)(a \<mapsto> t)) (set (tq_timers q))"
    using new by (intro active_of_cong) (auto simp: image_iff)
  then show ?thesis
    using I new assms(2,3) unfolding tq_inv_def by auto
qed

lemma held_delete:
  assumes "tq_inv (a # held) q"
  shows "tq_inv held (q\<lparr>tq_heap := (tq_heap q)(a := None)\<rparr>)"
proof -
  note I = tq_invD [OF assms(1)]
  have new: "a \<notin> snd ` set (tq_timers q)" using I(2) by auto
  have "active_of (tq_heap q) (set (tq_timers q)) = active_of ((tq_heap q)(a := None)) (set (tq_timers q))"
    using new by (intro active_of_cong) (auto simp: image_iff)
  then show ?thesis
    using I new unfolding tq_inv_def by auto
qed

lemma reset_step:
  assumes inv: "tq_inv (a # held) q" and now: "now_ok now"
  obtains t q' where "tq_heap q a = Some t"
    "(if tm_repeat t \<and> (a, tm_sequence t) \<notin> tq_canceling q then do {
        t \<leftarrow> tm_restart now t;
        map_option snd (tq_insert a (q\<lparr>tq_heap := (tq_heap q)(a \<mapsto> t)\<rparr>))
      } else tq_delete a q) = Some q'"
    "tq_inv held q'" "tq_canceling q' = tq_canceling q" "tq_calling q' = tq_calling q"
    "tq_armed q' = tq_armed q" "tq_ready q' = tq_ready q"
    "tq_heap q' = (tq_heap q)(a := rerun now (\<lambda>x. x \<in> tq_canceling q) (tq_heap q) a)"
    "set (tq_timers q') = set (tq_timers q) \<union>
       (\<lambda>t. (tm_expiration t, a)) ` set_option (rerun now (\<lambda>x. x \<in> tq_canceling q) (tq_heap q) a)"
    "\<And>t. rerun now (\<lambda>x. x \<in> tq_canceling q) (tq_heap q) a = Some t \<Longrightarrow> now \<le> tm_expiration t"
proof -
  note I = tq_invD [OF inv]
  obtain t where t: "tq_heap q a = Some t" using I(3) by auto
  have tok: "tm_repeat t = f64_positive (tm_interval t)" "interval_ok (tm_interval t)"
    using I(7) t by (auto simp: heap_ok_def)
  show thesis
  proof (cases "tm_repeat t \<and> (a, tm_sequence t) \<notin> tq_canceling q")
    case True
    then obtain x where x: "addTime now (tm_interval t) = Some x" "now \<le> x"
      using addTime_ok tok now by metis
    let ?t = "t\<lparr>tm_expiration := x\<rparr>"
    have re: "rerun now (\<lambda>x. x \<in> tq_canceling q) (tq_heap q) a = Some ?t" "tm_restart now t = Some ?t"
      using t True x by (simp_all add: rerun_def tm_restart_def)
    have "tq_inv (a # held) (q\<lparr>tq_heap := (tq_heap q)(a \<mapsto> ?t)\<rparr>)"
      using held_change [OF inv, of ?t] tok by simp
    from tq_insert_inv [OF this] show thesis
      using that [OF t, of "q\<lparr>tq_heap := (tq_heap q)(a \<mapsto> ?t), tq_timers := insort (x, a) (tq_timers q),
          tq_active := insert (a, tm_sequence t) (tq_active q)\<rparr>"] True re x(2)
      by (auto simp: set_insort_key)
  next
    case False
    then have "rerun now (\<lambda>x. x \<in> tq_canceling q) (tq_heap q) a = None"
      using t by (auto simp: rerun_def)
    then show thesis
      using that [OF t, of "q\<lparr>tq_heap := (tq_heap q)(a := None)\<rparr>"] held_delete [OF inv] False t
      by (simp add: tq_delete_def)
  qed
qed

lemma reset_loop_inv:
  assumes "tq_inv (map snd es) q" "now_ok now"
  shows "\<exists>q'. reset_loop now es q = Some q' \<and> tq_inv [] q' \<and> tq_calling q' = tq_calling q
    \<and> tq_canceling q' = tq_canceling q \<and> tq_armed q' = tq_armed q \<and> tq_ready q' = tq_ready q
    \<and> (\<forall>b. tq_heap q' b = (if b \<in> snd ` set es then rerun now (\<lambda>x. x \<in> tq_canceling q) (tq_heap q) b else tq_heap q b))
    \<and> set (tq_timers q') = set (tq_timers q) \<union>
        {(tm_expiration t, b) |t b. b \<in> snd ` set es \<and> rerun now (\<lambda>x. x \<in> tq_canceling q) (tq_heap q) b = Some t}
    \<and> (\<forall>e \<in> set (tq_timers q'). e \<in> set (tq_timers q) \<or> now \<le> fst e)"
  using assms(1)
proof (induction es arbitrary: q)
  case (Cons e es)
  let ?r = "rerun now (\<lambda>x. x \<in> tq_canceling q) (tq_heap q)"
  have inv: "tq_inv (snd e # map snd es) q" using Cons.prems by simp
  have d: "snd e \<notin> snd ` set es" using tq_invD(2) [OF inv] by auto
  from reset_step [OF inv assms(2)] obtain t q1 where 1: "tq_heap q (snd e) = Some t"
    "(if tm_repeat t \<and> (snd e, tm_sequence t) \<notin> tq_canceling q then do {
        t \<leftarrow> tm_restart now t;
        map_option snd (tq_insert (snd e) (q\<lparr>tq_heap := (tq_heap q)(snd e \<mapsto> t)\<rparr>))
      } else tq_delete (snd e) q) = Some q1"
    "tq_inv (map snd es) q1" "tq_canceling q1 = tq_canceling q" "tq_calling q1 = tq_calling q"
    "tq_armed q1 = tq_armed q" "tq_ready q1 = tq_ready q"
    "tq_heap q1 = (tq_heap q)(snd e := ?r (snd e))"
    "set (tq_timers q1) = set (tq_timers q) \<union> (\<lambda>t. (tm_expiration t, snd e)) ` set_option (?r (snd e))"
    "\<And>t. ?r (snd e) = Some t \<Longrightarrow> now \<le> tm_expiration t"
    by blast
  have same: "rerun now (\<lambda>x. x \<in> tq_canceling q1) (tq_heap q1) b = ?r b" if "b \<in> snd ` set es" for b
    using that d by (cases "b = snd e") (simp_all add: rerun_def 1(4,8))
  obtain q2 where 2: "reset_loop now es q1 = Some q2" "tq_inv [] q2" "tq_calling q2 = tq_calling q1"
    "tq_canceling q2 = tq_canceling q1" "tq_armed q2 = tq_armed q1" "tq_ready q2 = tq_ready q1"
    "\<And>b. tq_heap q2 b = (if b \<in> snd ` set es then rerun now (\<lambda>x. x \<in> tq_canceling q1) (tq_heap q1) b else tq_heap q1 b)"
    "set (tq_timers q2) = set (tq_timers q1) \<union>
        {(tm_expiration t, b) |t b. b \<in> snd ` set es \<and> rerun now (\<lambda>x. x \<in> tq_canceling q1) (tq_heap q1) b = Some t}"
    "\<forall>e \<in> set (tq_timers q2). e \<in> set (tq_timers q1) \<or> now \<le> fst e"
    using Cons.IH [OF 1(3)] by auto
  have "reset_loop now (e # es) q = Some q2"
    using 1(1,2) 2(1) by simp
  moreover have "tq_heap q2 b = (if b \<in> snd ` set (e # es) then ?r b else tq_heap q b)" for b
    using 2(7) [of b] same [of b] d by (auto simp: 1(8))
  moreover have "set (tq_timers q2) = set (tq_timers q) \<union>
        {(tm_expiration t, b) |t b. b \<in> snd ` set (e # es) \<and> ?r b = Some t}"
  proof -
    have "{(tm_expiration t, b) |t b. b \<in> snd ` set es \<and> rerun now (\<lambda>x. x \<in> tq_canceling q1) (tq_heap q1) b = Some t}
        = {(tm_expiration t, b) |t b. b \<in> snd ` set es \<and> ?r b = Some t}"
      by (intro Collect_cong ex_cong1 conj_cong refl) (simp add: same)
    then show ?thesis unfolding 2(8) 1(9) by (auto simp: image_iff)
  qed
  moreover have "\<forall>e \<in> set (tq_timers q2). e \<in> set (tq_timers q) \<or> now \<le> fst e"
    using 2(9) 1(10) by (auto simp: 1(9))
  ultimately show ?case
    using 1(4-7) 2(2-6) by auto
qed (simp)

definition cancels :: "(addr \<Rightarrow> 'cb tq_op list) \<Rightarrow> tentry list \<Rightarrow> tactive \<Rightarrow> bool" where
  "cancels script es x \<longleftrightarrow> (\<exists>e \<in> set es. CancelTimer (fst x) (snd x) \<in> set (script (snd e)))"

lemma first_alive:
  assumes "tq_inv held q" "tq_timers q \<noteq> []"
  shows "\<exists>t. tq_heap q (snd (hd (tq_timers q))) = Some t \<and> tm_expiration t = fst (hd (tq_timers q))"
proof -
  have "hd (tq_timers q) \<in> set (tq_timers q)"
    using assms(2) by simp
  then have "snd (hd (tq_timers q)) \<in> dom (tq_heap q)"
      "tm_expiration (the (tq_heap q (snd (hd (tq_timers q))))) = fst (hd (tq_timers q))"
    using tq_invD(3,5) [OF assms(1)] by auto
  then show ?thesis by auto
qed

definition next_expire :: "'cb tqueue \<Rightarrow> int" where
  "next_expire q = (if tq_timers q = [] then 0 else fst (hd (tq_timers q)))"

lemma tq_reset_eq:
  assumes "reset_loop now es q = Some q'" "tq_inv [] q'"
  shows "tq_reset es now clock q
    = Some (if ts_valid (next_expire q') then resetTimerfd (next_expire q') clock q' else q')"
  using assms first_alive [OF assms(2)] by (auto simp: tq_reset_def next_expire_def)

section \<open>The alarm\<close>

text \<open>
  The time at which an armed descriptor fires, and the promise that a queue with timers is waiting
  for an alarm no later than its first timer (or 100 microseconds after the clock it was armed at).
\<close>

definition alarm_time :: "int \<times> int \<times> int \<Rightarrow> int" where
  "alarm_time x = fst x + fst (snd x) * 1000000 + snd (snd x) div 1000"

lemma alarm_time_from_now: "alarm_time (now, howMuchTimeFromNow w now) = max w (now + 100)"
proof -
  have "m div 1000000 * 1000000 + m mod 1000000 * 1000 div 1000 = m" for m :: int
    by simp
  then show ?thesis
    by (simp add: alarm_time_def howMuchTimeFromNow_def Let_def add.assoc)
qed

definition alarm_by :: "int \<Rightarrow> 'cb tqueue \<Rightarrow> bool" where
  "alarm_by w q \<longleftrightarrow> tq_ready q \<or>
     (case tq_armed q of None \<Rightarrow> False | Some x \<Rightarrow> alarm_time x \<le> max w (fst x + 100))"

definition wakes :: "'cb tqueue \<Rightarrow> bool" where
  "wakes q \<longleftrightarrow> tq_timers q = [] \<or> alarm_by (fst (hd (tq_timers q))) q"

lemma alarm_by_mono: "alarm_by w q \<Longrightarrow> w \<le> w' \<Longrightarrow> alarm_by w' q"
  by (auto simp: alarm_by_def split: option.splits)

lemma alarm_by_reset: "alarm_by w (resetTimerfd w now q)"
  by (simp add: alarm_by_def resetTimerfd_def alarm_time_from_now)

lemma alarm_by_cong: "tq_ready q' = tq_ready q \<Longrightarrow> tq_armed q' = tq_armed q \<Longrightarrow> alarm_by w q' = alarm_by w q"
  by (simp add: alarm_by_def)

lemma sorted_hd_le:
  assumes "sorted es" "e \<in> set es"
  shows "fst (hd es) \<le> fst e"
  using assms by (cases es) (auto simp: less_eq_prod_def split: prod.splits)

lemma wakes_subset:
  assumes "wakes q" "sorted (tq_timers q)" "set (tq_timers q') \<subseteq> set (tq_timers q)"
    "tq_ready q' = tq_ready q" "tq_armed q' = tq_armed q"
  shows "wakes q'"
proof (cases "tq_timers q' = []")
  case False
  then have "hd (tq_timers q') \<in> set (tq_timers q)"
    using assms(3) hd_in_set by blast
  then have "tq_timers q \<noteq> []" "fst (hd (tq_timers q)) \<le> fst (hd (tq_timers q'))"
    using sorted_hd_le [OF assms(2)] by auto
  then show ?thesis
    using assms(1,4,5) alarm_by_mono alarm_by_cong by (metis wakes_def)
qed (simp add: wakes_def)

lemma hd_insort: "es \<noteq> [] \<Longrightarrow> fst (hd (insort (w, a) es)) = min w (fst (hd es))" for w :: int and a :: addr
  by (cases es) (auto simp: less_eq_prod_def min_def split: prod.splits)

lemma do_op_wakes:
  assumes inv: "tq_inv held q" and w: "wakes q" and op: "do_op p q = Some q'"
  shows "wakes q'"
proof (cases p)
  case (NewTimer a cb x interval)
  then show ?thesis
    using op w wakes_subset [OF w tq_invD(1) [OF inv], of q'] by (auto simp: Timer_new_def split: if_splits)
next
  case (InsertTimer a now)
  show ?thesis
  proof (cases "a \<in> set (tq_pending q)")
    case True
    from pending_held [OF inv True] show ?thesis
    proof (rule addTimerInLoop_inv [of _ _ _ now])
      fix t
      let ?q = "q\<lparr>tq_pending := remove1 a (tq_pending q)\<rparr>"
      let ?r = "?q\<lparr>tq_timers := insort (tm_expiration t, a) (tq_timers ?q),
         tq_active := insert (a, tm_sequence t) (tq_active ?q)\<rparr>"
      assume "addTimerInLoop a now ?q = Some (let q' = ?r
         in if tq_timers ?q = [] \<or> tm_expiration t < fst (hd (tq_timers ?q))
            then resetTimerfd (tm_expiration t) now q' else q')"
      then have q': "q' = (if tq_timers q = [] \<or> tm_expiration t < fst (hd (tq_timers q))
            then resetTimerfd (tm_expiration t) now ?r else ?r)"
        using op InsertTimer True by (auto simp: Let_def)
      show "wakes q'"
      proof (cases "tq_timers q = [] \<or> tm_expiration t < fst (hd (tq_timers q))")
        case first: True
        have "fst (hd (insort (tm_expiration t, a) (tq_timers q))) = tm_expiration t"
          using first by (cases "tq_timers q = []") (simp_all add: hd_insort)
        moreover have "tq_timers q' = insort (tm_expiration t, a) (tq_timers q)"
          using first q' by (simp add: resetTimerfd_def)
        moreover have "alarm_by (tm_expiration t) q'"
          using first q' alarm_by_reset by simp
        ultimately show ?thesis by (simp add: wakes_def)
      next
        case False
        then have "fst (hd (insort (tm_expiration t, a) (tq_timers q))) = fst (hd (tq_timers q))"
          by (simp add: hd_insort)
        then show ?thesis
          using w False q' by (simp add: wakes_def alarm_by_def)
      qed
    qed
  qed (use InsertTimer op w in auto)
next
  case (CancelTimer a sq)
  then show ?thesis
    using cancelInLoop_inv [OF inv, of a sq] op w wakes_subset [OF w tq_invD(1) [OF inv]] by auto
qed

lemma do_ops_wakes:
  assumes "tq_inv held q" "wakes q" "list_all op_ok ps" "tq_ops ps q = Some q'"
  shows "wakes q'"
  using assms
proof (induction ps arbitrary: q)
  case (Cons p ps)
  obtain q1 where 1: "do_op p q = Some q1" "tq_inv held q1"
    using do_op_inv [OF Cons.prems(1), of p] Cons.prems(3) by auto
  then show ?case
    using Cons.IH [OF 1(2)] do_op_wakes [OF Cons.prems(1,2) 1(1)] Cons.prems by auto
qed simp

lemma run_expired_wakes:
  assumes "tq_inv held q" "wakes q" "set (map snd es) \<subseteq> set held" "\<forall>a. list_all op_ok (script a)"
    "run_expired script es q = Some (cbs, q')"
  shows "wakes q'"
  using assms(1-3,5)
proof (induction es arbitrary: q cbs)
  case (Cons e es)
  obtain q1 where 1: "tq_ops (script (snd e)) q = Some q1" "tq_inv held q1"
    using do_ops_inv [OF Cons.prems(1) assms(4) [rule_format]] by blast
  have "wakes q1"
    using do_ops_wakes [OF Cons.prems(1,2) assms(4) [rule_format] 1(1)] .
  moreover obtain cbs' where "run_expired script es q1 = Some (cbs', q')"
    using Cons.prems(4) 1(1) by (auto simp: bind_Some_iff)
  ultimately show ?case
    using Cons.IH [OF 1(2)] Cons.prems(3) by auto
qed simp

text \<open>
  The timers that \<open>reset\<close> inserts lie behind \<open>now\<close>, so a first timer that is not valid, for which it
  does not arm the descriptor, was there before.
\<close>

lemma wakes_rearm:
  assumes inv: "tq_inv [] q'" and "sorted (tq_timers q)" "wakes q"
    "\<forall>e \<in> set (tq_timers q'). e \<in> set (tq_timers q) \<or> now \<le> fst e"
    "tq_armed q' = tq_armed q" "tq_ready q' = tq_ready q" and now: "0 < now"
  shows "wakes (if ts_valid (next_expire q') then resetTimerfd (next_expire q') clock q' else q')"
proof (cases "ts_valid (next_expire q')")
  case True
  then have "tq_timers q' \<noteq> []" "next_expire q' = fst (hd (tq_timers q'))"
    by (auto simp: ts_valid_def next_expire_def split: if_splits)
  then show ?thesis
    using True alarm_by_reset [of "next_expire q'" clock q'] by (simp add: wakes_def resetTimerfd_def)
next
  case False
  show ?thesis
  proof (cases "tq_timers q' = []")
    case ne: False
    then have "hd (tq_timers q') \<in> set (tq_timers q)"
      using assms(4) hd_in_set [OF ne] False now by (auto simp: ts_valid_def next_expire_def)
    then have "tq_timers q \<noteq> []" "fst (hd (tq_timers q)) \<le> fst (hd (tq_timers q'))"
      using sorted_hd_le [OF assms(2)] by auto
    then have "wakes q'"
      using assms(3,5,6) alarm_by_mono alarm_by_cong by (metis wakes_def)
    then show ?thesis using False by simp
  qed (use False in \<open>simp add: wakes_def\<close>)
qed

section \<open>A whole run of the queue\<close>

lemma handleInLoop_inv:
  assumes inv: "tq_inv [] q" and now: "now_ok now" and ok: "\<forall>a. list_all op_ok (script a)"
  obtains q' where
    "handleInLoop now script clock q
       = Some (map (\<lambda>e. tm_callback (the (tq_heap q (snd e)))) (due now (tq_timers q)), q')"
    "tq_inv [] q'"
    "\<forall>b \<in> snd ` set (due now (tq_timers q)).
       tq_heap q' b = rerun now (cancels script (due now (tq_timers q))) (tq_heap q) b"
    "\<forall>b \<in> snd ` set (due now (tq_timers q)). \<forall>t. tq_heap q' b = Some t \<longrightarrow>
       (tm_expiration t, b) \<in> set (tq_timers q')"
    "wakes q \<longrightarrow> wakes q'"
proof -
  let ?d = "due now (tq_timers q)"
  let ?q0 = "q\<lparr>tq_timers := filter (\<lambda>e. now < fst e) (tq_timers q),
        tq_active := tq_active q - active_of (tq_heap q) (set ?d)\<rparr>"
  let ?q1 = "?q0\<lparr>tq_calling := True, tq_canceling := {}\<rparr>"
  have i1: "tq_inv (map snd ?d) ?q1"
    using getExpired_inv(2) [OF inv, of now] by (simp add: tq_inv_def)
  from run_expired_inv [OF i1 order_refl ok] obtain q2 where 2:
    "run_expired script ?d ?q1 = Some (map (\<lambda>e. tm_callback (the (tq_heap q (snd e)))) ?d, q2)"
    "tq_inv (map snd ?d) q2" "frame (map snd ?d) ?q1 q2"
    by auto
  have wakes2: "wakes q2" if "wakes q"
  proof -
    have "wakes ?q1"
      using wakes_subset [OF that tq_invD(1) [OF inv], of ?q1] by auto
    from run_expired_wakes [OF i1 this order_refl ok 2(1)] show ?thesis .
  qed
  let ?q3 = "q2\<lparr>tq_calling := False\<rparr>"
  have i3: "tq_inv (map snd ?d) ?q3"
    using 2(2) by (simp add: tq_inv_def)
  from reset_loop_inv [OF i3 now] obtain q4 where 4: "reset_loop now ?d ?q3 = Some q4" "tq_inv [] q4"
    "\<And>b. tq_heap q4 b = (if b \<in> snd ` set ?d then rerun now (\<lambda>x. x \<in> tq_canceling q2) (tq_heap q2) b else tq_heap q2 b)"
    "set (tq_timers q4) = set (tq_timers q2) \<union>
        {(tm_expiration t, b) |t b. b \<in> snd ` set ?d \<and> rerun now (\<lambda>x. x \<in> tq_canceling q2) (tq_heap q2) b = Some t}"
    "\<forall>e \<in> set (tq_timers q4). e \<in> set (tq_timers q2) \<or> now \<le> fst e" "tq_armed q4 = tq_armed q2" "tq_ready q4 = tq_ready q2"
    by auto
  let ?q' = "if ts_valid (next_expire q4) then resetTimerfd (next_expire q4) clock q4 else q4"
  have rerun_eq: "rerun now (\<lambda>x. x \<in> tq_canceling q2) (tq_heap q2) b = rerun now (cancels script ?d) (tq_heap q) b"
    if b: "b \<in> snd ` set ?d" for b
  proof -
    have "(b, sq) \<in> tq_canceling q2 \<longleftrightarrow> cancels script ?d (b, sq)" for sq
      using run_expired_canceling [OF i1 _ _ order_refl ok 2(1), of b sq] b by (simp add: cancels_def)
    moreover have "tq_heap q2 b = tq_heap q b"
      using 2(3) b by (auto simp: frame_def)
    ultimately show ?thesis by (simp add: rerun_def)
  qed
  have "handleInLoop now script clock q = Some (map (\<lambda>e. tm_callback (the (tq_heap q (snd e)))) ?d, ?q')"
    by (simp add: handleInLoop_def getExpired_inv(1) [OF inv] Let_def 2(1) tq_reset_eq [OF 4(1,2)])
  moreover have "tq_inv [] ?q'"
    using 4(2) by (simp add: tq_inv_def resetTimerfd_def)
  moreover have "wakes ?q'" if "wakes q"
    using wakes_rearm [OF 4(2) tq_invD(1) [OF 2(2)] wakes2 [OF that] 4(5-7)] now by (simp add: now_ok_def)
  ultimately show thesis
    using that [of ?q'] 4(3,4) rerun_eq by (auto simp: resetTimerfd_def)
qed

lemma do_event_inv:
  assumes "tq_inv [] q" "tq_event_ok v"
  shows "\<exists>q'. do_event v q = Some q' \<and> tq_inv [] q' \<and> (wakes q \<longrightarrow> wakes q')"
proof (cases v)
  case (OpEvent p)
  then show ?thesis using do_op_inv [OF assms(1), of p] do_op_wakes [OF assms(1), of p] assms(2) by auto
next
  case AlarmEvent
  then show ?thesis using assms(1) by (auto simp: tq_inv_def wakes_def alarm_by_def)
next
  case (PollEvent now script clock)
  then have now: "now_ok now" "\<forall>a. list_all op_ok (script a)" using assms(2) by auto
  show ?thesis
    by (rule handleInLoop_inv [OF assms(1) now, of clock]) (use PollEvent assms(1) in auto)
qed

lemma tq_run_inv:
  assumes "tq_inv [] q" "list_all tq_event_ok vs"
  shows "\<exists>q'. tq_run vs q = Some q' \<and> tq_inv [] q' \<and> (wakes q \<longrightarrow> wakes q')"
  using assms
proof (induction vs arbitrary: q)
  case (Cons v vs)
  then obtain q1 where 1: "do_event v q = Some q1" "tq_inv [] q1" "wakes q \<longrightarrow> wakes q1"
    using do_event_inv [of q v] by auto
  with Cons.IH [OF 1(2)] Cons.prems(2) show ?case by auto
qed simp

section \<open>An idle queue\<close>

lemma run_expired_quiet:
  "set (map snd es) \<subseteq> dom (tq_heap q) \<Longrightarrow>
   run_expired (\<lambda>_. []) es q = Some (map (\<lambda>e. tm_callback (the (tq_heap q (snd e)))) es, q)"
  by (induction es) auto

text \<open>When every timer is due and none repeats, nothing remains, and the descriptor is not touched.\<close>

lemma handle_all_due:
  assumes inv: "tq_inv [] q" and now: "now_ok now" and ready: "tq_ready q"
    and all: "\<forall>e \<in> set (tq_timers q). fst e \<le> now \<and> \<not> tm_repeat (the (tq_heap q (snd e)))"
  obtains cbs q' where "handleInLoop now (\<lambda>_. []) clock q = Some (cbs, q')" "tq_inv [] q'"
    "tq_timers q' = []" "tq_ready q'" "tq_calling q' = False" "tq_canceling q' = {}"
proof -
  let ?d = "due now (tq_timers q)"
  let ?q0 = "q\<lparr>tq_timers := filter (\<lambda>e. now < fst e) (tq_timers q),
        tq_active := tq_active q - active_of (tq_heap q) (set ?d)\<rparr>"
  let ?q3 = "?q0\<lparr>tq_canceling := {}, tq_calling := False\<rparr>"
  have i0: "tq_inv (map snd ?d) ?q0" and i3: "tq_inv (map snd ?d) ?q3"
    using getExpired_inv(2) [OF inv, of now] by (simp_all add: tq_inv_def)
  have "set (map snd ?d) \<subseteq> dom (tq_heap q)"
    using tq_invD(3) [OF i0] by auto
  then have run: "\<exists>cbs. run_expired (\<lambda>_. []) ?d (?q0\<lparr>tq_calling := True, tq_canceling := {}\<rparr>)
      = Some (cbs, ?q0\<lparr>tq_calling := True, tq_canceling := {}\<rparr>)"
    by (subst run_expired_quiet) auto
  have none: "rerun now (\<lambda>x. x \<in> {}) (tq_heap q) b = None" if "b \<in> snd ` set ?d" for b
    using that all by (auto simp: rerun_def due_def split: option.splits bind_splits)
  from reset_loop_inv [OF i3 now] obtain q4 where 4: "reset_loop now ?d ?q3 = Some q4" "tq_inv [] q4"
    "tq_calling q4 = False" "tq_canceling q4 = {}" "tq_ready q4 = tq_ready q"
    "set (tq_timers q4) = set (filter (\<lambda>e. now < fst e) (tq_timers q)) \<union>
      {(tm_expiration t, b) |t b. b \<in> snd ` set ?d \<and> rerun now (\<lambda>x. x \<in> {}) (tq_heap q) b = Some t}"
    by auto
  have "set (tq_timers q4) = {}"
    using all none unfolding 4(6) by (fastforce simp: not_less)
  then have "tq_timers q4 = []" "\<not> ts_valid (next_expire q4)"
    by (simp_all add: next_expire_def ts_valid_def)
  then show thesis
    using that [of _ q4] run 4 ready
    by (auto simp: handleInLoop_def getExpired_inv(1) [OF inv] Let_def tq_reset_eq [OF 4(1,2)])
qed

lemma handle_empty:
  assumes "tq_timers q = []" "tq_calling q = False" "tq_canceling q = {}" "tq_inv [] q"
  shows "handleInLoop now script clock q = Some ([], q)"
proof -
  have "q\<lparr>tq_timers := [], tq_active := tq_active q, tq_calling := False, tq_canceling := {}\<rparr> = q"
    using assms(1-3) by (cases q) simp
  then show ?thesis
    using assms by (simp add: handleInLoop_def getExpired_inv(1) [OF assms(4)] due_def Let_def tq_reset_def ts_valid_def)
qed

end
