(* ===== verification/Event_Loop.thy ===== *)
theory Event_Loop
  imports Adapter_Prelude
begin

text \<open>
  \<open>net/EventLoop.cpp\<close> as a system of threads: the loop thread runs \<open>loop()\<close>, other threads hand it work
  with \<open>queueInLoop\<close> (under the mutex) and wake it through the \<open>eventfd\<close> of \<open>net/EPollPoller.cpp\<close>, and
  any thread calls \<open>quit()\<close>. One step is one access to shared state, so every interleaving is a
  sequence of steps. A functor is a value; what it does to the queue are further steps of the loop
  thread while it runs.
\<close>

section \<open>State\<close>

text \<open>Where the loop thread is; \<open>Calling\<close> carries the functors of \<open>doPendingFunctors\<close> still to run.\<close>

datatype 'f el_pc = BeforeLoop | LoopTest | Polling | Handling | Swapping | Calling "'f list" | Ended

text \<open>
  \<open>el_posting\<close> and \<open>el_quitting\<close> count the threads between their write and their \<open>wakeup()\<close>;
  \<open>el_posted\<close> and \<open>el_ran\<close> record every functor queued and run, in order.
\<close>

record 'f event_loop =
  el_looping :: bool
  el_quit :: bool
  el_calling :: bool
  el_pending :: "'f list"
  el_wakefd :: nat
  el_pc :: "'f el_pc"
  el_posting :: nat
  el_quitting :: nat
  el_posted :: "'f list"
  el_ran :: "'f list"

definition EventLoop_new :: "'f event_loop" where
  "EventLoop_new = \<lparr>el_looping = False, el_quit = False, el_calling = False, el_pending = [],
     el_wakefd = 0, el_pc = BeforeLoop, el_posting = 0, el_quitting = 0, el_posted = [], el_ran = []\<rparr>"

section \<open>Operations\<close>

definition el_wakeup :: "'f event_loop \<Rightarrow> 'f event_loop" where
  "el_wakeup s = s\<lparr>el_wakefd := el_wakefd s + 1\<rparr>"

text \<open>\<open>queueInLoop\<close>: the push under the lock, and the condition under which it wakes the loop.\<close>

definition queue_push :: "'f \<Rightarrow> 'f event_loop \<Rightarrow> 'f event_loop" where
  "queue_push f s = s\<lparr>el_pending := el_pending s @ [f], el_posted := el_posted s @ [f]\<rparr>"

definition queue_wakes :: "bool \<Rightarrow> 'f event_loop \<Rightarrow> bool" where
  "queue_wakes inLoopThread s \<longleftrightarrow> \<not> inLoopThread \<or> el_calling s"

definition queueInLoop_own :: "'f \<Rightarrow> 'f event_loop \<Rightarrow> 'f event_loop" where
  "queueInLoop_own f s = (let s = queue_push f s in if queue_wakes True s then el_wakeup s else s)"

definition loop_enter :: "'f event_loop \<Rightarrow> 'f event_loop option" where
  "loop_enter s =
     (if el_looping s then None else Some (s\<lparr>el_looping := True, el_quit := False, el_pc := LoopTest\<rparr>))"

definition loop_test :: "'f event_loop \<Rightarrow> 'f event_loop" where
  "loop_test s = (if el_quit s then s\<lparr>el_looping := False, el_pc := Ended\<rparr> else s\<lparr>el_pc := Polling\<rparr>)"

text \<open>The read of the \<open>eventfd\<close> in \<open>EPollPoller::handleRead\<close>.\<close>

definition el_handleRead :: "'f event_loop \<Rightarrow> 'f event_loop" where
  "el_handleRead s = s\<lparr>el_wakefd := 0\<rparr>"

definition pending_enter :: "'f event_loop \<Rightarrow> 'f event_loop" where
  "pending_enter s = s\<lparr>el_calling := True, el_pc := Swapping\<rparr>"

definition pending_swap :: "'f event_loop \<Rightarrow> 'f event_loop" where
  "pending_swap s = s\<lparr>el_pending := [], el_pc := Calling (el_pending s)\<rparr>"

definition pending_call :: "'f \<Rightarrow> 'f list \<Rightarrow> 'f event_loop \<Rightarrow> 'f event_loop" where
  "pending_call f fs s = s\<lparr>el_ran := el_ran s @ [f], el_pc := Calling fs\<rparr>"

definition pending_leave :: "'f event_loop \<Rightarrow> 'f event_loop" where
  "pending_leave s = s\<lparr>el_calling := False, el_pc := LoopTest\<rparr>"

section \<open>Steps\<close>

datatype actor = LoopThread | Poster | Quitter

text \<open>
  The loop polls with a timeout, so a poll may return at any time; it reports the \<open>eventfd\<close> only when
  its counter is positive, and a handler reads it then. Handlers and functors queue further functors.
\<close>

inductive el_step :: "actor \<Rightarrow> 'f event_loop \<Rightarrow> 'f event_loop \<Rightarrow> bool" where
  enter: "el_pc s = BeforeLoop \<Longrightarrow> loop_enter s = Some t \<Longrightarrow> el_step LoopThread s t"
| test: "el_pc s = LoopTest \<Longrightarrow> el_step LoopThread s (loop_test s)"
| poll: "el_pc s = Polling \<Longrightarrow> el_step LoopThread s (s\<lparr>el_pc := Handling\<rparr>)"
| poll_wake: "el_pc s = Polling \<Longrightarrow> 0 < el_wakefd s \<Longrightarrow>
    el_step LoopThread s (el_handleRead (s\<lparr>el_pc := Handling\<rparr>))"
| handler_queue: "el_pc s = Handling \<Longrightarrow> el_step LoopThread s (queueInLoop_own f s)"
| handled: "el_pc s = Handling \<Longrightarrow> el_step LoopThread s (pending_enter s)"
| swap: "el_pc s = Swapping \<Longrightarrow> el_step LoopThread s (pending_swap s)"
| call: "el_pc s = Calling (f # fs) \<Longrightarrow> el_step LoopThread s (pending_call f fs s)"
| functor_queue: "el_pc s = Calling fs \<Longrightarrow> el_step LoopThread s (queueInLoop_own f s)"
| leave: "el_pc s = Calling [] \<Longrightarrow> el_step LoopThread s (pending_leave s)"
| own_quit: "el_pc s = Handling \<or> el_pc s = Calling fs \<Longrightarrow> el_step Quitter s (s\<lparr>el_quit := True\<rparr>)"
| post: "el_step Poster s ((queue_push f s)\<lparr>el_posting := el_posting s + 1\<rparr>)"
| post_wake: "0 < el_posting s \<Longrightarrow> queue_wakes False s \<Longrightarrow>
    el_step Poster s ((el_wakeup s)\<lparr>el_posting := el_posting s - 1\<rparr>)"
| quit: "el_step Quitter s (s\<lparr>el_quit := True, el_quitting := el_quitting s + 1\<rparr>)"
| quit_wake: "0 < el_quitting s \<Longrightarrow> el_step Quitter s ((el_wakeup s)\<lparr>el_quitting := el_quitting s - 1\<rparr>)"

inductive el_steps :: "actor set \<Rightarrow> 'f event_loop \<Rightarrow> 'f event_loop \<Rightarrow> bool" for A where
  refl: "el_steps A s s"
| step: "el_steps A s t \<Longrightarrow> a \<in> A \<Longrightarrow> el_step a t u \<Longrightarrow> el_steps A s u"

abbreviation el_reach :: "'f event_loop \<Rightarrow> bool" where
  "el_reach \<equiv> el_steps UNIV EventLoop_new"

lemma el_steps_one: "el_step a s t \<Longrightarrow> a \<in> A \<Longrightarrow> el_steps A s t"
  by (rule el_steps.step [OF el_steps.refl])

lemma el_steps_trans: "el_steps A t u \<Longrightarrow> el_steps A s t \<Longrightarrow> el_steps A s u"
  by (induction rule: el_steps.induct) (auto intro: el_steps.intros)

section \<open>The invariant\<close>

fun batch :: "'f el_pc \<Rightarrow> 'f list" where
  "batch (Calling fs) = fs"
| "batch BeforeLoop = []"
| "batch LoopTest = []"
| "batch Polling = []"
| "batch Handling = []"
| "batch Swapping = []"
| "batch Ended = []"

fun is_calling :: "'f el_pc \<Rightarrow> bool" where
  "is_calling (Calling fs) = True"
| "is_calling pc = False"

definition el_inv :: "'f event_loop \<Rightarrow> bool" where
  "el_inv s \<longleftrightarrow>
     el_posted s = el_ran s @ batch (el_pc s) @ el_pending s
     \<and> el_calling s = (el_pc s = Swapping \<or> is_calling (el_pc s))
     \<and> el_looping s = (el_pc s \<noteq> BeforeLoop \<and> el_pc s \<noteq> Ended)
     \<and> (el_pending s = [] \<or> el_pc s = Handling \<or> el_pc s = Swapping \<or> el_pc s = Ended
         \<or> 0 < el_wakefd s \<or> 0 < el_posting s)
     \<and> (el_quit s \<longrightarrow> el_pc s = Polling \<longrightarrow> 0 < el_wakefd s \<or> 0 < el_quitting s)"

lemmas el_defs = el_wakeup_def queue_push_def queue_wakes_def queueInLoop_own_def loop_enter_def loop_test_def
  el_handleRead_def pending_enter_def pending_swap_def pending_call_def pending_leave_def Let_def

lemma el_inv_new: "el_inv EventLoop_new"
  by (simp add: el_inv_def EventLoop_new_def)

lemma el_step_inv: "el_step a s t \<Longrightarrow> el_inv s \<Longrightarrow> el_inv t"
  by (induction rule: el_step.induct) (auto simp: el_inv_def el_defs split: if_splits)

lemma el_steps_inv: "el_steps A s t \<Longrightarrow> el_inv s \<Longrightarrow> el_inv t"
  by (induction rule: el_steps.induct) (auto intro: el_step_inv)

lemma el_reach_inv: "el_reach s \<Longrightarrow> el_inv s"
  using el_steps_inv el_inv_new by blast

section \<open>Progress\<close>

lemma run_batch:
  "el_pc s = Calling fs \<Longrightarrow> el_steps {LoopThread} s (s\<lparr>el_ran := el_ran s @ fs, el_pc := Calling []\<rparr>)"
proof (induction fs arbitrary: s)
  case Nil
  then have "s\<lparr>el_ran := el_ran s @ [], el_pc := Calling []\<rparr> = s" by simp
  then show ?case using el_steps.refl by metis
next
  case (Cons f fs)
  from Cons.prems have "el_step LoopThread s (pending_call f fs s)"
    by (rule el_step.call)
  then have "el_steps {LoopThread} s (pending_call f fs s)"
    by (rule el_steps_one) simp
  moreover have "el_steps {LoopThread} (pending_call f fs s) (s\<lparr>el_ran := el_ran s @ f # fs, el_pc := Calling []\<rparr>)"
    using Cons.IH [of "pending_call f fs s"] by (simp add: pending_call_def)
  ultimately show ?case by (rule el_steps_trans [rotated])
qed

text \<open>One turn of the loop that finds nothing but the queued functors.\<close>

lemma turn_runs_pending:
  assumes "el_pc s = Polling"
  shows "\<exists>t. el_steps {LoopThread} s t \<and> el_pc t = LoopTest \<and> el_ran t = el_ran s @ el_pending s \<and> el_pending t = []"
proof -
  let ?h = "s\<lparr>el_pc := Handling\<rparr>"
  let ?c = "pending_swap (pending_enter ?h)"
  let ?d = "?c\<lparr>el_ran := el_ran ?c @ el_pending s, el_pc := Calling []\<rparr>"
  have "el_steps {LoopThread} s ?h"
    using el_step.poll [OF assms] by (rule el_steps_one) simp
  then have "el_steps {LoopThread} s (pending_enter ?h)"
    by (rule el_steps.step [OF _ _ el_step.handled]) simp_all
  then have "el_steps {LoopThread} s ?c"
    by (rule el_steps.step [OF _ _ el_step.swap]) (simp_all add: pending_enter_def)
  moreover have "el_steps {LoopThread} ?c ?d"
    by (rule run_batch) (simp add: pending_swap_def pending_enter_def)
  ultimately have "el_steps {LoopThread} s ?d"
    using el_steps_trans by blast
  then have "el_steps {LoopThread} s (pending_leave ?d)"
    by (rule el_steps.step [OF _ _ el_step.leave]) simp_all
  then show ?thesis
    by (intro exI [of _ "pending_leave ?d"]) (simp add: el_defs)
qed

text \<open>Without a call of \<open>quit()\<close> the loop thread does not leave the loop.\<close>

lemma loop_goes_on:
  "el_steps {LoopThread, Poster} s t \<Longrightarrow> \<not> el_quit s \<Longrightarrow> el_pc s \<noteq> Ended \<Longrightarrow> \<not> el_quit t \<and> el_pc t \<noteq> Ended"
proof (induction rule: el_steps.induct)
  case (step s t a u)
  from step.hyps(3,2) step.IH [OF step.prems] show ?case
    by (cases rule: el_step.cases) (auto simp: el_defs split: if_splits)
qed simp

end
