(* ===== verification/Poller.thy ===== *)
theory Poller
  imports Adapter_Prelude
begin

text \<open>
  \<open>net/EPollPoller.cpp\<close> and the registration half of \<open>net/Channel.cpp\<close>: which channels a poller knows,
  what it told the kernel about them, and how it hands reported events back. A failed assertion and
  an \<open>epoll_ctl\<close> whose error is fatal are \<open>None\<close>.
\<close>

section \<open>State\<close>

definition kNew :: int where "kNew = - 1"
definition kAdded :: int where "kAdded = 1"
definition kDeleted :: int where "kDeleted = 2"

type_synonym chan_id = nat

record pchannel =
  pch_fd :: int
  pch_events :: u32
  pch_revents :: u32
  pch_index :: int

text \<open>The channel objects, the map \<open>_channels\<close>, the interest list of the kernel and the size of \<open>_events\<close>.\<close>

record poller =
  po_objects :: "chan_id \<rightharpoonup> pchannel"
  po_channels :: "int \<rightharpoonup> chan_id"
  po_epoll :: "int \<rightharpoonup> u32 \<times> chan_id"
  po_evsize :: nat

definition EPollPoller_new :: poller where
  "EPollPoller_new = \<lparr>po_objects = Map.empty, po_channels = Map.empty, po_epoll = Map.empty, po_evsize = 16\<rparr>"

definition check :: "bool \<Rightarrow> unit option" where
  "check b = (if b then Some () else None)"

section \<open>Registration\<close>

datatype ctl_op = CtlAdd | CtlMod | CtlDel

text \<open>
  \<open>EPollPoller::update\<close>: adding a descriptor twice and modifying an absent one are errors that abort,
  deleting an absent one is only logged.
\<close>

definition epoll_update :: "ctl_op \<Rightarrow> chan_id \<Rightarrow> pchannel \<Rightarrow> poller \<Rightarrow> poller option" where
  "epoll_update operation c ch p =
     (case operation of
        CtlAdd \<Rightarrow> if po_epoll p (pch_fd ch) \<noteq> None then None
                  else Some (p\<lparr>po_epoll := (po_epoll p)(pch_fd ch \<mapsto> (pch_events ch, c))\<rparr>)
      | CtlMod \<Rightarrow> if po_epoll p (pch_fd ch) = None then None
                  else Some (p\<lparr>po_epoll := (po_epoll p)(pch_fd ch \<mapsto> (pch_events ch, c))\<rparr>)
      | CtlDel \<Rightarrow> Some (p\<lparr>po_epoll := (po_epoll p)(pch_fd ch := None)\<rparr>))"

definition set_object :: "chan_id \<Rightarrow> pchannel \<Rightarrow> poller \<Rightarrow> poller" where
  "set_object c ch p = p\<lparr>po_objects := (po_objects p)(c \<mapsto> ch)\<rparr>"

definition updateChannel :: "chan_id \<Rightarrow> poller \<Rightarrow> poller option" where
  "updateChannel c p = do {
     ch \<leftarrow> po_objects p c;
     if pch_index ch = kNew \<or> pch_index ch = kDeleted then do {
       p \<leftarrow> (if pch_index ch = kNew then do {
                check (po_channels p (pch_fd ch) = None);
                Some (p\<lparr>po_channels := (po_channels p)(pch_fd ch \<mapsto> c)\<rparr>)
              }
              else do {
                check (po_channels p (pch_fd ch) = Some c);
                Some p
              });
       epoll_update CtlAdd c ch (set_object c (ch\<lparr>pch_index := kAdded\<rparr>) p)
     }
     else do {
       check (po_channels p (pch_fd ch) = Some c);
       check (pch_index ch = kAdded);
       if pch_events ch = 0 then do {
         p \<leftarrow> epoll_update CtlDel c ch p;
         Some (set_object c (ch\<lparr>pch_index := kDeleted\<rparr>) p)
       }
       else epoll_update CtlMod c ch p
     }
   }"

definition removeChannel :: "chan_id \<Rightarrow> poller \<Rightarrow> poller option" where
  "removeChannel c p = do {
     ch \<leftarrow> po_objects p c;
     check (po_channels p (pch_fd ch) = Some c);
     check (pch_events ch = 0);
     check (pch_index ch = kAdded \<or> pch_index ch = kDeleted);
     let p = p\<lparr>po_channels := (po_channels p)(pch_fd ch := None)\<rparr>;
     p \<leftarrow> (if pch_index ch = kAdded then epoll_update CtlDel c ch p else Some p);
     Some (set_object c (ch\<lparr>pch_index := kNew\<rparr>) p)
   }"

definition hasChannel :: "chan_id \<Rightarrow> poller \<Rightarrow> bool" where
  "hasChannel c p = (case po_objects p c of None \<Rightarrow> False | Some ch \<Rightarrow> po_channels p (pch_fd ch) = Some c)"

text \<open>\<open>Channel::enableReading\<close> and its siblings: new interest bits, then \<open>update()\<close>.\<close>

definition channel_set :: "chan_id \<Rightarrow> u32 \<Rightarrow> poller \<Rightarrow> poller option" where
  "channel_set c ev p =
     Option.bind (po_objects p c) (\<lambda>ch. updateChannel c (set_object c (ch\<lparr>pch_events := ev\<rparr>) p))"

definition channel_make :: "chan_id \<Rightarrow> int \<Rightarrow> poller \<Rightarrow> poller" where
  "channel_make c fd p = set_object c \<lparr>pch_fd = fd, pch_events = 0, pch_revents = 0, pch_index = kNew\<rparr> p"

section \<open>Dispatch\<close>

text \<open>\<open>fillActiveChannels\<close> on the pairs of returned events and channel pointers.\<close>

fun fillActiveChannels :: "(u32 \<times> chan_id) list \<Rightarrow> poller \<Rightarrow> (chan_id list \<times> poller) option" where
  "fillActiveChannels [] p = Some ([], p)"
| "fillActiveChannels ((revents, c) # evs) p = do {
     ch \<leftarrow> po_objects p c;
     check (po_channels p (pch_fd ch) = Some c);
     (active, p) \<leftarrow> fillActiveChannels evs (set_object c (ch\<lparr>pch_revents := revents\<rparr>) p);
     Some (c # active, p)
   }"

definition epoll_poll :: "(u32 \<times> chan_id) list \<Rightarrow> poller \<Rightarrow> (chan_id list \<times> poller) option" where
  "epoll_poll evs p =
     (if evs = [] then Some ([], p)
      else do {
        check (length evs \<le> po_evsize p);
        (active, p) \<leftarrow> fillActiveChannels evs p;
        Some (active, if length evs = po_evsize p then p\<lparr>po_evsize := po_evsize p * 2\<rparr> else p)
      })"

section \<open>Steps\<close>

datatype po_op = MakeChannel chan_id int | SetEvents chan_id u32 | RemoveChannel chan_id | Poll "(u32 \<times> chan_id) list"

fun po_do :: "po_op \<Rightarrow> poller \<Rightarrow> poller option" where
  "po_do (MakeChannel c fd) p = Some (channel_make c fd p)"
| "po_do (SetEvents c ev) p = channel_set c ev p"
| "po_do (RemoveChannel c) p = removeChannel c p"
| "po_do (Poll evs) p = map_option snd (epoll_poll evs p)"

text \<open>
  What the callers and the kernel keep to: a channel is a new object, a descriptor belongs to one
  registered channel at a time, a channel is removed once it is registered and idle, and the kernel
  reports descriptors on its interest list, at most as many as the buffer holds.
\<close>

fun po_allowed :: "po_op \<Rightarrow> poller \<Rightarrow> bool" where
  "po_allowed (MakeChannel c fd) p \<longleftrightarrow> po_objects p c = None"
| "po_allowed (SetEvents c ev) p \<longleftrightarrow>
     (case po_objects p c of None \<Rightarrow> False | Some ch \<Rightarrow> po_channels p (pch_fd ch) = None \<or> po_channels p (pch_fd ch) = Some c)"
| "po_allowed (RemoveChannel c) p \<longleftrightarrow>
     (case po_objects p c of None \<Rightarrow> False | Some ch \<Rightarrow> pch_index ch \<noteq> kNew \<and> pch_events ch = 0)"
| "po_allowed (Poll evs) p \<longleftrightarrow>
     length evs \<le> po_evsize p \<and> list_all (\<lambda>e. \<exists>x \<in> ran (po_epoll p). snd x = snd e) evs"

inductive po_reach :: "poller \<Rightarrow> bool" where
  init: "po_reach EPollPoller_new"
| step: "po_reach p \<Longrightarrow> po_allowed x p \<Longrightarrow> po_do x p = Some q \<Longrightarrow> po_reach q"

section \<open>The invariant\<close>

definition po_inv :: "poller \<Rightarrow> bool" where
  "po_inv p \<longleftrightarrow>
     (\<forall>c ch. po_objects p c = Some ch \<longrightarrow>
        (pch_index ch = kNew \<and> po_channels p (pch_fd ch) \<noteq> Some c)
        \<or> (pch_index ch = kAdded \<and> po_channels p (pch_fd ch) = Some c \<and> po_epoll p (pch_fd ch) = Some (pch_events ch, c))
        \<or> (pch_index ch = kDeleted \<and> po_channels p (pch_fd ch) = Some c \<and> po_epoll p (pch_fd ch) = None))
     \<and> (\<forall>fd c. po_channels p fd = Some c \<longrightarrow> (\<exists>ch. po_objects p c = Some ch \<and> pch_fd ch = fd \<and> pch_index ch \<noteq> kNew))
     \<and> (\<forall>fd. po_channels p fd = None \<longrightarrow> po_epoll p fd = None)"

lemmas po_defs = updateChannel_def removeChannel_def channel_set_def channel_make_def epoll_update_def
  set_object_def check_def kNew_def kAdded_def kDeleted_def Let_def

lemma po_inv_new: "po_inv EPollPoller_new"
  by (simp add: po_inv_def EPollPoller_new_def)

lemma po_invD:
  assumes "po_inv p" "po_objects p c = Some ch"
  obtains (new) "pch_index ch = kNew" "po_channels p (pch_fd ch) \<noteq> Some c"
  | (added) "pch_index ch = kAdded" "po_channels p (pch_fd ch) = Some c" "po_epoll p (pch_fd ch) = Some (pch_events ch, c)"
  | (deleted) "pch_index ch = kDeleted" "po_channels p (pch_fd ch) = Some c" "po_epoll p (pch_fd ch) = None"
  using assms(1) [unfolded po_inv_def, THEN conjunct1, rule_format, OF assms(2)] by (elim disjE conjE)

lemma po_inv_chan:
  assumes "po_inv p" "po_channels p fd = Some c"
  obtains ch where "po_objects p c = Some ch" "pch_fd ch = fd" "pch_index ch \<noteq> kNew"
  using assms unfolding po_inv_def by blast

lemma po_inv_none: "po_inv p \<Longrightarrow> po_channels p fd = None \<Longrightarrow> po_epoll p fd = None"
  unfolding po_inv_def by blast

text \<open>The three consistent records of a descriptor, and that replacing one by another keeps the rest.\<close>

definition record_ok :: "chan_id \<Rightarrow> pchannel \<Rightarrow> chan_id option \<Rightarrow> (u32 \<times> chan_id) option \<Rightarrow> bool" where
  "record_ok c ch x y \<longleftrightarrow>
     (pch_index ch = kNew \<and> x = None \<and> y = None)
     \<or> (pch_index ch = kAdded \<and> x = Some c \<and> y = Some (pch_events ch, c))
     \<or> (pch_index ch = kDeleted \<and> x = Some c \<and> y = None)"

lemma po_inv_replace:
  assumes inv: "po_inv p" and ch: "po_objects p c = Some ch" "pch_fd ch' = pch_fd ch"
    and own: "po_channels p (pch_fd ch) = None \<or> po_channels p (pch_fd ch) = Some c"
    and ok: "record_ok c ch' x y"
    and q: "po_objects q = (po_objects p)(c \<mapsto> ch')" "po_channels q = (po_channels p)(pch_fd ch := x)"
      "po_epoll q = (po_epoll p)(pch_fd ch := y)"
  shows "po_inv q"
proof -
  have other: "(pch_index d = kNew \<and> po_channels q (pch_fd d) \<noteq> Some e)
        \<or> (pch_index d = kAdded \<and> po_channels q (pch_fd d) = Some e \<and> po_epoll q (pch_fd d) = Some (pch_events d, e))
        \<or> (pch_index d = kDeleted \<and> po_channels q (pch_fd d) = Some e \<and> po_epoll q (pch_fd d) = None)"
    if "po_objects q e = Some d" for e d
  proof (cases "e = c")
    case True
    then show ?thesis using that ch ok q by (auto simp: record_ok_def)
  next
    case False
    then have d: "po_objects p e = Some d" using that q by simp
    show ?thesis
    proof (cases "pch_fd d = pch_fd ch")
      case True
      from inv d have "pch_index d = kNew"
        by (cases rule: po_invD) (use True own False in auto)
      then show ?thesis using True ok False q by (auto simp: record_ok_def)
    next
      case fd: False
      from inv d show ?thesis by (cases rule: po_invD) (use fd q in auto)
    qed
  qed
  have "\<exists>d. po_objects q e = Some d \<and> pch_fd d = fd \<and> pch_index d \<noteq> kNew" if "po_channels q fd = Some e" for fd e
  proof (cases "fd = pch_fd ch")
    case True
    then show ?thesis using that ok ch q by (auto simp: record_ok_def kNew_def kAdded_def kDeleted_def)
  next
    case False
    then have "po_channels p fd = Some e" using that q by simp
    from po_inv_chan [OF inv this] obtain d
      where "po_objects p e = Some d" "pch_fd d = fd" "pch_index d \<noteq> kNew" .
    then show ?thesis using False ch q by auto
  qed
  moreover have "po_epoll q fd = None" if "po_channels q fd = None" for fd
    using that po_inv_none [OF inv] ok q by (auto simp: record_ok_def split: if_splits)
  ultimately show ?thesis
    using other unfolding po_inv_def by blast
qed

lemma po_inv_cong:
  "po_objects q = po_objects p \<Longrightarrow> po_channels q = po_channels p \<Longrightarrow> po_epoll q = po_epoll p \<Longrightarrow> po_inv p \<Longrightarrow> po_inv q"
  by (simp add: po_inv_def)

lemma index_distinct [simp]:
  "kNew \<noteq> kAdded" "kNew \<noteq> kDeleted" "kAdded \<noteq> kDeleted" "kAdded \<noteq> kNew" "kDeleted \<noteq> kNew" "kDeleted \<noteq> kAdded"
  by (simp_all add: kNew_def kAdded_def kDeleted_def)

lemma check_simps [simp]: "check True = Some ()" "check False = None"
  by (simp_all add: check_def)

lemma channel_set_inv:
  assumes inv: "po_inv p" and ch: "po_objects p c = Some ch"
    and own: "po_channels p (pch_fd ch) = None \<or> po_channels p (pch_fd ch) = Some c"
  shows "\<exists>q. channel_set c ev p = Some q \<and> po_inv q \<and> po_evsize q = po_evsize p"
  using inv ch
proof (cases rule: po_invD)
  case new
  let ?ch = "ch\<lparr>pch_events := ev, pch_index := kAdded\<rparr>"
  have none: "po_channels p (pch_fd ch) = None" using new own by simp
  then have "po_epoll p (pch_fd ch) = None" using po_inv_none [OF inv] by simp
  then show ?thesis
    using new none ch
    by (auto simp: channel_set_def updateChannel_def epoll_update_def set_object_def record_ok_def
        intro: po_inv_replace [OF inv ch _ own, of ?ch "Some c" "Some (ev, c)"])
next
  case added
  let ?ch = "ch\<lparr>pch_events := ev, pch_index := kDeleted\<rparr>" and ?ch' = "ch\<lparr>pch_events := ev\<rparr>"
  have upd: "(po_channels p)(pch_fd ch \<mapsto> c) = po_channels p"
    using added by (simp add: fun_upd_idem)
  show ?thesis
    using added ch
    by (auto simp: channel_set_def updateChannel_def epoll_update_def set_object_def record_ok_def upd
        intro: po_inv_replace [OF inv ch _ own, of ?ch "Some c" None]
          po_inv_replace [OF inv ch _ own, of ?ch' "Some c" "Some (ev, c)"])
next
  case deleted
  let ?ch = "ch\<lparr>pch_events := ev, pch_index := kAdded\<rparr>"
  have upd: "(po_channels p)(pch_fd ch \<mapsto> c) = po_channels p"
    using deleted by (simp add: fun_upd_idem)
  show ?thesis
    using deleted ch
    by (auto simp: channel_set_def updateChannel_def epoll_update_def set_object_def record_ok_def upd
        intro: po_inv_replace [OF inv ch _ own, of ?ch "Some c" "Some (ev, c)"])
qed

lemma removeChannel_inv:
  assumes inv: "po_inv p" and ch: "po_objects p c = Some ch" and "pch_index ch \<noteq> kNew" "pch_events ch = 0"
  shows "\<exists>q. removeChannel c p = Some q \<and> po_inv q \<and> po_evsize q = po_evsize p"
  using inv ch
proof (cases rule: po_invD)
  case added
  let ?ch = "ch\<lparr>pch_index := kNew\<rparr>"
  show ?thesis
    using added ch assms(4)
    by (auto simp: removeChannel_def epoll_update_def set_object_def record_ok_def
        intro: po_inv_replace [OF inv ch, of ?ch None None])
next
  case deleted
  let ?ch = "ch\<lparr>pch_index := kNew\<rparr>"
  have upd: "(po_epoll p)(pch_fd ch := None) = po_epoll p"
    using deleted by (simp add: fun_upd_idem)
  show ?thesis
    using deleted ch assms(4)
    by (auto simp: removeChannel_def epoll_update_def set_object_def record_ok_def upd
        intro: po_inv_replace [OF inv ch, of ?ch None None])
qed (use assms in simp)

lemma channel_make_inv:
  assumes "po_inv p" "po_objects p c = None"
  shows "po_inv (channel_make c fd p)"
proof -
  have "po_channels p x \<noteq> Some c" for x
  proof
    assume "po_channels p x = Some c"
    from po_inv_chan [OF assms(1) this] show False using assms(2) by auto
  qed
  then show ?thesis
    using assms unfolding po_inv_def by (auto simp: channel_make_def set_object_def)
qed

text \<open>A channel on the interest list is registered, and stays so while others get their events.\<close>

lemma epoll_registered:
  assumes "po_inv p" "po_epoll p fd = Some (ev, c)"
  shows "\<exists>ch. po_objects p c = Some ch \<and> pch_fd ch = fd \<and> po_channels p fd = Some c \<and> ev = pch_events ch"
proof -
  obtain c' where c': "po_channels p fd = Some c'"
    using assms po_inv_none by (cases "po_channels p fd") fastforce+
  from po_inv_chan [OF assms(1) c'] obtain ch
    where ch: "po_objects p c' = Some ch" "pch_fd ch = fd" "pch_index ch \<noteq> kNew" .
  from assms(1) ch(1) have "po_epoll p fd = Some (pch_events ch, c')"
    by (cases rule: po_invD) (use ch(2,3) assms(2) in auto)
  then show ?thesis using assms(2) c' ch by auto
qed

lemma fillActiveChannels_inv:
  assumes "po_inv p" "list_all (\<lambda>e. \<exists>x \<in> ran (po_epoll p). snd x = snd e) evs"
  shows "\<exists>q. fillActiveChannels evs p = Some (map snd evs, q) \<and> po_inv q \<and> po_evsize q = po_evsize p
    \<and> po_epoll q = po_epoll p"
  using assms
proof (induction evs arbitrary: p)
  case (Cons e evs)
  obtain rev c where e: "e = (rev, c)" by (cases e)
  then obtain fd ev where "po_epoll p fd = Some (ev, c)"
    using Cons.prems(2) by (auto simp: ran_def)
  from epoll_registered [OF Cons.prems(1) this] obtain ch where ch: "po_objects p c = Some ch"
      "po_channels p (pch_fd ch) = Some c" by auto
  let ?p = "set_object c (ch\<lparr>pch_revents := rev\<rparr>) p"
  have i: "po_inv ?p"
  proof (rule po_inv_replace [OF Cons.prems(1) ch(1)])
    from Cons.prems(1) ch(1) show "record_ok c (ch\<lparr>pch_revents := rev\<rparr>) (Some c) (po_epoll p (pch_fd ch))"
      by (cases rule: po_invD) (use ch(2) in \<open>simp_all add: record_ok_def\<close>)
  qed (use ch(2) in \<open>simp_all add: set_object_def fun_upd_idem\<close>)
  have "list_all (\<lambda>e. \<exists>x \<in> ran (po_epoll ?p). snd x = snd e) evs"
    using Cons.prems(2) by (simp add: set_object_def)
  from Cons.IH [OF i this] show ?case
    using e ch by (auto simp: set_object_def)
qed simp

lemma epoll_poll_inv:
  assumes "po_inv p" "po_allowed (Poll evs) p"
  shows "\<exists>q. epoll_poll evs p = Some (map snd evs, q) \<and> po_inv q \<and> po_epoll q = po_epoll p"
proof (cases "evs = []")
  case False
  obtain q where q: "fillActiveChannels evs p = Some (map snd evs, q)" "po_inv q" "po_epoll q = po_epoll p"
    using fillActiveChannels_inv [OF assms(1), of evs] assms(2) by auto
  have "po_inv (q\<lparr>po_evsize := n\<rparr>)" for n
    by (rule po_inv_cong [OF _ _ _ q(2)]) simp_all
  then show ?thesis
    using False q assms(2) by (simp add: epoll_poll_def)
qed (use assms in \<open>simp add: epoll_poll_def\<close>)

lemma po_do_inv:
  assumes "po_inv p" "po_allowed x p"
  shows "\<exists>q. po_do x p = Some q \<and> po_inv q"
proof (cases x)
  case (MakeChannel c fd)
  then show ?thesis using channel_make_inv [of p c fd] assms by simp
next
  case (SetEvents c ev)
  then obtain ch where "po_objects p c = Some ch"
      "po_channels p (pch_fd ch) = None \<or> po_channels p (pch_fd ch) = Some c"
    using assms(2) by (auto split: option.splits)
  from channel_set_inv [OF assms(1) this, of ev] show ?thesis using SetEvents by auto
next
  case (RemoveChannel c)
  then obtain ch where "po_objects p c = Some ch" "pch_index ch \<noteq> kNew" "pch_events ch = 0"
    using assms(2) by (auto split: option.splits)
  from removeChannel_inv [OF assms(1) this] show ?thesis using RemoveChannel by auto
next
  case (Poll evs)
  then show ?thesis using epoll_poll_inv [of p evs] assms by auto
qed

lemma po_reach_inv: "po_reach p \<Longrightarrow> po_inv p"
  by (induction rule: po_reach.induct) (use po_do_inv po_inv_new in force)+

end
