(* ===== verification/Tcp_Server.thy ===== *)
theory Tcp_Server
  imports Double_Print
begin

text \<open>
  \<open>net/TcpServer.cpp\<close> and \<open>net/EventLoopThreadPool.cpp\<close>: how accepted connections are named, spread over
  the I/O loops, established, closed and destroyed. The threads of a server are its base loop (number 0)
  and the loops of its pool; a call that is handed to another thread waits in the queue of that thread's
  loop, which is served in order. A failed assertion is \<open>None\<close>.
\<close>

section \<open>The thread pool\<close>

record thread_pool =
  tp_name :: string
  tp_started :: bool
  tp_numThreads :: nat
  tp_next :: nat
  tp_loops :: "nat list"
  tp_threadNames :: "string list"

definition EventLoopThreadPool_new :: "string \<Rightarrow> thread_pool" where
  "EventLoopThreadPool_new nameArg =
     \<lparr>tp_name = nameArg, tp_started = False, tp_numThreads = 0, tp_next = 0, tp_loops = [], tp_threadNames = []\<rparr>"

text \<open>\<open>snprintf(buf, sizeof buf, ...)\<close>, where \<open>buf\<close> is a pointer of eight bytes: seven characters are kept.\<close>

definition thread_name :: "string \<Rightarrow> nat \<Rightarrow> string" where
  "thread_name name i = take 7 (name @ to_string i)"

definition pool_start :: "thread_pool \<Rightarrow> thread_pool option" where
  "pool_start p =
     (if tp_started p then None
      else Some (p\<lparr>tp_started := True, tp_loops := tp_loops p @ map Suc [0..<tp_numThreads p],
        tp_threadNames := tp_threadNames p @ map (thread_name (tp_name p)) [0..<tp_numThreads p]\<rparr>))"

definition getNextLoop :: "thread_pool \<Rightarrow> (nat \<times> thread_pool) option" where
  "getNextLoop p =
     (if \<not> tp_started p then None
      else if tp_loops p = [] then Some (0, p)
      else if length (tp_loops p) \<le> tp_next p then None
      else Some (tp_loops p ! tp_next p,
             p\<lparr>tp_next := if length (tp_loops p) \<le> tp_next p + 1 then 0 else tp_next p + 1\<rparr>))"

definition getLoopForHash :: "nat \<Rightarrow> thread_pool \<Rightarrow> nat" where
  "getLoopForHash hashCode p =
     (if tp_loops p = [] then 0 else tp_loops p ! (hashCode mod length (tp_loops p)))"

definition getAllLoops :: "thread_pool \<Rightarrow> nat list option" where
  "getAllLoops p =
     (if \<not> tp_started p then None else Some (if tp_loops p = [] then [0] else tp_loops p))"

section \<open>The server\<close>

text \<open>
  The life of a connection: its \<open>connectEstablished\<close> is queued, it is established, its close callback ran
  and \<open>removeConnectionInLoop\<close> is queued, it is erased and \<open>connectDestroyed\<close> is queued, it is destroyed.
\<close>

datatype conn_life = Accepted | Established | Closed | Removed | Destroyed

record server_conn =
  cn_name :: string
  cn_loop :: nat
  cn_life :: conn_life

datatype io_task = EstablishTask nat | DestroyTask nat

text \<open>Connections are numbered in the order of their creation; \<open>ts_conns\<close> are all that ever were.\<close>

record tcp_server =
  ts_name :: string
  ts_ipPort :: string
  ts_pool :: thread_pool
  ts_started :: bool
  ts_nextConnId :: u64
  ts_connections :: "string \<rightharpoonup> nat"
  ts_conns :: "server_conn list"
  ts_base :: "nat list"
  ts_io :: "nat \<Rightarrow> io_task list"

definition TcpServer_new :: "string \<Rightarrow> string \<Rightarrow> tcp_server" where
  "TcpServer_new name ipPort =
     \<lparr>ts_name = name, ts_ipPort = ipPort, ts_pool = EventLoopThreadPool_new name, ts_started = False,
      ts_nextConnId = 1, ts_connections = Map.empty, ts_conns = [], ts_base = [], ts_io = (\<lambda>k. [])\<rparr>"

definition setThreadNum :: "nat \<Rightarrow> tcp_server \<Rightarrow> tcp_server" where
  "setThreadNum numThreads s = s\<lparr>ts_pool := (ts_pool s)\<lparr>tp_numThreads := numThreads\<rparr>\<rparr>"

definition server_start :: "tcp_server \<Rightarrow> tcp_server option" where
  "server_start s =
     (if ts_started s then Some s
      else map_option (\<lambda>p. s\<lparr>ts_started := True, ts_pool := p\<rparr>) (pool_start (ts_pool s)))"

definition set_life :: "nat \<Rightarrow> conn_life \<Rightarrow> tcp_server \<Rightarrow> tcp_server" where
  "set_life c l s = s\<lparr>ts_conns := (ts_conns s)[c := (ts_conns s ! c)\<lparr>cn_life := l\<rparr>]\<rparr>"

text \<open>\<open>connectEstablished\<close> asserts that the connection was not established before.\<close>

definition establish :: "nat \<Rightarrow> tcp_server \<Rightarrow> tcp_server option" where
  "establish c s = (if cn_life (ts_conns s ! c) = Accepted then Some (set_life c Established s) else None)"

definition queue_io :: "nat \<Rightarrow> io_task \<Rightarrow> tcp_server \<Rightarrow> tcp_server" where
  "queue_io k t s = s\<lparr>ts_io := (ts_io s)(k := ts_io s k @ [t])\<rparr>"

definition conn_name :: "string \<Rightarrow> string \<Rightarrow> u64 \<Rightarrow> string" where
  "conn_name name ipPort connId = name @ take 63 (''-'' @ ipPort @ ''#'' @ to_string_int (sint connId))"

text \<open>
  \<open>newConnection\<close> in the base loop. The last call runs at once when the connection's loop is the base
  loop, and is queued otherwise.
\<close>

definition newConnection :: "tcp_server \<Rightarrow> tcp_server option" where
  "newConnection s = do {
     (ioLoop, pool) \<leftarrow> getNextLoop (ts_pool s);
     let connName = conn_name (ts_name s) (ts_ipPort s) (ts_nextConnId s);
     let c = length (ts_conns s);
     let s = s\<lparr>ts_pool := pool, ts_nextConnId := ts_nextConnId s + 1,
       ts_conns := ts_conns s @ [\<lparr>cn_name = connName, cn_loop = ioLoop, cn_life = Accepted\<rparr>],
       ts_connections := (ts_connections s)(connName \<mapsto> c)\<rparr>;
     if ioLoop = 0 then establish c s else Some (queue_io ioLoop (EstablishTask c) s)
   }"

definition removeConnectionInLoop :: "nat \<Rightarrow> tcp_server \<Rightarrow> tcp_server option" where
  "removeConnectionInLoop c s =
     (let conn = ts_conns s ! c
      in if ts_connections s (cn_name conn) = None then None
         else Some (queue_io (cn_loop conn) (DestroyTask c)
           (set_life c Removed (s\<lparr>ts_connections := (ts_connections s)(cn_name conn := None)\<rparr>))))"

text \<open>The close callback, which an established connection calls once, in its own loop.\<close>

definition removeConnection :: "nat \<Rightarrow> tcp_server \<Rightarrow> tcp_server option" where
  "removeConnection c s =
     (let s = set_life c Closed s
      in if cn_loop (ts_conns s ! c) = 0 then removeConnectionInLoop c s
         else Some (s\<lparr>ts_base := ts_base s @ [c]\<rparr>))"

fun run_task :: "io_task \<Rightarrow> tcp_server \<Rightarrow> tcp_server option" where
  "run_task (EstablishTask c) s = establish c s"
| "run_task (DestroyTask c) s = Some (set_life c Destroyed s)"

text \<open>
  What happens around a started server, in any order: the acceptor reports a connection, an established
  connection closes, a loop runs the call at the front of its queue.
\<close>

datatype server_event = AcceptEvent | CloseEvent nat | IoTurn nat | BaseTurn

fun server_do :: "server_event \<Rightarrow> tcp_server \<Rightarrow> tcp_server option" where
  "server_do AcceptEvent s = newConnection s"
| "server_do (CloseEvent c) s =
     (if c < length (ts_conns s) \<and> cn_life (ts_conns s ! c) = Established then removeConnection c s else Some s)"
| "server_do (IoTurn k) s =
     (case ts_io s k of [] \<Rightarrow> Some s | t # ts \<Rightarrow> run_task t (s\<lparr>ts_io := (ts_io s)(k := ts)\<rparr>))"
| "server_do BaseTurn s =
     (case ts_base s of [] \<Rightarrow> Some s | c # cs \<Rightarrow> removeConnectionInLoop c (s\<lparr>ts_base := cs\<rparr>))"

fun server_run :: "server_event list \<Rightarrow> tcp_server \<Rightarrow> tcp_server option" where
  "server_run [] s = Some s"
| "server_run (v # vs) s = Option.bind (server_do v s) (server_run vs)"

section \<open>Names\<close>

lemma conn_name_eq:
  assumes "length ipPort \<le> 42" "i < 2 ^ 63"
  shows "conn_name name ipPort (of_nat i) = name @ ''-'' @ ipPort @ ''#'' @ to_string i"
proof -
  have "length (to_string i) \<le> 19"
  proof (cases "i = 0")
    case False
    then show ?thesis using assms(2) by (intro length_to_string) simp_all
  qed (simp add: to_string.simps)
  moreover have "sint (of_nat i :: u64) = int i"
    using assms(2) by (simp add: signed_of_nat signed_take_bit_int_eq_self)
  ultimately show ?thesis
    using assms(1) by (simp add: conn_name_def to_string_int_def)
qed

lemma conn_name_inject:
  assumes "length ipPort \<le> 42" "i < 2 ^ 63" "j < 2 ^ 63"
  shows "conn_name name ipPort (of_nat i) = conn_name name ipPort (of_nat j) \<longleftrightarrow> i = j"
  using assms by (simp add: conn_name_eq)

section \<open>The invariant\<close>

text \<open>Where the connections of a server with \<open>n\<close> threads are: their names, loops, entries and queued calls.\<close>

definition home :: "nat \<Rightarrow> nat \<Rightarrow> nat" where
  "home n c = (if n = 0 then 0 else Suc (c mod n))"

definition in_map :: "conn_life \<Rightarrow> bool" where
  "in_map l \<longleftrightarrow> l = Accepted \<or> l = Established \<or> l = Closed"

definition pool_inv :: "nat \<Rightarrow> nat \<Rightarrow> thread_pool \<Rightarrow> bool" where
  "pool_inv n m p \<longleftrightarrow> tp_started p \<and> tp_loops p = map Suc [0..<n] \<and> tp_next p = (if n = 0 then 0 else m mod n)"

definition ts_inv :: "string \<Rightarrow> string \<Rightarrow> nat \<Rightarrow> tcp_server \<Rightarrow> bool" where
  "ts_inv name ipPort n s \<longleftrightarrow>
     ts_name s = name \<and> ts_ipPort s = ipPort \<and> pool_inv n (length (ts_conns s)) (ts_pool s)
     \<and> ts_nextConnId s = of_nat (Suc (length (ts_conns s)))
     \<and> (\<forall>c < length (ts_conns s). cn_loop (ts_conns s ! c) = home n c
          \<and> cn_name (ts_conns s ! c) = conn_name name ipPort (of_nat (Suc c)))
     \<and> (\<forall>x c. ts_connections s x = Some c \<longleftrightarrow>
          c < length (ts_conns s) \<and> x = conn_name name ipPort (of_nat (Suc c)) \<and> in_map (cn_life (ts_conns s ! c)))
     \<and> distinct (ts_base s)
     \<and> (\<forall>c. c \<in> set (ts_base s) \<longleftrightarrow> c < length (ts_conns s) \<and> cn_life (ts_conns s ! c) = Closed)
     \<and> (\<forall>k. distinct (ts_io s k))
     \<and> (\<forall>k c. EstablishTask c \<in> set (ts_io s k) \<longleftrightarrow>
          c < length (ts_conns s) \<and> cn_life (ts_conns s ! c) = Accepted \<and> k = home n c)
     \<and> (\<forall>k c. DestroyTask c \<in> set (ts_io s k) \<longleftrightarrow>
          c < length (ts_conns s) \<and> cn_life (ts_conns s ! c) = Removed \<and> k = home n c)"

lemma pool_next:
  assumes "pool_inv n m p"
  obtains q where "getNextLoop p = Some (home n m, q)" "pool_inv n (Suc m) q"
proof (cases "n = 0")
  case True
  then show ?thesis using assms by (intro that [of p]) (auto simp: pool_inv_def getNextLoop_def home_def)
next
  case False
  let ?q = "p\<lparr>tp_next := if n \<le> m mod n + 1 then 0 else m mod n + 1\<rparr>"
  have lt: "m mod n < n" using False by simp
  have "Suc m mod n = (if n \<le> m mod n + 1 then 0 else m mod n + 1)"
    using lt by (simp add: mod_Suc)
  then show ?thesis
    using assms False lt by (intro that [of ?q]) (auto simp: pool_inv_def getNextLoop_def home_def)
qed

lemma server_started_inv:
  "\<exists>s. server_start (setThreadNum n (TcpServer_new name ipPort)) = Some s \<and> ts_inv name ipPort n s \<and> ts_conns s = []"
  by (simp add: server_start_def setThreadNum_def TcpServer_new_def EventLoopThreadPool_new_def pool_start_def
      ts_inv_def pool_inv_def)

lemma ts_invD:
  assumes "ts_inv name ipPort n s" "c < length (ts_conns s)"
  shows "cn_loop (ts_conns s ! c) = home n c" "cn_name (ts_conns s ! c) = conn_name name ipPort (of_nat (Suc c))"
  using assms by (simp_all add: ts_inv_def)

lemma ts_inv_names:
  assumes "length ipPort \<le> 42" "length (ts_conns s) < 2 ^ 63 - 1" "c < length (ts_conns s)" "d < length (ts_conns s)"
  shows "conn_name name ipPort (of_nat (Suc c)) = conn_name name ipPort (of_nat (Suc d)) \<longleftrightarrow> c = d"
  using conn_name_inject [of ipPort "Suc c" "Suc d" name] assms by simp

text \<open>One connection moves on in its life; the tables and queues change for it and for no other.\<close>

lemma ts_inv_move:
  assumes inv: "ts_inv name ipPort n s" and small: "length ipPort \<le> 42" "length (ts_conns s) < 2 ^ 63 - 1"
    and c: "c < length (ts_conns s)"
    and conns: "ts_conns t = (ts_conns s)[c := (ts_conns s ! c)\<lparr>cn_life := l\<rparr>]"
    and same: "ts_name t = ts_name s" "ts_ipPort t = ts_ipPort s" "ts_pool t = ts_pool s"
      "ts_nextConnId t = ts_nextConnId s"
    and before: "in_map l \<longrightarrow> in_map (cn_life (ts_conns s ! c))"
    and map: "ts_connections t =
      (if in_map l then ts_connections s else (ts_connections s)(conn_name name ipPort (of_nat (Suc c)) := None))"
    and base: "distinct (ts_base t)" "set (ts_base t) = (set (ts_base s) - {c}) \<union> (if l = Closed then {c} else {})"
    and io: "\<And>k. distinct (ts_io t k)" "\<And>k. set (ts_io t k) = (set (ts_io s k) - {EstablishTask c, DestroyTask c})
      \<union> (if k = home n c then if l = Accepted then {EstablishTask c} else if l = Removed then {DestroyTask c} else {} else {})"
  shows "ts_inv name ipPort n t"
proof -
  have len: "length (ts_conns t) = length (ts_conns s)"
    by (simp add: conns)
  have life: "cn_life (ts_conns t ! d) = (if d = c then l else cn_life (ts_conns s ! d))"
    "cn_loop (ts_conns t ! d) = cn_loop (ts_conns s ! d)" "cn_name (ts_conns t ! d) = cn_name (ts_conns s ! d)" for d
    using c by (simp_all add: conns nth_list_update)
  have names: "d < length (ts_conns s) \<Longrightarrow>
      conn_name name ipPort (of_nat (Suc d)) = conn_name name ipPort (of_nat (Suc c)) \<longleftrightarrow> d = c" for d
    using ts_inv_names [OF small _ c] by simp
  have "ts_connections t x = Some d \<longleftrightarrow> d < length (ts_conns s) \<and> x = conn_name name ipPort (of_nat (Suc d))
      \<and> in_map (if d = c then l else cn_life (ts_conns s ! d))" for x d
    using inv before names [of d] unfolding ts_inv_def map by auto
  moreover have "d \<in> set (ts_base t) \<longleftrightarrow>
      d < length (ts_conns s) \<and> (if d = c then l else cn_life (ts_conns s ! d)) = Closed" for d
    using inv c unfolding ts_inv_def base(2) by auto
  moreover have "EstablishTask d \<in> set (ts_io t k) \<longleftrightarrow>
      d < length (ts_conns s) \<and> (if d = c then l else cn_life (ts_conns s ! d)) = Accepted \<and> k = home n d" for d k
    using inv c unfolding ts_inv_def io(2) by auto
  moreover have "DestroyTask d \<in> set (ts_io t k) \<longleftrightarrow>
      d < length (ts_conns s) \<and> (if d = c then l else cn_life (ts_conns s ! d)) = Removed \<and> k = home n d" for d k
    using inv c unfolding ts_inv_def io(2) by auto
  ultimately show ?thesis
    using inv base(1) io(1) unfolding ts_inv_def len life same by simp
qed

lemma ts_inv_append:
  assumes inv: "ts_inv name ipPort n s" and small: "length ipPort \<le> 42" "Suc (length (ts_conns s)) < 2 ^ 63 - 1"
    and pool: "pool_inv n (Suc (length (ts_conns s))) q"
  defines "c \<equiv> length (ts_conns s)"
  defines "x \<equiv> conn_name name ipPort (of_nat (Suc c))"
  shows "ts_inv name ipPort n (queue_io (home n c) (EstablishTask c)
    (s\<lparr>ts_pool := q, ts_nextConnId := ts_nextConnId s + 1,
       ts_conns := ts_conns s @ [\<lparr>cn_name = x, cn_loop = home n c, cn_life = Accepted\<rparr>],
       ts_connections := (ts_connections s)(x \<mapsto> c)\<rparr>))" (is "ts_inv name ipPort n ?t")
proof -
  let ?cs = "ts_conns s @ [\<lparr>cn_name = x, cn_loop = home n c, cn_life = Accepted\<rparr>]"
  have names: "d < c \<Longrightarrow> conn_name name ipPort (of_nat (Suc d)) \<noteq> x" for d
    using conn_name_inject [of ipPort "Suc d" "Suc c" name] small unfolding x_def c_def by simp
  have fresh: "EstablishTask c \<notin> set (ts_io s k)" for k
    using inv by (simp add: ts_inv_def c_def)
  have "((ts_connections s)(x \<mapsto> c)) y = Some d \<longleftrightarrow>
      d < Suc c \<and> y = conn_name name ipPort (of_nat (Suc d)) \<and> in_map (cn_life (?cs ! d))" for y d
  proof (cases "d = c")
    case True
    then show ?thesis using inv by (auto simp: ts_inv_def c_def x_def in_map_def)
  next
    case False
    then show ?thesis
      using inv names [of d] by (cases "d < c") (auto simp: ts_inv_def nth_append c_def)
  qed
  moreover have "d \<in> set (ts_base s) \<longleftrightarrow> d < Suc c \<and> cn_life (?cs ! d) = Closed" for d
    using inv by (cases "d < c") (auto simp: ts_inv_def nth_append c_def less_Suc_eq)
  moreover have "EstablishTask d \<in> set (ts_io ?t k) \<longleftrightarrow> d < Suc c \<and> cn_life (?cs ! d) = Accepted \<and> k = home n d" for d k
    using inv by (cases "d < c") (auto simp: ts_inv_def nth_append c_def less_Suc_eq queue_io_def)
  moreover have "DestroyTask d \<in> set (ts_io ?t k) \<longleftrightarrow> d < Suc c \<and> cn_life (?cs ! d) = Removed \<and> k = home n d" for d k
    using inv by (cases "d < c") (auto simp: ts_inv_def nth_append c_def less_Suc_eq queue_io_def)
  moreover have "\<forall>d < Suc c. cn_loop (?cs ! d) = home n d \<and> cn_name (?cs ! d) = conn_name name ipPort (of_nat (Suc d))"
    using inv by (auto simp: ts_inv_def nth_append c_def less_Suc_eq x_def)
  moreover have "distinct (ts_io s k)" for k
    using inv by (simp add: ts_inv_def)
  then have "distinct (ts_io ?t k)" for k
    using fresh by (simp add: queue_io_def)
  ultimately show ?thesis
    using inv pool unfolding ts_inv_def by (simp add: c_def queue_io_def)
qed

section \<open>Every event keeps it\<close>

lemma accept_inv:
  assumes "ts_inv name ipPort n s" "length ipPort \<le> 42" "Suc (length (ts_conns s)) < 2 ^ 63 - 1"
  obtains t where "newConnection s = Some t" "ts_inv name ipPort n t" "length (ts_conns t) = Suc (length (ts_conns s))"
proof -
  define c where "c = length (ts_conns s)"
  define x where "x = conn_name name ipPort (of_nat (Suc c))"
  have "pool_inv n c (ts_pool s)" using assms(1) by (simp add: ts_inv_def c_def)
  then obtain q where q: "getNextLoop (ts_pool s) = Some (home n c, q)" "pool_inv n (Suc c) q"
    by (rule pool_next)
  define u where "u = s\<lparr>ts_pool := q, ts_nextConnId := ts_nextConnId s + 1,
       ts_conns := ts_conns s @ [\<lparr>cn_name = x, cn_loop = home n c, cn_life = Accepted\<rparr>],
       ts_connections := (ts_connections s)(x \<mapsto> c)\<rparr>"
  let ?v = "queue_io (home n c) (EstablishTask c) u"
  have v: "ts_inv name ipPort n ?v"
    using ts_inv_append [OF assms q(2) [unfolded c_def]] unfolding u_def x_def c_def .
  have new: "newConnection s = (if home n c = 0 then establish c u else Some ?v)"
    using assms(1) q(1) by (simp add: newConnection_def ts_inv_def u_def x_def c_def Let_def)
  have len: "length (ts_conns u) = Suc c" "ts_conns u ! c = \<lparr>cn_name = x, cn_loop = home n c, cn_life = Accepted\<rparr>"
    by (simp_all add: u_def c_def)
  show ?thesis
  proof (cases "home n c = 0")
    case True
    have fresh: "EstablishTask c \<notin> set (ts_io s k)" "DestroyTask c \<notin> set (ts_io s k)" "distinct (ts_io s k)" for k
      using assms(1) by (simp_all add: ts_inv_def c_def)
    have base: "c \<notin> set (ts_base s)" "distinct (ts_base s)"
      using assms(1) by (simp_all add: ts_inv_def c_def)
    have "ts_inv name ipPort n (set_life c Established u)"
    proof (rule ts_inv_move [OF v assms(2), where c = c and l = Established])
      show "set (ts_io (set_life c Established u) k) = set (ts_io ?v k) - {EstablishTask c, DestroyTask c}
        \<union> (if k = home n c then if Established = Accepted then {EstablishTask c}
           else if Established = Removed then {DestroyTask c} else {} else {})" for k
        using fresh [of k] by (auto simp: set_life_def queue_io_def u_def)
    qed (use assms(3) fresh base in \<open>simp_all add: len queue_io_def set_life_def in_map_def\<close>,
      simp_all add: u_def c_def)
    then show ?thesis
      using True by (intro that [of "set_life c Established u"]) (simp_all add: new establish_def len, simp add: set_life_def len c_def)
  next
    case False
    then show ?thesis
      using v by (intro that [of ?v]) (simp_all add: new, simp add: queue_io_def len c_def)
  qed
qed

lemma remove_inv:
  assumes inv: "ts_inv name ipPort n s" and small: "length ipPort \<le> 42" "length (ts_conns s) < 2 ^ 63 - 1"
    and c: "c < length (ts_conns s)" "in_map (cn_life (ts_conns s ! c))"
    and u: "ts_conns u = (ts_conns s)[c := (ts_conns s ! c)\<lparr>cn_life := l\<rparr>]" "ts_connections u = ts_connections s"
      "ts_name u = ts_name s" "ts_ipPort u = ts_ipPort s" "ts_pool u = ts_pool s"
      "ts_nextConnId u = ts_nextConnId s" "distinct (ts_base u)" "set (ts_base u) = set (ts_base s) - {c}"
      "\<And>k. ts_io u k = ts_io s k" and life: "cn_life (ts_conns s ! c) \<noteq> Accepted"
  obtains t where "removeConnectionInLoop c u = Some t" "ts_inv name ipPort n t" "length (ts_conns t) = length (ts_conns s)"
proof -
  let ?t = "queue_io (home n c) (DestroyTask c) (set_life c Removed (u\<lparr>ts_connections :=
     (ts_connections u)(conn_name name ipPort (of_nat (Suc c)) := None)\<rparr>))"
  have x: "cn_name (ts_conns s ! c) = conn_name name ipPort (of_nat (Suc c))" "cn_loop (ts_conns s ! c) = home n c"
    using ts_invD [OF inv c(1)] by simp_all
  have "ts_connections s (conn_name name ipPort (of_nat (Suc c))) = Some c"
    using inv c by (simp add: ts_inv_def)
  then have run: "removeConnectionInLoop c u = Some ?t"
    using c(1) by (simp add: removeConnectionInLoop_def Let_def u x)
  have fresh: "EstablishTask c \<notin> set (ts_io s k)" "DestroyTask c \<notin> set (ts_io s k)" "distinct (ts_io s k)" for k
    using inv c life by (auto simp: ts_inv_def in_map_def)
  have "ts_inv name ipPort n ?t"
  proof (rule ts_inv_move [OF inv small c(1), where l = Removed])
    show "set (ts_io ?t k) = set (ts_io s k) - {EstablishTask c, DestroyTask c}
      \<union> (if k = home n c then if Removed = Accepted then {EstablishTask c}
         else if Removed = Removed then {DestroyTask c} else {} else {})" for k
      using fresh [of k] by (auto simp: set_life_def queue_io_def u)
  qed (use c fresh in \<open>simp_all add: queue_io_def set_life_def in_map_def u\<close>)
  then show ?thesis
    using run by (intro that [of ?t]) (simp_all, simp add: queue_io_def set_life_def u)
qed

lemma close_inv:
  assumes inv: "ts_inv name ipPort n s" and small: "length ipPort \<le> 42" "length (ts_conns s) < 2 ^ 63 - 1"
    and c: "c < length (ts_conns s)" "cn_life (ts_conns s ! c) = Established"
  obtains t where "removeConnection c s = Some t" "ts_inv name ipPort n t" "length (ts_conns t) = length (ts_conns s)"
proof (cases "home n c = 0")
  case True
  have "c \<notin> set (ts_base s)" "distinct (ts_base s)"
    using inv c by (simp_all add: ts_inv_def)
  then obtain t where "removeConnectionInLoop c (set_life c Closed s) = Some t" "ts_inv name ipPort n t"
      "length (ts_conns t) = length (ts_conns s)"
    using c by (elim remove_inv [OF inv small c(1), where u = "set_life c Closed s" and l = Closed, rotated -1])
      (simp_all add: set_life_def in_map_def)
  then show ?thesis
    using True c ts_invD [OF inv c(1)] by (intro that [of t]) (simp_all add: removeConnection_def set_life_def)
next
  case False
  let ?t = "(set_life c Closed s)\<lparr>ts_base := ts_base s @ [c]\<rparr>"
  have fresh: "EstablishTask c \<notin> set (ts_io s k)" "DestroyTask c \<notin> set (ts_io s k)" "distinct (ts_io s k)" for k
    using inv c by (simp_all add: ts_inv_def)
  have base: "c \<notin> set (ts_base s)" "distinct (ts_base s)"
    using inv c by (simp_all add: ts_inv_def)
  have "ts_inv name ipPort n ?t"
    by (rule ts_inv_move [OF inv small c(1), where l = Closed])
      (use c fresh base in \<open>simp_all add: set_life_def in_map_def\<close>)
  then show ?thesis
    using False c ts_invD [OF inv c(1)] by (intro that [of ?t]) (simp_all add: removeConnection_def set_life_def)
qed

lemma base_turn_inv:
  assumes inv: "ts_inv name ipPort n s" and small: "length ipPort \<le> 42" "length (ts_conns s) < 2 ^ 63 - 1"
    and q: "ts_base s = c # cs"
  obtains t where "removeConnectionInLoop c (s\<lparr>ts_base := cs\<rparr>) = Some t" "ts_inv name ipPort n t"
    "length (ts_conns t) = length (ts_conns s)"
proof -
  have "c \<in> set (ts_base s)" by (simp add: q)
  moreover have "\<forall>c. c \<in> set (ts_base s) \<longleftrightarrow> c < length (ts_conns s) \<and> cn_life (ts_conns s ! c) = Closed" "distinct (ts_base s)"
    using inv unfolding ts_inv_def by blast+
  ultimately have c: "c < length (ts_conns s)" "cn_life (ts_conns s ! c) = Closed" "c \<notin> set cs" "distinct cs"
    by (auto simp: q)
  have same: "(ts_conns s)[c := (ts_conns s ! c)\<lparr>cn_life := Closed\<rparr>] = ts_conns s"
    using c(1,2) by (cases "ts_conns s ! c") (simp add: list_update_same_conv)
  show ?thesis
    by (rule remove_inv [OF inv small c(1), where u = "s\<lparr>ts_base := cs\<rparr>" and l = Closed])
      (use c in \<open>simp_all add: in_map_def q same\<close>, rule that)
qed

lemma io_turn_inv:
  assumes inv: "ts_inv name ipPort n s" and small: "length ipPort \<le> 42" "length (ts_conns s) < 2 ^ 63 - 1"
    and q: "ts_io s k = task # ts"
  obtains t where "run_task task (s\<lparr>ts_io := (ts_io s)(k := ts)\<rparr>) = Some t" "ts_inv name ipPort n t"
    "length (ts_conns t) = length (ts_conns s)"
proof -
  let ?u = "s\<lparr>ts_io := (ts_io s)(k := ts)\<rparr>"
  have d: "distinct (task # ts)" "\<And>k. distinct (ts_io s k)"
    using inv unfolding ts_inv_def q [symmetric] by blast+
  have in_q: "task \<in> set (ts_io s k)" by (simp add: q)
  have dist: "distinct (((ts_io s)(k := ts)) j)" for j
    using d by simp
  have rest: "(\<And>j. task \<in> set (ts_io s j) \<longleftrightarrow> j = k) \<Longrightarrow> set (((ts_io s)(k := ts)) j) = set (ts_io s j) - {task}" for j
    using d(1) q by (cases "j = k") auto
  have b: "distinct (ts_base s)"
    using inv unfolding ts_inv_def by blast
  have "\<exists>c l. c < length (ts_conns s) \<and> run_task task ?u = Some (set_life c l ?u)
      \<and> ts_inv name ipPort n (set_life c l ?u)"
  proof (cases task)
    case (EstablishTask c)
    have c: "c < length (ts_conns s)" "cn_life (ts_conns s ! c) = Accepted" "k = home n c"
      using inv in_q unfolding EstablishTask ts_inv_def by blast+
    have "c \<notin> set (ts_base s)" "\<And>j. DestroyTask c \<notin> set (ts_io s j)" "\<And>j. EstablishTask c \<in> set (ts_io s j) \<longleftrightarrow> j = k"
      using inv c by (simp_all add: ts_inv_def)
    then have "ts_inv name ipPort n (set_life c Established ?u)"
      using b c dist rest [unfolded EstablishTask] by (intro ts_inv_move [OF inv small c(1), where l = Established])
        (auto simp: set_life_def in_map_def simp del: fun_upd_apply)
    then show ?thesis
      using c EstablishTask by (intro exI [of _ c] exI [of _ Established]) (simp add: establish_def)
  next
    case (DestroyTask c)
    have c: "c < length (ts_conns s)" "cn_life (ts_conns s ! c) = Removed" "k = home n c"
      using inv in_q unfolding DestroyTask ts_inv_def by blast+
    have x: "c \<notin> set (ts_base s)" "\<And>j. EstablishTask c \<notin> set (ts_io s j)" "\<And>j. DestroyTask c \<in> set (ts_io s j) \<longleftrightarrow> j = k"
      using inv c by (simp_all add: ts_inv_def)
    have "ts_connections s y \<noteq> Some c" for y
      using inv c by (simp add: ts_inv_def in_map_def)
    moreover have "ts_connections s (conn_name name ipPort (of_nat (Suc c))) = Some e \<Longrightarrow> e = c" for e
      using inv ts_inv_names [OF small c(1), of e name] unfolding ts_inv_def by blast
    ultimately have "ts_connections s (conn_name name ipPort (of_nat (Suc c))) = None"
      by (cases "ts_connections s (conn_name name ipPort (of_nat (Suc c)))") auto
    then have "(ts_connections s)(conn_name name ipPort (of_nat (Suc c)) := None) = ts_connections s"
      by (rule fun_upd_idem)
    with x have "ts_inv name ipPort n (set_life c Destroyed ?u)"
      using b c dist rest [unfolded DestroyTask] by (intro ts_inv_move [OF inv small c(1), where l = Destroyed])
        (auto simp: set_life_def in_map_def simp del: fun_upd_apply)
    then show ?thesis
      using c DestroyTask by (intro exI [of _ c] exI [of _ Destroyed]) simp
  qed
  then show ?thesis by (auto intro!: that simp: set_life_def)
qed

lemma server_do_inv:
  assumes "ts_inv name ipPort n s" "length ipPort \<le> 42" "Suc (length (ts_conns s)) < 2 ^ 63 - 1"
  obtains t where "server_do v s = Some t" "ts_inv name ipPort n t" "length (ts_conns t) \<le> Suc (length (ts_conns s))"
proof (cases v)
  case AcceptEvent
  from accept_inv [OF assms] obtain t where "newConnection s = Some t" "ts_inv name ipPort n t"
      "length (ts_conns t) = Suc (length (ts_conns s))" .
  then show ?thesis using AcceptEvent by (intro that [of t]) simp_all
next
  case (CloseEvent c)
  have small: "length (ts_conns s) < 2 ^ 63 - 1" using assms(3) by simp
  show ?thesis
  proof (cases "c < length (ts_conns s) \<and> cn_life (ts_conns s ! c) = Established")
    case True
    with close_inv [OF assms(1,2) small] obtain t where "removeConnection c s = Some t" "ts_inv name ipPort n t"
        "length (ts_conns t) = length (ts_conns s)" by blast
    then show ?thesis using CloseEvent True by (intro that [of t]) simp_all
  qed (use CloseEvent assms in \<open>auto intro!: that [of s]\<close>)
next
  case (IoTurn k)
  have small: "length (ts_conns s) < 2 ^ 63 - 1" using assms(3) by simp
  show ?thesis
  proof (cases "ts_io s k")
    case (Cons x xs)
    from io_turn_inv [OF assms(1,2) small Cons] obtain t where
        "run_task x (s\<lparr>ts_io := (ts_io s)(k := xs)\<rparr>) = Some t" "ts_inv name ipPort n t"
        "length (ts_conns t) = length (ts_conns s)" .
    then show ?thesis using IoTurn Cons by (intro that [of t]) simp_all
  qed (use IoTurn assms in \<open>auto intro!: that [of s]\<close>)
next
  case BaseTurn
  have small: "length (ts_conns s) < 2 ^ 63 - 1" using assms(3) by simp
  show ?thesis
  proof (cases "ts_base s")
    case (Cons x xs)
    from base_turn_inv [OF assms(1,2) small Cons] obtain t where
        "removeConnectionInLoop x (s\<lparr>ts_base := xs\<rparr>) = Some t" "ts_inv name ipPort n t"
        "length (ts_conns t) = length (ts_conns s)" .
    then show ?thesis using BaseTurn Cons by (intro that [of t]) simp_all
  qed (use BaseTurn assms in \<open>auto intro!: that [of s]\<close>)
qed

lemma server_run_inv:
  assumes "ts_inv name ipPort n s" "length ipPort \<le> 42" "length (ts_conns s) + length vs < 2 ^ 63 - 1"
  shows "\<exists>t. server_run vs s = Some t \<and> ts_inv name ipPort n t \<and> length (ts_conns t) \<le> length (ts_conns s) + length vs"
  using assms
proof (induction vs arbitrary: s)
  case (Cons v vs)
  then have "Suc (length (ts_conns s)) < 2 ^ 63 - 1" by simp
  from server_do_inv [OF Cons.prems(1,2) this, of v] obtain t where t: "server_do v s = Some t"
      "ts_inv name ipPort n t" "length (ts_conns t) \<le> Suc (length (ts_conns s))" .
  then have "length (ts_conns t) + length vs < 2 ^ 63 - 1"
    using Cons.prems(3) by simp
  with Cons.IH [OF t(2) Cons.prems(2)] t(1,3) show ?case by fastforce
qed simp

end
