(* ===== verification/Log_Stream.thy ===== *)
theory Log_Stream
  imports Double_Print "HOL-Library.Signed_Division" "HOL-Library.Sublist"
begin

text \<open>
  \<open>base/LogStream.h\<close> and \<open>base/LogStream.cpp\<close>: the fixed buffer of a log line and the operators that print
  into it. The buffer is the array with the position of \<open>_cur\<close>; a write outside the array gives \<open>None\<close>.
\<close>

section \<open>The buffer\<close>

definition kSmallBuffer :: nat where "kSmallBuffer = 4000"
definition kMaxNumericSize :: nat where "kMaxNumericSize = 32"

record fixed_buffer =
  fb_data :: string
  fb_cur :: nat

text \<open>The array of a new buffer is not initialised.\<close>

definition FixedBuffer_new :: "string \<Rightarrow> fixed_buffer" where
  "FixedBuffer_new junk = \<lparr>fb_data = junk, fb_cur = 0\<rparr>"

definition fb_avail :: "fixed_buffer \<Rightarrow> int" where
  "fb_avail b = int (length (fb_data b)) - int (fb_cur b)"

fun memcpy_at :: "string \<Rightarrow> nat \<Rightarrow> string \<Rightarrow> string option" where
  "memcpy_at mem i [] = Some mem"
| "memcpy_at mem i (c # cs) = Option.bind (wr_at mem i c) (\<lambda>mem. memcpy_at mem (i + 1) cs)"

definition fb_append :: "string \<Rightarrow> fixed_buffer \<Rightarrow> fixed_buffer option" where
  "fb_append buf b =
     (if int (length buf) < fb_avail b
      then map_option (\<lambda>m. b\<lparr>fb_data := m, fb_cur := fb_cur b + length buf\<rparr>) (memcpy_at (fb_data b) (fb_cur b) buf)
      else Some b)"

definition fb_toString :: "fixed_buffer \<Rightarrow> string" where
  "fb_toString b = take (fb_cur b) (fb_data b)"

definition debugString :: "fixed_buffer \<Rightarrow> fixed_buffer option" where
  "debugString b = map_option (\<lambda>m. b\<lparr>fb_data := m\<rparr>) (wr_at (fb_data b) (fb_cur b) (CHR 0x00))"

section \<open>Numbers\<close>

text \<open>\<open>zero[lsd]\<close>, where \<open>lsd\<close> has the sign of the number; C division truncates.\<close>

definition log_digits :: string where
  "log_digits = ''9876543210123456789''"

function convert_loop :: "int \<Rightarrow> nat \<Rightarrow> string \<Rightarrow> (nat \<times> string) option" where
  "convert_loop i p mem =
     (case wr_at mem p (log_digits ! nat (9 + i smod 10)) of
        None \<Rightarrow> None
      | Some mem \<Rightarrow> if i sdiv 10 = 0 then Some (p + 1, mem) else convert_loop (i sdiv 10) (p + 1) mem)"
  by pat_completeness auto
termination
  by (relation "measure (\<lambda>(i, p, mem). nat \<bar>i\<bar>)") (auto simp: signed_divide_int_def abs_mult sgn_if)

declare convert_loop.simps [simp del]

definition reverse_range :: "nat \<Rightarrow> nat \<Rightarrow> string \<Rightarrow> string" where
  "reverse_range a e mem = take a mem @ rev (drop a (take e mem)) @ drop e mem"

definition convert :: "nat \<Rightarrow> int \<Rightarrow> string \<Rightarrow> (nat \<times> string) option" where
  "convert buf v mem = do {
     (p, mem) \<leftarrow> convert_loop v buf mem;
     (p, mem) \<leftarrow> (if v < 0 then map_option (\<lambda>mem. (p + 1, mem)) (wr_at mem p (CHR ''-'')) else Some (p, mem));
     mem \<leftarrow> wr_at mem p (CHR 0x00);
     Some (p - buf, reverse_range buf p mem)
   }"

definition formatInteger :: "int \<Rightarrow> fixed_buffer \<Rightarrow> fixed_buffer option" where
  "formatInteger v b =
     (if int kMaxNumericSize \<le> fb_avail b
      then map_option (\<lambda>(len, m). b\<lparr>fb_data := m, fb_cur := fb_cur b + len\<rparr>) (convert (fb_cur b) v (fb_data b))
      else Some b)"

definition digitsHex :: string where
  "digitsHex = ''0123456789ABCDEF''"

function hex_loop :: "nat \<Rightarrow> nat \<Rightarrow> string \<Rightarrow> (nat \<times> string) option" where
  "hex_loop i p mem =
     (case wr_at mem p (digitsHex ! (i mod 16)) of
        None \<Rightarrow> None
      | Some mem \<Rightarrow> if i div 16 = 0 then Some (p + 1, mem) else hex_loop (i div 16) (p + 1) mem)"
  by pat_completeness auto
termination
  by (relation "measure (\<lambda>(i, p, mem). i)") auto

declare hex_loop.simps [simp del]

definition convertHex :: "nat \<Rightarrow> u64 \<Rightarrow> string \<Rightarrow> (nat \<times> string) option" where
  "convertHex buf v mem = do {
     (p, mem) \<leftarrow> hex_loop (unat v) buf mem;
     mem \<leftarrow> wr_at mem p (CHR 0x00);
     Some (p - buf, reverse_range buf p mem)
   }"

definition log_pointer :: "u64 \<Rightarrow> fixed_buffer \<Rightarrow> fixed_buffer option" where
  "log_pointer v b =
     (if int kMaxNumericSize \<le> fb_avail b
      then do {
        m \<leftarrow> memcpy_at (fb_data b) (fb_cur b) ''0x'';
        (len, m) \<leftarrow> convertHex (fb_cur b + 2) v m;
        Some (b\<lparr>fb_data := m, fb_cur := fb_cur b + (len + 2)\<rparr>)
      }
      else Some b)"

text \<open>
  \<open>snprintf(_buffer.current(), kMaxNumericSize, "%.12g", v)\<close> with the text that \<open>%.12g\<close> gives: it keeps 31
  characters and returns the length of the whole text.
\<close>

definition log_double :: "string \<Rightarrow> fixed_buffer \<Rightarrow> fixed_buffer option" where
  "log_double printed b =
     (if int kMaxNumericSize \<le> fb_avail b
      then map_option (\<lambda>m. b\<lparr>fb_data := m, fb_cur := fb_cur b + length printed\<rparr>)
             (memcpy_at (fb_data b) (fb_cur b) (take (kMaxNumericSize - 1) printed @ [CHR 0x00]))
      else Some b)"

section \<open>The operators\<close>

datatype log_op = LogBool bool | LogInt int | LogPointer u64 | LogDouble string | LogChar char | LogText "string option"

fun log_do :: "log_op \<Rightarrow> fixed_buffer \<Rightarrow> fixed_buffer option" where
  "log_do (LogBool v) b = fb_append (if v then ''1'' else ''0'') b"
| "log_do (LogInt v) b = formatInteger v b"
| "log_do (LogPointer v) b = log_pointer v b"
| "log_do (LogDouble printed) b = log_double printed b"
| "log_do (LogChar c) b = fb_append [c] b"
| "log_do (LogText s) b = fb_append (case s of None \<Rightarrow> ''(null)'' | Some s \<Rightarrow> s) b"

fun log_run :: "log_op list \<Rightarrow> fixed_buffer \<Rightarrow> fixed_buffer option" where
  "log_run [] b = Some b"
| "log_run (x # xs) b = Option.bind (log_do x b) (log_run xs)"

section \<open>What is printed\<close>

fun hex_string :: "nat \<Rightarrow> string" where
  "hex_string n = (if n < 16 then [digitsHex ! n] else hex_string (n div 16) @ [digitsHex ! (n mod 16)])"

declare hex_string.simps [simp del]

fun log_text :: "log_op \<Rightarrow> string" where
  "log_text (LogBool v) = (if v then ''1'' else ''0'')"
| "log_text (LogInt v) = to_string_int v"
| "log_text (LogPointer v) = ''0x'' @ hex_string (unat v)"
| "log_text (LogDouble printed) = printed"
| "log_text (LogChar c) = [c]"
| "log_text (LogText s) = (case s of None \<Rightarrow> ''(null)'' | Some s \<Rightarrow> s)"

text \<open>Integers of at most 64 bits, signed or not; \<open>%.12g\<close> prints at most 19 characters.\<close>

fun log_op_ok :: "log_op \<Rightarrow> bool" where
  "log_op_ok (LogInt v) \<longleftrightarrow> - (2 ^ 63) \<le> v \<and> v < 2 ^ 64"
| "log_op_ok (LogDouble printed) \<longleftrightarrow> length printed \<le> 19"
| "log_op_ok _ \<longleftrightarrow> True"

definition fb_ok :: "fixed_buffer \<Rightarrow> bool" where
  "fb_ok b \<longleftrightarrow> length (fb_data b) = kSmallBuffer \<and> fb_cur b < kSmallBuffer"

lemma update_split: "i < length mem \<Longrightarrow> mem[i := c] = take i mem @ c # drop (Suc i) mem"
  by (rule upd_conv_take_nth_drop)

lemma memcpy_at_eq:
  "i + length cs \<le> length mem \<Longrightarrow> memcpy_at mem i cs = Some (take i mem @ cs @ drop (i + length cs) mem)"
proof (induction cs arbitrary: mem i)
  case (Cons c cs)
  then have i: "i < length mem" by simp
  from Cons.prems have "memcpy_at (mem[i := c]) (i + 1) cs
      = Some (take (i + 1) (mem[i := c]) @ cs @ drop (i + 1 + length cs) (mem[i := c]))"
    by (intro Cons.IH) simp
  moreover have "take (i + 1) (mem[i := c]) = take i mem @ [c]"
    using i by (simp add: update_split take_Suc_conv_app_nth)
  ultimately show ?case
    using i by (simp add: wr_at_Some)
qed simp

lemma log_digit:
  assumes "- 10 < k" "k < 10"
  shows "log_digits ! nat (9 + k) = digit_char (nat \<bar>k\<bar>)"
proof -
  have "\<forall>k \<in> {-9..9::int}. log_digits ! nat (9 + k) = digit_char (nat \<bar>k\<bar>)"
    by code_simp
  then show ?thesis using assms by simp
qed

lemma sdiv_10: "nat \<bar>i sdiv 10\<bar> = nat \<bar>i\<bar> div 10" "nat \<bar>i smod 10\<bar> = nat \<bar>i\<bar> mod 10"
  "i sdiv 10 = 0 \<longleftrightarrow> nat \<bar>i\<bar> < 10" "- 10 < i smod 10" "i smod 10 < 10" for i :: int
proof -
  show d: "nat \<bar>i sdiv 10\<bar> = nat \<bar>i\<bar> div 10"
    by (simp add: signed_divide_int_def abs_mult abs_sgn_eq nat_div_distrib)
  show "i sdiv 10 = 0 \<longleftrightarrow> nat \<bar>i\<bar> < 10"
    using d by (metis abs_eq_0 div_eq_0_iff nat_0_iff abs_ge_zero dual_order.antisym zero_neq_numeral)
  show m: "nat \<bar>i smod 10\<bar> = nat \<bar>i\<bar> mod 10"
    by (simp add: signed_modulo_int_def abs_mult abs_sgn_eq nat_mod_distrib)
  have "nat \<bar>i smod 10\<bar> < 10" by (simp add: m)
  then show "- 10 < i smod 10" "i smod 10 < 10" by linarith+
qed

lemma convert_loop_eq:
  assumes "p + length (to_string (nat \<bar>i\<bar>)) \<le> length mem"
  shows "convert_loop i p mem = Some (p + length (to_string (nat \<bar>i\<bar>)),
    take p mem @ rev (to_string (nat \<bar>i\<bar>)) @ drop (p + length (to_string (nat \<bar>i\<bar>))) mem)"
  using assms
proof (induction i p mem rule: convert_loop.induct)
  case (1 i p mem)
  have ne: "0 < length (to_string (nat \<bar>i\<bar>))" by simp
  with 1 have p: "p < length mem" by linarith
  have c: "log_digits ! nat (9 + i smod 10) = digit_char (nat \<bar>i\<bar> mod 10)"
    using log_digit [OF sdiv_10(4,5)] by (simp add: sdiv_10(2))
  let ?m = "mem[p := digit_char (nat \<bar>i\<bar> mod 10)]"
  show ?case
  proof (cases "nat \<bar>i\<bar> < 10")
    case True
    then have "to_string (nat \<bar>i\<bar>) = [digit_char (nat \<bar>i\<bar> mod 10)]" by (subst to_string.simps) simp
    then show ?thesis
      using True p by (subst convert_loop.simps) (simp add: c wr_at_Some sdiv_10(3) update_split)
  next
    case False
    then have s: "to_string (nat \<bar>i\<bar>) = to_string (nat \<bar>i sdiv 10\<bar>) @ [digit_char (nat \<bar>i\<bar> mod 10)]"
      by (subst to_string.simps) (simp add: sdiv_10(1))
    have "convert_loop (i sdiv 10) (p + 1) ?m = Some (p + 1 + length (to_string (nat \<bar>i sdiv 10\<bar>)),
        take (p + 1) ?m @ rev (to_string (nat \<bar>i sdiv 10\<bar>)) @ drop (p + 1 + length (to_string (nat \<bar>i sdiv 10\<bar>))) ?m)"
      by (rule "1.IH") (use False p 1 in \<open>simp_all add: c wr_at_Some sdiv_10(3) s\<close>)
    moreover have "take (p + 1) ?m = take p mem @ [digit_char (nat \<bar>i\<bar> mod 10)]"
      using p by (simp add: update_split take_Suc_conv_app_nth)
    ultimately show ?thesis
      using False p by (subst convert_loop.simps) (simp add: c wr_at_Some sdiv_10(3) s)
  qed
qed

lemma hex_loop_eq:
  assumes "p + length (hex_string i) \<le> length mem"
  shows "hex_loop i p mem = Some (p + length (hex_string i),
    take p mem @ rev (hex_string i) @ drop (p + length (hex_string i)) mem)"
  using assms
proof (induction i p mem rule: hex_loop.induct)
  case (1 i p mem)
  have "0 < length (hex_string i)" by (subst hex_string.simps) simp
  with 1 have p: "p < length mem" by linarith
  let ?m = "mem[p := digitsHex ! (i mod 16)]"
  show ?case
  proof (cases "i < 16")
    case True
    then have "hex_string i = [digitsHex ! (i mod 16)]" by (subst hex_string.simps) simp
    then show ?thesis
      using True p by (subst hex_loop.simps) (simp add: wr_at_Some update_split)
  next
    case False
    then have s: "hex_string i = hex_string (i div 16) @ [digitsHex ! (i mod 16)]"
      by (subst hex_string.simps) simp
    have "hex_loop (i div 16) (p + 1) ?m = Some (p + 1 + length (hex_string (i div 16)),
        take (p + 1) ?m @ rev (hex_string (i div 16)) @ drop (p + 1 + length (hex_string (i div 16))) ?m)"
      by (rule "1.IH") (use False p 1 in \<open>simp_all add: wr_at_Some s\<close>)
    moreover have "take (p + 1) ?m = take p mem @ [digitsHex ! (i mod 16)]"
      using p by (simp add: update_split take_Suc_conv_app_nth)
    ultimately show ?thesis
      using False p by (subst hex_loop.simps) (simp add: wr_at_Some s div_eq_0_iff)
  qed
qed

lemma length_hex_string: "n < 16 ^ Suc k \<Longrightarrow> length (hex_string n) \<le> Suc k"
proof (induction k arbitrary: n)
  case (Suc k)
  show ?case
  proof (cases "n < 16")
    case False
    have "n div 16 < 16 ^ Suc k" using Suc.prems by (simp add: less_mult_imp_div_less mult.commute)
    from Suc.IH [OF this] show ?thesis using False by (subst hex_string.simps) simp
  qed (subst hex_string.simps, simp)
qed (subst hex_string.simps, simp)

text \<open>The end of both conversions: the terminator is written and the digits are reversed.\<close>

lemma finish_number:
  assumes "b + length ds < length mem"
  shows "wr_at (take b mem @ ds @ drop (b + length ds) mem) (b + length ds) c
      = Some (take b mem @ ds @ c # drop (Suc (b + length ds)) mem)"
    and "reverse_range b (b + length ds) (take b mem @ ds @ rest) = take b mem @ rev ds @ rest"
  using assms by (simp_all add: wr_at_def update_split reverse_range_def Suc_diff_le)

lemma convert_eq:
  assumes "b + length (to_string_int v) < length mem"
  shows "convert b v mem = Some (length (to_string_int v),
    take b mem @ to_string_int v @ CHR 0x00 # drop (Suc (b + length (to_string_int v))) mem)"
proof -
  let ?ds = "rev (to_string (nat \<bar>v\<bar>))"
  have l: "length (to_string_int v) = length ?ds + (if v < 0 then 1 else 0)"
    by (simp add: to_string_int_def)
  have loop: "convert_loop v b mem = Some (b + length ?ds, take b mem @ ?ds @ drop (b + length ?ds) mem)"
    using convert_loop_eq [of b v mem] assms l by simp
  show ?thesis
  proof (cases "v < 0")
    case True
    then have t: "to_string_int v = rev (?ds @ ''-'')" by (simp add: to_string_int_def)
    have "wr_at (take b mem @ ?ds @ drop (b + length ?ds) mem) (b + length ?ds) (CHR ''-'')
        = Some (take b mem @ (?ds @ ''-'') @ drop (b + length (?ds @ ''-'')) mem)"
      using finish_number(1) [of b ?ds mem "CHR ''-''"] assms l True by simp
    with loop True finish_number [of b "?ds @ ''-''" mem] assms show ?thesis
      unfolding convert_def t by simp
  next
    case False
    then have t: "to_string_int v = rev ?ds" by (simp add: to_string_int_def)
    with loop False finish_number [of b ?ds mem] assms show ?thesis
      unfolding convert_def by simp
  qed
qed

lemma convertHex_eq:
  assumes "b + length (hex_string (unat v)) < length mem"
  shows "convertHex b v mem = Some (length (hex_string (unat v)),
    take b mem @ hex_string (unat v) @ CHR 0x00 # drop (Suc (b + length (hex_string (unat v)))) mem)"
  using hex_loop_eq [of b "unat v" mem] finish_number [of b "rev (hex_string (unat v))" mem] assms
  by (simp add: convertHex_def)

lemma number_length:
  "log_op_ok (LogInt v) \<Longrightarrow> length (to_string_int v) \<le> 20" "length (hex_string (unat (w :: u64))) \<le> 16"
proof -
  have s: "n < 10 ^ k \<Longrightarrow> 0 < k \<Longrightarrow> length (to_string n) \<le> k" for n k :: nat
    using length_to_string [of n k] by (cases "n = 0") (simp_all add: to_string.simps)
  show "length (to_string_int v) \<le> 20" if "log_op_ok (LogInt v)"
  proof (cases "v < 0")
    case True
    then show ?thesis using that s [of "nat (- v)" 19] by (simp add: to_string_int_def)
  next
    case False
    then show ?thesis using that s [of "nat v" 20] by (simp add: to_string_int_def)
  qed
  show "length (hex_string (unat w)) \<le> 16"
    using length_hex_string [of "unat w" 15] unsigned_less [of w] by simp
qed

text \<open>One operator prints its whole text or nothing, and stays inside the buffer.\<close>

definition prints :: "fixed_buffer \<Rightarrow> string \<Rightarrow> fixed_buffer \<Rightarrow> bool" where
  "prints b t b' \<longleftrightarrow> fb_ok b' \<and> fb_cur b' = fb_cur b + length t \<and> fb_toString b' = fb_toString b @ t"

lemma prints_at:
  assumes "fb_ok b" "fb_cur b + length t + length r \<le> kSmallBuffer" "fb_cur b + length t < kSmallBuffer"
  shows "prints b t (b\<lparr>fb_data := take (fb_cur b) (fb_data b) @ t @ r @ drop (fb_cur b + length t + length r) (fb_data b),
    fb_cur := fb_cur b + length t\<rparr>)"
  using assms by (simp add: prints_def fb_ok_def fb_toString_def)

lemma append_prints:
  assumes "fb_ok b"
  shows "fb_append t b = Some b \<and> kSmallBuffer \<le> fb_cur b + length t \<or> (\<exists>b'. fb_append t b = Some b' \<and> prints b t b')"
proof (cases "int (length t) < fb_avail b")
  case True
  then have "fb_cur b + length t < kSmallBuffer"
    using assms by (simp add: fb_avail_def fb_ok_def)
  with True assms prints_at [OF assms, of t "[]"] show ?thesis
    by (simp add: fb_append_def memcpy_at_eq fb_ok_def)
qed (use assms in \<open>auto simp: fb_append_def fb_avail_def fb_ok_def\<close>)

lemma numeric_prints:
  assumes b: "fb_ok b" and op: "log_op_ok x" "x = LogInt v \<or> x = LogPointer w \<or> x = LogDouble d"
  shows "log_do x b = Some b \<and> kSmallBuffer < fb_cur b + 32 \<or> (\<exists>b'. log_do x b = Some b' \<and> prints b (log_text x) b')"
proof (cases "fb_cur b + 32 \<le> kSmallBuffer")
  case True
  then have av: "32 \<le> fb_avail b" and len: "length (fb_data b) = kSmallBuffer"
    using b by (simp_all add: fb_avail_def fb_ok_def)
  note at = prints_at [OF b, of "log_text x" "[CHR 0x00]"]
  from op(2) have "\<exists>b'. log_do x b = Some b' \<and> prints b (log_text x) b'"
  proof (elim disjE)
    assume x: "x = LogInt v"
    then show ?thesis
      using True av len at number_length(1) [OF op(1) [unfolded x]] convert_eq [of "fb_cur b" v "fb_data b"]
      by (simp add: formatInteger_def kMaxNumericSize_def)
  next
    assume x: "x = LogPointer w"
    let ?m = "take (fb_cur b) (fb_data b) @ ''0x'' @ drop (fb_cur b + 2) (fb_data b)"
    have m: "length ?m = kSmallBuffer" "take (fb_cur b + 2) ?m = take (fb_cur b) (fb_data b) @ ''0x''"
      using True len by simp_all
    have "drop (k + (fb_cur b + 2)) ?m = drop (k + (fb_cur b + 2)) (fb_data b)" for k
      using True len by simp
    then show ?thesis
      using True av len at x m number_length(2) [of w] convertHex_eq [of "fb_cur b + 2" w ?m]
        memcpy_at_eq [of "fb_cur b" "''0x''" "fb_data b"]
      by (simp add: log_pointer_def kMaxNumericSize_def numeral_3_eq_3 add.commute)
  next
    assume x: "x = LogDouble d"
    then show ?thesis
      using True av len at op(1) memcpy_at_eq [of "fb_cur b" "d @ [CHR 0x00]" "fb_data b"]
      by (simp add: log_double_def kMaxNumericSize_def)
  qed
  then show ?thesis ..
next
  case False
  then have "\<not> int kMaxNumericSize \<le> fb_avail b"
    using b by (simp add: fb_avail_def fb_ok_def kMaxNumericSize_def)
  with False op(2) show ?thesis
    by (auto simp: formatInteger_def log_pointer_def log_double_def)
qed

lemma log_do_prints:
  assumes "fb_ok b" "log_op_ok x"
  shows "log_do x b = Some b \<and> kSmallBuffer < fb_cur b + length (log_text x) + 32
    \<or> (\<exists>b'. log_do x b = Some b' \<and> prints b (log_text x) b')"
proof (cases x)
  case (LogInt v)
  then show ?thesis using numeric_prints [OF assms] by fastforce
next
  case (LogPointer w)
  then show ?thesis using numeric_prints [OF assms] by fastforce
next
  case (LogDouble d)
  then show ?thesis using numeric_prints [OF assms] by fastforce
next
  case (LogBool v)
  then show ?thesis using append_prints [OF assms(1), of "log_text x"] by auto
next
  case (LogChar c)
  then show ?thesis using append_prints [OF assms(1), of "log_text x"] by auto
next
  case (LogText t)
  then show ?thesis using append_prints [OF assms(1), of "log_text x"] by auto
qed

lemma log_run_prints:
  assumes "fb_ok b" "list_all log_op_ok xs"
  shows "\<exists>b' kept. log_run xs b = Some b' \<and> fb_ok b' \<and> subseq kept xs
    \<and> fb_toString b' = fb_toString b @ concat (map log_text kept)
    \<and> (fb_cur b + length (concat (map log_text xs)) + 32 \<le> kSmallBuffer \<longrightarrow> kept = xs)"
  using assms
proof (induction xs arbitrary: b)
  case Nil
  then show ?case by (intro exI [of _ b] exI [of _ "[]"]) simp
next
  case (Cons x xs)
  then have ok: "log_op_ok x" "list_all log_op_ok xs" by simp_all
  from log_do_prints [OF Cons.prems(1) ok(1)] show ?case
  proof (elim disjE exE conjE)
    assume x: "log_do x b = Some b" and full: "kSmallBuffer < fb_cur b + length (log_text x) + 32"
    from Cons.IH [OF Cons.prems(1) ok(2)] obtain b' kept where r: "log_run xs b = Some b'" "fb_ok b'" "subseq kept xs"
        "fb_toString b' = fb_toString b @ concat (map log_text kept)" by blast
    with x full show ?thesis
      by (intro exI [of _ b'] exI [of _ kept]) (simp add: list_emb_Cons)
  next
    fix c assume x: "log_do x b = Some c" and p: "prints b (log_text x) c"
    then have c: "fb_ok c" "fb_cur c = fb_cur b + length (log_text x)" "fb_toString c = fb_toString b @ log_text x"
      by (simp_all add: prints_def)
    from Cons.IH [OF c(1) ok(2)] obtain b' kept where r: "log_run xs c = Some b'" "fb_ok b'" "subseq kept xs"
        "fb_toString b' = fb_toString c @ concat (map log_text kept)"
        "fb_cur c + length (concat (map log_text xs)) + 32 \<le> kSmallBuffer \<longrightarrow> kept = xs" by blast
    with x c show ?thesis
      by (intro exI [of _ b'] exI [of _ "x # kept"]) (simp add: add.assoc)
  qed
qed

end
