(* ===== verification/Library_Properties.thy ===== *)
theory Library_Properties
  imports Sha256_Correct Timer_Invariant Event_Loop Poller Tcp_Server Log_Stream
begin

text \<open>
  The properties of the base and network libraries' own machinery: the hash function, the password
  helpers, the timer queue, the event loop with its threads, the poller, the server
  that spreads connections over threads, and the stream of a log line.
\<close>

section \<open>SHA-256\<close>

text \<open>
  C36: \<open>update\<close> may be called any number of times with the input cut in any way: no write leaves the
  block buffer, and \<open>finalize\<close> returns the digest that FIPS 180-4 defines for the concatenation (its
  padding, message schedule, rounds and initial value), with the round constants of the code's own
  table \<open>K\<close>.
\<close>

theorem sha256_streaming:
  assumes "length (s_data junk) = 64"
  shows "Option.bind (sha_updates pieces (Sha256_new junk)) (\<lambda>s. map_option fst (sha_finalize s))
       = Some (fips_digest sha_K (concat pieces)) \<and> sha_H0 = fips_H"
  using sha_stream_digest [OF assms, of pieces] by (auto simp: fips_H_table)

text \<open>Witness: an input of three bytes in two calls, on a zeroed object.\<close>

definition zero_sha :: sha256 where
  "zero_sha = \<lparr>s_data = replicate 64 0, s_len = 0, s_totLen = 0, s_h = replicate 8 0\<rparr>"

lemma length_zero_sha: "length (s_data zero_sha) = 64"
  by (simp add: zero_sha_def)

theorem sha256_streaming_witness:
  "length (s_data zero_sha) = 64 \<and>
   Option.bind (sha_updates [[0x61], [0x62, 0x63]] (Sha256_new zero_sha)) (\<lambda>s. map_option fst (sha_finalize s))
     = Some (fips_digest sha_K [0x61, 0x62, 0x63])"
  using sha256_streaming [OF length_zero_sha, of "[[0x61], [0x62, 0x63]]"] length_zero_sha by simp

text \<open>
  C37: one of the sixty-four round constants is wrong: entry 42 of the table is not the fractional
  part of the cube root of the 43rd prime, every other entry is its own. As every round is a
  permutation that depends on its constant injectively, what \<open>hex\<close> returns differs from the
  SHA-256 digest for every input of at most 55 bytes: the function is not SHA-256.
\<close>

theorem sha256_wrong_constant:
  assumes "length (s_data junk) = 64" "length input \<le> 55"
  shows "(\<forall>i. sha_K ! i = fips_K ! i \<longleftrightarrow> i \<noteq> 42) \<and>
    (\<exists>d. sha_hex junk input = Some d \<and> d \<noteq> concat (map hex2 (fips_digest fips_K (sha_bytes input))))"
proof -
  have "sha_K ! 42 \<noteq> fips_K ! 42"
    by (simp add: fips_K_table sha_K_def)
  moreover have "i \<noteq> 42 \<Longrightarrow> sha_K ! i = fips_K ! i" for i
    by (simp only: fips_K_table nth_list_update_neq)
  ultimately have table: "\<forall>i. sha_K ! i = fips_K ! i \<longleftrightarrow> i \<noteq> 42"
    by blast
  have hex: "sha_hex junk input = Some (concat (map hex2 (fips_digest sha_K (sha_bytes input))))"
    and ne: "fips_digest sha_K (sha_bytes input) \<noteq> fips_digest fips_K (sha_bytes input)"
    using assms by (simp_all add: sha_hex_digest fips_digest_differs sha_bytes_def)
  have "concat (map hex2 (fips_digest sha_K (sha_bytes input)))
      \<noteq> concat (map hex2 (fips_digest fips_K (sha_bytes input)))"
    using ne concat_map_inj [of hex2 2] by (metis hex2_inj length_fips_digest length_hex2)
  with hex table show ?thesis
    by blast
qed

text \<open>Witness: the test vector \<open>abc\<close> of the standard.\<close>

theorem sha256_wrong_constant_witness:
  "\<exists>d. sha_hex zero_sha ''abc'' = Some d \<and> d \<noteq> concat (map hex2 (fips_digest fips_K (sha_bytes ''abc'')))"
  using sha256_wrong_constant [OF length_zero_sha, of "''abc''"] by simp

section \<open>Passwords\<close>

text \<open>
  C38: \<open>verifyPassword\<close> always answers, and accepts a stored text exactly when it is \<open>$salt$h\<close> with a
  salt free of dollar signs and \<open>h\<close> the hash of the salt and the password. What \<open>hashPassword\<close> stores
  is accepted for its password, and for another password exactly when the salted hashes collide.
\<close>

theorem verify_password:
  assumes "length (s_data junk) = 64"
  shows "verifyPassword junk password storedHash = Some
      (\<exists>salt h. CHR ''$'' \<notin> set salt \<and> storedHash = ''$'' @ salt @ ''$'' @ h
         \<and> sha_hex junk (salt @ password) = Some h) \<and>
    (\<exists>st. hashPassword junk time addr password = Some st \<and> verifyPassword junk password st = Some True
       \<and> (verifyPassword junk other st = Some True \<longleftrightarrow>
            sha_hex junk (hex16 (time XOR addr) @ other) = sha_hex junk (hex16 (time XOR addr) @ password)))"
proof -
  have iff: "verifyPassword junk password storedHash = Some
      (\<exists>salt h. CHR ''$'' \<notin> set salt \<and> storedHash = ''$'' @ salt @ ''$'' @ h
         \<and> sha_hex junk (salt @ password) = Some h)" for password storedHash
    using verifyPassword_iff [OF assms, of password storedHash] by auto
  obtain h where h: "sha_hex junk (hex16 (time XOR addr) @ password) = Some h"
    using sha_hex_digest [OF assms] by blast
  let ?st = "''$'' @ hex16 (time XOR addr) @ ''$'' @ h"
  have "verifyPassword junk pw ?st = Some (sha_hex junk (hex16 (time XOR addr) @ pw) = Some h)" for pw
  proof -
    have "(\<exists>salt g. CHR ''$'' \<notin> set salt \<and> ?st = ''$'' @ salt @ ''$'' @ g \<and> sha_hex junk (salt @ pw) = Some g)
        \<longleftrightarrow> sha_hex junk (hex16 (time XOR addr) @ pw) = Some h"
    proof
      assume "\<exists>salt g. CHR ''$'' \<notin> set salt \<and> ?st = ''$'' @ salt @ ''$'' @ g \<and> sha_hex junk (salt @ pw) = Some g"
      then obtain salt g where s: "CHR ''$'' \<notin> set salt" "sha_hex junk (salt @ pw) = Some g"
          "hex16 (time XOR addr) @ CHR ''$'' # h = salt @ CHR ''$'' # g"
        by auto
      with dollar_unique [OF hex16_no_dollar s(1,3)]
      show "sha_hex junk (hex16 (time XOR addr) @ pw) = Some h" by simp
    qed (use hex16_no_dollar in blast)
    then show ?thesis by (simp only: iff)
  qed
  moreover have "hashPassword junk time addr password = Some ?st"
    by (simp add: hashPassword_def Let_def h)
  ultimately show ?thesis
    using iff [of password storedHash] h by auto
qed

text \<open>Witness: a stored password is accepted for its password.\<close>

theorem verify_password_witness:
  "verifyPassword zero_sha ''pw'' ''secret'' \<noteq> Some True
   \<and> (\<exists>st. hashPassword zero_sha 1700000000 140737488 ''pw'' = Some st \<and> verifyPassword zero_sha ''pw'' st = Some True)"
  using verify_password [OF length_zero_sha, of "''pw''" "''secret''" 1700000000 140737488 "''other''"] by auto

section \<open>The timer queue\<close>

text \<open>
  C34: whatever sequence of timer creations, insertions, cancellations, alarms and expirations
  happens, with callbacks that themselves create and cancel timers (their own included), no deleted
  timer is used, no assertion of \<open>TimerQueue.cpp\<close> fails, and the two containers describe the same
  live timers. As long as a timer is queued, the event loop is going to be woken for it: the
  descriptor is readable already, or it is armed to fire no later than the first expiration (or 100
  microseconds after the clock at which it was armed, when that is later).
\<close>

theorem timer_queue_safe:
  assumes "list_all tq_event_ok events"
  shows "\<exists>q. tq_run events tq_init = Some q \<and> tq_inv [] q \<and> length (tq_timers q) = card (tq_active q)
    \<and> (tq_timers q = [] \<or> tq_ready q \<or> (\<exists>now sec nsec. tq_armed q = Some (now, sec, nsec)
      \<and> now + sec * 1000000 + nsec div 1000 \<le> max (fst (hd (tq_timers q))) (now + 100)))"
proof -
  obtain q where q: "tq_run events tq_init = Some q" "tq_inv [] q" "wakes q"
    using tq_run_inv [OF tq_inv_init assms] by (auto simp: wakes_def tq_init_def)
  then show ?thesis
    using tq_inv_sizes [OF q(2)] by (auto simp: wakes_def alarm_by_def alarm_time_def split: option.splits)
qed

text \<open>Witness: a queued timer with an armed descriptor, and a run whose callback cancels its own timer.\<close>

theorem timer_queue_safe_witness:
  "(\<exists>q. tq_run [OpEvent (NewTimer 16 ''a'' 1000 0), OpEvent (InsertTimer 16 500), AlarmEvent,
      PollEvent 1000 (\<lambda>a. [CancelTimer a 1]) 1010] tq_init = Some q \<and> tq_inv [] q) \<and>
   (\<exists>q. tq_run [OpEvent (NewTimer 16 ''a'' 1000 0), OpEvent (InsertTimer 16 500)] tq_init = Some q \<and>
     tq_timers q = [(1000, 16)] \<and> \<not> tq_ready q \<and> (\<exists>now sec nsec. tq_armed q = Some (now, sec, nsec)
      \<and> now + sec * 1000000 + nsec div 1000 \<le> max 1000 (now + 100)))"
proof -
  let ?ws = "[OpEvent (NewTimer 16 ''a'' 1000 0), OpEvent (InsertTimer 16 500)]"
  let ?vs = "[OpEvent (NewTimer 16 ''a'' 1000 0), OpEvent (InsertTimer 16 500), AlarmEvent,
      PollEvent 1000 (\<lambda>a. [CancelTimer a 1]) 1010]"
  have ok: "list_all tq_event_ok ?vs" "list_all tq_event_ok ?ws"
    by (simp_all add: now_ok_def interval_ok_def f64_positive_def f64_is_zero_def f64_exp_def f64_frac_def)
  obtain q where q: "tq_run ?ws tq_init = Some q" "tq_timers q = [(1000, 16)]" "\<not> tq_ready q"
    by (simp add: tq_init_def UINTPTR_MAX_def Timer_new_def addTimerInLoop_def tq_insert_def Let_def resetTimerfd_def)
  have "\<exists>now sec nsec. tq_armed q = Some (now, sec, nsec) \<and> now + sec * 1000000 + nsec div 1000 \<le> max 1000 (now + 100)"
    using timer_queue_safe [OF ok(2)] q(2,3) unfolding q(1) by auto
  moreover have "\<exists>q. tq_run ?vs tq_init = Some q \<and> tq_inv [] q"
    using timer_queue_safe [OF ok(1)] by blast
  ultimately show ?thesis using q by blast
qed

text \<open>What becomes of one due timer: it is queued again, or deleted.\<close>

lemma due_timer_after:
  assumes inv: "tq_inv [] q" and now: "now_ok now" and sub: "set expired \<subseteq> set (tq_timers q)" and e: "e \<in> set expired"
    and heap: "tq_heap q' (snd e) = rerun now (cancels script expired) (tq_heap q) (snd e)"
    and put: "\<forall>t. tq_heap q' (snd e) = Some t \<longrightarrow> (tm_expiration t, snd e) \<in> set (tq_timers q')"
  shows "\<exists>t. tq_heap q (snd e) = Some t \<and>
      (if tm_repeat t \<and> (\<forall>x \<in> set expired. CancelTimer (snd e) (tm_sequence t) \<notin> set (script (snd x)))
       then \<exists>w. addTime now (tm_interval t) = Some w \<and> (w, snd e) \<in> set (tq_timers q')
           \<and> tq_heap q' (snd e) = Some (t\<lparr>tm_expiration := w\<rparr>)
       else tq_heap q' (snd e) = None)"
proof -
  have "snd e \<in> dom (tq_heap q)"
    using tq_invD(3) [OF inv] e sub by auto
  then obtain t where t: "tq_heap q (snd e) = Some t" by auto
  show ?thesis
  proof (cases "tm_repeat t \<and> \<not> cancels script expired (snd e, tm_sequence t)")
    case True
    have "interval_ok (tm_interval t)" "f64_positive (tm_interval t)"
      using tq_invD(7) [OF inv] t True by (auto simp: heap_ok_def)
    then obtain w where w: "addTime now (tm_interval t) = Some w"
      using addTime_ok now by blast
    then have "tq_heap q' (snd e) = Some (t\<lparr>tm_expiration := w\<rparr>)"
      using heap t True by (simp add: rerun_def tm_restart_def)
    then show ?thesis
      using t w True put by (auto simp: cancels_def)
  next
    case False
    then have "tq_heap q' (snd e) = None"
      using heap t by (auto simp: rerun_def)
    then show ?thesis
      using t False by (auto simp: cancels_def)
  qed
qed

text \<open>
  C35: \<open>handleInLoop\<close> runs the callbacks of exactly the timers that are due, each once, in the order of
  their expirations, whatever the callbacks do to the queue. A due timer that repeats and that no
  callback of this round has cancelled is queued again \<open>interval\<close> after \<open>now\<close>; every other due timer is
  deleted.
\<close>

theorem timer_due_run:
  assumes "list_all tq_event_ok events" "tq_run events tq_init = Some q" "tq_event_ok (PollEvent now script clock)"
  shows "\<exists>expired q'. expired = filter (\<lambda>e. fst e \<le> now) (tq_timers q) \<and> sorted expired
    \<and> handleInLoop now script clock q = Some (map (\<lambda>e. tm_callback (the (tq_heap q (snd e)))) expired, q')
    \<and> (\<forall>e \<in> set expired. \<exists>t. tq_heap q (snd e) = Some t \<and>
        (if tm_repeat t \<and> (\<forall>x \<in> set expired. CancelTimer (snd e) (tm_sequence t) \<notin> set (script (snd x)))
         then \<exists>w. addTime now (tm_interval t) = Some w \<and> (w, snd e) \<in> set (tq_timers q')
           \<and> tq_heap q' (snd e) = Some (t\<lparr>tm_expiration := w\<rparr>)
         else tq_heap q' (snd e) = None))"
proof -
  have inv: "tq_inv [] q"
    using tq_run_inv [OF tq_inv_init assms(1)] assms(2) by auto
  have now: "now_ok now" "\<forall>a. list_all op_ok (script a)"
    using assms(3) by auto
  define expired where "expired = due now (tq_timers q)"
  obtain q' where h:
    "handleInLoop now script clock q = Some (map (\<lambda>e. tm_callback (the (tq_heap q (snd e)))) expired, q')"
    "tq_inv [] q'"
    "\<forall>b \<in> snd ` set expired. tq_heap q' b = rerun now (cancels script expired) (tq_heap q) b"
    "\<forall>b \<in> snd ` set expired. \<forall>t. tq_heap q' b = Some t \<longrightarrow> (tm_expiration t, b) \<in> set (tq_timers q')"
    "wakes q \<longrightarrow> wakes q'"
    using handleInLoop_inv [OF inv now, of clock, folded expired_def] .
  have "set expired \<subseteq> set (tq_timers q)"
    by (auto simp: expired_def due_def)
  then have "\<forall>e \<in> set expired. \<exists>t. tq_heap q (snd e) = Some t \<and>
      (if tm_repeat t \<and> (\<forall>x \<in> set expired. CancelTimer (snd e) (tm_sequence t) \<notin> set (script (snd x)))
       then \<exists>w. addTime now (tm_interval t) = Some w \<and> (w, snd e) \<in> set (tq_timers q')
           \<and> tq_heap q' (snd e) = Some (t\<lparr>tm_expiration := w\<rparr>)
       else tq_heap q' (snd e) = None)"
    using due_timer_after [OF inv now(1)] h(3,4) by blast
  moreover have "sorted expired"
    using sorted_filter [of "\<lambda>x. x" "tq_timers q"] tq_invD(1) [OF inv] by (simp add: expired_def due_def)
  moreover have "expired = filter (\<lambda>e. fst e \<le> now) (tq_timers q)"
    by (simp add: expired_def due_def)
  ultimately show ?thesis
    using h(1) by blast
qed

text \<open>Witness: two timers are due, the second one repeats every second.\<close>

theorem timer_due_run_witness:
  "\<exists>q q'. tq_run [OpEvent (NewTimer 16 ''a'' 1000 0), OpEvent (InsertTimer 16 500),
       OpEvent (NewTimer 32 ''b'' 900 4607182418800017408), OpEvent (InsertTimer 32 500)] tq_init = Some q
     \<and> tq_timers q = [(900, 32), (1000, 16)]
     \<and> handleInLoop 1000 (\<lambda>a. []) 1010 q = Some ([''b'', ''a''], q')"
proof -
  let ?vs = "[OpEvent (NewTimer 16 ''a'' 1000 0), OpEvent (InsertTimer 16 500),
       OpEvent (NewTimer 32 ''b'' 900 4607182418800017408), OpEvent (InsertTimer 32 500)]"
  have "f64_int64 (f64_times_million 4607182418800017408) = Some 1000000"
    by (simp add: f64_int64_def f64_times_million_def f64_ratio_def f64_exp_def f64_frac_def f64_sign_def
        rat_to_f64_def top_bit.simps rne_div_def mk_f64_def in_i64_def Let_def)
  then have ok: "list_all tq_event_ok ?vs" "tq_event_ok (PollEvent 1000 (\<lambda>a. []) 1010)"
    by (simp_all add: now_ok_def interval_ok_def f64_positive_def f64_is_zero_def f64_exp_def f64_frac_def)
  obtain q where q: "tq_run ?vs tq_init = Some q" "tq_timers q = [(900, 32), (1000, 16)]"
      "tm_callback (the (tq_heap q 16)) = ''a''" "tm_callback (the (tq_heap q 32)) = ''b''"
    by (simp add: tq_init_def UINTPTR_MAX_def Timer_new_def addTimerInLoop_def tq_insert_def Let_def resetTimerfd_def)
  then show ?thesis using timer_due_run [OF ok(1) q(1) ok(2)] by auto
qed

text \<open>
  \<open>handleInLoop\<close> never reads the descriptor (\<open>readTimerfd\<close> has no caller), so only a new alarm makes
  it unreadable. When the last timers were due and none repeats, no alarm is set: the descriptor
  stays readable, and every further round of the event loop finds it readable, does nothing and leaves
  everything as it is. The loop spins instead of sleeping.
\<close>

theorem timer_idle_spin:
  assumes "list_all tq_event_ok events" "tq_run events tq_init = Some q" "tq_ready q" "now_ok now"
    "\<forall>e \<in> set (tq_timers q). fst e \<le> now \<and> \<not> tm_repeat (the (tq_heap q (snd e)))"
  shows "\<exists>q'. tq_run [PollEvent now (\<lambda>_. []) clock] q = Some q' \<and> tq_timers q' = [] \<and> tq_ready q'
    \<and> tq_run (replicate n (PollEvent later (\<lambda>_. []) clock')) q' = Some q'"
proof -
  have inv: "tq_inv [] q"
    using tq_run_inv [OF tq_inv_init assms(1)] assms(2) by auto
  from handle_all_due [OF inv assms(4,3,5), of clock] obtain cbs q' where q':
    "handleInLoop now (\<lambda>_. []) clock q = Some (cbs, q')" "tq_inv [] q'" "tq_timers q' = []" "tq_ready q'"
    "tq_calling q' = False" "tq_canceling q' = {}" .
  have "tq_run (replicate n (PollEvent later (\<lambda>_. []) clock')) q' = Some q'"
    by (induction n) (simp_all add: q'(4) handle_empty [OF q'(3,5,6,2)])
  then show ?thesis
    using q' assms(3) by simp
qed

text \<open>Witness: one timer, its alarm, and its only run.\<close>

theorem timer_idle_spin_witness:
  "\<exists>q q'. tq_run [OpEvent (NewTimer 16 ''a'' 1000 0), OpEvent (InsertTimer 16 500), AlarmEvent] tq_init = Some q
     \<and> tq_run [PollEvent 1000 (\<lambda>_. []) 1010] q = Some q' \<and> tq_timers q' = [] \<and> tq_ready q'
     \<and> tq_run (replicate 100 (PollEvent 2000 (\<lambda>_. []) 2010)) q' = Some q'"
proof -
  let ?vs = "[OpEvent (NewTimer 16 ''a'' 1000 0), OpEvent (InsertTimer 16 500), AlarmEvent]"
  have ok: "list_all tq_event_ok ?vs" "now_ok 1000"
    by (simp_all add: now_ok_def interval_ok_def f64_positive_def f64_is_zero_def f64_exp_def f64_frac_def)
  obtain q where q: "tq_run ?vs tq_init = Some q" "tq_timers q = [(1000, 16)]" "tq_ready q"
      "\<not> tm_repeat (the (tq_heap q 16))"
    by (simp add: tq_init_def UINTPTR_MAX_def Timer_new_def addTimerInLoop_def tq_insert_def Let_def resetTimerfd_def
        f64_positive_def f64_is_zero_def f64_exp_def f64_frac_def)
  then have "\<forall>e \<in> set (tq_timers q). fst e \<le> 1000 \<and> \<not> tm_repeat (the (tq_heap q (snd e)))"
    by simp
  from timer_idle_spin [OF ok(1) q(1,3) ok(2) this, of 1010 100 2000 2010] q(1) show ?thesis by blast
qed

section \<open>The event loop\<close>



text \<open>
  \<open>loop()\<close> starts by clearing \<open>_quit\<close>. A \<open>quit()\<close> that another thread completes before (as the
  destructor of \<open>EventLoopThread\<close> may, once the thread has published its loop) is lost: unless \<open>quit()\<close>
  is called again, the loop never ends, and the destructor's \<open>join()\<close> does not return.
\<close>

theorem loop_quit_lost:
  "\<exists>q s. el_steps {Quitter} (EventLoop_new :: 'f event_loop) q \<and> el_quit q \<and> el_quitting q = 0
     \<and> el_step LoopThread q s \<and> \<not> (\<exists>t. el_steps {LoopThread, Poster} s t \<and> el_pc t = Ended)"
proof -
  let ?s = "EventLoop_new :: 'f event_loop"
  let ?a = "?s\<lparr>el_quit := True, el_quitting := el_quitting ?s + 1\<rparr>"
  let ?q = "(el_wakeup ?a)\<lparr>el_quitting := el_quitting ?a - 1\<rparr>"
  let ?t = "?q\<lparr>el_looping := True, el_quit := False, el_pc := LoopTest\<rparr>"
  have "el_steps {Quitter} ?s ?a"
    by (rule el_steps_one [OF el_step.quit]) simp
  then have "el_steps {Quitter} ?s ?q"
    by (rule el_steps.step [OF _ _ el_step.quit_wake]) (simp_all add: EventLoop_new_def)
  moreover have "el_step LoopThread ?q ?t"
    by (rule el_step.enter) (simp_all add: EventLoop_new_def el_defs)
  moreover have "\<not> el_quit ?t" "el_pc ?t \<noteq> Ended"
    by simp_all
  then have "\<not> (\<exists>u. el_steps {LoopThread, Poster} ?t u \<and> el_pc u = Ended)"
    using loop_goes_on by blast
  ultimately show ?thesis
    by (intro exI [of _ ?q] exI [of _ ?t]) (simp add: el_wakeup_def EventLoop_new_def)
qed

section \<open>The poller\<close>

text \<open>
  C33: in every state that channels reach through a poller, an operation its callers may perform
  fails no assertion and no \<open>epoll_ctl\<close>; the kernel watches exactly the channels whose index says so, for
  exactly the events they asked for; and a poll hands back exactly the channels of the reported events.
\<close>

theorem poller_registration:
  assumes "po_reach p"
  shows "(po_allowed x p \<longrightarrow> (\<exists>q. po_do x p = Some q \<and> po_reach q)) \<and>
    (po_epoll p fd = Some (ev, c) \<longleftrightarrow>
       (\<exists>ch. po_objects p c = Some ch \<and> pch_fd ch = fd \<and> pch_index ch = kAdded \<and> pch_events ch = ev)) \<and>
    (po_allowed (Poll evs) p \<longrightarrow> (\<exists>q. epoll_poll evs p = Some (map snd evs, q)))"
proof (intro conjI)
  note inv = po_reach_inv [OF assms]
  show "po_allowed x p \<longrightarrow> (\<exists>q. po_do x p = Some q \<and> po_reach q)"
    using po_do_inv [OF inv] po_reach.step [OF assms] by blast
  show "po_allowed (Poll evs) p \<longrightarrow> (\<exists>q. epoll_poll evs p = Some (map snd evs, q))"
    using epoll_poll_inv [OF inv] by blast
  show "po_epoll p fd = Some (ev, c) \<longleftrightarrow>
       (\<exists>ch. po_objects p c = Some ch \<and> pch_fd ch = fd \<and> pch_index ch = kAdded \<and> pch_events ch = ev)"
  proof
    assume e: "po_epoll p fd = Some (ev, c)"
    from epoll_registered [OF inv e] obtain ch where ch: "po_objects p c = Some ch" "pch_fd ch = fd"
        "po_channels p fd = Some c" "ev = pch_events ch" by blast
    from inv ch(1) have "pch_index ch = kAdded"
      by (cases rule: po_invD) (use ch e in auto)
    then show "\<exists>ch. po_objects p c = Some ch \<and> pch_fd ch = fd \<and> pch_index ch = kAdded \<and> pch_events ch = ev"
      using ch by blast
  next
    assume "\<exists>ch. po_objects p c = Some ch \<and> pch_fd ch = fd \<and> pch_index ch = kAdded \<and> pch_events ch = ev"
    then obtain ch where ch: "po_objects p c = Some ch" "pch_fd ch = fd" "pch_index ch = kAdded" "pch_events ch = ev"
      by blast
    from inv ch(1) show "po_epoll p fd = Some (ev, c)"
      by (cases rule: po_invD) (use ch in auto)
  qed
qed

text \<open>Witness: a channel is created, read events are enabled, and the kernel reports one.\<close>

theorem poller_registration_witness:
  "\<exists>p q r. po_do (MakeChannel 1 7) EPollPoller_new = Some p \<and> po_do (SetEvents 1 3) p = Some q
     \<and> po_epoll q 7 = Some (3, 1) \<and> epoll_poll [(1, 1)] q = Some ([1], r)"
proof -
  obtain p where p: "po_do (MakeChannel 1 7) EPollPoller_new = Some p" "po_reach p"
    using poller_registration [OF po_reach.init, of "MakeChannel 1 7" 0 0 0 "[]"] by (auto simp: EPollPoller_new_def)
  have "po_allowed (SetEvents 1 3) p"
    using p(1) by (auto simp: channel_make_def set_object_def EPollPoller_new_def)
  then obtain q where q: "po_do (SetEvents 1 3) p = Some q" "po_reach q"
    using poller_registration [OF p(2), of "SetEvents 1 3"] by blast
  have e: "po_epoll q 7 = Some (3, 1)" "po_evsize q = 16"
    using p(1) q(1) by (auto simp: po_defs EPollPoller_new_def)
  then have "po_allowed (Poll [(1, 1)]) q"
    by (force simp: ran_def)
  then obtain r where "epoll_poll [(1, 1)] q = Some ([1], r)"
    using poller_registration [OF q(2), of "Poll [(1, 1)]" 0 0 0 "[(1, 1)]"] by auto
  then show ?thesis using p q e by blast
qed

section \<open>The TCP server\<close>

text \<open>
  C31: a started server with \<open>n\<close> threads fails no assertion, however its loops interleave. Every
  connection has its own name, made of the server's name, its address and the number of the
  connection, so the table holds exactly the connections that were not removed yet; the connections
  are spread over the loops in turn; and when the queues of the base loop and of its own loop are
  empty, a connection is established or destroyed, nothing in between.
\<close>

theorem server_connections:
  assumes "length ipPort \<le> 42" "length vs < 2 ^ 63 - 1"
  shows "\<exists>s t. server_start (setThreadNum n (TcpServer_new name ipPort)) = Some s \<and> server_run vs s = Some t \<and>
    (\<forall>x c. ts_connections t x = Some c \<longleftrightarrow>
       c < length (ts_conns t) \<and> x = name @ ''-'' @ ipPort @ ''#'' @ to_string (Suc c)
       \<and> cn_life (ts_conns t ! c) \<in> {Accepted, Established, Closed}) \<and>
    (\<forall>c < length (ts_conns t). cn_loop (ts_conns t ! c) = (if n = 0 then 0 else Suc (c mod n)) \<and>
       (ts_base t = [] \<and> ts_io t (cn_loop (ts_conns t ! c)) = [] \<longrightarrow>
          cn_life (ts_conns t ! c) \<in> {Established, Destroyed}))"
proof -
  obtain s where s: "server_start (setThreadNum n (TcpServer_new name ipPort)) = Some s"
      "ts_inv name ipPort n s" "ts_conns s = []"
    using server_started_inv by blast
  obtain t where t: "server_run vs s = Some t" "ts_inv name ipPort n t" "length (ts_conns t) \<le> length vs"
    using server_run_inv [OF s(2) assms(1), of vs] assms(2) s(3) by auto
  have names: "conn_name name ipPort (of_nat (Suc c)) = name @ ''-'' @ ipPort @ ''#'' @ to_string (Suc c)"
    if "c < length (ts_conns t)" for c
    using that t(3) assms by (intro conn_name_eq) simp_all
  have life: "cn_life (ts_conns t ! c) \<in> {Established, Destroyed}"
    if "c < length (ts_conns t)" "ts_base t = []" "ts_io t (home n c) = []" for c
  proof -
    have "EstablishTask c \<notin> set (ts_io t (home n c))" "DestroyTask c \<notin> set (ts_io t (home n c))" "c \<notin> set (ts_base t)"
      using that by simp_all
    then have "cn_life (ts_conns t ! c) \<noteq> Accepted" "cn_life (ts_conns t ! c) \<noteq> Removed" "cn_life (ts_conns t ! c) \<noteq> Closed"
      using t(2) that(1) unfolding ts_inv_def by blast+
    then show ?thesis by (cases "cn_life (ts_conns t ! c)") simp_all
  qed
  have "ts_connections t x = Some c \<longleftrightarrow> c < length (ts_conns t) \<and> x = name @ ''-'' @ ipPort @ ''#'' @ to_string (Suc c)
       \<and> cn_life (ts_conns t ! c) \<in> {Accepted, Established, Closed}" for x c
  proof -
    have "ts_connections t x = Some c \<longleftrightarrow> c < length (ts_conns t) \<and> x = conn_name name ipPort (of_nat (Suc c))
        \<and> in_map (cn_life (ts_conns t ! c))"
      using t(2) unfolding ts_inv_def by blast
    then show ?thesis using names [of c] by (auto simp: in_map_def)
  qed
  then show ?thesis
    using s(1) t(1) life ts_invD(1) [OF t(2)] unfolding home_def by auto
qed

text \<open>Witness: with two threads, the first of two connections closes.\<close>

theorem server_connections_witness:
  "\<exists>s t. server_start (setThreadNum 2 (TcpServer_new ''in'' ''1.2.3.4:502'')) = Some s
     \<and> server_run [AcceptEvent, IoTurn 1, AcceptEvent, CloseEvent 0, BaseTurn, IoTurn 1] s = Some t
     \<and> ts_connections t ''in-1.2.3.4:502#2'' = Some 1 \<and> map cn_life (ts_conns t) = [Destroyed, Accepted]"
proof -
  let ?vs = "[AcceptEvent, IoTurn 1, AcceptEvent, CloseEvent 0, BaseTurn, IoTurn 1]"
  have n: "''in'' @ ''-'' @ ''1.2.3.4:502'' @ ''#'' @ to_string (Suc 1) = ''in-1.2.3.4:502#2''"
    by code_simp
  from server_connections [of "''1.2.3.4:502''" ?vs 2 "''in''"] obtain s t where
    s: "server_start (setThreadNum 2 (TcpServer_new ''in'' ''1.2.3.4:502'')) = Some s" and t: "server_run ?vs s = Some t"
    and m: "\<forall>x c. ts_connections t x = Some c \<longleftrightarrow> c < length (ts_conns t) \<and>
       x = ''in'' @ ''-'' @ ''1.2.3.4:502'' @ ''#'' @ to_string (Suc c)
       \<and> cn_life (ts_conns t ! c) \<in> {Accepted, Established, Closed}"
    by auto
  have s_eq: "s = (TcpServer_new ''in'' ''1.2.3.4:502'')\<lparr>ts_started := True, ts_pool :=
      \<lparr>tp_name = ''in'', tp_started = True, tp_numThreads = 2, tp_next = 0, tp_loops = [1, 2],
       tp_threadNames = [thread_name ''in'' 0, thread_name ''in'' 1]\<rparr>\<rparr>"
    using s by (auto simp: server_start_def setThreadNum_def TcpServer_new_def EventLoopThreadPool_new_def
        pool_start_def numeral_2_eq_2)
  have l: "map cn_life (ts_conns t) = [Destroyed, Accepted]"
    using t by (auto simp: s_eq TcpServer_new_def newConnection_def getNextLoop_def queue_io_def establish_def
        set_life_def removeConnection_def removeConnectionInLoop_def Let_def split: if_splits)
  then have "length (ts_conns t) = 2" "cn_life (ts_conns t ! 1) = Accepted"
    by (auto simp: map_eq_Cons_conv)
  then have "ts_connections t ''in-1.2.3.4:502#2'' = Some 1"
    using m n by simp
  then show ?thesis
    using s t l by (intro exI [of _ s] exI [of _ t]) simp
qed

section \<open>Log lines\<close>

text \<open>
  C39: whatever is streamed into a log line, no write leaves its buffer of 4000 characters and one
  character stays free, so \<open>debugString\<close> can terminate it. The line is the concatenation of whole
  items in their order, integers in decimal with their sign and pointers in hexadecimal; an item
  is left out only when it does not fit, and none is while the items take at most 3968 characters.
\<close>

theorem log_stream_bounded:
  assumes "length junk = kSmallBuffer" "list_all log_op_ok xs"
  shows "\<exists>b kept. log_run xs (FixedBuffer_new junk) = Some b \<and> fb_cur b < kSmallBuffer \<and> debugString b \<noteq> None
    \<and> subseq kept xs \<and> fb_toString b = concat (map log_text kept)
    \<and> (length (concat (map log_text xs)) \<le> 3968 \<longrightarrow> kept = xs)"
proof -
  have b: "fb_ok (FixedBuffer_new junk)" "fb_toString (FixedBuffer_new junk) = []" "fb_cur (FixedBuffer_new junk) = 0"
    using assms(1) by (simp_all add: FixedBuffer_new_def fb_ok_def fb_toString_def kSmallBuffer_def)
  from log_run_prints [OF b(1) assms(2)] obtain b' kept where r: "log_run xs (FixedBuffer_new junk) = Some b'"
      "fb_ok b'" "subseq kept xs" "fb_toString b' = concat (map log_text kept)"
      "length (concat (map log_text xs)) + 32 \<le> kSmallBuffer \<longrightarrow> kept = xs"
    unfolding b(2,3) by auto
  then have "fb_cur b' < kSmallBuffer" "debugString b' \<noteq> None"
    by (simp_all add: fb_ok_def debugString_def wr_at_def)
  with r show ?thesis
    by (intro exI [of _ b'] exI [of _ kept]) (simp add: kSmallBuffer_def)
qed

text \<open>Witness: a text, a negative number and a flag.\<close>

theorem log_stream_bounded_witness:
  "\<exists>b. log_run [LogText (Some ''n=''), LogInt (- 42), LogBool True]
      (FixedBuffer_new (replicate kSmallBuffer (CHR ''?''))) = Some b \<and> fb_toString b = ''n=-421''"
proof -
  let ?xs = "[LogText (Some ''n=''), LogInt (- 42), LogBool True]"
  have t: "concat (map log_text ?xs) = ''n=-421''"
    by code_simp
  have l: "length (replicate kSmallBuffer (CHR ''?'')) = kSmallBuffer"
    by (rule length_replicate)
  have ok: "list_all log_op_ok ?xs" by simp
  have "length (concat (map log_text ?xs)) \<le> 3968"
    unfolding t by simp
  with log_stream_bounded [OF l ok] show ?thesis
    using t by metis
qed

end
