(* ===== verification/Http_Sessions.thy ===== *)
theory Http_Sessions
  imports Base_Strings
begin

text \<open>
  The sessions of \<open>net/http/HttpServer.cpp\<close> and \<open>net/http/HttpSession.cpp\<close>: the map of sessions, the wheel
  of buckets whose shared pointers keep a session's entry alive, and the server's mutex. The mutex is
  the default POSIX mutex of \<open>base/Mutex_POSIX.cpp\<close>, which a thread cannot lock twice: an operation
  that does never returns, which is \<open>None\<close>.
\<close>

section \<open>State\<close>

type_synonym entry_id = nat
type_synonym session_ptr = nat

record http_session =
  se_id :: bytes
  se_isNew :: bool
  se_entry :: entry_id

text \<open>
  Buckets from the front (oldest) to the back; \<open>sv_entries\<close> are the live \<open>SessionEntry\<close> objects with
  the session id each carries; \<open>sv_sessions\<close> the session objects.
\<close>

record session_server =
  sv_locked :: bool
  sv_sessions :: "session_ptr \<rightharpoonup> http_session"
  sv_map :: "bytes \<rightharpoonup> session_ptr"
  sv_entries :: "entry_id \<rightharpoonup> bytes"
  sv_buckets :: "entry_id list list"

definition session_server_new :: session_server where
  "session_server_new =
     \<lparr>sv_locked = False, sv_sessions = Map.empty, sv_map = Map.empty, sv_entries = Map.empty, sv_buckets = [[]]\<rparr>"

section \<open>Operations\<close>

definition sv_lock :: "session_server \<Rightarrow> session_server option" where
  "sv_lock s = (if sv_locked s then None else Some (s\<lparr>sv_locked := True\<rparr>))"

definition sv_unlock :: "session_server \<Rightarrow> session_server" where
  "sv_unlock s = s\<lparr>sv_locked := False\<rparr>"

text \<open>\<open>_sessionList.back().insert(entry)\<close>\<close>

definition insert_back :: "entry_id \<Rightarrow> entry_id list list \<Rightarrow> entry_id list list" where
  "insert_back e bs = butlast bs @ [List.insert e (last bs)]"

definition getSession :: "bytes \<Rightarrow> session_server \<Rightarrow> (session_ptr option \<times> session_server) option" where
  "getSession sid s = do { s \<leftarrow> sv_lock s; Some (sv_map s sid, sv_unlock s) }"

definition removeSession :: "bytes \<Rightarrow> session_server \<Rightarrow> session_server option" where
  "removeSession sid s = do { s \<leftarrow> sv_lock s; Some (sv_unlock (s\<lparr>sv_map := (sv_map s)(sid := None)\<rparr>)) }"

text \<open>The id that the constructor of \<open>HttpSession\<close> gives outside Windows: its text stays empty.\<close>

definition HttpSession_id :: bytes where
  "HttpSession_id = []"

text \<open>\<open>p\<close> and \<open>e\<close> are the addresses of the new session and of its entry.\<close>

definition addSession :: "session_ptr \<Rightarrow> entry_id \<Rightarrow> session_server \<Rightarrow> session_server option" where
  "addSession p e s = do {
     let session = \<lparr>se_id = HttpSession_id, se_isNew = True, se_entry = e\<rparr>;
     s \<leftarrow> sv_lock (s\<lparr>sv_sessions := (sv_sessions s)(p \<mapsto> session),
                      sv_entries := (sv_entries s)(e \<mapsto> se_id session)\<rparr>);
     Some (sv_unlock (s\<lparr>sv_map := (sv_map s)(se_id session \<mapsto> p), sv_buckets := insert_back e (sv_buckets s)\<rparr>))
   }"

text \<open>The session part of \<open>doMessage\<close>: the session of the request, and its entry moved to the back.\<close>

definition findSession :: "bytes \<Rightarrow> session_server \<Rightarrow> (session_ptr option \<times> session_server) option" where
  "findSession cookieid s =
     (if cookieid = [] then Some (None, s)
      else do {
        s \<leftarrow> sv_lock s;
        case sv_map s cookieid of
          None \<Rightarrow> Some (None, sv_unlock s)
        | Some p \<Rightarrow> do {
            session \<leftarrow> sv_sessions s p;
            let s = s\<lparr>sv_sessions := (sv_sessions s)(p \<mapsto> session\<lparr>se_isNew := False\<rparr>)\<rparr>;
            let s = (if sv_entries s (se_entry session) = None then s
                     else s\<lparr>sv_buckets := insert_back (se_entry session) (sv_buckets s)\<rparr>);
            Some (Some p, sv_unlock s)
          }
      })"

text \<open>
  A popped bucket releases its pointers; an entry that no other bucket holds is destroyed, and its
  destructor calls \<open>removeSession\<close>.
\<close>

fun release_entries :: "entry_id list \<Rightarrow> session_server \<Rightarrow> session_server option" where
  "release_entries [] s = Some s"
| "release_entries (e # es) s =
     (if e \<in> set (concat (sv_buckets s)) then release_entries es s
      else do {
        sid \<leftarrow> sv_entries s e;
        s \<leftarrow> removeSession sid s;
        release_entries es (s\<lparr>sv_entries := (sv_entries s)(e := None)\<rparr>)
      })"

fun pop_buckets :: "nat \<Rightarrow> session_server \<Rightarrow> session_server option" where
  "pop_buckets 0 s = Some s"
| "pop_buckets (Suc n) s = do {
     s \<leftarrow> release_entries (hd (sv_buckets s)) (s\<lparr>sv_buckets := tl (sv_buckets s)\<rparr>);
     pop_buckets n s
   }"

text \<open>\<open>while (_sessionList.size() > 10) _sessionList.pop()\<close>: as many pops as buckets beyond ten.\<close>

definition onSessionTimeOut :: "session_server \<Rightarrow> session_server option" where
  "onSessionTimeOut s = do {
     s \<leftarrow> sv_lock s;
     let s = s\<lparr>sv_buckets := sv_buckets s @ [[]]\<rparr>;
     s \<leftarrow> pop_buckets (length (sv_buckets s) - 10) s;
     Some (sv_unlock s)
   }"

text \<open>What a server with sessions does, in any order.\<close>

datatype session_op = AddSession session_ptr entry_id | FindSession bytes | RemoveSession bytes | SessionTick

fun session_do :: "session_op \<Rightarrow> session_server \<Rightarrow> session_server option" where
  "session_do (AddSession p e) s = (if sv_entries s e = None then addSession p e s else Some s)"
| "session_do (FindSession v) s = map_option snd (findSession v s)"
| "session_do (RemoveSession v) s = removeSession v s"
| "session_do SessionTick s = onSessionTimeOut s"

fun session_run :: "session_op list \<Rightarrow> session_server \<Rightarrow> session_server option" where
  "session_run [] s = Some s"
| "session_run (x # xs) s = Option.bind (session_do x s) (session_run xs)"

section \<open>Invariant\<close>

definition sv_inv :: "session_server \<Rightarrow> bool" where
  "sv_inv s \<longleftrightarrow> \<not> sv_locked s \<and> sv_buckets s \<noteq> [] \<and> length (sv_buckets s) \<le> 10
     \<and> set (concat (sv_buckets s)) = dom (sv_entries s) \<and> dom (sv_map s) \<subseteq> {[]}"

lemmas sv_defs = sv_lock_def sv_unlock_def getSession_def removeSession_def addSession_def findSession_def
  onSessionTimeOut_def HttpSession_id_def Let_def

lemma sv_inv_new: "sv_inv session_server_new"
  by (simp add: sv_inv_def session_server_new_def)

lemma concat_insert_back:
  "bs \<noteq> [] \<Longrightarrow> set (concat (insert_back e bs)) = insert e (set (concat bs))"
  by (cases bs rule: rev_cases) (auto simp: insert_back_def)

lemma length_insert_back [simp]: "bs \<noteq> [] \<Longrightarrow> length (insert_back e bs) = length bs"
  by (simp add: insert_back_def)

lemma insert_back_not_Nil [simp]: "insert_back e bs \<noteq> []"
  by (simp add: insert_back_def)

text \<open>With the mutex held, the release of a bucket returns only when nothing has to be destroyed.\<close>

lemma release_locked:
  "sv_locked s \<Longrightarrow> release_entries es s = (if set es \<subseteq> set (concat (sv_buckets s)) then Some s else None)"
  by (induction es) (auto simp: removeSession_def sv_lock_def split: option.splits bind_splits)

lemma tick_cases:
  assumes "sv_inv s"
  shows "onSessionTimeOut s =
    (if length (sv_buckets s) < 10 then Some (s\<lparr>sv_buckets := sv_buckets s @ [[]]\<rparr>)
     else if set (hd (sv_buckets s)) \<subseteq> set (concat (tl (sv_buckets s))) then Some (s\<lparr>sv_buckets := tl (sv_buckets s) @ [[]]\<rparr>)
     else None)"
proof -
  obtain b bs where b: "sv_buckets s = b # bs"
    using assms by (cases "sv_buckets s") (auto simp: sv_inv_def)
  have l: "\<not> sv_locked s" "length bs \<le> 9"
    using assms b by (auto simp: sv_inv_def)
  have same: "s\<lparr>sv_locked := True, sv_buckets := xs, sv_locked := False\<rparr> = s\<lparr>sv_buckets := xs\<rparr>" for xs
    using l(1) by (cases s) simp
  show ?thesis
  proof (cases "length bs = 9")
    case True
    then show ?thesis
      using l b same by (simp add: sv_defs release_locked numeral_eq_Suc)
  next
    case False
    then have "Suc (Suc (length bs)) - 10 = 0" using l(2) by simp
    then show ?thesis
      using l b False same by (simp add: sv_defs)
  qed
qed

lemma tick_inv:
  assumes inv: "sv_inv s" and tick: "onSessionTimeOut s = Some s'"
  shows "sv_inv s'"
proof -
  obtain b bs where b: "sv_buckets s = b # bs"
    using inv by (cases "sv_buckets s") (auto simp: sv_inv_def)
  show ?thesis
  proof (cases "length (sv_buckets s) < 10")
    case True
    then show ?thesis
      using tick_cases [OF inv] tick inv by (auto simp: sv_inv_def)
  next
    case False
    then have "set b \<subseteq> set (concat bs)" "s' = s\<lparr>sv_buckets := bs @ [[]]\<rparr>"
      using tick_cases [OF inv] tick b by (auto split: if_splits)
    then show ?thesis
      using inv b by (auto simp: sv_inv_def)
  qed
qed

lemma find_none:
  assumes "sv_inv s"
  shows "findSession v s = Some (None, s)"
proof (cases "v = []")
  case False
  then have "sv_map s v = None"
    using assms by (auto simp: sv_inv_def)
  moreover have "s\<lparr>sv_locked := True, sv_locked := False\<rparr> = s" "\<not> sv_locked s"
    using assms by (cases s; simp add: sv_inv_def)+
  ultimately show ?thesis
    using False by (simp add: sv_defs)
qed (simp add: findSession_def)

lemma add_inv:
  assumes inv: "sv_inv s" and "sv_entries s e = None"
  shows "\<exists>s'. addSession p e s = Some s' \<and> sv_inv s' \<and> sv_buckets s' = insert_back e (sv_buckets s)"
proof -
  have "sv_buckets s \<noteq> []" "\<not> sv_locked s"
    using inv by (simp_all add: sv_inv_def)
  then show ?thesis
    using inv concat_insert_back [of "sv_buckets s" e] by (auto simp: sv_defs sv_inv_def)
qed

lemma session_do_inv:
  assumes inv: "sv_inv s" and "session_do x s = Some s'"
  shows "sv_inv s'"
proof (cases x)
  case (AddSession p e)
  then show ?thesis
    using assms add_inv [OF inv, of e p] by (cases "sv_entries s e") auto
next
  case (FindSession v)
  then show ?thesis using assms find_none [OF inv, of v] by simp
next
  case (RemoveSession v)
  have l: "\<not> sv_locked s" using inv by (simp add: sv_inv_def)
  have "s' = s\<lparr>sv_map := (sv_map s)(v := None), sv_locked := False\<rparr>"
    using assms(2) RemoveSession l by (simp add: sv_defs)
  moreover have "dom ((sv_map s)(v := None)) \<subseteq> {[]}"
    using inv by (auto simp: sv_inv_def dom_fun_upd)
  ultimately show ?thesis using inv by (simp add: sv_inv_def)
next
  case SessionTick
  then show ?thesis using assms tick_inv by simp
qed

lemma session_run_inv: "session_run xs s = Some s' \<Longrightarrow> sv_inv s \<Longrightarrow> sv_inv s'"
  by (induction xs arbitrary: s) (auto simp: bind_Some_iff intro: session_do_inv)

section \<open>The age of a session\<close>

text \<open>An entry that only the bucket filled \<open>j\<close> ticks ago holds.\<close>

definition aged :: "entry_id \<Rightarrow> nat \<Rightarrow> session_server \<Rightarrow> bool" where
  "aged e j s \<longleftrightarrow> (\<exists>xs b ys. sv_buckets s = xs @ [b] @ ys \<and> length ys = j \<and> e \<in> set b \<and> e \<notin> set (concat ys))"

lemma aged_tick:
  assumes inv: "sv_inv s" and aged: "aged e j s" and tick: "onSessionTimeOut s = Some s'"
  shows "aged e (Suc j) s'"
proof -
  obtain xs b ys where b: "sv_buckets s = xs @ [b] @ ys" "length ys = j" "e \<in> set b" "e \<notin> set (concat ys)"
    using aged by (auto simp: aged_def)
  show ?thesis
  proof (cases "length (sv_buckets s) < 10")
    case True
    then have "sv_buckets s' = xs @ [b] @ (ys @ [[]])"
      using tick_cases [OF inv] tick b by auto
    then show ?thesis
      unfolding aged_def using b by (intro exI [of _ xs] exI [of _ b] exI [of _ "ys @ [[]]"]) simp
  next
    case False
    then have sub: "set (hd (sv_buckets s)) \<subseteq> set (concat (tl (sv_buckets s)))"
      and s': "sv_buckets s' = tl (sv_buckets s) @ [[]]"
      using tick_cases [OF inv] tick by (auto split: if_splits)
    have "xs \<noteq> []"
      using sub b by auto
    then have "sv_buckets s' = tl xs @ [b] @ (ys @ [[]])"
      using s' b by (cases xs) auto
    then show ?thesis
      unfolding aged_def using b by (intro exI [of _ "tl xs"] exI [of _ b] exI [of _ "ys @ [[]]"]) simp
  qed
qed

lemma aged_expires:
  assumes inv: "sv_inv s" and aged: "aged e 9 s"
  shows "onSessionTimeOut s = None"
proof -
  obtain xs b ys where b: "sv_buckets s = xs @ [b] @ ys" "length ys = 9" "e \<in> set b" "e \<notin> set (concat ys)"
    using aged by (auto simp: aged_def)
  then have "xs = []" "length (sv_buckets s) = 10"
    using inv by (auto simp: sv_inv_def)
  then show ?thesis
    using tick_cases [OF inv] b by auto
qed

lemma ticks_expire:
  assumes "sv_inv s" "aged e j s" "j \<le> 9"
  shows "session_run (replicate (10 - j) SessionTick) s = None"
  using assms
proof (induction "9 - j" arbitrary: j s)
  case 0
  then have "j = 9" by simp
  then show ?case using 0 aged_expires by simp
next
  case (Suc n)
  then have n: "n = 9 - Suc j" "Suc j \<le> 9" "10 - j = Suc (10 - Suc j)" by linarith+
  show ?case
  proof (cases "onSessionTimeOut s")
    case (Some s1)
    then have "session_run (replicate (10 - Suc j) SessionTick) s1 = None"
      using Suc.hyps(1) [OF n(1) _ _ n(2)] tick_inv [OF Suc.prems(1)] aged_tick [OF Suc.prems(1,2)] by blast
    then show ?thesis using Some by (simp only: n(3) replicate_Suc session_run.simps session_do.simps) simp
  qed (simp add: n(3))
qed

lemma added_aged:
  assumes "sv_inv s" "sv_entries s e = None" "addSession p e s = Some s'"
  shows "aged e 0 s'"
proof -
  have "sv_buckets s' = butlast (sv_buckets s) @ [List.insert e (last (sv_buckets s))] @ []"
    using add_inv [OF assms(1,2), of p] assms(3) by (auto simp: insert_back_def)
  then show ?thesis unfolding aged_def by fastforce
qed

end
