(* ===== verification/Http_Message.thy ===== *)
theory Http_Message
  imports Http_Client Http_Sessions "HOL-Library.List_Lexorder"
begin

text \<open>
  The messages of the HTTP server library: \<open>HttpRequest.cpp\<close>, \<open>Cookie.cpp\<close>, the attributes of
  \<open>HttpSession.cpp\<close>, \<open>HttpResponse.cpp\<close>, the servlet map of \<open>HttpServlet.cpp\<close>, the POSIX half of
  \<open>FileServlet.cpp\<close> and the dispatch of \<open>HttpServer.cpp\<close>. Strings are lists of bytes.
\<close>

section \<open>Cookies\<close>

type_synonym cookie = "bytes \<times> bytes"

definition cookie_toString :: "cookie \<Rightarrow> bytes" where
  "cookie_toString c =
     (if fst c = [] \<or> snd c = [] then [] else fst c @ bstr ''='' @ snd c @ bstr '';'')"

definition createSeesionCookie :: "http_session \<Rightarrow> cookie" where
  "createSeesionCookie s = (bstr ''amid'', se_id s)"

section \<open>Requests\<close>

text \<open>The lookups fold the key they are given; an empty key finds nothing.\<close>

definition norm_key :: "bytes \<Rightarrow> bytes" where
  "norm_key key = toLower (trim key)"

definition key_find :: "(bytes \<rightharpoonup> 'v) \<Rightarrow> bytes \<Rightarrow> 'v option" where
  "key_find m key = (let key = norm_key key in if key = [] then None else m key)"

record 'v http_request =
  rq_method :: bytes
  rq_version :: bytes
  rq_url :: bytes
  rq_body :: bytes
  rq_sessionid :: bytes
  rq_contextlength :: int
  rq_headers :: "bytes \<rightharpoonup> bytes"
  rq_params :: "bytes \<rightharpoonup> bytes"
  rq_cookis :: "cookie list"
  rq_attributes :: "bytes \<rightharpoonup> 'v"
  rq_session :: "session_ptr option"

definition getHeader :: "bytes \<Rightarrow> 'v http_request \<Rightarrow> bytes" where
  "getHeader key r = (case key_find (rq_headers r) key of None \<Rightarrow> [] | Some v \<Rightarrow> v)"

definition hasHeader :: "bytes \<Rightarrow> 'v http_request \<Rightarrow> bool" where
  "hasHeader key r \<longleftrightarrow> key_find (rq_headers r) key \<noteq> None"

definition getParam :: "bytes \<Rightarrow> 'v http_request \<Rightarrow> bytes" where
  "getParam key r = (case key_find (rq_params r) key of None \<Rightarrow> [] | Some v \<Rightarrow> v)"

definition hasParam :: "bytes \<Rightarrow> 'v http_request \<Rightarrow> bool" where
  "hasParam key r \<longleftrightarrow> key_find (rq_params r) key \<noteq> None"

fun cookie_scan :: "bytes \<Rightarrow> cookie list \<Rightarrow> cookie option" where
  "cookie_scan key [] = None"
| "cookie_scan key (c # cs) = (if key = fst c then Some c else cookie_scan key cs)"

definition getCookie :: "bytes \<Rightarrow> 'v http_request \<Rightarrow> cookie" where
  "getCookie key r =
     (let key = norm_key key
      in if key = [] then ([], []) else case cookie_scan key (rq_cookis r) of None \<Rightarrow> ([], []) | Some c \<Rightarrow> c)"

definition hasCookie :: "bytes \<Rightarrow> 'v http_request \<Rightarrow> bool" where
  "hasCookie key r \<longleftrightarrow> (let key = norm_key key in key \<noteq> [] \<and> cookie_scan key (rq_cookis r) \<noteq> None)"

text \<open>The attributes of a request and of a session: the stored key is not folded.\<close>

definition setAttribute :: "bytes \<Rightarrow> 'v \<Rightarrow> (bytes \<rightharpoonup> 'v) \<Rightarrow> (bytes \<rightharpoonup> 'v)" where
  "setAttribute key v m = m(key \<mapsto> v)"

definition getAttribute :: "bytes \<Rightarrow> (bytes \<rightharpoonup> 'v) \<Rightarrow> 'v option" where
  "getAttribute key m = key_find m key"

definition hasAttribute :: "bytes \<Rightarrow> (bytes \<rightharpoonup> 'v) \<Rightarrow> bool" where
  "hasAttribute key m \<longleftrightarrow> key_find m key \<noteq> None"

definition removeAttribute :: "bytes \<Rightarrow> (bytes \<rightharpoonup> 'v) \<Rightarrow> (bytes \<rightharpoonup> 'v)" where
  "removeAttribute key m = (let key = norm_key key in if key = [] then m else m(key := None))"

text \<open>\<open>getSession(bool)\<close>: its argument is not looked at.\<close>

definition request_getSession ::
    "session_ptr \<Rightarrow> entry_id \<Rightarrow> session_server \<Rightarrow> 'v http_request \<Rightarrow> ('v http_request \<times> session_server) option" where
  "request_getSession p e s r =
     (if rq_session r = None
      then map_option (\<lambda>s. (r\<lparr>rq_session := Some p, rq_sessionid := HttpSession_id\<rparr>, s)) (addSession p e s)
      else Some (r, s))"

section \<open>Responses\<close>

text \<open>\<open>_heads\<close> is a \<open>std::map\<close>: an association list in the order of its keys.\<close>

record http_response =
  rs_status :: int
  rs_heads :: "(bytes \<times> bytes) list"
  rs_body :: bytes
  rs_cookis :: "cookie list"

definition HttpResponse_new :: http_response where
  "HttpResponse_new = \<lparr>rs_status = 200, rs_heads = [], rs_body = [], rs_cookis = []\<rparr>"

fun put_head :: "bytes \<Rightarrow> bytes \<Rightarrow> (bytes \<times> bytes) list \<Rightarrow> (bytes \<times> bytes) list" where
  "put_head k v [] = [(k, v)]"
| "put_head k v (h # hs) =
     (if k = fst h then (k, v) # hs else if k < fst h then (k, v) # h # hs else h # put_head k v hs)"

definition setHeader :: "bytes \<Rightarrow> bytes \<Rightarrow> http_response \<Rightarrow> http_response" where
  "setHeader name v r = r\<lparr>rs_heads := put_head name v (rs_heads r)\<rparr>"

definition setIntHeader :: "bytes \<Rightarrow> int \<Rightarrow> http_response \<Rightarrow> http_response" where
  "setIntHeader name v r = setHeader name (bstr (take 22 (to_string_int v))) r"

definition setContentType :: "bytes \<Rightarrow> http_response \<Rightarrow> http_response" where
  "setContentType type r = setHeader (bstr ''Content-Type'') type r"

definition setContentLength :: "int \<Rightarrow> http_response \<Rightarrow> http_response" where
  "setContentLength len r = setIntHeader (bstr ''Content-Length'') len r"

definition response_reset :: "http_response \<Rightarrow> http_response" where
  "response_reset r = HttpResponse_new"

definition response_append :: "bytes \<Rightarrow> http_response \<Rightarrow> http_response" where
  "response_append b r = r\<lparr>rs_body := rs_body r @ b\<rparr>"

definition setStatus :: "int \<Rightarrow> http_response \<Rightarrow> http_response" where
  "setStatus sc r = r\<lparr>rs_status := sc\<rparr>"

definition addCookie :: "cookie \<Rightarrow> http_response \<Rightarrow> http_response" where
  "addCookie c r = r\<lparr>rs_cookis := rs_cookis r @ [c]\<rparr>"

definition reasons :: "(int \<times> string) list" where
  "reasons =
     [(100, ''Continue''), (101, ''Switching Protocols''), (200, ''OK''), (201, ''Created''),
      (202, ''Accepted''), (203, ''Non-Authoritative Information''), (204, ''No Content''),
      (205, ''Reset Content''), (206, ''Partial Content''), (300, ''Multiple Choices''),
      (301, ''Moved Permanently''), (302, ''Found''), (303, ''See Other''), (304, ''Not Modified''),
      (305, ''Use Proxy''), (307, ''Temporary Redirect''), (400, ''Bad Request''),
      (401, ''Unauthorized''), (402, ''Payment Required''), (403, ''Forbidden''), (404, ''Not Found''),
      (405, ''Method Not Allowed''), (406, ''Not Acceptable''), (407, ''Proxy Authentication Required''),
      (408, ''Request Time-out''), (409, ''Conflict''), (410, ''Gone''), (411, ''Length Required''),
      (412, ''Precondition Failed''), (413, ''Request Entity Too Large''), (414, ''Request-URI Too Large''),
      (415, ''Unsupported Media Type''), (416, ''Requested Range Not Satisfiable''),
      (417, ''Expectation Failed''), (500, ''Internal Server Error''), (501, ''Not Implemented''),
      (502, ''Bad Gateway''), (503, ''Service Unavailable''), (504, ''Gateway Time-out''),
      (505, ''HTTP Version not supported'')]"

definition getReasonForStatus :: "int \<Rightarrow> bytes" where
  "getReasonForStatus status = bstr (case map_of reasons status of None \<Rightarrow> ''???'' | Some s \<Rightarrow> s)"

definition CRLF_bytes :: bytes where
  "CRLF_bytes = [13, 10]"

text \<open>
  \<open>defaultflush\<close> on a live connection: the bytes that are sent and the response after it; \<open>session\<close> is
  the session of the request. The status is printed into an array of eight characters.
\<close>

definition defaultflush ::
    "'v http_request \<Rightarrow> http_session option \<Rightarrow> http_response \<Rightarrow> (bytes \<times> http_response) option" where
  "defaultflush rq session r = do {
     let r = (if getHeader (bstr ''connection'') rq = bstr ''keep-alive''
              then setHeader (bstr ''Connection'') (bstr ''Keep-Alive'') r else r);
     let r = setContentLength (int32_of (int (length (rs_body r)))) r;
     let status = bstr (to_string_int (rs_status r));
     (if 8 \<le> length status then None else Some ());
     let html = rq_version rq @ bstr '' '' @ status @ bstr '' '' @ getReasonForStatus (rs_status r) @ CRLF_bytes;
     let html = html @ concat (map (\<lambda>h. fst h @ bstr '':'' @ snd h @ CRLF_bytes) (rs_heads r));
     let r = (case session of None \<Rightarrow> r | Some s \<Rightarrow> addCookie (createSeesionCookie s) r);
     let html = html @ concat (map (\<lambda>c. bstr ''Set-Cookie:'' @ cookie_toString c @ CRLF_bytes) (rs_cookis r));
     Some (html @ CRLF_bytes @ rs_body r, r)
   }"

section \<open>Dispatch\<close>

text \<open>
  A handler maps a request, a fresh response and the server's sessions to what it sends and to the
  sessions after it; a servlet is its handlers of \<open>GET\<close> and \<open>POST\<close>.
\<close>

type_synonym 'v handler =
  "'v http_request \<Rightarrow> http_response \<Rightarrow> session_server \<Rightarrow> (bytes \<times> session_server) option"

type_synonym 'v servlet = "'v handler \<times> 'v handler"

datatype reply = Reply bytes | CloseConnection

definition handRequest ::
    "'v servlet \<Rightarrow> 'v http_request \<Rightarrow> http_response \<Rightarrow> session_server \<Rightarrow> (reply \<times> session_server) option" where
  "handRequest servlet rq r s =
     (if rq_method rq = bstr ''GET'' then map_option (\<lambda>(html, s). (Reply html, s)) (fst servlet rq r s)
      else if rq_method rq = bstr ''POST'' then map_option (\<lambda>(html, s). (Reply html, s)) (snd servlet rq r s)
      else Some (CloseConnection, s))"

definition servlet_insert :: "bytes \<Rightarrow> 's \<Rightarrow> (bytes \<rightharpoonup> 's) \<Rightarrow> (bytes \<rightharpoonup> 's)" where
  "servlet_insert url factory m = m(url \<mapsto> factory)"

definition response_flush :: "'v handler" where
  "response_flush rq r s =
     map_option (\<lambda>(html, r). (html, s)) (defaultflush rq (Option.bind (rq_session rq) (sv_sessions s)) r)"

subsection \<open>The file servlet\<close>

text \<open>\<open>checkPath\<close>: outside Windows, root and path keep their initial empty texts; \<open>access\<close> is the system call.\<close>

definition checkPath :: "(bytes \<Rightarrow> int \<Rightarrow> bool) \<Rightarrow> 'v http_request \<Rightarrow> bytes" where
  "checkPath access r =
     (let rootpath = []; path = []; filepath = trim (rootpath @ path)
      in if access filepath 0 \<and> access filepath 2 then filepath else [])"

text \<open>\<open>path.substr(path.find_last_of(".") + 1)\<close>: the whole path when it has no dot.\<close>

definition path_suffix :: "bytes \<Rightarrow> bytes" where
  "path_suffix path = trim (rev (takeWhile (\<lambda>b. b \<noteq> 0x2e) (rev path)))"

definition content_type :: "bytes \<Rightarrow> bytes" where
  "content_type suffix = bstr
     (if suffix = bstr ''htm'' \<or> suffix = bstr ''html'' then ''text/html; charset=utf-8''
      else if suffix = bstr ''xml'' then ''application/xml''
      else if suffix = bstr ''js'' then ''application/x-javascript; charset=utf-8''
      else if suffix = bstr ''css'' then ''text/css; charset=utf-8''
      else if suffix = bstr ''txt'' then ''text/plain; charset=utf-8''
      else if suffix = bstr ''pdf'' then ''application/pdf''
      else if suffix = bstr ''bmp'' then ''image/bmp''
      else if suffix = bstr ''gif'' then ''image/gif''
      else if suffix = bstr ''png'' \<or> suffix = bstr ''ico'' then ''image/x-png''
      else if suffix = bstr ''jpe'' \<or> suffix = bstr ''jpg'' \<or> suffix = bstr ''jpeg'' then ''image/jpeg''
      else ''application/octet-stream'')"

text \<open>The reading loop: pieces of 4096 bytes until a shorter one.\<close>

function append_pieces :: "bytes \<Rightarrow> http_response \<Rightarrow> http_response" where
  "append_pieces content r =
     (let buf = take 4096 content; r = (if buf = [] then r else response_append buf r)
      in if length buf = 4096 then append_pieces (drop 4096 content) r else r)"
  by pat_completeness auto
termination
  by (relation "measure (length \<circ> fst)") auto

declare append_pieces.simps [simp del]

text \<open>\<open>date\<close> is the text of the current time, \<open>fs\<close> the readable files.\<close>

definition sendFile :: "bytes \<Rightarrow> (bytes \<rightharpoonup> bytes) \<Rightarrow> bytes \<Rightarrow> 'v handler" where
  "sendFile date fs path rq r s = do {
     let r = setContentType (content_type (path_suffix path)) r;
     let r = setHeader (bstr ''Access-Control-Allow-Origin'') (bstr ''*'') r;
     let r = setHeader (bstr ''Elapsed'') (bstr ''0ms'') r;
     let r = setHeader (bstr ''Date'') date r;
     let r = setHeader (bstr ''Server'') (bstr ''JarvisCloud/20170822'') r;
     let r = (case fs path of None \<Rightarrow> r | Some content \<Rightarrow> append_pieces content r);
     response_flush rq r s
   }"

definition send404 :: "'v handler" where
  "send404 rq r s = response_flush rq (response_append (bstr ''Not Found'') (setStatus 404 r)) s"

definition file_get :: "(bytes \<Rightarrow> int \<Rightarrow> bool) \<Rightarrow> bytes \<Rightarrow> (bytes \<rightharpoonup> bytes) \<Rightarrow> 'v handler" where
  "file_get access date fs rq r s =
     (let path = checkPath access rq in if path = [] then send404 rq r s else sendFile date fs path rq r s)"

definition FileServlet :: "(bytes \<Rightarrow> int \<Rightarrow> bool) \<Rightarrow> bytes \<Rightarrow> (bytes \<rightharpoonup> bytes) \<Rightarrow> 'v servlet" where
  "FileServlet access date fs = (file_get access date fs, file_get access date fs)"

subsection \<open>The server\<close>

text \<open>\<open>file\<close> is the file servlet.\<close>

definition server_handleRequest ::
    "(bytes \<rightharpoonup> 'v servlet) \<Rightarrow> 'v servlet \<Rightarrow> 'v http_request \<Rightarrow> http_response \<Rightarrow> session_server \<Rightarrow>
     (reply \<times> session_server) option" where
  "server_handleRequest servlets filesv rq r s =
     (case servlets (rq_url rq) of
        Some servlet \<Rightarrow> handRequest servlet rq r s
      | None \<Rightarrow>
          let rq = (if rq_url rq = bstr ''/'' then rq\<lparr>rq_url := bstr ''/index.htm''\<rparr> else rq)
          in handRequest filesv rq r s)"

text \<open>\<open>doMessage\<close>: the connection keeps its parser until a request is complete.\<close>

datatype message_result = KeepParser "request_state http_parser" | ForceClose | Answered reply

definition request_of :: "request_state \<Rightarrow> session_ptr option \<Rightarrow> 'v http_request" where
  "request_of p session =
     \<lparr>rq_method = hp_method p, rq_version = hp_version p, rq_url = hp_url p, rq_body = hp_body p,
      rq_sessionid = (if session = None then [] else hp_sessionid p), rq_contextlength = hp_contextlength p,
      rq_headers = hp_heads p, rq_params = hp_params p, rq_cookis = hp_cookie p,
      rq_attributes = Map.empty, rq_session = session\<rparr>"

definition doMessage ::
    "(bytes \<rightharpoonup> 'v servlet) \<Rightarrow> 'v servlet \<Rightarrow> request_state http_parser option \<Rightarrow> buffer \<Rightarrow> session_server \<Rightarrow>
     (message_result \<times> buffer \<times> session_server) option" where
  "doMessage servlets filesv context buf s = do {
     let parser = (case context of None \<Rightarrow> HttpParser_new | Some p \<Rightarrow> p);
     (status, parser, buf) \<leftarrow> HttpParser_parser buf parser;
     case status of
       PARSERING \<Rightarrow> Some (KeepParser parser, buf, s)
     | PARSERERROR \<Rightarrow> Some (ForceClose, buf, s)
     | PARSERED \<Rightarrow> do {
         (session, s) \<leftarrow> findSession (hp_sessionid (user_data parser)) s;
         let rq = request_of (user_data parser) session;
         (reply, s) \<leftarrow> server_handleRequest servlets filesv rq (setStatus 200 HttpResponse_new) s;
         Some (Answered reply, buf, s)
       }
   }"

section \<open>Reading a response\<close>

text \<open>A reader of the head of a message: the lines up to the first empty one, and what follows it.\<close>

fun read_line :: "bytes \<Rightarrow> (bytes \<times> bytes) option" where
  "read_line [] = None"
| "read_line [b] = None"
| "read_line (b # c # bs) =
     (if b = 13 \<and> c = 10 then Some ([], bs) else map_option (\<lambda>(l, r). (b # l, r)) (read_line (c # bs)))"

lemma read_line_shorter: "read_line t = Some (l, r) \<Longrightarrow> length r < length t"
  by (induction t arbitrary: l rule: read_line.induct) (auto split: if_splits)

function read_head :: "bytes \<Rightarrow> (bytes list \<times> bytes) option" where
  "read_head t =
     (case read_line t of
        None \<Rightarrow> None
      | Some (l, r) \<Rightarrow> if l = [] then Some ([], r) else map_option (\<lambda>(ls, b). (l # ls, b)) (read_head r))"
  by pat_completeness auto
termination
  by (relation "measure length") (auto dest: read_line_shorter)

declare read_head.simps [simp del]

definition clean :: "bytes \<Rightarrow> bool" where
  "clean l \<longleftrightarrow> 13 \<notin> set l \<and> 10 \<notin> set l"

lemma clean_simps [simp]: "clean []" "clean (a @ b) \<longleftrightarrow> clean a \<and> clean b"
  "clean (x # a) \<longleftrightarrow> x \<noteq> 13 \<and> x \<noteq> 10 \<and> clean a"
  by (auto simp: clean_def)

lemma read_line_clean: "clean l \<Longrightarrow> read_line (l @ CRLF_bytes @ r) = Some (l, r)"
proof (induction l)
  case Nil
  show ?case by (simp add: CRLF_bytes_def)
next
  case (Cons b l)
  obtain c cs where c: "l @ CRLF_bytes @ r = c # cs"
    by (cases "l @ CRLF_bytes @ r") (simp_all add: CRLF_bytes_def)
  from Cons have "read_line (c # cs) = Some (l, r)" "b \<noteq> 13"
    by (simp_all add: c)
  then show ?case by (simp add: c)
qed

lemma read_head_lines:
  "list_all (\<lambda>l. clean l \<and> l \<noteq> []) ls \<Longrightarrow>
   read_head (concat (map (\<lambda>l. l @ CRLF_bytes) ls) @ CRLF_bytes @ body) = Some (ls, body)"
proof (induction ls)
  case Nil
  show ?case using read_line_clean [of "[]" body] by (subst read_head.simps) simp
next
  case (Cons l ls)
  then show ?case
    using read_line_clean [of l "concat (map (\<lambda>l. l @ CRLF_bytes) ls) @ CRLF_bytes @ body"]
    by (subst read_head.simps) simp
qed

text \<open>The lines that \<open>defaultflush\<close> prints.\<close>

definition response_lines :: "'v http_request \<Rightarrow> http_response \<Rightarrow> bytes list" where
  "response_lines rq r =
     (rq_version rq @ bstr '' '' @ bstr (to_string_int (rs_status r)) @ bstr '' '' @ getReasonForStatus (rs_status r))
     # map (\<lambda>h. fst h @ bstr '':'' @ snd h) (rs_heads r)
     @ map (\<lambda>c. bstr ''Set-Cookie:'' @ cookie_toString c) (rs_cookis r)"

lemma set_put_head: "set (put_head k v hs) \<subseteq> insert (k, v) (set hs)" "(k, v) \<in> set (put_head k v hs)"
  by (induction hs) auto

lemma setHeader_simps [simp]:
  "rs_status (setHeader k v r) = rs_status r" "rs_body (setHeader k v r) = rs_body r"
  "rs_cookis (setHeader k v r) = rs_cookis r" "rs_heads (setHeader k v r) = put_head k v (rs_heads r)"
  by (simp_all add: setHeader_def)

definition clean_response :: "'v http_request \<Rightarrow> http_response \<Rightarrow> bool" where
  "clean_response rq r \<longleftrightarrow> clean (rq_version rq) \<and> list_all (\<lambda>h. clean (fst h) \<and> clean (snd h)) (rs_heads r)
     \<and> list_all (\<lambda>c. clean (fst c) \<and> clean (snd c)) (rs_cookis r)"

lemma number_clean: "clean (bstr (to_string_int i))"
proof -
  have d: "c \<in> set (to_string n) \<Longrightarrow> \<exists>k<10. c = digit_char k" for c n
  proof (induction n rule: to_string.induct)
    case (1 n)
    from 1 show ?case
      by (subst (asm) (2) to_string.simps) (auto split: if_splits intro: exI [of _ "n mod 10"])
  qed
  have "(of_char (digit_char k) :: u8) \<noteq> 13 \<and> (of_char (digit_char k) :: u8) \<noteq> 10" if "k < 10" for k
  proof -
    have "k = 0 \<or> k = 1 \<or> k = 2 \<or> k = 3 \<or> k = 4 \<or> k = 5 \<or> k = 6 \<or> k = 7 \<or> k = 8 \<or> k = 9"
      using that by presburger
    then show ?thesis by (elim disjE) (simp_all add: digit_char_def char_of_def)
  qed
  then have "clean (bstr (to_string n))" for n
    using d by (fastforce simp: clean_def bstr_def)
  then show ?thesis
    by (simp add: to_string_int_def bstr_def)
qed

lemma reason_clean: "clean (getReasonForStatus status)"
proof -
  have "list_all (\<lambda>p. clean (bstr (snd p))) reasons"
    by (simp add: reasons_def bstr_def)
  moreover have "map_of reasons status = Some s \<Longrightarrow> (status, s) \<in> set reasons" for s
    by (rule map_of_SomeD)
  ultimately show ?thesis
    by (force simp: getReasonForStatus_def list_all_iff bstr_def split: option.splits)
qed

lemma defaultflush_lines:
  assumes clean: "clean_response rq r" and sid: "\<And>s. session = Some s \<Longrightarrow> clean (se_id s)"
    and status: "length (to_string_int (rs_status r)) < 8"
  shows "\<exists>html r' ls. defaultflush rq session r = Some (html, r') \<and> read_head html = Some (ls, rs_body r)
    \<and> bstr ''Content-Length:'' @ bstr (take 22 (to_string_int (int32_of (int (length (rs_body r)))))) \<in> set ls"
proof -
  define n where "n = bstr (take 22 (to_string_int (int32_of (int (length (rs_body r))))))"
  define r1 where "r1 = (if getHeader (bstr ''connection'') rq = bstr ''keep-alive''
      then setHeader (bstr ''Connection'') (bstr ''Keep-Alive'') r else r)"
  define r2 where "r2 = setHeader (bstr ''Content-Length'') n r1"
  define r3 where "r3 = (case session of None \<Rightarrow> r2 | Some s \<Rightarrow> addCookie (createSeesionCookie s) r2)"
  have same: "rs_body r3 = rs_body r" "rs_status r3 = rs_status r" "rs_heads r3 = put_head (bstr ''Content-Length'') n (rs_heads r1)"
    by (simp_all add: r3_def r2_def r1_def addCookie_def split: option.splits)
  have cn: "clean n"
    using number_clean by (auto simp: n_def bstr_def clean_def dest: in_set_takeD)
  have h1: "set (rs_heads r1) \<subseteq> insert (bstr ''Connection'', bstr ''Keep-Alive'') (set (rs_heads r))"
    using set_put_head(1) by (auto simp: r1_def)
  have "clean (fst h) \<and> clean (snd h)" if h: "h \<in> set (rs_heads r3)" for h
  proof -
    consider "h = (bstr ''Content-Length'', n)" | "h = (bstr ''Connection'', bstr ''Keep-Alive'')" | "h \<in> set (rs_heads r)"
      using h h1 set_put_head(1) [of "bstr ''Content-Length''" n "rs_heads r1"] unfolding same by blast
    then show ?thesis
      using cn clean by cases (simp_all add: clean_response_def list_all_iff bstr_def)
  qed
  moreover have "clean (cookie_toString c)" if "c \<in> set (rs_cookis r3)" for c
  proof -
    have "clean (fst c) \<and> clean (snd c)"
      using that clean sid
      by (auto simp: r3_def r2_def r1_def addCookie_def createSeesionCookie_def clean_response_def list_all_iff bstr_def
          split: option.splits if_splits)
    then show ?thesis by (simp add: cookie_toString_def bstr_def)
  qed
  ultimately have lines: "list_all (\<lambda>l. clean l \<and> l \<noteq> []) (response_lines rq r3)"
    using clean number_clean [of "rs_status r"] reason_clean [of "rs_status r"]
    by (auto simp: response_lines_def list_all_iff same clean_response_def bstr_def)
  let ?html = "concat (map (\<lambda>l. l @ CRLF_bytes) (response_lines rq r3)) @ CRLF_bytes @ rs_body r"
  have cookis: "rs_cookis r2 = rs_cookis r1" "rs_heads r3 = rs_heads r2" "rs_status r1 = rs_status r" "rs_body r1 = rs_body r"
    by (simp_all add: r3_def r2_def r1_def addCookie_def split: option.splits)
  have r2: "setContentLength (int32_of (int (length (rs_body r1)))) r1 = r2"
    by (simp add: setContentLength_def setIntHeader_def r2_def n_def cookis)
  have status2: "rs_status r2 = rs_status r" "length (bstr (to_string_int (rs_status r2))) < 8"
    using status by (simp_all add: r2_def cookis bstr_def)
  have "defaultflush rq session r
      = Some (rq_version rq @ bstr '' '' @ bstr (to_string_int (rs_status r2)) @ bstr '' '' @ getReasonForStatus (rs_status r2)
          @ CRLF_bytes @ concat (map (\<lambda>h. fst h @ bstr '':'' @ snd h @ CRLF_bytes) (rs_heads r2))
          @ concat (map (\<lambda>c. bstr ''Set-Cookie:'' @ cookie_toString c @ CRLF_bytes) (rs_cookis r3))
          @ CRLF_bytes @ rs_body r3, r3)"
    using status2(2) unfolding defaultflush_def Let_def r1_def [symmetric] r2 r3_def [symmetric] by simp
  then have flush: "defaultflush rq session r = Some (?html, r3)"
    by (simp add: response_lines_def comp_def same(1,2) status2(1) cookis(2))
  have "(bstr ''Content-Length'', n) \<in> set (rs_heads r3)"
    using set_put_head(2) by (simp add: same)
  then have "bstr ''Content-Length:'' @ n \<in> set (response_lines rq r3)"
    by (force simp: response_lines_def bstr_def)
  then show ?thesis
    using flush read_head_lines [OF lines, of "rs_body r"] by (auto simp: n_def)
qed

text \<open>The file servlet: its loop appends the whole file, and outside Windows no path is found.\<close>

lemma append_pieces_all: "append_pieces content r = response_append content r"
proof (induction content r rule: append_pieces.induct)
  case (1 content r)
  show ?case
  proof (cases "length content < 4096")
    case True
    then show ?thesis by (subst append_pieces.simps) (simp add: Let_def response_append_def)
  next
    case False
    then have n: "take 4096 content \<noteq> []" "length (take 4096 content) = 4096" by auto
    have "append_pieces content r = append_pieces (drop 4096 content) (response_append (take 4096 content) r)"
      using n by (subst append_pieces.simps) (simp add: Let_def)
    also have "\<dots> = response_append (drop 4096 content) (response_append (take 4096 content) r)"
      using 1 n by simp
    finally show ?thesis
      by (simp add: response_append_def append_take_drop_id)
  qed
qed

lemma checkPath_empty: "checkPath access r = []"
proof -
  have "trim [] = []" by (simp add: trim_def)
  then show ?thesis by (simp add: checkPath_def Let_def)
qed

end
