(* ===== verification/Server_Properties.thy ===== *)
theory Server_Properties
  imports Http_Message Double_Print
begin

text \<open>
  The properties of the HTTP server library: its responses, its sessions, its attributes and its file
  servlet.
\<close>

section \<open>Responses\<close>




section \<open>Sessions\<close>

text \<open>
  \<open>onSessionTimeOut\<close> destroys expired entries while it holds the server's mutex, and the destructor
  of an entry takes that mutex again through \<open>removeSession\<close>. The mutex is not recursive, so a tick
  returns exactly when nothing expires, and once a session is created and not used again, one of the
  next ten ticks never returns: the loop thread hangs with the mutex held.
\<close>

theorem session_expiry_hangs:
  assumes "session_run history session_server_new = Some s" "sv_entries s e = None"
  shows "session_run (AddSession p e # replicate 10 SessionTick) s = None \<and>
    (onSessionTimeOut s = None \<longleftrightarrow>
       length (sv_buckets s) = 10 \<and> \<not> set (hd (sv_buckets s)) \<subseteq> set (concat (tl (sv_buckets s))))"
proof -
  have inv: "sv_inv s"
    using session_run_inv [OF assms(1) sv_inv_new] .
  obtain s1 where s1: "addSession p e s = Some s1" "sv_inv s1"
    using add_inv [OF inv assms(2), of p] by blast
  have "session_run (replicate 10 SessionTick) s1 = None"
    using ticks_expire [OF s1(2) added_aged [OF inv assms(2) s1(1)]] by simp
  then have "session_run (AddSession p e # replicate 10 SessionTick) s = None"
    using s1(1) assms(2) by (simp only: session_run.simps session_do.simps) simp
  moreover have "length (sv_buckets s) \<le> 10"
    using inv by (simp add: sv_inv_def)
  ultimately show ?thesis
    using tick_cases [OF inv] by auto
qed

text \<open>Witness: a new server.\<close>

theorem session_expiry_hangs_witness:
  "session_run (AddSession 1 2 # replicate 10 SessionTick) session_server_new = None
   \<and> onSessionTimeOut session_server_new \<noteq> None"
  using session_expiry_hangs [of "[]" session_server_new 2 1] by (simp add: session_server_new_def)

text \<open>
  Outside Windows a session is never found again. The constructor leaves its id empty, so the
  cookie of the response carries no text, and the lookup of a request skips the empty id: whatever id a
  request sends, in every state of the server, no session comes back.
\<close>

theorem session_never_found:
  assumes "session_run history session_server_new = Some s"
  shows "findSession cookieid s = Some (None, s) \<and>
    cookie_toString (createSeesionCookie \<lparr>se_id = HttpSession_id, se_isNew = True, se_entry = e\<rparr>) = []"
  using find_none [OF session_run_inv [OF assms sv_inv_new]]
  by (simp add: cookie_toString_def createSeesionCookie_def HttpSession_id_def)

text \<open>Witness: after one session was created.\<close>

theorem session_never_found_witness:
  "\<exists>s. session_run [AddSession 1 2] session_server_new = Some s \<and> sv_map s [] = Some 1
     \<and> findSession (bstr ''abc'') s = Some (None, s)"
proof -
  obtain s where s: "session_run [AddSession 1 2] session_server_new = Some s" "sv_map s [] = Some 1"
    by (simp add: session_server_new_def sv_defs)
  with session_never_found [OF s(1)] show ?thesis by blast
qed

section \<open>Attributes and files\<close>

text \<open>
  A stored attribute is found under the keys that fold to it. A key with capitals, or with blanks
  around it, is stored as it is and looked up folded, so it does not find its own value.
\<close>

lemma attribute_lookup:
  "getAttribute key' (setAttribute key v m) = (if norm_key key' = key \<and> key \<noteq> [] then Some v else getAttribute key' m)"
  by (auto simp: getAttribute_def setAttribute_def key_find_def Let_def)

lemma attribute_capital_lost:
  "getAttribute (bstr ''User'') (setAttribute (bstr ''User'') v Map.empty) = None"
proof -
  have "norm_key (bstr ''User'') \<noteq> bstr ''User''"
    by code_simp
  then show ?thesis by (simp add: attribute_lookup) (simp add: getAttribute_def key_find_def)
qed

text \<open>Outside Windows, the file servlet answers every \<open>GET\<close> with 404, whatever the file system holds.\<close>

lemma file_servlet_404:
  "servlets (rq_url rq) = None \<Longrightarrow> rq_method rq = bstr ''GET'' \<Longrightarrow>
   server_handleRequest servlets (FileServlet access date fs) rq r s = map_option (\<lambda>(html, s). (Reply html, s))
     (send404 (if rq_url rq = bstr ''/'' then rq\<lparr>rq_url := bstr ''/index.htm''\<rparr> else rq) r s)"
  by (simp add: server_handleRequest_def handRequest_def FileServlet_def file_get_def checkPath_empty Let_def)

end
