(* ===== verification/Spec2Isabelle.thy ===== *)
theory Spec2Isabelle
  imports Frame_Wire Modbus_Wire Adapter_Properties Store_Properties Http_Properties Ingest_Properties Net_Properties
    Library_Properties Server_Properties
begin

text \<open>
  A verification of the EtherDB adapter: a gateway that receives the data of industrial devices over TCP,
  Modbus TCP and HTTP, decodes it by a configuration database and writes it to an EtherDB server.

  \<^bold>\<open>The program.\<close> \<open>ConfigDB\<close> reads three SQLite tables into devices, frame specifications and endpoint groups.
  \<open>IngestServer\<close> listens on TCP ports, binds each connection to an endpoint group and turns every message
  into a chunk of the ingest queue. \<open>ParserWorker\<close>, the only consumer of that queue, keeps a stream buffer per
  endpoint, lets \<open>FrameCodec\<close> slice and decode it, collects the rows in one batch per device and moves batches
  to the write queue. \<open>EtherDBWriter\<close>, the only consumer of the write queue, stages a batch column by column and
  submits it through a prepared statement, or as \<open>INSERT\<close> text for http devices. \<open>ModbusPoller\<close> sends register-read
  requests on its own connections. \<open>HttpIngest\<close> accepts JSON objects over HTTP and enqueues their rows for the writer.
  The repository also holds the network and HTTP library the servers are built on, modelled here as well: the server
  that spreads connections over threads, the event loop, the poller, the timer queue, connections and their buffer, the
  parser \<open>http_parser.c\<close>, the request parser, and the HTTP server with its sessions and servlets; and of the base
  library the string helpers, the log stream and the password hash.

  \<^bold>\<open>Theories and sources\<close> (under \<open>src/src/\<close>).
  \<^item> \<open>Adapter_Prelude\<close>: word types, checked reads of memory, generic lemmas. \<open>C_Strings\<close>: the C library's number
    parsing and printing. \<open>Float_Bits\<close>: IEEE single and double as words, the casts between them.
  \<^item> \<open>Adapter_Config\<close> (\<open>adapter/AdapterConfig.cpp\<close>, \<open>base/ConfigParser.h\<close>): the INI file and the settings.
  \<^item> \<open>Device_Model\<close> (\<open>adapter/DeviceModel.h\<close>): field, frame, device and group descriptions.
  \<^item> \<open>Field_Decode\<close>, \<open>Stream_Slicer\<close>, \<open>Endpoint_Stream\<close>, \<open>Frame_Codec\<close>, \<open>Modbus_Codec\<close> (\<open>adapter/FrameCodec.cpp\<close>):
    \<open>decodePayload\<close>, and the two slicing loops \<open>feed\<close> and \<open>feedModbus\<close>, instances of one locale of
    stream slicers whose laws give independence of the chunks. \<open>Frame_Wire\<close> and \<open>Modbus_Wire\<close> hold the wire formats
    and the round trips.
  \<^item> \<open>Config_Load\<close>, \<open>Config_Index\<close>, \<open>Config_Total\<close> (\<open>adapter/ConfigDB.cpp\<close>): row readers, table loaders, the
    indexes and lookups; when loading succeeds. \<open>Example_Config\<close> is a concrete database.
  \<^item> \<open>Pipeline\<close> (\<open>adapter/Pipeline.h\<close>, \<open>PublishQueue.cpp\<close>), \<open>Parser_Worker\<close> (\<open>adapter/ParserWorker.cpp\<close>),
    \<open>Ingest_Server\<close> (\<open>adapter/IngestServer.cpp\<close>), \<open>EtherDB_Writer\<close> and \<open>Writer_Delivery\<close> (\<open>adapter/EtherDBWriter.cpp\<close>),
    \<open>Modbus_Poller\<close> (\<open>adapter/ModbusPoller.cpp\<close>).
  \<^item> \<open>Http_Ingest\<close> (\<open>adapter/HttpIngest.cpp\<close>): the JSON parser and the callbacks of the server for slow data; \<open>Http_Rows\<close>:
    what they make of printed objects and of divided requests. \<open>C_Double\<close>: \<open>strtod\<close> and \<open>llround\<close>;
    \<open>Double_Print\<close>: the printing of doubles in statements.
  \<^item> \<open>Http_Types\<close>, \<open>Http_Exec\<close>, \<open>Http_Invariant\<close>, \<open>Http_Safety\<close>, \<open>Http_Url\<close> (\<open>net/http/http_parser.c\<close>): the state machine
    of \<open>http_parser_execute\<close>, one definition per state, and URL parsing. \<open>Http_Client\<close> and \<open>Http_Delivery\<close>
    (\<open>net/http/HttpParser.cpp\<close>): the callbacks of the server's request parser, which interpret the callback
    interface \<open>http_callbacks\<close>. \<open>Net_Buffer\<close> (\<open>net/Buffer.h\<close>, \<open>base/ByteOrder.cpp\<close>), an interpretation of
    \<open>byte_queue\<close>; \<open>Tcp_Connection\<close> and \<open>Tcp_Delivery\<close> (\<open>net/TcpConnection.cpp\<close>, \<open>net/Channel.cpp\<close>): a connection, its
    channel and the invariant of its output; \<open>Base_Strings\<close> (\<open>base/Ascii.cpp\<close>, \<open>base/String.h\<close>).
  \<^item> \<open>Tcp_Server\<close> (\<open>net/TcpServer.cpp\<close>, \<open>net/EventLoopThreadPool.cpp\<close>): the life of connections across the loops of a
    server. \<open>Event_Loop\<close> (\<open>net/EventLoop.cpp\<close>): the loop thread and its callers as an interleaving of steps. \<open>Poller\<close>
    (\<open>net/EPollPoller.cpp\<close>): registered channels and what the kernel watches. \<open>Timer_Queue\<close> and \<open>Timer_Invariant\<close>
    (\<open>net/TimerQueue.cpp\<close>, \<open>net/Timer.cpp\<close>): timers on an explicit heap.
  \<^item> \<open>Http_Sessions\<close> and \<open>Http_Message\<close> (\<open>net/http/HttpServer.cpp\<close>, \<open>HttpRequest.cpp\<close>, \<open>HttpResponse.cpp\<close>,
    \<open>HttpSession.cpp\<close>, \<open>Cookie.cpp\<close>, \<open>HttpServlet.cpp\<close>, \<open>FileServlet.cpp\<close>): the HTTP server library.
  \<^item> \<open>Sha256\<close> and \<open>Sha256_Correct\<close> (\<open>base/Sha256.h\<close>): the streaming hash, the hash function of FIPS 180-4, and their
    agreement. \<open>Log_Stream\<close> (\<open>base/LogStream.cpp\<close>): the fixed buffer of a log line.
  \<^item> The properties C1 to C6 are below, the others in \<open>Adapter_Properties\<close>, \<open>Store_Properties\<close>, \<open>Http_Properties\<close>,
    \<open>Ingest_Properties\<close>, \<open>Net_Properties\<close>, \<open>Library_Properties\<close> and \<open>Server_Properties\<close>.

  \<^bold>\<open>How the code is modelled.\<close> Structs are records with the members of the source, enumerations are datatypes,
  integers are words of their width wherever they can wrap. A function that may fail an assertion, leave its
  memory or be undefined returns an option, and \<open>None\<close> is that failure; a reported error is a value. Pointers
  between long-lived objects are positions (a device is its address in the device list). Threads are sequences of
  events: each queue has one consumer, and the writes of the parser and of the HTTP server to the write queue are
  looked at separately, so that the state of a thread after a sequence of
  dequeued elements and timeouts is a function of that sequence; the properties quantify over all sequences.
  Loops are recursive functions with a termination proof; the loop of \<open>http_parser_execute\<close> is a \<open>while_option\<close>, and
  its termination is part of C18. No fuel is used anywhere.

  \<^bold>\<open>What is shown.\<close> C1 to C6: the codec is memory safe and total for arbitrary bytes, independent of chunk boundaries,
  and decodes well-formed frames exactly. C7: the composition of configuration, listener, parser and writer delivers
  exactly the decoded rows of every device. C8 to C12: loading, endpoint matching, flush policy and accounting. C13 to
  C17: stored values, SQL text, poller requests. C18 to C22: totality of the HTTP parser, delivery of bodies, URLs and
  the results of the request parser. C23: the network buffer is a byte queue. C24 to C27: rows and answers of the HTTP
  server for slow data, and the way of a number from JSON to SQL text. C28 and C29: a connection keeps its byte stream
  whole and shuts down behind the last byte. C30: configuration files. C31: the server keeps track of every connection
  in all interleavings of its loops. C32: no wake-up of an event loop is lost. C33: the kernel watches what the channels
  asked for. C34 and C35: the timer queue uses no deleted timer and runs exactly what is due. C36 to C38: the hash
  is that of FIPS 180-4 except for one wrong constant, and what passwords are accepted. C39: log lines stay in
  their buffer. C40: responses are framed correctly.
  Beside the numbered properties, the library proves further facts of the code, some of them defects: a pending bound and a
  stall of register-read streams (\<open>modbus_pending_bound\<close>, \<open>modbus_oversized_stalls\<close>), requests that are understood or not
  depending on where they are cut (\<open>request_division_matters\<close>), a row stored twice (\<open>http_trailing_bytes_duplicate\<close>), an
  event loop that spins after its last timer (\<open>timer_idle_spin\<close>) or misses a quit (\<open>loop_quit_lost\<close>), and sessions
  that hang the server or are never found (\<open>session_expiry_hangs\<close>, \<open>session_never_found\<close>).

  \<^bold>\<open>Outside the model.\<close> SQLite is the list of rows a statement yields; the EtherDB client is a function from submissions to
  outcomes; files, sockets, descriptors and clocks are what the system calls answer. The Windows halves of the sources,
  destructors of servers and queues, UDP, idle-connection servers, loop threads, locks, log files, calendar texts and the lock-free
  queues (FIFO lists here) are not modelled: they carry no logic of the adapter, or their behaviour is that of the operating
  system. \<open>std::sort\<close> is a stable sort (equal keys stay in table order). The vendored sqlite3, zlib
  and concurrentqueue are third-party code.
\<close>

section \<open>A configured endpoint\<close>

text \<open>
  One endpoint with a status device (frame type 1: a signed 16-bit and a 32-bit float field) and an
  event device (frame type 2, delimiter \<open>0x7E\<close>: one unsigned byte and a 4-bit signed bit field), and
  a register-read device with MBAP framing.
\<close>

definition demo_field :: "field_kind \<Rightarrow> u8 \<Rightarrow> u32 \<Rightarrow> field_desc" where
  "demo_field k sz off =
     \<lparr>fd_name = ''x'', fd_unit = [], fd_kind = k, fd_size = sz, fd_byteOffset = off, fd_bitOffset = 0,
      fd_bitLen = 0, fd_precision = 0, fd_outSize = 0, fd_bindType = 0, fd_colType = [],
      fd_asDouble = False\<rparr>"

definition demo_dev :: "nat \<Rightarrow> int \<Rightarrow> frame_spec \<Rightarrow> bool \<Rightarrow> device_desc" where
  "demo_dev a proto spec ev =
     \<lparr>dd_addr = a, dd_deviceId = ''dev'', dd_deviceName = [], dd_ip = ''10.0.0.1'', dd_devicePort = 5000,
      dd_connProto = proto, dd_localServerPort = 6000, dd_dataProtoId = 1, dd_endian = 0, dd_spec = spec,
      dd_group = Some 0, dd_isEvent = ev, dd_eventType = 0, dd_immediateFlush = \<not> ev\<rparr>"

definition demo_status :: device_desc where
  "demo_status = demo_dev 0 CONN_CUSTOM_DATA
     (frame_spec_default\<lparr>fs_frameType := 1, fs_frameLen := 6, fs_payloadMin := 6,
        fs_fields := [demo_field IntSigned 2 0, demo_field Float32 4 2]\<rparr>) False"

definition demo_event :: device_desc where
  "demo_event = demo_dev 1 CONN_CUSTOM_DATA
     (frame_spec_default\<lparr>fs_frameType := 2, fs_frameLen := 2, fs_startFlag := 0x7E, fs_endFlag := 0x7E,
        fs_payloadMin := 2,
        fs_fields := [demo_field IntUnsigned 1 0,
                      (demo_field IntSigned 1 1)\<lparr>fd_bitOffset := 2, fd_bitLen := 4\<rparr>]\<rparr>) True"

definition demo_group :: device_group where
  "demo_group = \<lparr>dg_key = ''10.0.0.1:5000'', dg_members = [demo_status, demo_event]\<rparr>"

definition demo_modbus :: device_desc where
  "demo_modbus = demo_dev 2 CONN_MODBUS
     (frame_spec_default\<lparr>fs_frameType := 9, fs_payloadMin := 4,
        fs_fields := [demo_field IntUnsigned 2 0, demo_field IntSigned 2 2]\<rparr>) False"

lemmas demo_defs = demo_group_def demo_status_def demo_event_def demo_modbus_def demo_dev_def
  demo_field_def frame_spec_default_def conn_defs

lemma demo_group_ok: "group_ok demo_group"
  by (simp add: demo_defs group_ok_def spec_ok_def field_ok_def field_width_ok_def field_bits_ok_def)

lemma demo_modbus_ok: "modbus_ok demo_modbus"
  by (simp add: demo_defs modbus_ok_def modbus_len_ok_def is_mbap_def isModbusHeaderLen_def spec_ok_def
        field_ok_def field_width_ok_def field_bits_ok_def)

section \<open>Framing\<close>

text \<open>
  C1: Slicing a custom_data stream never reads or writes out of bounds, never shifts by the width of
  the type and always terminates, whatever the bytes, the chunks and the stream state are, for every
  endpoint whose configuration is well formed; and after any chunk less than one maximal frame (64 KiB) stays
  pending, so that memory is bounded and the tail-keeping branch of the compaction is never needed.
\<close>

theorem custom_data_memory_safe:
  assumes "group_ok grp"
  shows "\<exists>st' out. feed_all grp st chunks ts = Some (st', out) \<and> (chunks \<noteq> [] \<longrightarrow> length (ds_buf st') < kMaxFrame)"
proof (cases chunks)
  case (Cons c cs)
  obtain st' out where f: "feed grp st (concat (c # cs)) ts = Some (st', out)" using feed_defined [OF assms] by blast
  then show ?thesis using feed_all_concat [OF assms, of st c cs ts] feed_pending [OF f] Cons by auto
qed simp

theorem custom_data_memory_safe_witness:
  "\<exists>st' out. feed_all demo_group device_stream_new [[1, 0, 6], [0, 9]] 0 = Some (st', out) \<and> length (ds_buf st') < kMaxFrame"
  using custom_data_memory_safe [OF demo_group_ok, of device_stream_new "[[1, 0, 6], [0, 9]]" 0] by blast

text \<open>
  C2: How the transport cuts the byte stream into chunks is invisible: two non-empty sequences of
  chunks with the same bytes give the same rows in the same order and the same stream state, counters
  and pending bytes included.
\<close>

theorem custom_data_chunk_independent:
  assumes "group_ok grp" "cs \<noteq> []" "ds \<noteq> []" "concat cs = concat ds"
  shows "feed_all grp st cs ts = feed_all grp st ds ts"
  using assms by (cases cs; cases ds) (simp_all only: feed_all_concat list.simps simp_thms)

theorem custom_data_chunk_independent_witness:
  "feed_all demo_group device_stream_new [[2, 0x7E, 2, 0, 0], [0, 200, 0x3C, 0x7E]] 7 =
   feed_all demo_group device_stream_new [[2], [0x7E, 2, 0, 0, 0, 200], [0x3C], [0x7E]] 7"
  by (rule custom_data_chunk_independent [OF demo_group_ok]) simp_all

text \<open>
  C3: A run of well-formed frames, status and event, of one or several records each, decodes to
  exactly its records in order: one row per record, stamped with the receive time and the device that
  the frame type selects; nothing is left in the stream buffer and no error counter moves.
\<close>

theorem custom_data_roundtrip:
  assumes "\<forall>w \<in> set ws. wire_frame_ok grp w" "ds_buf st = []"
  shows "\<exists>st'. feed grp st (concat (map encode_frame ws)) ts = Some (st', concat (map (frame_rows ts) ws)) \<and>
    ds_buf st' = [] \<and> ds_frames st' = ds_frames st + word_of_nat (length ws) \<and>
    ds_badFrames st' = ds_badFrames st \<and> ds_resyncs st' = ds_resyncs st \<and>
    ds_flagMiss st' = ds_flagMiss st \<and> ds_unknownType st' = ds_unknownType st"
  using feed_frames [OF assms, of ts] assms(2) by auto

definition demo_frames :: "wire_frame list" where
  "demo_frames =
     [\<lparr>wf_dev = demo_event, wf_flag = 0x7E, wf_seq0 = 1, wf_seq1 = 0, wf_records = [[200, 0x3C], [7, 0x04]]\<rparr>,
      \<lparr>wf_dev = demo_status, wf_flag = 0, wf_seq0 = 2, wf_seq1 = 0,
        wf_records = [[0xFE, 0xFF, 0, 0, 0x80, 0x3F]]\<rparr>]"

theorem custom_data_roundtrip_witness:
  "\<exists>st'. feed demo_group device_stream_new (concat (map encode_frame demo_frames)) 7 =
       Some (st', concat (map (frame_rows 7) demo_frames)) \<and>
    ds_buf st' = [] \<and> ds_frames st' = ds_frames device_stream_new + word_of_nat (length demo_frames) \<and>
    ds_badFrames st' = ds_badFrames device_stream_new \<and> ds_resyncs st' = ds_resyncs device_stream_new \<and>
    ds_flagMiss st' = ds_flagMiss device_stream_new \<and> ds_unknownType st' = ds_unknownType device_stream_new"
  by (rule custom_data_roundtrip)
     (simp_all add: demo_frames_def demo_defs wire_frame_ok_def byFrameType_def spec_ok_def field_ok_def
        field_width_ok_def field_bits_ok_def lead_flag_def trail_flag_def encode_frame_def encode_header_def
        kMaxFrame_def device_stream_new_def)



text \<open>
  C5: Register-read responses, MBAP framed or of fixed length, are decoded independently of the
  division into chunks: bytes skipped in search of the protocol identifier, pending bytes and rows
  are the same.
\<close>

theorem modbus_chunk_independent:
  assumes "modbus_ok dev" "cs \<noteq> []" "ds \<noteq> []" "concat cs = concat ds"
  shows "feedModbus_all dev st cs ts = feedModbus_all dev st ds ts"
  using assms by (cases cs; cases ds) (simp_all only: feedModbus_all_concat list.simps simp_thms)

theorem modbus_chunk_independent_witness:
  "feedModbus_all demo_modbus device_stream_new [[9, 9, 0, 1, 0], [0, 0, 7, 1, 3, 4, 0], [5, 0, 6]] 7 =
   feedModbus_all demo_modbus device_stream_new [[9, 9, 0, 1, 0, 0, 0, 7, 1, 3, 4, 0, 5, 0, 6]] 7"
  by (rule modbus_chunk_independent [OF demo_modbus_ok]) simp_all

text \<open>
  C6: A run of well-formed register-read responses gives one row per response, in order, with the
  fields read from the register data behind the configured header; the buffer is empty afterwards.
\<close>

theorem modbus_roundtrip:
  assumes "modbus_ok dev" "\<forall>m \<in> set ms. modbus_msg_ok dev m" "ds_buf st = []"
  shows "\<exists>st'. feedModbus dev st (concat ms) ts = Some (st', map (modbus_msg_row dev ts) ms) \<and>
    ds_buf st' = [] \<and> ds_frames st' = ds_frames st + word_of_nat (length ms) \<and>
    ds_resyncs st' = ds_resyncs st \<and> ds_badFrames st' = ds_badFrames st"
  using feedModbus_msgs [OF assms, of ts] assms(3) by auto

theorem modbus_roundtrip_witness:
  "\<exists>st'. feedModbus demo_modbus device_stream_new (concat [encode_mbap 0 1 [1, 3, 4, 0, 5, 0, 6]]) 7 =
       Some (st', map (modbus_msg_row demo_modbus 7) [encode_mbap 0 1 [1, 3, 4, 0, 5, 0, 6]]) \<and>
    ds_buf st' = [] \<and> ds_frames st' = ds_frames device_stream_new + word_of_nat 1 \<and>
    ds_resyncs st' = ds_resyncs device_stream_new \<and> ds_badFrames st' = ds_badFrames device_stream_new"
proof -
  have "modbus_msg_ok demo_modbus (encode_mbap 0 1 [1, 3, 4, 0, 5, 0, 6])"
    by (simp add: modbus_msg_ok_def encode_mbap_def demo_defs is_mbap_def mbap_total_def kMaxFrame_def
          numeral_2_eq_2 [symmetric])
  then show ?thesis
    using modbus_roundtrip [OF demo_modbus_ok, of "[encode_mbap 0 1 [1, 3, 4, 0, 5, 0, 6]]" device_stream_new 7]
    by (simp add: device_stream_new_def)
qed

text \<open>
  A register-read stream holds less than one maximal frame between chunks when the responses of
  its device fit a frame.
\<close>

theorem modbus_pending_bound:
  assumes "modbus_ok dev" "feedModbus dev st data ts = Some (st', out)"
  shows "length (ds_buf st') < kMaxFrame"
  by (rule feedModbus_pending [OF assms])

theorem modbus_pending_bound_witness:
  "\<exists>st' out. feedModbus demo_modbus device_stream_new [0, 1, 0, 0, 0, 7, 1] 0 = Some (st', out) \<and>
     length (ds_buf st') < kMaxFrame"
  using feedModbus_defined demo_modbus_ok modbus_pending_bound [OF demo_modbus_ok]
  by (metis modbus_ok_def)

end
